(* ===== verification/Prelude.thy ===== *)
theory Prelude
  imports Main "HOL-Library.Word"
begin

text \<open>
  What every component of the development shares: the outcome codes of
  \<^verbatim>\<open>service_core/status.h\<close>, C strings as \<^typ>\<open>string\<close> (a list of 8-bit \<^typ>\<open>char\<close>),
  character classes by code, the scanners the C code writes as index loops, a generic notion of
  reachability for the concurrent components, and the interfaces (locales) that several
  components implement: an invariant transition system, a codec and a bounded first-in
  first-out queue.

  A C pointer into a text that only moves forward is modelled by the suffix it points at, and a
  text of known length by a list: reading at the end is then a pattern match on the empty list.
\<close>

named_theorems status_simps \<open>unfolding of the outcome helpers\<close>
named_theorems scan_simps \<open>facts about forward scanners\<close>

section \<open>Outcome codes\<close>

datatype sc_status =
    SC_OK | SC_ERR_INVALID_ARGUMENT | SC_ERR_TOO_LONG | SC_ERR_NO_MEMORY | SC_ERR_NETWORK
  | SC_ERR_NOT_IMPLEMENTED | SC_ERR_UNAVAILABLE | SC_ERR_MALFORMED | SC_ERR_QUEUE_FULL
  | SC_ERR_TIMEOUT

definition sc_status_name :: "sc_status \<Rightarrow> string" where
  "sc_status_name s = (case s of
     SC_OK \<Rightarrow> ''ok''
   | SC_ERR_INVALID_ARGUMENT \<Rightarrow> ''invalid_argument''
   | SC_ERR_TOO_LONG \<Rightarrow> ''too_long''
   | SC_ERR_NO_MEMORY \<Rightarrow> ''no_memory''
   | SC_ERR_NETWORK \<Rightarrow> ''network''
   | SC_ERR_NOT_IMPLEMENTED \<Rightarrow> ''not_implemented''
   | SC_ERR_UNAVAILABLE \<Rightarrow> ''unavailable''
   | SC_ERR_MALFORMED \<Rightarrow> ''malformed''
   | SC_ERR_QUEUE_FULL \<Rightarrow> ''queue_full''
   | SC_ERR_TIMEOUT \<Rightarrow> ''timeout'')"

section \<open>Characters and C strings\<close>

type_synonym byte = "8 word"

text \<open>The code of a character: C compares characters by it.\<close>

definition code_of :: "char \<Rightarrow> nat" where
  "code_of c = of_char c"

definition in_range :: "nat \<Rightarrow> nat \<Rightarrow> char \<Rightarrow> bool" where
  "in_range lo hi c \<longleftrightarrow> lo \<le> code_of c \<and> code_of c \<le> hi"

definition is_upper :: "char \<Rightarrow> bool" where
  "is_upper c = in_range 65 90 c"

definition is_lower :: "char \<Rightarrow> bool" where
  "is_lower c = in_range 97 122 c"

definition is_digit :: "char \<Rightarrow> bool" where
  "is_digit c = in_range 48 57 c"

abbreviation NUL :: char where "NUL \<equiv> CHR 0x00"
abbreviation TAB :: char where "TAB \<equiv> CHR 0x09"
abbreviation LF :: char where "LF \<equiv> CHR 0x0A"
abbreviation CR :: char where "CR \<equiv> CHR 0x0D"
abbreviation SPACE :: char where "SPACE \<equiv> CHR 0x20"
abbreviation QUOTE :: char where "QUOTE \<equiv> CHR 0x22"
abbreviation APOS :: char where "APOS \<equiv> CHR 0x27"
abbreviation BACKSLASH :: char where "BACKSLASH \<equiv> CHR 0x5C"

text \<open>What a C function that takes a \<^verbatim>\<open>const char *\<close> sees of a buffer.\<close>

definition cstr :: "string \<Rightarrow> string" where
  "cstr s = takeWhile (\<lambda>c. c \<noteq> NUL) s"

text \<open>\<^verbatim>\<open>(char)(c - 'A' + 'a')\<close> on upper case, everything else unchanged.\<close>

definition ascii_lower :: "char \<Rightarrow> char" where
  "ascii_lower c = (if is_upper c then char_of (code_of c - 65 + 97) else c)"

fun starts_with :: "string \<Rightarrow> string \<Rightarrow> bool" where
  "starts_with [] _ = True"
| "starts_with (p # ps) [] = False"
| "starts_with (p # ps) (c # cs) = (p = c \<and> starts_with ps cs)"

text \<open>\<^verbatim>\<open>strstr(text, needle) != NULL\<close>.\<close>

fun contains :: "string \<Rightarrow> string \<Rightarrow> bool" where
  "contains needle [] = (needle = [])"
| "contains needle (c # cs) = (starts_with needle (c # cs) \<or> contains needle cs)"

lemma starts_with_append [simp]: "starts_with p (p @ s)"
  by (induction p) auto

lemma starts_with_iff: "starts_with p s \<longleftrightarrow> (\<exists>t. s = p @ t)"
  by (induction p s rule: starts_with.induct) auto

lemma code_of_less [simp]: "code_of c < 256"
proof -
  have "of_char c mod 256 = (of_char c :: nat)" by (rule of_char_mod_256)
  then show ?thesis by (metis code_of_def mod_less_divisor zero_less_numeral)
qed

lemma code_of_inject: "code_of c = code_of d \<longleftrightarrow> c = d"
  by (simp add: code_of_def of_char_eq_iff)

lemma cstr_no_nul [simp]: "NUL \<notin> set s \<Longrightarrow> cstr s = s"
  by (auto simp: cstr_def takeWhile_eq_all_conv)

section \<open>Forward scanners\<close>

text \<open>\<^verbatim>\<open>while (at < length && (c == ' ' || c == '\t')) ++at\<close>.\<close>

definition is_blank :: "char \<Rightarrow> bool" where
  "is_blank c \<longleftrightarrow> c = SPACE \<or> c = TAB"

definition rtrim :: "(char \<Rightarrow> bool) \<Rightarrow> string \<Rightarrow> string" where
  "rtrim P s = rev (dropWhile P (rev s))"

definition ltrim :: "(char \<Rightarrow> bool) \<Rightarrow> string \<Rightarrow> string" where
  "ltrim P s = dropWhile P s"

lemma length_dropWhile_le [scan_simps]: "length (dropWhile P s) \<le> length s"
  by (rule length_dropWhile_le)

lemma dropWhile_id [scan_simps]: "s = [] \<or> \<not> P (hd s) \<Longrightarrow> dropWhile P s = s"
  by (cases s) auto

text \<open>Scanning for a separator that the text before it does not have.\<close>

lemma until_append [simp]:
  "x \<notin> set xs \<Longrightarrow> takeWhile (\<lambda>c. c \<noteq> x) (xs @ x # ys) = xs"
  "x \<notin> set xs \<Longrightarrow> dropWhile (\<lambda>c. c \<noteq> x) (xs @ x # ys) = x # ys"
  by (induction xs) auto

lemma rtrim_id: "s = [] \<or> \<not> P (last s) \<Longrightarrow> rtrim P s = s"
  by (cases s rule: rev_cases) (auto simp: rtrim_def)

lemma rtrim_last: "rtrim P s \<noteq> [] \<Longrightarrow> \<not> P (last (rtrim P s))"
  unfolding rtrim_def
  by (metis hd_dropWhile last_rev rev_is_Nil_conv)

lemma rtrim_prefix: "\<exists>t. s = rtrim P s @ t \<and> (\<forall>c \<in> set t. P c)"
proof -
  have "rev s = takeWhile P (rev s) @ dropWhile P (rev s)" by simp
  then have "s = rev (dropWhile P (rev s)) @ rev (takeWhile P (rev s))"
    by (metis rev_append rev_rev_ident)
  moreover have "\<forall>c \<in> set (rev (takeWhile P (rev s))). P c"
    by (auto dest: set_takeWhileD)
  ultimately show ?thesis unfolding rtrim_def by blast
qed

section \<open>Reachability and invariants\<close>

inductive reach :: "('s \<Rightarrow> bool) \<Rightarrow> ('s \<Rightarrow> 's \<Rightarrow> bool) \<Rightarrow> 's \<Rightarrow> bool"
  for I :: "'s \<Rightarrow> bool" and R :: "'s \<Rightarrow> 's \<Rightarrow> bool" where
  reach_init: "I s \<Longrightarrow> reach I R s"
| reach_step: "reach I R s \<Longrightarrow> R s t \<Longrightarrow> reach I R t"

text \<open>
  The contract of a component that runs as a step relation: what holds at the start and is
  kept by every step holds in every state the component can be in.
\<close>

locale invariant_system =
  fixes init :: "'s \<Rightarrow> bool" and step :: "'s \<Rightarrow> 's \<Rightarrow> bool" and inv :: "'s \<Rightarrow> bool"
  assumes init_inv: "init s \<Longrightarrow> inv s"
    and step_inv: "inv s \<Longrightarrow> step s t \<Longrightarrow> inv t"
begin

lemma reach_inv: "reach init step s \<Longrightarrow> inv s"
  by (induction rule: reach.induct) (blast intro: init_inv step_inv)+

lemma reach_closed: "step\<^sup>*\<^sup>* s t \<Longrightarrow> inv s \<Longrightarrow> inv t"
  by (induction rule: rtranclp_induct) (auto intro: step_inv)

end

section \<open>Codecs\<close>

text \<open>
  The contract of an encoder and a partial decoder: on the values the encoder is meant for,
  decoding gives the value back.
\<close>

locale codec =
  fixes enc :: "'a \<Rightarrow> 'b" and dec :: "'b \<Rightarrow> 'a option" and ok :: "'a \<Rightarrow> bool"
  assumes dec_enc: "ok a \<Longrightarrow> dec (enc a) = Some a"
begin

lemma enc_inj: "ok a \<Longrightarrow> ok b \<Longrightarrow> enc a = enc b \<Longrightarrow> a = b"
  using dec_enc by (metis option.inject)

lemma inj_on_enc: "inj_on enc {a. ok a}"
  by (auto intro!: inj_onI dest: enc_inj)

end

section \<open>Bounded queues\<close>

text \<open>
  The contract of a bounded first-in first-out queue: \<open>items\<close> reads its contents in order,
  \<open>push\<close> refuses exactly when the queue is full, and takes any element the queue admits (an
  intrusive list does not admit an element it already holds).
\<close>

locale bounded_fifo =
  fixes push :: "'a \<Rightarrow> 'q \<Rightarrow> 'q option" and pop :: "'q \<Rightarrow> ('a \<times> 'q) option"
    and items :: "'q \<Rightarrow> 'a list" and bound :: "'q \<Rightarrow> nat" and ok :: "'q \<Rightarrow> bool"
    and admits :: "'q \<Rightarrow> 'a \<Rightarrow> bool"
  assumes push_refuses: "ok q \<Longrightarrow> push x q = None \<longleftrightarrow> bound q \<le> length (items q)"
    and push_items: "ok q \<Longrightarrow> admits q x \<Longrightarrow> push x q = Some q' \<Longrightarrow> items q' = items q @ [x]"
    and push_bound: "ok q \<Longrightarrow> push x q = Some q' \<Longrightarrow> bound q' = bound q"
    and push_ok: "ok q \<Longrightarrow> admits q x \<Longrightarrow> push x q = Some q' \<Longrightarrow> ok q'"
    and pop_empty: "ok q \<Longrightarrow> pop q = None \<longleftrightarrow> items q = []"
    and pop_items: "ok q \<Longrightarrow> pop q = Some (x, q') \<Longrightarrow> items q = x # items q'"
    and pop_bound: "ok q \<Longrightarrow> pop q = Some (x, q') \<Longrightarrow> bound q' = bound q"
    and pop_ok: "ok q \<Longrightarrow> pop q = Some (x, q') \<Longrightarrow> ok q'"
begin

lemma push_within_bound:
  assumes "ok q" and "admits q x" and "push x q = Some q'"
  shows "length (items q') \<le> bound q'"
  using assms push_refuses [of q x] push_items [of q x q'] push_bound [of q x q'] by auto

lemma pop_after_push:
  assumes "ok q" and "admits q x" and "push x q = Some q'"
  shows "\<exists>y q''. pop q' = Some (y, q'') \<and> y # items q'' = items q @ [x]"
proof -
  have "ok q'" and it: "items q' = items q @ [x]"
    using assms push_ok push_items by blast+
  then have "pop q' \<noteq> None" using pop_empty by simp
  then obtain y q'' where "pop q' = Some (y, q'')" by (cases "pop q'") auto
  with \<open>ok q'\<close> it show ?thesis using pop_items by fastforce
qed

end

section \<open>Words\<close>

lemma unat_of_nat_less: "n < 2 ^ LENGTH('a) \<Longrightarrow> unat (of_nat n :: 'a::len word) = n"
  by (simp add: unat_of_nat take_bit_nat_eq_self)

end
