(* ===== verification/HttpDefer.thy ===== *)
theory HttpDefer
  imports Prelude
begin

unbundle bit_operations_syntax

text \<open>
  The table of parked requests behind \<^verbatim>\<open>sc_http_defer\<close>
  (\<^verbatim>\<open>service-core/src/http_defer.c\<close>, \<^verbatim>\<open>http_defer.h\<close>).  A worker holds a ticket: the loop,
  the slot and the generation of the slot's occupant, packed in 64 bits.  The slot's state word
  packs the generation with the phase, and resuming is one compare-and-swap on it.

  The state words, generations and tickets are machine words; pointers are \<open>nat option\<close> with
  \<open>None\<close> for \<^verbatim>\<open>NULL\<close>.  Each operation is one step of the table: what runs on the loop's
  thread is sequential there, and \<open>sc_defer_claim\<close>, the one operation of a foreign thread, is a
  single atomic compare-and-swap.
\<close>

section \<open>Tickets and state words\<close>

type_synonym sc_http_ticket = "64 word"
type_synonym ptr = "nat option"

definition TICKET_LOOP_SHIFT :: nat where "TICKET_LOOP_SHIFT = 56"
definition TICKET_SLOT_SHIFT :: nat where "TICKET_SLOT_SHIFT = 32"
definition TICKET_SLOT_MASK :: "32 word" where "TICKET_SLOT_MASK = 0xffff"
definition TICKET_GEN_MASK :: "32 word" where "TICKET_GEN_MASK = 0x3fffffff"
definition SC_HTTP_DEFER_MAX :: nat where "SC_HTTP_DEFER_MAX = 1024"

definition SC_DEFER_FREE :: "32 word" where "SC_DEFER_FREE = 0"
definition SC_DEFER_ARMED :: "32 word" where "SC_DEFER_ARMED = 1"
definition SC_DEFER_RESUMING :: "32 word" where "SC_DEFER_RESUMING = 2"

definition ticket_of :: "8 word \<Rightarrow> int \<Rightarrow> 32 word \<Rightarrow> sc_http_ticket" where
  "ticket_of loop slot generation =
     push_bit TICKET_LOOP_SHIFT (ucast loop) OR
     push_bit TICKET_SLOT_SHIFT (ucast ((word_of_int slot :: 32 word) AND TICKET_SLOT_MASK)) OR
     ucast (generation AND TICKET_GEN_MASK)"

definition sc_defer_loop_of :: "sc_http_ticket \<Rightarrow> 8 word" where
  "sc_defer_loop_of ticket = ucast (drop_bit TICKET_LOOP_SHIFT ticket)"

definition sc_defer_index_of :: "sc_http_ticket \<Rightarrow> int" where
  "sc_defer_index_of ticket =
     sint (ucast (drop_bit TICKET_SLOT_SHIFT ticket AND ucast TICKET_SLOT_MASK) :: 32 word)"

definition sc_defer_generation_of :: "sc_http_ticket \<Rightarrow> 32 word" where
  "sc_defer_generation_of ticket = ucast (ticket AND ucast TICKET_GEN_MASK)"

definition state_of :: "32 word \<Rightarrow> 32 word \<Rightarrow> 32 word" where
  "state_of generation phase = push_bit 2 (generation AND TICKET_GEN_MASK) OR phase"

definition generation_in :: "32 word \<Rightarrow> 32 word" where
  "generation_in state = drop_bit 2 state AND TICKET_GEN_MASK"

definition phase_in :: "32 word \<Rightarrow> 32 word" where
  "phase_in state = state AND 3"

section \<open>The table\<close>

record sc_defer_slot =
  req :: ptr
  work :: ptr
  arena :: ptr
  next_free :: int
  state :: "32 word"

record sc_defer_table =
  slots :: "sc_defer_slot list"
  free_head :: int
  loop_index :: "8 word"

definition sc_defer_table_init :: "8 word \<Rightarrow> sc_defer_table" where
  "sc_defer_table_init loop = \<lparr>
     slots = map (\<lambda>i. \<lparr> req = None, work = None, arena = None,
         next_free = (if i + 1 = SC_HTTP_DEFER_MAX then -1 else int i + 1),
         state = state_of 0 SC_DEFER_FREE \<rparr>) [0..<SC_HTTP_DEFER_MAX],
     free_head = 0,
     loop_index = loop \<rparr>"

abbreviation slot_at :: "sc_defer_table \<Rightarrow> int \<Rightarrow> sc_defer_slot" where
  "slot_at t i \<equiv> slots t ! nat i"

definition put_slot :: "sc_defer_table \<Rightarrow> int \<Rightarrow> sc_defer_slot \<Rightarrow> sc_defer_table" where
  "put_slot t i s = t\<lparr>slots := (slots t)[nat i := s]\<rparr>"

text \<open>The generation the next occupant of a slot gets; zero is skipped on the wrap.\<close>

definition next_generation :: "32 word \<Rightarrow> 32 word" where
  "next_generation st =
     (let generation = generation_in st + 1
      in if generation AND TICKET_GEN_MASK = 0 then 1 else generation)"

definition sc_defer_arm ::
  "sc_defer_table \<Rightarrow> ptr \<Rightarrow> ptr \<Rightarrow> ptr \<Rightarrow> sc_defer_table \<times> sc_http_ticket" where
  "sc_defer_arm table r w a =
     (let index = free_head table in
      if index < 0 then (table, 0)
      else
        (let slot = slot_at table index;
             table1 = table\<lparr>free_head := next_free slot\<rparr>;
             generation = next_generation (state slot);
             slot1 = slot\<lparr>next_free := -1, req := r, work := w, arena := a,
                          state := state_of generation SC_DEFER_ARMED\<rparr>
         in (put_slot table1 index slot1, ticket_of (loop_index table) index generation)))"

definition sc_defer_claim :: "sc_defer_table \<Rightarrow> sc_http_ticket \<Rightarrow> sc_defer_table \<times> int option" where
  "sc_defer_claim table ticket =
     (let index = sc_defer_index_of ticket;
          generation = sc_defer_generation_of ticket in
      if ticket = 0 \<or> sc_defer_loop_of ticket \<noteq> loop_index table then (table, None)
      else if index < 0 \<or> index \<ge> int SC_HTTP_DEFER_MAX then (table, None)
      else if state (slot_at table index) \<noteq> state_of generation SC_DEFER_ARMED then (table, None)
      else (put_slot table index
              ((slot_at table index)\<lparr>state := state_of generation SC_DEFER_RESUMING\<rparr>),
            Some index))"

definition sc_defer_release ::
  "sc_defer_table \<Rightarrow> int \<Rightarrow> sc_defer_table \<times> ptr \<times> ptr \<times> ptr" where
  "sc_defer_release table slot =
     (let entry = slot_at table slot;
          entry1 = entry\<lparr>req := None, work := None, arena := None,
                         state := state_of (generation_in (state entry)) SC_DEFER_FREE,
                         next_free := free_head table\<rparr>
      in ((put_slot table slot entry1)\<lparr>free_head := slot\<rparr>, req entry, work entry, arena entry))"

definition sc_defer_forget :: "sc_defer_table \<Rightarrow> int \<Rightarrow> 32 word \<Rightarrow> sc_defer_table" where
  "sc_defer_forget table slot generation =
     (if slot < 0 \<or> slot \<ge> int SC_HTTP_DEFER_MAX then table
      else
        (let entry = slot_at table slot; st = state entry in
         if phase_in st = SC_DEFER_FREE \<or> generation_in st \<noteq> generation AND TICKET_GEN_MASK
         then table
         else put_slot table slot (entry\<lparr>req := None\<rparr>)))"

text \<open>The walk from \<open>from\<close> on, as the remaining slots with the index of the first of them.\<close>

fun resuming_from :: "int \<Rightarrow> sc_defer_slot list \<Rightarrow> int" where
  "resuming_from i [] = -1"
| "resuming_from i (s # ss) =
     (if phase_in (state s) = SC_DEFER_RESUMING then i else resuming_from (i + 1) ss)"

definition sc_defer_next_resuming :: "sc_defer_table \<Rightarrow> int \<Rightarrow> int" where
  "sc_defer_next_resuming table from =
     (let start = (if from < 0 then 0 else from)
      in resuming_from start (drop (nat start) (slots table)))"

section \<open>Runs of the table\<close>

text \<open>
  Releasing is legal for the slot of a claimed resume: both HTTP backends call it for a slot
  that a successful claim or \<open>sc_defer_next_resuming\<close> gave them.
\<close>

datatype defer_op =
    OpArm ptr ptr ptr
  | OpClaim sc_http_ticket
  | OpRelease int
  | OpForget int "32 word"

fun defer_apply :: "sc_defer_table \<Rightarrow> defer_op \<Rightarrow> sc_defer_table" where
  "defer_apply t (OpArm r w a) = fst (sc_defer_arm t r w a)"
| "defer_apply t (OpClaim tk) = fst (sc_defer_claim t tk)"
| "defer_apply t (OpRelease i) = fst (sc_defer_release t i)"
| "defer_apply t (OpForget i g) = sc_defer_forget t i g"

fun op_legal :: "sc_defer_table \<Rightarrow> defer_op \<Rightarrow> bool" where
  "op_legal t (OpRelease i) \<longleftrightarrow>
     0 \<le> i \<and> i < int SC_HTTP_DEFER_MAX \<and> phase_in (state (slot_at t i)) = SC_DEFER_RESUMING"
| "op_legal t _ \<longleftrightarrow> True"

inductive defer_step :: "sc_defer_table \<Rightarrow> sc_defer_table \<Rightarrow> bool" where
  defer_op: "op_legal t op \<Longrightarrow> defer_step t (defer_apply t op)"

definition defer_init :: "sc_defer_table \<Rightarrow> bool" where
  "defer_init t \<longleftrightarrow> t = sc_defer_table_init (loop_index t)"

text \<open>A sequence of operations; \<open>None\<close> for one that releases a slot it may not.\<close>

fun defer_run :: "sc_defer_table \<Rightarrow> defer_op list \<Rightarrow> sc_defer_table option" where
  "defer_run t [] = Some t"
| "defer_run t (x # xs) = (if op_legal t x then defer_run (defer_apply t x) xs else None)"

fun arms :: "defer_op list \<Rightarrow> nat" where
  "arms [] = 0"
| "arms (OpArm r w a # xs) = Suc (arms xs)"
| "arms (x # xs) = arms xs"

section \<open>The invariant\<close>

text \<open>The free list: the slots met by following \<open>next_free\<close> from the head.\<close>

fun free_chain :: "sc_defer_slot list \<Rightarrow> int \<Rightarrow> nat list \<Rightarrow> bool" where
  "free_chain ss h [] \<longleftrightarrow> h = -1"
| "free_chain ss h (i # is) \<longleftrightarrow> h = int i \<and> i < length ss \<and> free_chain ss (next_free (ss ! i)) is"

definition is_free :: "sc_defer_slot \<Rightarrow> bool" where
  "is_free s \<longleftrightarrow> phase_in (state s) = SC_DEFER_FREE"

definition slot_ok :: "sc_defer_slot \<Rightarrow> bool" where
  "slot_ok s \<longleftrightarrow>
     phase_in (state s) \<in> {SC_DEFER_FREE, SC_DEFER_ARMED, SC_DEFER_RESUMING} \<and>
     (phase_in (state s) \<noteq> SC_DEFER_FREE \<longrightarrow> generation_in (state s) \<noteq> 0)"

definition table_inv :: "sc_defer_table \<Rightarrow> bool" where
  "table_inv t \<longleftrightarrow>
     length (slots t) = SC_HTTP_DEFER_MAX \<and> (\<forall>s \<in> set (slots t). slot_ok s) \<and>
     (\<exists>fl. distinct fl \<and> free_chain (slots t) (free_head t) fl \<and>
           set fl = {i. i < SC_HTTP_DEFER_MAX \<and> is_free (slots t ! i)})"

section \<open>Packing and unpacking\<close>

lemmas defer_masks =
  TICKET_LOOP_SHIFT_def TICKET_SLOT_SHIFT_def TICKET_SLOT_MASK_def TICKET_GEN_MASK_def

lemmas defer_phases = SC_DEFER_FREE_def SC_DEFER_ARMED_def SC_DEFER_RESUMING_def

lemma gen_mask_eq: "TICKET_GEN_MASK = mask 30"
  by (simp add: TICKET_GEN_MASK_def mask_eq_exp_minus_1)

lemma slot_mask_eq: "TICKET_SLOT_MASK = mask 16"
  by (simp add: TICKET_SLOT_MASK_def mask_eq_exp_minus_1)

lemma phase_mask_eq: "(3 :: 32 word) = mask 2"
  by (simp add: mask_eq_exp_minus_1)

lemma generation_in_state_of:
  assumes "phase AND 3 = phase"
  shows "generation_in (state_of generation phase) = generation AND TICKET_GEN_MASK"
proof -
  have "\<not> bit phase n" if "n \<ge> 2" for n
    using that assms unfolding phase_mask_eq
    by (metis bit_and_iff bit_mask_iff not_less)
  then show ?thesis
    unfolding generation_in_def state_of_def gen_mask_eq
    by (auto intro!: bit_word_eqI simp: bit_simps)
qed

lemma phase_in_state_of:
  assumes "phase AND 3 = phase"
  shows "phase_in (state_of generation phase) = phase"
proof -
  have "push_bit 2 x AND 3 = 0" for x :: "32 word"
    unfolding phase_mask_eq by (auto intro!: bit_word_eqI simp: bit_simps)
  then show ?thesis
    using assms unfolding phase_in_def state_of_def by (simp add: bit.conj_disj_distrib2 del: push_bit_and)
qed

lemma phase_bits [simp]:
  "SC_DEFER_FREE AND 3 = SC_DEFER_FREE" "SC_DEFER_ARMED AND 3 = SC_DEFER_ARMED"
  "SC_DEFER_RESUMING AND 3 = SC_DEFER_RESUMING"
  by (simp_all add: defer_phases)

lemma phases_distinct [simp]:
  "SC_DEFER_FREE \<noteq> SC_DEFER_ARMED" "SC_DEFER_FREE \<noteq> SC_DEFER_RESUMING"
  "SC_DEFER_ARMED \<noteq> SC_DEFER_RESUMING" "SC_DEFER_ARMED \<noteq> SC_DEFER_FREE"
  "SC_DEFER_RESUMING \<noteq> SC_DEFER_FREE" "SC_DEFER_RESUMING \<noteq> SC_DEFER_ARMED"
  by (simp_all add: defer_phases)

lemmas state_word_simps = generation_in_state_of phase_in_state_of

lemma generation_of_ticket:
  "sc_defer_generation_of (ticket_of loop slot generation) = generation AND TICKET_GEN_MASK"
  unfolding sc_defer_generation_of_def ticket_of_def gen_mask_eq slot_mask_eq
  by (auto intro!: bit_word_eqI simp: bit_simps TICKET_LOOP_SHIFT_def TICKET_SLOT_SHIFT_def)

lemma loop_of_ticket: "sc_defer_loop_of (ticket_of loop slot generation) = loop"
  unfolding sc_defer_loop_of_def ticket_of_def gen_mask_eq slot_mask_eq
  by (auto intro!: bit_word_eqI simp: bit_simps TICKET_LOOP_SHIFT_def TICKET_SLOT_SHIFT_def
           dest: bit_imp_le_length)

lemma slot_bits_of_ticket:
  "ucast (drop_bit TICKET_SLOT_SHIFT (ticket_of loop slot generation) AND ucast TICKET_SLOT_MASK)
     = (word_of_int slot :: 32 word) AND TICKET_SLOT_MASK"
  unfolding ticket_of_def gen_mask_eq slot_mask_eq
  by (auto intro!: bit_word_eqI simp: bit_simps TICKET_LOOP_SHIFT_def TICKET_SLOT_SHIFT_def)

lemma index_of_ticket:
  assumes "0 \<le> slot" "slot < int SC_HTTP_DEFER_MAX"
  shows "sc_defer_index_of (ticket_of loop slot generation) = slot"
proof -
  have less: "slot < 2 ^ 16" using assms by (simp add: SC_HTTP_DEFER_MAX_def)
  have "(word_of_int slot :: 32 word) AND TICKET_SLOT_MASK = take_bit 16 (word_of_int slot)"
    by (simp add: slot_mask_eq take_bit_eq_mask)
  also have "\<dots> = word_of_int (take_bit 16 slot)"
    by (rule bit_word_eqI) (auto simp: bit_simps)
  also have "take_bit 16 slot = slot"
    using assms(1) less by (simp add: take_bit_int_eq_self)
  finally show ?thesis
    using assms less unfolding sc_defer_index_of_def slot_bits_of_ticket
    by (simp add: signed_take_bit_int_eq_self sint_sbintrunc')
qed

section \<open>Generations\<close>

abbreviation GEN_COUNT :: nat where "GEN_COUNT \<equiv> 2 ^ 30 - 1"

lemma unat_and_gen_mask: "unat (x AND TICKET_GEN_MASK) = unat x mod 2 ^ 30"
proof -
  have "unat (x AND TICKET_GEN_MASK) = take_bit 30 (unat x)"
    by (simp add: gen_mask_eq unsigned_take_bit_eq flip: take_bit_eq_mask)
  then show ?thesis by (simp add: take_bit_eq_mod)
qed

lemma generation_in_less: "unat (generation_in st) < 2 ^ 30"
  by (simp add: generation_in_def unat_and_gen_mask)

lemma generation_in_masked: "generation_in st AND TICKET_GEN_MASK = generation_in st"
  by (simp add: generation_in_def bit_eq_iff bit_simps)

lemma unat_next_generation:
  "unat (next_generation st) = unat (generation_in st) mod GEN_COUNT + 1"
proof -
  let ?g = "unat (generation_in st)"
  have g: "?g < 2 ^ 30" by (rule generation_in_less)
  have plus: "unat (generation_in st + 1) = ?g + 1"
    using g by (simp add: unat_word_ariths take_bit_eq_mod)
  have zero: "(generation_in st + 1) AND TICKET_GEN_MASK = 0 \<longleftrightarrow> (?g + 1) mod 2 ^ 30 = 0"
    by (metis plus unat_and_gen_mask unat_eq_zero)
  show ?thesis
  proof (cases "?g + 1 = 2 ^ 30")
    case True
    then have "next_generation st = 1"
      using zero by (simp add: next_generation_def Let_def)
    with True show ?thesis by simp
  next
    case False
    with g have "(?g + 1) mod 2 ^ 30 \<noteq> 0" by simp
    with zero plus have "unat (next_generation st) = ?g + 1"
      by (simp add: next_generation_def Let_def)
    with False g show ?thesis by simp
  qed
qed

lemma next_generation_bounds:
  "0 < unat (next_generation st)" "unat (next_generation st) < 2 ^ 30"
  unfolding unat_next_generation
  by (simp, metis Suc_eq_plus1 less_diff_conv mod_less_divisor one_less_numeral_iff
        one_less_power semiring_norm(76) zero_less_diff zero_less_numeral)

lemma next_generation_masked: "next_generation st AND TICKET_GEN_MASK = next_generation st"
proof (rule word_unat_eq_iff [THEN iffD2])
  show "unat (next_generation st AND TICKET_GEN_MASK) = unat (next_generation st)"
    using next_generation_bounds(2) [of st] by (simp add: unat_and_gen_mask)
qed

lemma next_generation_nonzero: "next_generation st \<noteq> 0"
  using next_generation_bounds(1) [of st] by (metis less_irrefl unat_0)

text \<open>The generation a slot has after \<open>k\<close> further occupants.\<close>

definition gen_after :: "nat \<Rightarrow> nat \<Rightarrow> nat" where
  "gen_after g k = (g - 1 + k) mod GEN_COUNT + 1"

lemma gen_after_Suc: "gen_after g k mod GEN_COUNT + 1 = gen_after g (Suc k)"
  by (simp add: gen_after_def mod_simps)

lemma gen_after_fresh:
  assumes "0 < g" "g < 2 ^ 30" "0 < k" "k < GEN_COUNT"
  shows "gen_after g k \<noteq> g"
proof
  assume "gen_after g k = g"
  then have "(g - 1 + k) mod GEN_COUNT = (g - 1) mod GEN_COUNT"
    using assms(1,2) by (simp add: gen_after_def)
  then have "k mod GEN_COUNT = 0"
    using mod_eq_dvd_iff_nat [of "g - 1" "g - 1 + k" GEN_COUNT] by (simp add: dvd_eq_mod_eq_0)
  with assms show False by simp
qed
section \<open>The invariant is kept\<close>

lemma state_decompose: "state_of (generation_in st) (phase_in st) = st"
proof (rule bit_word_eqI)
  fix n :: nat
  assume "n < LENGTH(32)"
  then show "bit (state_of (generation_in st) (phase_in st)) n = bit st n"
    unfolding state_of_def generation_in_def phase_in_def gen_mask_eq phase_mask_eq
    by (cases "n < 2") (auto simp: bit_simps dest!: leI le_Suc_ex)
qed

lemma free_chain_update:
  "i \<notin> set fl \<Longrightarrow> free_chain (ss[i := s]) h fl = free_chain ss h fl"
  by (induction fl arbitrary: h) auto

lemma free_chain_upto:
  assumes "\<And>i. i < n \<Longrightarrow> next_free (ss ! i) = (if i + 1 = n then -1 else int i + 1)"
    and "length ss = n" and "k \<le> n"
  shows "free_chain ss (if k = n then -1 else int k) [k..<n]"
  using assms(3)
proof (induction "n - k" arbitrary: k)
  case 0
  then show ?case by simp
next
  case (Suc d)
  then have "k < n" by simp
  moreover have "free_chain ss (if Suc k = n then -1 else int (Suc k)) [Suc k..<n]"
    using Suc by simp
  ultimately show ?case
    using assms(1) [of k] assms(2) by (auto simp: upt_conv_Cons split: if_splits)
qed

lemma table_inv_init: "table_inv (sc_defer_table_init loop)"
proof -
  let ?t = "sc_defer_table_init loop"
  have free: "is_free (slots ?t ! i)" if "i < SC_HTTP_DEFER_MAX" for i
    using that by (simp add: sc_defer_table_init_def is_free_def phase_in_state_of)
  have "free_chain (slots ?t) (if 0 = SC_HTTP_DEFER_MAX then -1 else int 0) [0..<SC_HTTP_DEFER_MAX]"
    by (rule free_chain_upto) (simp_all add: sc_defer_table_init_def)
  then have "free_chain (slots ?t) (free_head ?t) [0..<SC_HTTP_DEFER_MAX]"
    by (simp add: sc_defer_table_init_def SC_HTTP_DEFER_MAX_def)
  moreover have "\<forall>s \<in> set (slots ?t). slot_ok s"
    by (auto simp: sc_defer_table_init_def slot_ok_def phase_in_state_of)
  ultimately show ?thesis
    unfolding table_inv_def using free
    by (auto simp: sc_defer_table_init_def intro!: exI [of _ "[0..<SC_HTTP_DEFER_MAX]"])
qed

text \<open>Replacing a slot by one in the same phase class keeps the invariant.\<close>

lemma table_inv_put:
  assumes "table_inv t" "0 \<le> i" "i < int SC_HTTP_DEFER_MAX" "slot_ok s"
    and "is_free s \<longleftrightarrow> is_free (slot_at t i)" and "next_free s = next_free (slot_at t i)"
  shows "table_inv (put_slot t i s)"
proof -
  obtain fl where fl: "distinct fl" "free_chain (slots t) (free_head t) fl"
    "set fl = {i. i < SC_HTTP_DEFER_MAX \<and> is_free (slots t ! i)}"
    using assms(1) unfolding table_inv_def by blast
  have len: "length (slots t) = SC_HTTP_DEFER_MAX" using assms(1) unfolding table_inv_def by blast
  have links: "next_free ((slots t)[nat i := s] ! j) = next_free (slots t ! j)" for j
    using assms(6) by (cases "j = nat i"; cases "nat i < length (slots t)")
      (auto simp: list_update_beyond)
  have chain: "free_chain ((slots t)[nat i := s]) h js = free_chain (slots t) h js" for h js
    by (induction js arbitrary: h) (simp_all add: links)
  have "is_free ((slots t)[nat i := s] ! j) = is_free (slots t ! j)" for j
    using assms(5) by (cases "j = nat i"; cases "nat i < length (slots t)")
      (auto simp: list_update_beyond)
  then have "set fl = {j. j < SC_HTTP_DEFER_MAX \<and> is_free ((slots t)[nat i := s] ! j)}"
    using fl(3) by simp
  moreover have "\<forall>x \<in> set ((slots t)[nat i := s]). slot_ok x"
    using assms(1,4) set_update_subset_insert [of "slots t" "nat i" s]
    unfolding table_inv_def by blast
  ultimately show ?thesis
    unfolding table_inv_def put_slot_def using fl(1,2) chain len by auto
qed

lemma table_inv_slot:
  "table_inv t \<Longrightarrow> 0 \<le> i \<Longrightarrow> i < int SC_HTTP_DEFER_MAX \<Longrightarrow> slot_ok (slot_at t i)"
  unfolding table_inv_def by auto

lemma table_inv_claim: "table_inv t \<Longrightarrow> table_inv (fst (sc_defer_claim t tk))"
proof -
  assume inv: "table_inv t"
  let ?i = "sc_defer_index_of tk" and ?g = "sc_defer_generation_of tk"
  show ?thesis
  proof (cases "snd (sc_defer_claim t tk)")
    case None
    with inv show ?thesis by (auto simp: sc_defer_claim_def Let_def split: if_splits)
  next
    case (Some j)
    then have i: "0 \<le> ?i" "?i < int SC_HTTP_DEFER_MAX"
      and st: "state (slot_at t ?i) = state_of ?g SC_DEFER_ARMED"
      and eq: "fst (sc_defer_claim t tk) = put_slot t ?i
             ((slot_at t ?i)\<lparr>state := state_of ?g SC_DEFER_RESUMING\<rparr>)"
      by (auto simp: sc_defer_claim_def Let_def split: if_splits)
    from table_inv_slot [OF inv i] st show ?thesis
      unfolding eq
      by (intro table_inv_put [OF inv i]) (auto simp: slot_ok_def is_free_def state_word_simps)
  qed
qed

lemma table_inv_forget: "table_inv t \<Longrightarrow> table_inv (sc_defer_forget t i g)"
  using table_inv_slot [of t i]
  by (auto simp: sc_defer_forget_def Let_def is_free_def slot_ok_def intro!: table_inv_put)

text \<open>What arming does, when a slot is free: the head of the free list is taken.\<close>

lemma arm_taken:
  assumes "table_inv t" and "free_head t \<ge> 0"
  obtains i fl where "free_head t = int i" "i < SC_HTTP_DEFER_MAX" "is_free (slots t ! i)"
    "distinct (i # fl)" "free_chain (slots t) (next_free (slots t ! i)) fl"
    "set (i # fl) = {j. j < SC_HTTP_DEFER_MAX \<and> is_free (slots t ! j)}"
proof -
  obtain fl where fl: "distinct fl" "free_chain (slots t) (free_head t) fl"
    "set fl = {i. i < SC_HTTP_DEFER_MAX \<and> is_free (slots t ! i)}"
    using assms(1) unfolding table_inv_def by blast
  with assms(2) obtain i fl' where "fl = i # fl'" by (cases fl) auto
  with fl that [of i fl'] show ?thesis by auto
qed

lemma arm_refused:
  assumes "table_inv t"
  shows "free_head t < 0 \<longleftrightarrow> (\<forall>s \<in> set (slots t). \<not> is_free s)"
proof -
  obtain fl where fl: "free_chain (slots t) (free_head t) fl"
    "set fl = {i. i < SC_HTTP_DEFER_MAX \<and> is_free (slots t ! i)}"
    and len: "length (slots t) = SC_HTTP_DEFER_MAX"
    using assms unfolding table_inv_def by blast
  have "free_head t < 0 \<longleftrightarrow> fl = []" using fl(1) by (cases fl) auto
  also have "\<dots> \<longleftrightarrow> (\<forall>i < SC_HTTP_DEFER_MAX. \<not> is_free (slots t ! i))"
    using fl(2) by (metis (mono_tags, lifting) empty_Collect_eq set_empty)
  finally show ?thesis using len by (simp add: all_set_conv_all_nth)
qed

definition armed_slot :: "sc_defer_slot \<Rightarrow> ptr \<Rightarrow> ptr \<Rightarrow> ptr \<Rightarrow> sc_defer_slot" where
  "armed_slot s r w a = s\<lparr>next_free := -1, req := r, work := w, arena := a,
     state := state_of (next_generation (state s)) SC_DEFER_ARMED\<rparr>"

lemma arm_eq:
  assumes "free_head t = int i"
  shows "fst (sc_defer_arm t r w a) = t\<lparr>free_head := next_free (slots t ! i),
           slots := (slots t)[i := armed_slot (slots t ! i) r w a]\<rparr>"
    and "snd (sc_defer_arm t r w a)
           = ticket_of (loop_index t) (int i) (next_generation (state (slots t ! i)))"
  using assms by (simp_all add: sc_defer_arm_def Let_def put_slot_def armed_slot_def)

lemma armed_slot_state:
  "phase_in (state (armed_slot s r w a)) = SC_DEFER_ARMED"
  "generation_in (state (armed_slot s r w a)) = next_generation (state s)"
  by (simp_all add: armed_slot_def state_word_simps next_generation_masked)

lemma table_inv_arm: "table_inv t \<Longrightarrow> table_inv (fst (sc_defer_arm t r w a))"
proof (cases "free_head t < 0")
  case True
  then show "table_inv t \<Longrightarrow> ?thesis" by (simp add: sc_defer_arm_def)
next
  case False
  assume inv: "table_inv t"
  from False arm_taken [OF inv] obtain i fl where i: "free_head t = int i" "i < SC_HTTP_DEFER_MAX"
    and fl: "distinct (i # fl)" "free_chain (slots t) (next_free (slots t ! i)) fl"
    "set (i # fl) = {j. j < SC_HTTP_DEFER_MAX \<and> is_free (slots t ! j)}"
    by (metis not_less)
  let ?s = "armed_slot (slots t ! i) r w a"
  have len: "length (slots t) = SC_HTTP_DEFER_MAX" using inv unfolding table_inv_def by blast
  have "slot_ok ?s" by (simp add: slot_ok_def armed_slot_state next_generation_nonzero)
  then have "\<forall>x \<in> set ((slots t)[i := ?s]). slot_ok x"
    using inv set_update_subset_insert [of "slots t" i ?s] unfolding table_inv_def by blast
  moreover have "set fl = {j. j < SC_HTTP_DEFER_MAX \<and> is_free ((slots t)[i := ?s] ! j)}"
  proof -
    have "\<not> is_free ?s" by (simp add: is_free_def armed_slot_state)
    then have "is_free ((slots t)[i := ?s] ! j) \<longleftrightarrow> j \<noteq> i \<and> is_free (slots t ! j)" for j
      using i len by (cases "j = i") simp_all
    moreover have "set fl = {j. j < SC_HTTP_DEFER_MAX \<and> is_free (slots t ! j)} - {i}"
      using fl(1,3) by auto
    ultimately show ?thesis by blast
  qed
  moreover have "distinct fl" and "free_chain ((slots t)[i := ?s]) (next_free (slots t ! i)) fl"
    using fl(1,2) by (simp_all add: free_chain_update)
  ultimately show ?thesis
    using len unfolding table_inv_def arm_eq(1) [OF i(1)]
    by (intro conjI exI [of _ fl]) simp_all
qed

lemma table_inv_release:
  assumes "table_inv t" "op_legal t (OpRelease k)"
  shows "table_inv (fst (sc_defer_release t k))"
proof -
  obtain i where i: "k = int i" "i < SC_HTTP_DEFER_MAX" and ph: "\<not> is_free (slots t ! i)"
    using assms(2) by (auto simp: is_free_def dest!: zero_le_imp_eq_int)
  obtain fl where fl: "distinct fl" "free_chain (slots t) (free_head t) fl"
    "set fl = {i. i < SC_HTTP_DEFER_MAX \<and> is_free (slots t ! i)}"
    using assms(1) unfolding table_inv_def by blast
  have len: "length (slots t) = SC_HTTP_DEFER_MAX" using assms(1) unfolding table_inv_def by blast
  let ?s = "(slots t ! i)\<lparr>req := None, work := None, arena := None,
      state := state_of (generation_in (state (slots t ! i))) SC_DEFER_FREE,
      next_free := free_head t\<rparr>"
  have free: "is_free ?s" by (simp add: is_free_def state_word_simps)
  have eq: "fst (sc_defer_release t k) = t\<lparr>slots := (slots t)[i := ?s], free_head := int i\<rparr>"
    using i by (simp add: sc_defer_release_def Let_def put_slot_def)
  have "slot_ok ?s" using free by (simp add: slot_ok_def is_free_def)
  then have "\<forall>x \<in> set ((slots t)[i := ?s]). slot_ok x"
    using assms(1) set_update_subset_insert [of "slots t" i ?s] unfolding table_inv_def by blast
  moreover have "set (i # fl) = {j. j < SC_HTTP_DEFER_MAX \<and> is_free ((slots t)[i := ?s] ! j)}"
    using fl(3) i len free by (auto simp: nth_list_update)
  moreover have "distinct (i # fl)" and "free_chain ((slots t)[i := ?s]) (int i) (i # fl)"
    using fl i ph len by (auto simp: free_chain_update)
  ultimately show ?thesis
    using len unfolding table_inv_def eq by (intro conjI exI [of _ "i # fl"]) auto
qed

lemma table_inv_apply: "table_inv t \<Longrightarrow> op_legal t x \<Longrightarrow> table_inv (defer_apply t x)"
  by (cases x) (auto simp: table_inv_arm table_inv_claim table_inv_forget table_inv_release
                     simp del: op_legal.simps)

lemma table_inv_run: "table_inv t \<Longrightarrow> defer_run t xs = Some t' \<Longrightarrow> table_inv t'"
  by (induction xs arbitrary: t) (auto dest: table_inv_apply split: if_splits)

interpretation dt: invariant_system defer_init defer_step table_inv
proof
  show "table_inv t" if "defer_init t" for t
    using that table_inv_init unfolding defer_init_def by metis
  show "table_inv t'" if "table_inv t" "defer_step t t'" for t t'
    using that(2,1) by cases (simp add: table_inv_apply)
qed

section \<open>Tickets as a codec\<close>

fun ticket_enc :: "8 word \<times> int \<times> 32 word \<Rightarrow> sc_http_ticket" where
  "ticket_enc (loop, slot, generation) = ticket_of loop slot generation"

definition ticket_dec :: "sc_http_ticket \<Rightarrow> (8 word \<times> int \<times> 32 word) option" where
  "ticket_dec tk = Some (sc_defer_loop_of tk, sc_defer_index_of tk, sc_defer_generation_of tk)"

fun ticket_ok :: "8 word \<times> int \<times> 32 word \<Rightarrow> bool" where
  "ticket_ok (loop, slot, generation) \<longleftrightarrow>
     0 \<le> slot \<and> slot < int SC_HTTP_DEFER_MAX \<and> generation AND TICKET_GEN_MASK = generation"

interpretation ticket: codec ticket_enc ticket_dec ticket_ok
proof
  show "ticket_dec (ticket_enc x) = Some x" if "ticket_ok x" for x
    using that
    by (cases x) (simp add: ticket_dec_def loop_of_ticket index_of_ticket generation_of_ticket)
qed

lemma generation_of_zero: "sc_defer_generation_of 0 = 0"
  by (simp add: sc_defer_generation_of_def)

lemma ticket_nonzero:
  assumes "generation AND TICKET_GEN_MASK \<noteq> 0"
  shows "ticket_of loop slot generation \<noteq> 0"
  using assms generation_of_ticket [of loop slot generation] generation_of_zero by auto

section \<open>Arming, resuming once, delivering\<close>

lemma claim_state:
  assumes "sc_defer_claim t tk = (t', Some i)"
  shows "0 \<le> i" "i < int SC_HTTP_DEFER_MAX" "i = sc_defer_index_of tk"
    "state (slot_at t i) = state_of (sc_defer_generation_of tk) SC_DEFER_ARMED"
    "t' = put_slot t i ((slot_at t i)\<lparr>state := state_of (sc_defer_generation_of tk) SC_DEFER_RESUMING\<rparr>)"
  using assms by (auto simp: sc_defer_claim_def Let_def split: if_splits)

lemma claim_armed:
  assumes "table_inv t" "i < SC_HTTP_DEFER_MAX" "phase_in (state (slots t ! i)) = SC_DEFER_ARMED"
  shows "snd (sc_defer_claim t (ticket_of (loop_index t) (int i) (generation_in (state (slots t ! i)))))
           = Some (int i)"
proof -
  let ?g = "generation_in (state (slots t ! i))"
  have "slot_ok (slots t ! i)" using assms(1,2) unfolding table_inv_def by auto
  then have "?g \<noteq> 0" using assms(3) by (simp add: slot_ok_def)
  moreover have "state_of ?g SC_DEFER_ARMED = state (slots t ! i)"
    using state_decompose [of "state (slots t ! i)"] assms(3) by simp
  ultimately show ?thesis
    using assms(2)
    by (simp add: sc_defer_claim_def Let_def index_of_ticket loop_of_ticket generation_of_ticket
        generation_in_masked ticket_nonzero)
qed

text \<open>
  Arming: the ticket is zero exactly when every slot is taken; otherwise it names a slot
  that was free, the slot holds the request, the work and the arena, every other slot is as
  before, and resuming the ticket succeeds on that slot.
\<close>

theorem defer_arm_spec:
  assumes "table_inv t" and "sc_defer_arm t r w a = (t', tk)"
  shows "(tk = 0 \<longleftrightarrow> (\<forall>s \<in> set (slots t). \<not> is_free s)) \<and>
    (tk \<noteq> 0 \<longrightarrow> (\<exists>i < SC_HTTP_DEFER_MAX. is_free (slots t ! i) \<and>
           slots t' = (slots t)[i := armed_slot (slots t ! i) r w a] \<and>
           snd (sc_defer_claim t' tk) = Some (int i)))"
proof -
  have taken: "tk \<noteq> 0 \<and> (\<exists>i < SC_HTTP_DEFER_MAX. is_free (slots t ! i) \<and>
           slots t' = (slots t)[i := armed_slot (slots t ! i) r w a] \<and>
           snd (sc_defer_claim t' tk) = Some (int i))" if "free_head t \<ge> 0"
  proof -
    from arm_taken [OF assms(1) that] obtain i where i: "free_head t = int i"
      "i < SC_HTTP_DEFER_MAX" "is_free (slots t ! i)" by metis
    let ?s = "armed_slot (slots t ! i) r w a"
    have len: "length (slots t) = SC_HTTP_DEFER_MAX" using assms(1) unfolding table_inv_def by blast
    have t': "slots t' = (slots t)[i := ?s]" "loop_index t' = loop_index t"
      and tk: "tk = ticket_of (loop_index t) (int i) (next_generation (state (slots t ! i)))"
      using arm_eq [OF i(1), of r w a] assms(2) by auto
    have "table_inv t'" using table_inv_arm [OF assms(1), of r w a] assms(2) by simp
    from claim_armed [OF this i(2)] t' i(2) len
    have "snd (sc_defer_claim t' tk) = Some (int i)" by (simp add: tk armed_slot_state)
    moreover have "tk \<noteq> 0"
      unfolding tk by (rule ticket_nonzero) (simp add: next_generation_masked next_generation_nonzero)
    ultimately show ?thesis using i t' by blast
  qed
  have full: "tk = 0" if "free_head t < 0" using that assms(2) by (simp add: sc_defer_arm_def)
  show ?thesis
    using taken full arm_refused [OF assms(1)] by (meson not_less)
qed

theorem defer_arm_spec_witness:
  "(let (t', tk) = sc_defer_arm (sc_defer_table_init 0) (Some 7) (Some 8) None
    in tk \<noteq> 0 \<and> (\<exists>i. snd (sc_defer_claim t' tk) = Some i))"
proof -
  let ?t = "sc_defer_table_init 0"
  obtain t' tk where eq: "sc_defer_arm ?t (Some 7) (Some 8) None = (t', tk)" by fastforce
  have len: "0 < length (slots ?t)" by (simp add: sc_defer_table_init_def SC_HTTP_DEFER_MAX_def)
  then have "slots ?t ! 0 \<in> set (slots ?t) \<and> is_free (slots ?t ! 0)"
    by (simp add: nth_mem) (simp add: sc_defer_table_init_def is_free_def phase_in_state_of)
  with defer_arm_spec [OF table_inv_init eq] eq show ?thesis by auto
qed

text \<open>How one operation may change the state word of one slot.\<close>

lemma op_effect:
  assumes "table_inv t" "op_legal t x" "i < SC_HTTP_DEFER_MAX"
  defines "st \<equiv> state (slots t ! i)" and "st' \<equiv> state (slots (defer_apply t x) ! i)"
  shows "st' = st \<or> (generation_in st' = generation_in st \<and> phase_in st' \<noteq> SC_DEFER_ARMED) \<or>
         (arms [x] = 1 \<and> generation_in st' = next_generation st)"
proof (cases x)
  case (OpArm r w a)
  show ?thesis
  proof (cases "free_head t < 0")
    case True
    with OpArm show ?thesis by (simp add: st_def st'_def sc_defer_arm_def)
  next
    case False
    with arm_taken [OF assms(1)] obtain j where j: "free_head t = int j" by (metis not_less)
    have len: "length (slots t) = SC_HTTP_DEFER_MAX" using assms(1) unfolding table_inv_def by blast
    show ?thesis
      using OpArm arm_eq(1) [OF j, of r w a] assms(3) len
      by (cases "i = j") (simp_all add: st_def st'_def armed_slot_state)
  qed
next
  case (OpClaim tk)
  have len: "length (slots t) = SC_HTTP_DEFER_MAX" using assms(1) unfolding table_inv_def by blast
  have "st' = st \<or> (st = state_of (sc_defer_generation_of tk) SC_DEFER_ARMED \<and>
                    st' = state_of (sc_defer_generation_of tk) SC_DEFER_RESUMING)"
    using OpClaim assms(3) len
    by (cases "i = nat (sc_defer_index_of tk)")
       (simp_all add: st_def st'_def sc_defer_claim_def Let_def put_slot_def)
  then show ?thesis by (auto simp: state_word_simps)
next
  case (OpRelease k)
  have len: "length (slots t) = SC_HTTP_DEFER_MAX" using assms(1) unfolding table_inv_def by blast
  have "st' = st \<or> st' = state_of (generation_in st) SC_DEFER_FREE"
    using OpRelease assms(3) len
    by (cases "i = nat k") (simp_all add: st_def st'_def sc_defer_release_def Let_def put_slot_def)
  then show ?thesis by (auto simp: state_word_simps generation_in_masked)
next
  case (OpForget k g)
  have len: "length (slots t) = SC_HTTP_DEFER_MAX" using assms(1) unfolding table_inv_def by blast
  have "st' = st"
    using OpForget assms(3) len
    by (cases "i = nat k") (simp_all add: st_def st'_def sc_defer_forget_def Let_def put_slot_def)
  then show ?thesis by simp
qed

text \<open>A ticket of generation \<open>g\<close> is spent: the slot is past it, by at most \<open>k\<close> occupants.\<close>

definition spent :: "32 word \<Rightarrow> nat \<Rightarrow> 32 word \<Rightarrow> bool" where
  "spent g k st \<longleftrightarrow>
     (generation_in st = g \<and> phase_in st \<noteq> SC_DEFER_ARMED) \<or>
     (\<exists>j. 0 < j \<and> j \<le> k \<and> unat (generation_in st) = gen_after (unat g) j)"

lemma spent_next:
  assumes "spent g k st" "generation_in st' = next_generation st" "0 < unat g"
  shows "spent g (Suc k) st'"
proof -
  have *: "unat (generation_in st') = unat (generation_in st) mod GEN_COUNT + 1"
    by (simp only: assms(2) unat_next_generation)
  show ?thesis
  proof (cases "generation_in st = g")
    case True
    with * assms(3) have "unat (generation_in st') = gen_after (unat g) 1"
      by (simp add: gen_after_def)
    then show ?thesis unfolding spent_def by (intro disjI2 exI [of _ 1]) simp
  next
    case False
    with assms(1) obtain j where "0 < j" "j \<le> k" "unat (generation_in st) = gen_after (unat g) j"
      unfolding spent_def by blast
    moreover from this * have "unat (generation_in st') = gen_after (unat g) (Suc j)"
      by (simp only: gen_after_Suc)
    ultimately show ?thesis
      unfolding spent_def by (intro disjI2 exI [of _ "Suc j"]) simp
  qed
qed

lemma spent_mono: "spent g k st \<Longrightarrow> st' = st \<Longrightarrow> spent g (k + n) st'"
  unfolding spent_def by (auto intro: trans_le_add1)

lemma spent_same:
  "spent g k st \<Longrightarrow> generation_in st' = generation_in st \<Longrightarrow> phase_in st' \<noteq> SC_DEFER_ARMED
     \<Longrightarrow> spent g (k + n) st'"
  unfolding spent_def by (auto intro: trans_le_add1)

lemma ticket_generation_masked:
  "sc_defer_generation_of tk AND TICKET_GEN_MASK = sc_defer_generation_of tk"
  unfolding sc_defer_generation_of_def gen_mask_eq
  by (rule bit_word_eqI) (auto simp: bit_simps)

lemma ticket_generation_less: "unat (sc_defer_generation_of tk) < 2 ^ 30"
  using unat_and_gen_mask [of "sc_defer_generation_of tk"]
  by (simp add: ticket_generation_masked)

lemma spent_run:
  assumes "table_inv t" "defer_run t xs = Some t'" "i < SC_HTTP_DEFER_MAX" "0 < unat g"
    and "spent g k (state (slots t ! i))"
  shows "spent g (k + arms xs) (state (slots t' ! i))"
  using assms(1,2,5)
proof (induction xs arbitrary: t k)
  case Nil
  then show ?case by simp
next
  case (Cons x xs)
  from Cons.prems(2) have legal: "op_legal t x" and run: "defer_run (defer_apply t x) xs = Some t'"
    by (auto split: if_splits)
  have count: "arms (x # xs) = arms [x] + arms xs" by (cases x) auto
  have "spent g (k + arms [x]) (state (slots (defer_apply t x) ! i))"
    using op_effect [OF Cons.prems(1) legal assms(3)]
  proof (elim disjE conjE)
    assume "arms [x] = 1" "generation_in (state (slots (defer_apply t x) ! i))
      = next_generation (state (slots t ! i))"
    then show ?thesis using spent_next [OF Cons.prems(3) _ assms(4)] by simp
  qed (use Cons.prems(3) in \<open>auto intro: spent_mono spent_same\<close>)
  from Cons.IH [OF table_inv_apply [OF Cons.prems(1) legal] run this] show ?case
    by (simp add: count add.assoc)
qed

lemma spent_not_claimable:
  assumes "spent (sc_defer_generation_of tk) k (state (slot_at t (sc_defer_index_of tk)))"
    and "k < GEN_COUNT" and "0 < unat (sc_defer_generation_of tk)"
  shows "snd (sc_defer_claim t tk) = None"
proof (rule ccontr)
  let ?g = "sc_defer_generation_of tk"
  assume "snd (sc_defer_claim t tk) \<noteq> None"
  then obtain t' i where "sc_defer_claim t tk = (t', Some i)" by (metis not_None_eq surjective_pairing)
  from claim_state(3,4) [OF this]
  have st: "state (slot_at t (sc_defer_index_of tk)) = state_of ?g SC_DEFER_ARMED" by simp
  have gen: "generation_in (state_of ?g SC_DEFER_ARMED) = ?g"
    by (simp add: state_word_simps ticket_generation_masked)
  from assms(1) obtain j where "0 < j" "j \<le> k" "unat ?g = gen_after (unat ?g) j"
    unfolding st spent_def gen by (auto simp: state_word_simps)
  with gen_after_fresh [OF assms(3) ticket_generation_less] assms(2) show False by (metis order_le_less_trans)
qed

text \<open>
  C1. Resuming is once: after a claim has succeeded, no sequence of table operations with fewer
  than \<open>2^30 - 1\<close> arms makes a claim of the same ticket succeed again.
\<close>

theorem defer_claim_once:
  assumes "table_inv t" and "sc_defer_claim t tk = (t', Some i)"
    and "defer_run t' xs = Some t''" and "arms xs < GEN_COUNT"
  shows "snd (sc_defer_claim t'' tk) = None"
proof -
  let ?g = "sc_defer_generation_of tk"
  note c = claim_state [OF assms(2)]
  have len: "length (slots t) = SC_HTTP_DEFER_MAX" using assms(1) unfolding table_inv_def by blast
  have mask: "?g AND TICKET_GEN_MASK = ?g" by (rule ticket_generation_masked)
  have "slot_ok (slot_at t i)" using table_inv_slot [OF assms(1) c(1,2)] .
  then have pos: "0 < unat ?g"
    using c(4) mask by (auto simp: slot_ok_def state_word_simps unat_gt_0)
  have inv': "table_inv t'" using table_inv_claim [OF assms(1), of tk] assms(2) by simp
  have "spent ?g 0 (state (slots t' ! nat i))"
    using c(1,2) len mask unfolding c(5) put_slot_def spent_def by (simp add: state_word_simps)
  from spent_run [OF inv' assms(3) _ pos this] c(1,2,3)
  have "spent ?g (arms xs) (state (slot_at t'' (sc_defer_index_of tk)))" by simp
  from spent_not_claimable [OF this assms(4) pos] show ?thesis .
qed

text \<open>A concrete run, used by the witnesses: one request parked, resumed and released.\<close>

definition run_armed :: sc_defer_table where
  "run_armed = fst (sc_defer_arm (sc_defer_table_init 3) (Some 7) (Some 8) (Some 9))"

definition run_ticket :: sc_http_ticket where
  "run_ticket = ticket_of 3 0 1"

lemma run_armed_inv: "table_inv run_armed"
  unfolding run_armed_def by (rule table_inv_arm [OF table_inv_init])

lemma first_generation: "next_generation (state_of 0 SC_DEFER_FREE) = 1"
  by (simp add: next_generation_def Let_def state_word_simps TICKET_GEN_MASK_def)

lemma run_armed_slot: "state (slots run_armed ! 0) = state_of 1 SC_DEFER_ARMED"
  "work (slots run_armed ! 0) = Some 8" "loop_index run_armed = 3"
  "free_head (sc_defer_table_init 3) = int 0"
proof -
  show head: "free_head (sc_defer_table_init 3) = int 0" by (simp add: sc_defer_table_init_def)
  have "0 < length (slots (sc_defer_table_init 3))" "state (slots (sc_defer_table_init 3) ! 0)
      = state_of 0 SC_DEFER_FREE"
    by (simp_all add: sc_defer_table_init_def SC_HTTP_DEFER_MAX_def)
  then show "state (slots run_armed ! 0) = state_of 1 SC_DEFER_ARMED"
    "work (slots run_armed ! 0) = Some 8" "loop_index run_armed = 3"
    unfolding run_armed_def arm_eq(1) [OF head] armed_slot_def
    by (simp_all add: first_generation) (simp add: sc_defer_table_init_def)
qed

lemma run_claims: "snd (sc_defer_claim run_armed run_ticket) = Some 0"
  using claim_armed [OF run_armed_inv, of 0] run_armed_slot
  by (simp add: run_ticket_def state_word_simps SC_HTTP_DEFER_MAX_def TICKET_GEN_MASK_def)

theorem defer_claim_once_witness:
  "snd (sc_defer_claim run_armed run_ticket) = Some 0 \<and>
   snd (sc_defer_claim (defer_apply (fst (sc_defer_claim run_armed run_ticket)) (OpArm None None None))
          run_ticket) = None"
proof -
  obtain t' where c: "sc_defer_claim run_armed run_ticket = (t', Some 0)"
    using run_claims by (metis prod.collapse)
  have run: "defer_run t' [OpArm None None None] = Some (defer_apply t' (OpArm None None None))"
    by simp
  show ?thesis using defer_claim_once [OF run_armed_inv c run] c by simp
qed

section \<open>Delivery\<close>

text \<open>Slot \<open>i\<close> holds the occupant of generation \<open>g\<close> with its work and arena.\<close>

definition parked :: "nat \<Rightarrow> 32 word \<Rightarrow> ptr \<Rightarrow> ptr \<Rightarrow> ptr \<Rightarrow> sc_defer_table \<Rightarrow> bool" where
  "parked i g r w a t \<longleftrightarrow>
     (let s = slots t ! i in
      \<not> is_free s \<and> generation_in (state s) = g \<and> work s = w \<and> arena s = a \<and> req s \<in> {r, None})"

lemma parked_apply:
  assumes "table_inv t" "op_legal t x" "i < SC_HTTP_DEFER_MAX" "parked i g r w a t"
    and "x \<noteq> OpRelease (int i)"
  shows "parked i g r w a (defer_apply t x)"
proof (cases x)
  case (OpArm r' w' a')
  show ?thesis
  proof (cases "free_head t < 0")
    case True
    with OpArm assms(4) show ?thesis by (simp add: sc_defer_arm_def)
  next
    case False
    with arm_taken [OF assms(1)] obtain j where j: "free_head t = int j" "is_free (slots t ! j)"
      by (metis not_less)
    then have "i \<noteq> j" using assms(4) by (auto simp: parked_def Let_def)
    then show ?thesis using OpArm arm_eq(1) [OF j(1), of r' w' a'] assms(4)
      by (simp add: parked_def Let_def)
  qed
next
  case (OpClaim tk)
  have len: "length (slots t) = SC_HTTP_DEFER_MAX" using assms(1) unfolding table_inv_def by blast
  show ?thesis
    using OpClaim assms(3,4) len
    by (cases "i = nat (sc_defer_index_of tk)")
       (auto simp: parked_def sc_defer_claim_def Let_def put_slot_def is_free_def state_word_simps)
next
  case (OpRelease k)
  with assms(2,5) have "nat k \<noteq> i" by auto
  with OpRelease assms(4) show ?thesis
    by (simp add: parked_def sc_defer_release_def Let_def put_slot_def)
next
  case (OpForget k g')
  have len: "length (slots t) = SC_HTTP_DEFER_MAX" using assms(1) unfolding table_inv_def by blast
  show ?thesis
    using OpForget assms(3,4) len
    by (cases "i = nat k")
       (auto simp: parked_def sc_defer_forget_def Let_def put_slot_def is_free_def)
qed

lemma parked_run:
  assumes "table_inv t" "defer_run t xs = Some t'" "i < SC_HTTP_DEFER_MAX" "parked i g r w a t"
    and "OpRelease (int i) \<notin> set xs"
  shows "parked i g r w a t'"
  using assms(1,2,4,5)
proof (induction xs arbitrary: t)
  case Nil
  then show ?case by simp
next
  case (Cons x xs)
  then have legal: "op_legal t x" and run: "defer_run (defer_apply t x) xs = Some t'"
    by (auto split: if_splits)
  from Cons.prems have "x \<noteq> OpRelease (int i)" by auto
  from parked_apply [OF Cons.prems(1) legal assms(3) Cons.prems(3) this]
  show ?case
    using Cons.IH [OF table_inv_apply [OF Cons.prems(1) legal] run] Cons.prems(4) by simp
qed

text \<open>
  Parked work is delivered whole: after arming, whatever operations run short of releasing
  that slot, releasing it hands out exactly the work and the arena that were parked, and the
  request they were parked for unless the request was forgotten meanwhile.
\<close>

theorem defer_delivers_parked:
  assumes "table_inv t" and "sc_defer_arm t r w a = (t', tk)" and "tk \<noteq> 0"
    and "defer_run t' xs = Some t''" and "OpRelease (sc_defer_index_of tk) \<notin> set xs"
  shows "\<exists>t3 r'. sc_defer_release t'' (sc_defer_index_of tk) = (t3, r', w, a) \<and> r' \<in> {r, None}"
proof -
  have "free_head t \<ge> 0" using assms(2,3) by (auto simp: sc_defer_arm_def Let_def split: if_splits)
  from arm_taken [OF assms(1) this] obtain i where i: "free_head t = int i" "i < SC_HTTP_DEFER_MAX"
    by metis
  have len: "length (slots t) = SC_HTTP_DEFER_MAX" using assms(1) unfolding table_inv_def by blast
  have idx: "sc_defer_index_of tk = int i"
    using arm_eq(2) [OF i(1), of r w a] assms(2) i(2) by (simp add: index_of_ticket)
  have "parked i (next_generation (state (slots t ! i))) r w a t'"
    using arm_eq(1) [OF i(1), of r w a] assms(2) i(2) len armed_slot_state [of "slots t ! i" r w a]
    by (simp add: parked_def Let_def is_free_def) (simp add: armed_slot_def)
  moreover have "table_inv t'" using table_inv_arm [OF assms(1), of r w a] assms(2) by simp
  ultimately have "parked i (next_generation (state (slots t ! i))) r w a t''"
    using parked_run [OF _ assms(4) i(2)] assms(5) idx by metis
  then show ?thesis
    unfolding idx by (auto simp: parked_def sc_defer_release_def Let_def)
qed

theorem defer_delivers_parked_witness:
  "\<exists>t3 r'. sc_defer_release (defer_apply run_armed (OpForget 0 1)) 0 = (t3, r', Some 8, Some 9) \<and>
          r' \<in> {Some 7, None}"
proof -
  have tk: "sc_defer_arm (sc_defer_table_init 3) (Some 7) (Some 8) (Some 9) = (run_armed, run_ticket)"
    using arm_eq(2) [OF run_armed_slot(4), of "Some 7" "Some 8" "Some 9"]
    by (simp add: run_armed_def run_ticket_def prod_eq_iff sc_defer_table_init_def
        SC_HTTP_DEFER_MAX_def first_generation)
  have idx: "sc_defer_index_of run_ticket = 0"
    by (simp add: run_ticket_def index_of_ticket SC_HTTP_DEFER_MAX_def)
  have nz: "run_ticket \<noteq> 0"
    unfolding run_ticket_def by (rule ticket_nonzero) (simp add: TICKET_GEN_MASK_def)
  have run: "defer_run run_armed [OpForget 0 1] = Some (defer_apply run_armed (OpForget 0 1))"
    by simp
  show ?thesis
    using defer_delivers_parked [OF table_inv_init tk nz run] by (simp add: idx)
qed

text \<open>
  In every state the table can reach from its initialisation, the free list is acyclic, ends
  at \<open>-1\<close> and holds exactly the free slots, every slot is free, armed or resuming, and a slot in
  use has a non-zero generation.
\<close>

theorem defer_reachable_inv: "reach defer_init defer_step t \<Longrightarrow> table_inv t"
  by (rule dt.reach_inv)

theorem defer_reachable_inv_witness: "table_inv run_armed"
proof (rule defer_reachable_inv)
  have "reach defer_init defer_step (sc_defer_table_init 3)"
    by (rule reach_init) (simp add: defer_init_def sc_defer_table_init_def)
  moreover have "defer_step (sc_defer_table_init 3) run_armed"
    using defer_op [of "sc_defer_table_init 3" "OpArm (Some 7) (Some 8) (Some 9)"]
    by (simp add: run_armed_def)
  ultimately show "reach defer_init defer_step run_armed" by (rule reach_step)
qed

end
