(* ===== verification/Cache.thy ===== *)
theory Cache
  imports Prelude "HOL-Library.Multiset" "HOL-Library.While_Combinator"
begin

unbundle bit_operations_syntax

text \<open>
  The table half of the session cache (\<^verbatim>\<open>service-core/src/cache.c\<close>, \<^verbatim>\<open>cache.h\<close>): open
  addressing with a bounded probe walk, reference counted entries, lazy expiry.

  Entries live in a store from addresses to records, because the table and any number of
  requests hold pointers to the same entry.  Reading an address the store does not have is a use
  after free: the operations answer \<open>None\<close> then, and that they never do in a reachable state is a
  theorem.  What \<^verbatim>\<open>calloc\<close> answers and what the clock says are arguments.  The table lock makes
  the walk of a lookup and the walk and the swap of an insertion one step each; giving up a
  reference is one atomic decrement and takes no lock, so it is a step of its own.
\<close>

section \<open>Hashing\<close>

definition SC_CACHE_KEY_MAX :: nat where "SC_CACHE_KEY_MAX = 64"
definition SC_CACHE_PROBE_DEFAULT :: nat where "SC_CACHE_PROBE_DEFAULT = 8"

text \<open>The splitmix64 finalizer.\<close>

definition mix64 :: "64 word \<Rightarrow> 64 word" where
  "mix64 value =
     (let v1 = value XOR drop_bit 30 value;
          v2 = v1 * 0xbf58476d1ce4e5b9;
          v3 = v2 XOR drop_bit 27 v2;
          v4 = v3 * 0x94d049bb133111eb
      in v4 XOR drop_bit 31 v4)"

definition round_up_pow2 :: "32 word \<Rightarrow> 32 word" where
  "round_up_pow2 value = while (\<lambda>r. r < value \<and> r < 0x40000000) (\<lambda>r. push_bit 1 r) 1"

text \<open>FNV-1a over the seeded basis, then the finalizer.\<close>

definition hash_key :: "64 word \<Rightarrow> string \<Rightarrow> 64 word" where
  "hash_key seed key =
     mix64 (foldl (\<lambda>hash c. (hash XOR of_nat (code_of c)) * 1099511628211)
                  (1469598103934665603 XOR seed) key)"

section \<open>The table\<close>

record sc_cache_entry =
  references :: int
  ekey :: string
  created_ms :: int
  evalue :: nat

record sc_cache =
  slots :: "nat option list"
  mask :: "32 word"
  probe :: nat
  hard_timeout_ms :: int
  free_value :: bool
  hash_seed :: "64 word"
  store :: "nat \<rightharpoonup> sc_cache_entry"
  freed :: "nat list"

record sc_cache_config =
  capacity :: "32 word"
  cfg_probe :: nat
  cfg_timeout :: int
  cfg_free_value :: bool

definition entry_expired :: "sc_cache \<Rightarrow> sc_cache_entry \<Rightarrow> int \<Rightarrow> bool" where
  "entry_expired cache entry now_ms =
     (if hard_timeout_ms cache \<le> 0 then False
      else now_ms - created_ms entry \<ge> hard_timeout_ms cache)"

definition entry_matches :: "sc_cache_entry \<Rightarrow> string \<Rightarrow> bool" where
  "entry_matches entry key \<longleftrightarrow> length (ekey entry) = length key \<and> ekey entry = key"

text \<open>\<open>mem\<close> says whether both allocations and the lock succeeded; the seed is drawn once.\<close>

definition sc_cache_create :: "sc_cache_config \<Rightarrow> bool \<Rightarrow> 64 word \<Rightarrow> sc_cache option" where
  "sc_cache_create cfg mem seed =
     (if capacity cfg = 0 \<or> \<not> mem then None
      else
        (let cap = round_up_pow2 (capacity cfg);
             p = (if cfg_probe cfg \<noteq> 0 then cfg_probe cfg else SC_CACHE_PROBE_DEFAULT)
         in Some \<lparr> slots = replicate (unat cap) None,
                   mask = cap - 1,
                   probe = (if p > unat cap then unat cap else p),
                   hard_timeout_ms = cfg_timeout cfg,
                   free_value = cfg_free_value cfg,
                   hash_seed = seed,
                   store = Map.empty,
                   freed = [] \<rparr>))"

text \<open>\<^verbatim>\<open>(uint32_t)(hash + i) & mask\<close>.\<close>

definition slot_index :: "sc_cache \<Rightarrow> 64 word \<Rightarrow> nat \<Rightarrow> nat" where
  "slot_index cache hash i = unat ((ucast (hash + of_nat i) :: 32 word) AND mask cache)"

section \<open>Releasing\<close>

definition sc_cache_release :: "sc_cache \<Rightarrow> nat option \<Rightarrow> sc_cache option" where
  "sc_cache_release cache entry =
     (case entry of None \<Rightarrow> Some cache
      | Some a \<Rightarrow>
         (case store cache a of None \<Rightarrow> None
          | Some e \<Rightarrow>
             (let n = references e - 1 in
              if n \<noteq> 0 then Some (cache\<lparr>store := (store cache)(a \<mapsto> e\<lparr>references := n\<rparr>)\<rparr>)
              else Some (cache\<lparr>store := (store cache)(a := None),
                               freed := freed cache @ (if free_value cache then [evalue e] else [])\<rparr>))))"

fun destroy_walk :: "sc_cache \<Rightarrow> nat list \<Rightarrow> sc_cache option" where
  "destroy_walk cache [] = Some cache"
| "destroy_walk cache (i # is) =
     (case sc_cache_release (cache\<lparr>slots := (slots cache)[i := None]\<rparr>) (slots cache ! i) of
        None \<Rightarrow> None
      | Some c \<Rightarrow> destroy_walk c is)"

definition sc_cache_destroy :: "sc_cache \<Rightarrow> sc_cache option" where
  "sc_cache_destroy cache = destroy_walk cache [0..<Suc (unat (mask cache))]"

section \<open>Lookup and insertion\<close>

definition bad_key :: "string \<Rightarrow> bool" where
  "bad_key key \<longleftrightarrow> length key = 0 \<or> length key > SC_CACHE_KEY_MAX"

fun get_walk :: "sc_cache \<Rightarrow> int \<Rightarrow> string \<Rightarrow> nat list \<Rightarrow> nat option option" where
  "get_walk cache now key [] = Some None"
| "get_walk cache now key (s # ss) =
     (case slots cache ! s of
        None \<Rightarrow> get_walk cache now key ss
      | Some a \<Rightarrow>
         (case store cache a of
            None \<Rightarrow> None
          | Some e \<Rightarrow>
              if \<not> entry_matches e key then get_walk cache now key ss
              else if entry_expired cache e now then Some None
              else Some (Some a)))"

definition window :: "sc_cache \<Rightarrow> string \<Rightarrow> nat list" where
  "window cache key = map (slot_index cache (hash_key (hash_seed cache) key)) [0..<probe cache]"

definition sc_cache_get :: "sc_cache \<Rightarrow> int \<Rightarrow> string \<Rightarrow> (sc_cache \<times> nat option) option" where
  "sc_cache_get cache now key =
     (if bad_key key then Some (cache, None)
      else
        (case get_walk cache now key (window cache key) of
           None \<Rightarrow> None
         | Some None \<Rightarrow> Some (cache, None)
         | Some (Some a) \<Rightarrow>
            (case store cache a of
               None \<Rightarrow> None
             | Some e \<Rightarrow>
                Some (cache\<lparr>store := (store cache)(a \<mapsto> e\<lparr>references := references e + 1\<rparr>)\<rparr>,
                      Some a))))"

definition slot_rank :: "sc_cache \<Rightarrow> int \<Rightarrow> string \<Rightarrow> nat \<Rightarrow> nat option" where
  "slot_rank cache now key s =
     (case slots cache ! s of
        None \<Rightarrow> Some 1
      | Some a \<Rightarrow>
         (case store cache a of
            None \<Rightarrow> None
          | Some e \<Rightarrow>
              Some (if entry_matches e key then 0
                    else if entry_expired cache e now then 2
                    else if references e \<le> 1 then 3
                    else 4)))"

fun put_walk :: "sc_cache \<Rightarrow> int \<Rightarrow> string \<Rightarrow> nat list \<Rightarrow> nat \<Rightarrow> nat \<Rightarrow> nat option" where
  "put_walk cache now key [] victim victim_rank = Some victim"
| "put_walk cache now key (s # ss) victim victim_rank =
     (case slot_rank cache now key s of
        None \<Rightarrow> None
      | Some rank \<Rightarrow>
         (let (v, r) = (if rank < victim_rank then (s, rank) else (victim, victim_rank))
          in if rank = 0 then Some v else put_walk cache now key ss v r))"

text \<open>
  The part of the insertion under the exclusive lock: the new entry is in the table and what it
  displaced is handed back, still carrying the reference the table had on it.
\<close>

definition put_locked ::
  "sc_cache \<Rightarrow> nat \<Rightarrow> int \<Rightarrow> string \<Rightarrow> nat \<Rightarrow> (sc_cache \<times> nat option) option" where
  "put_locked cache a now key v =
     (let entry = \<lparr>references = 2, ekey = key, created_ms = now, evalue = v\<rparr>;
          hash = hash_key (hash_seed cache) key in
      case put_walk cache now key (window cache key) (slot_index cache hash 0) 4 of
        None \<Rightarrow> None
      | Some victim \<Rightarrow>
          Some (cache\<lparr>slots := (slots cache)[victim := Some a],
                      store := (store cache)(a \<mapsto> entry)\<rparr>,
                slots cache ! victim))"

definition sc_cache_put ::
  "sc_cache \<Rightarrow> nat option \<Rightarrow> int \<Rightarrow> string \<Rightarrow> nat \<Rightarrow> (sc_cache \<times> nat option) option" where
  "sc_cache_put cache alloc now key v =
     (if bad_key key then Some (cache, None)
      else
        (case alloc of None \<Rightarrow> Some (cache, None)
         | Some a \<Rightarrow>
            (case put_locked cache a now key v of None \<Rightarrow> None
             | Some (c, displaced) \<Rightarrow>
                (case sc_cache_release c displaced of None \<Rightarrow> None
                 | Some c' \<Rightarrow> Some (c', Some a)))))"

definition sc_cache_entry_value :: "sc_cache \<Rightarrow> nat option \<Rightarrow> nat option option" where
  "sc_cache_entry_value cache entry =
     (case entry of None \<Rightarrow> Some None
      | Some a \<Rightarrow> (case store cache a of None \<Rightarrow> None | Some e \<Rightarrow> Some (Some (evalue e))))"

section \<open>The system: the table and the references requests hold\<close>

text \<open>
  \<open>held\<close> counts the references outside the table: those a lookup or an insertion gave to a
  caller, and the one of a displaced entry between the swap under the lock and its release.
  \<^verbatim>\<open>malloc\<close> hands out an address that is not in use.
\<close>

record cache_sys =
  table :: sc_cache
  held :: "nat multiset"

definition hold :: "nat option \<Rightarrow> nat multiset" where
  "hold r = (case r of None \<Rightarrow> {#} | Some a \<Rightarrow> {#a#})"

inductive cache_step :: "cache_sys \<Rightarrow> cache_sys \<Rightarrow> bool" where
  step_get: "sc_cache_get (table s) now key = Some (c, r) \<Longrightarrow>
     cache_step s (s\<lparr>table := c, held := held s + hold r\<rparr>)"
| step_put: "\<not> bad_key key \<Longrightarrow> store (table s) a = None \<Longrightarrow>
     put_locked (table s) a now key v = Some (c, d) \<Longrightarrow>
     cache_step s (s\<lparr>table := c, held := held s + {#a#} + hold d\<rparr>)"
| step_release: "a \<in># held s \<Longrightarrow> sc_cache_release (table s) (Some a) = Some c \<Longrightarrow>
     cache_step s (s\<lparr>table := c, held := held s - {#a#}\<rparr>)"

definition cache_init :: "cache_sys \<Rightarrow> bool" where
  "cache_init s \<longleftrightarrow> held s = {#} \<and> (\<exists>cfg mem seed. sc_cache_create cfg mem seed = Some (table s))"

section \<open>The invariant\<close>

definition refs :: "cache_sys \<Rightarrow> nat \<Rightarrow> nat" where
  "refs s a = count (mset (slots (table s))) (Some a) + count (held s) a"

definition counts_ok :: "cache_sys \<Rightarrow> bool" where
  "counts_ok s \<longleftrightarrow> (\<forall>a. case store (table s) a of
       None \<Rightarrow> refs s a = 0
     | Some e \<Rightarrow> references e = int (refs s a) \<and> 0 < refs s a)"

definition shape_ok :: "sc_cache \<Rightarrow> bool" where
  "shape_ok c \<longleftrightarrow> length (slots c) = Suc (unat (mask c)) \<and> 0 < probe c"

text \<open>The key of the entry a slot points at.\<close>

definition key_at :: "sc_cache \<Rightarrow> nat \<Rightarrow> string option" where
  "key_at c i = (case slots c ! i of None \<Rightarrow> None
     | Some a \<Rightarrow> (case store c a of None \<Rightarrow> None | Some e \<Rightarrow> Some (ekey e)))"

definition keys_ok :: "sc_cache \<Rightarrow> bool" where
  "keys_ok c \<longleftrightarrow>
     (\<forall>i < length (slots c). \<forall>k. key_at c i = Some k \<longrightarrow> i \<in> set (window c k)) \<and>
     (\<forall>i < length (slots c). \<forall>j < length (slots c). \<forall>k.
        key_at c i = Some k \<longrightarrow> key_at c j = Some k \<longrightarrow> i = j)"

definition cache_inv :: "cache_sys \<Rightarrow> bool" where
  "cache_inv s \<longleftrightarrow> counts_ok s \<and> shape_ok (table s) \<and> keys_ok (table s)"

section \<open>Slots, windows and walks\<close>

lemma entry_matches_iff [simp]: "entry_matches e key \<longleftrightarrow> ekey e = key"
  by (auto simp: entry_matches_def)

lemma slot_index_bound: "shape_ok c \<Longrightarrow> slot_index c h i < length (slots c)"
proof -
  have "(ucast (h + of_nat i) :: 32 word) AND mask c \<le> mask c" by (rule word_and_le1)
  then have "slot_index c h i \<le> unat (mask c)"
    unfolding slot_index_def by (simp add: word_le_nat_alt)
  then show "shape_ok c \<Longrightarrow> ?thesis" by (simp add: shape_ok_def)
qed

lemma window_bound: "shape_ok c \<Longrightarrow> s \<in> set (window c key) \<Longrightarrow> s < length (slots c)"
  by (auto simp: window_def slot_index_bound)

lemma window_hd:
  "shape_ok c \<Longrightarrow> \<exists>ss. window c key = slot_index c (hash_key (hash_seed c) key) 0 # ss"
  by (auto simp: window_def shape_ok_def upt_conv_Cons)

lemma window_cong:
  "mask c = mask c' \<Longrightarrow> probe c = probe c' \<Longrightarrow> hash_seed c = hash_seed c' \<Longrightarrow> window c k = window c' k"
  by (simp add: window_def slot_index_def)

text \<open>In a state with correct counts every pointer in the table is live.\<close>

lemma slot_live:
  assumes "counts_ok s" "i < length (slots (table s))" "slots (table s) ! i = Some a"
  obtains e where "store (table s) a = Some e"
proof (cases "store (table s) a")
  case None
  then have "count (mset (slots (table s))) (Some a) = 0"
    using assms(1) by (force simp: counts_ok_def refs_def split: option.splits)
  moreover have "Some a \<in> set (slots (table s))" using assms(2,3) by (metis nth_mem)
  ultimately show ?thesis by (simp add: count_eq_zero_iff)
qed (use that in blast)

definition live :: "sc_cache \<Rightarrow> nat list \<Rightarrow> bool" where
  "live c ss \<longleftrightarrow> (\<forall>i \<in> set ss. \<forall>a. slots c ! i = Some a \<longrightarrow> store c a \<noteq> None)"

lemma window_live: "cache_inv s \<Longrightarrow> live (table s) (window (table s) key)"
  unfolding live_def cache_inv_def by (metis slot_live window_bound option.distinct(1))

lemma get_walk_live: "live c ss \<Longrightarrow> get_walk c now key ss \<noteq> None"
  by (induction ss) (auto simp: live_def split: option.splits)

lemma get_walk_hit:
  "get_walk c now key ss = Some (Some a) \<Longrightarrow>
     \<exists>s \<in> set ss. slots c ! s = Some a \<and>
       (\<exists>e. store c a = Some e \<and> ekey e = key \<and> \<not> entry_expired c e now)"
  by (induction ss) (auto split: option.splits if_splits)

lemma slot_rank_live: "live c [s] \<Longrightarrow> slot_rank c now key s \<noteq> None"
  by (auto simp: live_def slot_rank_def split: option.splits)

lemma slot_rank_zero: "slot_rank c now key s = Some 0 \<longleftrightarrow> key_at c s = Some key"
  by (auto simp: slot_rank_def key_at_def split: option.splits)

lemma put_walk_live: "live c ss \<Longrightarrow> put_walk c now key ss v r \<noteq> None"
proof (induction ss arbitrary: v r)
  case (Cons s ss)
  then have "live c [s]" "live c ss" by (auto simp: live_def)
  with Cons.IH slot_rank_live [of c s now key] show ?case
    by (auto simp: Let_def split: option.splits)
qed simp

text \<open>
  The victim of an insertion: the first slot with the same key if there is one, and otherwise a
  slot of the window.
\<close>

lemma put_walk_victim:
  assumes "put_walk c now key ss v r = Some v'" "0 < r"
  shows "(\<exists>pre post. ss = pre @ v' # post \<and> key_at c v' = Some key \<and>
            (\<forall>p \<in> set pre. key_at c p \<noteq> Some key)) \<or>
         (v' \<in> insert v (set ss) \<and> (\<forall>p \<in> set ss. key_at c p \<noteq> Some key))"
  using assms
proof (induction ss arbitrary: v r)
  case (Cons s ss)
  from Cons.prems obtain rank where rank: "slot_rank c now key s = Some rank"
    by (auto split: option.splits)
  show ?case
  proof (cases "rank = 0")
    case True
    with Cons.prems rank have "v' = s" by simp
    moreover have "key_at c s = Some key" using rank True slot_rank_zero by metis
    ultimately show ?thesis by (intro disjI1 exI [of _ "[]"] exI [of _ ss]) auto
  next
    case False
    then have s: "key_at c s \<noteq> Some key" using rank slot_rank_zero by (metis option.inject)
    obtain v1 r1 where v1: "(if rank < r then (s, rank) else (v, r)) = (v1, r1)" by fastforce
    with Cons.prems rank False have "put_walk c now key ss v1 r1 = Some v'" "0 < r1" "v1 \<in> {v, s}"
      by (auto simp: Let_def split: if_splits)
    from Cons.IH [OF this(1,2)] show ?thesis
    proof (elim disjE exE conjE)
      fix pre post
      assume "ss = pre @ v' # post" "key_at c v' = Some key" "\<forall>p \<in> set pre. key_at c p \<noteq> Some key"
      with s show ?thesis by (intro disjI1 exI [of _ "s # pre"] exI [of _ post]) auto
    qed (use s \<open>v1 \<in> {v, s}\<close> in auto)
  qed
qed simp

section \<open>The invariant is kept\<close>

lemma counts_okD:
  "counts_ok s \<Longrightarrow> store (table s) a = None \<Longrightarrow> refs s a = 0"
  "counts_ok s \<Longrightarrow> store (table s) a = Some e \<Longrightarrow> references e = int (refs s a) \<and> 0 < refs s a"
  by (force simp: counts_ok_def split: option.splits)+

text \<open>A step that touches the counts of one address only.\<close>

lemma counts_ok_update:
  assumes "counts_ok s"
    and "\<And>b. b \<noteq> a \<Longrightarrow> store (table s') b = store (table s) b \<and> refs s' b = refs s b"
    and "case store (table s') a of None \<Rightarrow> refs s' a = 0
         | Some e \<Rightarrow> references e = int (refs s' a) \<and> 0 < refs s' a"
  shows "counts_ok s'"
  unfolding counts_ok_def
proof
  fix b
  show "case store (table s') b of None \<Rightarrow> refs s' b = 0
        | Some e \<Rightarrow> references e = int (refs s' b) \<and> 0 < refs s' b"
  proof (cases "b = a")
    case False
    with assms(1) assms(2) [OF False] show ?thesis by (metis counts_ok_def)
  next
    case True
    show ?thesis unfolding True by (rule assms(3))
  qed
qed

lemma keys_ok_cong:
  assumes "keys_ok c" "slots c' = slots c" "mask c' = mask c" "probe c' = probe c"
    "hash_seed c' = hash_seed c" "\<And>i. i < length (slots c) \<Longrightarrow> key_at c' i = key_at c i"
  shows "keys_ok c'"
  using assms window_cong [of c c'] unfolding keys_ok_def by auto

lemma get_inv:
  assumes inv: "cache_inv s" and "sc_cache_get (table s) now key = Some (c, r)"
  shows "cache_inv (s\<lparr>table := c, held := held s + hold r\<rparr>)"
proof (cases r)
  case None
  with assms show ?thesis
    by (auto simp: sc_cache_get_def hold_def split: if_splits option.splits)
next
  case (Some a)
  let ?t = "table s"
  from assms(2) Some obtain e where e: "store ?t a = Some e"
    and c: "c = ?t\<lparr>store := (store ?t)(a \<mapsto> e\<lparr>references := references e + 1\<rparr>)\<rparr>"
    by (auto simp: sc_cache_get_def split: if_splits option.splits)
  have "keys_ok c"
    using inv unfolding cache_inv_def
    by (elim conjE keys_ok_cong) (auto simp: c key_at_def e split: option.splits)
  moreover have "shape_ok c" using inv by (simp add: cache_inv_def shape_ok_def c)
  moreover have "counts_ok (s\<lparr>table := c, held := held s + hold r\<rparr>)" (is "counts_ok ?s'")
  proof -
    have cnt: "counts_ok s" using inv by (simp add: cache_inv_def)
    have refs: "refs ?s' b = refs s b + (if b = a then 1 else 0)" for b
      by (simp add: refs_def c Some hold_def)
    show ?thesis
      using counts_okD(2) [OF cnt e]
      by (intro counts_ok_update [OF cnt, of a]) (simp_all only: refs, simp_all add: c)
  qed
  ultimately show ?thesis by (simp add: cache_inv_def)
qed

lemma release_inv:
  assumes inv: "cache_inv s" and a: "a \<in># held s"
    and "sc_cache_release (table s) (Some a) = Some c"
  shows "cache_inv (s\<lparr>table := c, held := held s - {#a#}\<rparr>)"
proof -
  let ?t = "table s"
  from assms(3) obtain e where e: "store ?t a = Some e"
    and c: "c = (if references e - 1 \<noteq> 0
                 then ?t\<lparr>store := (store ?t)(a \<mapsto> e\<lparr>references := references e - 1\<rparr>)\<rparr>
                 else ?t\<lparr>store := (store ?t)(a := None), freed := freed ?t @ (if free_value ?t then [evalue e] else [])\<rparr>)"
    by (auto simp: sc_cache_release_def Let_def split: option.splits if_splits)
  have refs: "references e = int (refs s a)" "0 < refs s a"
    using inv e counts_okD unfolding cache_inv_def by blast+
  have held: "0 < count (held s) a" using a by simp
  have noslot: "count (mset (slots ?t)) (Some a) = 0" if "references e - 1 = 0"
  proof -
    have "refs s a = 1" using that refs(1) by simp
    then show ?thesis using held unfolding refs_def by linarith
  qed
  have key: "key_at c i = key_at ?t i" if "i < length (slots ?t)" for i
  proof (cases "slots ?t ! i = Some a \<and> references e - 1 = 0")
    case True
    then have "Some a \<in> set (slots ?t)" using that by (metis nth_mem)
    with True noslot show ?thesis by (simp add: count_eq_zero_iff)
  next
    case False
    then show ?thesis by (auto simp: c key_at_def e split: option.splits)
  qed
  have "keys_ok c"
    using inv key unfolding cache_inv_def
    by (elim conjE keys_ok_cong) (simp_all add: c)
  moreover have "shape_ok c" using inv by (simp add: cache_inv_def shape_ok_def c)
  moreover have "counts_ok (s\<lparr>table := c, held := held s - {#a#}\<rparr>)"
    (is "counts_ok ?s'")
  proof -
    have cnt: "counts_ok s" using inv by (simp add: cache_inv_def)
    have less: "refs ?s' b = refs s b - (if b = a then 1 else 0)" for b
      using held by (simp add: refs_def c)
    show ?thesis
      using refs by (intro counts_ok_update [OF cnt, of a]) (simp_all only: less, auto simp: c)
  qed
  ultimately show ?thesis by (simp add: cache_inv_def)
qed

lemma put_locked_eq:
  assumes "put_locked c a now key v = Some (c', d)" "shape_ok c"
  obtains victim where "victim < length (slots c)" "victim \<in> set (window c key)"
    "d = slots c ! victim"
    "c' = c\<lparr>slots := (slots c)[victim := Some a], store := (store c)(a \<mapsto>
            \<lparr>references = 2, ekey = key, created_ms = now, evalue = v\<rparr>)\<rparr>"
    "(\<exists>pre post. window c key = pre @ victim # post \<and> key_at c victim = Some key \<and>
        (\<forall>p \<in> set pre. key_at c p \<noteq> Some key)) \<or>
     (\<forall>p \<in> set (window c key). key_at c p \<noteq> Some key)"
proof -
  let ?h = "slot_index c (hash_key (hash_seed c) key) 0"
  from assms(1) obtain victim where w: "put_walk c now key (window c key) ?h 4 = Some victim"
    and d: "d = slots c ! victim"
    and c': "c' = c\<lparr>slots := (slots c)[victim := Some a], store := (store c)(a \<mapsto>
            \<lparr>references = 2, ekey = key, created_ms = now, evalue = v\<rparr>)\<rparr>"
    by (auto simp: put_locked_def Let_def split: option.splits)
  have h: "?h \<in> set (window c key)" using window_hd [OF assms(2), of key] by auto
  note v = put_walk_victim [OF w]
  then have "victim \<in> set (window c key)" using h by auto
  then show ?thesis
    using that [of victim] d c' v window_bound [OF assms(2)] by auto
qed

lemma put_key_at:
  assumes "victim < length (slots c)" "store c a = None" "i < length (slots c)"
    and "live c [0..<length (slots c)]"
    and "c' = c\<lparr>slots := (slots c)[victim := Some a], store := (store c)(a \<mapsto>
            \<lparr>references = 2, ekey = key, created_ms = now, evalue = v\<rparr>)\<rparr>"
  shows "key_at c' i = (if i = victim then Some key else key_at c i)"
proof (cases "i = victim")
  case False
  have "slots c ! i \<noteq> Some a" using assms(2,3,4) by (force simp: live_def)
  with False assms show ?thesis by (auto simp: key_at_def split: option.splits)
qed (use assms in \<open>simp add: key_at_def\<close>)

lemma all_live: "cache_inv s \<Longrightarrow> live (table s) [0..<length (slots (table s))]"
  unfolding live_def cache_inv_def by (metis atLeastLessThan_iff option.distinct(1) set_upt slot_live)

lemma count_mset_update:
  assumes "i < length xs"
  shows "count (mset (xs[i := y])) z + (if xs ! i = z then 1 else 0)
       = count (mset xs) z + (if y = z then 1 else 0)"
proof -
  have "xs ! i \<in># mset xs" using assms by simp
  then obtain m where m: "mset xs = add_mset (xs ! i) m" by (rule multi_member_split [THEN exE])
  then have "mset (xs[i := y]) = add_mset y m" using assms by (simp add: mset_update)
  with m show ?thesis by simp
qed

lemma put_inv:
  assumes inv: "cache_inv s" and fresh: "store (table s) a = None"
    and put: "put_locked (table s) a now key v = Some (c, d)"
  shows "cache_inv (s\<lparr>table := c, held := held s + {#a#} + hold d\<rparr>)"
proof -
  let ?t = "table s"
  let ?s' = "s\<lparr>table := c, held := held s + {#a#} + hold d\<rparr>"
  have shape: "shape_ok ?t" and cnt: "counts_ok s" and keys: "keys_ok ?t"
    using inv by (simp_all add: cache_inv_def)
  obtain victim where vb: "victim < length (slots ?t)" and vw: "victim \<in> set (window ?t key)"
    and d: "d = slots ?t ! victim"
    and c: "c = ?t\<lparr>slots := (slots ?t)[victim := Some a], store := (store ?t)(a \<mapsto>
            \<lparr>references = 2, ekey = key, created_ms = now, evalue = v\<rparr>)\<rparr>"
    and first: "(\<exists>pre post. window ?t key = pre @ victim # post \<and> key_at ?t victim = Some key \<and>
        (\<forall>p \<in> set pre. key_at ?t p \<noteq> Some key)) \<or>
     (\<forall>p \<in> set (window ?t key). key_at ?t p \<noteq> Some key)"
    by (rule put_locked_eq [OF put shape])
  note ka = put_key_at [OF vb fresh _ all_live [OF inv] c]
  have win: "window c k = window ?t k" for k by (rule window_cong) (simp_all add: c)
  have len: "length (slots c) = length (slots ?t)" by (simp add: c)
  have other: "i = victim" if "i < length (slots ?t)" "key_at ?t i = Some key" for i
  proof -
    have "i \<in> set (window ?t key)" using keys that unfolding keys_ok_def by blast
    with first that(2) have "key_at ?t victim = Some key" by blast
    with keys that vb show ?thesis unfolding keys_ok_def by blast
  qed
  have "keys_ok c"
    unfolding keys_ok_def len win
  proof (intro conjI allI impI)
    fix i k
    assume i: "i < length (slots ?t)" and "key_at c i = Some k"
    then show "i \<in> set (window ?t k)"
      using keys vw unfolding keys_ok_def ka [OF i] by (auto split: if_splits)
  next
    fix i j k
    assume i: "i < length (slots ?t)" and j: "j < length (slots ?t)"
      and "key_at c i = Some k" "key_at c j = Some k"
    then show "i = j"
      using keys other unfolding keys_ok_def ka [OF i] ka [OF j] by (auto split: if_splits)
  qed
  moreover have "shape_ok c" using shape by (simp add: shape_ok_def c)
  moreover have "counts_ok ?s'"
  proof -
    have refs: "refs ?s' b = refs s b + (if b = a then 2 else 0)" for b
    proof -
      have "count (mset (slots c)) (Some b) + (if d = Some b then 1 else 0)
          = count (mset (slots ?t)) (Some b) + (if b = a then 1 else 0)"
        using vb count_mset_update [OF vb, of "Some a" "Some b"] by (simp add: c d)
      then show ?thesis by (cases d) (auto simp: refs_def hold_def)
    qed
    show ?thesis
      using counts_okD(1) [OF cnt fresh]
      by (intro counts_ok_update [OF cnt, of a]) (simp_all only: refs, simp_all add: c)
  qed
  ultimately show ?thesis by (simp add: cache_inv_def)
qed

section \<open>Creation\<close>

lemma unat_double:
  assumes "unat r = 2 ^ k" "k < 30"
  shows "unat (push_bit 1 (r :: 32 word)) = 2 ^ Suc k"
proof -
  have "(2::nat) ^ k \<le> 2 ^ 29" using assms(2) by (intro power_increasing) auto
  then have "2 * unat r < 2 ^ 32" using assms(1) by simp
  moreover have "push_bit 1 r = 2 * r" by (simp add: push_bit_eq_mult mult.commute)
  ultimately show ?thesis using assms(1) by (simp add: unat_word_ariths take_bit_eq_mod)
qed

text \<open>The capacity is the least power of two that holds what was asked for, up to \<open>2^30\<close>.\<close>

lemma round_up_pow2_spec:
  "\<exists>k \<le> 30. unat (round_up_pow2 v) = 2 ^ k \<and> (unat v \<le> 2 ^ k \<or> k = 30) \<and>
            (0 < k \<longrightarrow> 2 ^ (k - 1) < unat v)"
  unfolding round_up_pow2_def
proof (rule while_rule [where P = "\<lambda>r. \<exists>k \<le> 30. unat r = 2 ^ k \<and> (0 < k \<longrightarrow> 2 ^ (k - 1) < unat v)"
      and r = "measure (\<lambda>r. 2 ^ 30 - unat r)"])
  show "\<exists>k \<le> 30. unat (1 :: 32 word) = 2 ^ k \<and> (0 < k \<longrightarrow> 2 ^ (k - 1) < unat v)"
    by (intro exI [of _ 0]) simp
next
  fix r
  assume "\<exists>k \<le> 30. unat r = 2 ^ k \<and> (0 < k \<longrightarrow> 2 ^ (k - 1) < unat v)"
    and g: "r < v \<and> r < 0x40000000"
  then obtain k where k: "k \<le> 30" "unat r = 2 ^ k" by blast
  from g have lt: "unat r < unat v" "unat r < 2 ^ 30" by (auto simp: word_less_nat_alt)
  with k have "k < 30" by (cases "k = 30") auto
  then show "\<exists>k \<le> 30. unat (push_bit 1 r) = 2 ^ k \<and> (0 < k \<longrightarrow> 2 ^ (k - 1) < unat v)"
    using unat_double [OF k(2)] lt k(2) by (intro exI [of _ "Suc k"]) auto
  show "(push_bit 1 r, r) \<in> measure (\<lambda>r. 2 ^ 30 - unat r)"
  proof -
    have "unat (push_bit 1 r) = 2 * unat r" "0 < unat r"
      using unat_double [OF k(2) \<open>k < 30\<close>] k(2) by simp_all
    then show ?thesis using lt(2) unfolding in_measure by linarith
  qed
next
  fix r
  assume "\<exists>k \<le> 30. unat r = 2 ^ k \<and> (0 < k \<longrightarrow> 2 ^ (k - 1) < unat v)"
    and g: "\<not> (r < v \<and> r < 0x40000000)"
  then obtain k where k: "k \<le> 30" "unat r = 2 ^ k" "0 < k \<longrightarrow> 2 ^ (k - 1) < unat v" by blast
  have "unat v \<le> unat r \<or> 2 ^ 30 \<le> unat r" using g by (auto simp: word_less_nat_alt)
  moreover have "2 ^ 30 \<le> (2::nat) ^ k \<longleftrightarrow> 30 \<le> k" by (rule power_increasing_iff) simp
  ultimately show "\<exists>k \<le> 30. unat r = 2 ^ k \<and> (unat v \<le> 2 ^ k \<or> k = 30) \<and>
            (0 < k \<longrightarrow> 2 ^ (k - 1) < unat v)"
    using k by (intro exI [of _ k]) auto
qed (rule wf_measure)

lemma create_inv:
  assumes "sc_cache_create cfg mem seed = Some c"
  shows "cache_inv \<lparr>table = c, held = {#}\<rparr>"
proof -
  let ?cap = "round_up_pow2 (capacity cfg)"
  obtain k where k: "unat ?cap = 2 ^ k" using round_up_pow2_spec [of "capacity cfg"] by blast
  then have pos: "0 < unat ?cap" by simp
  then have "?cap \<noteq> 0" by auto
  then have minus: "unat (?cap - 1) = unat ?cap - 1" by (simp add: unat_minus_one)
  from assms have c: "slots c = replicate (unat ?cap) None" "mask c = ?cap - 1" "store c = Map.empty"
    "0 < probe c"
    using pos by (auto simp: sc_cache_create_def Let_def SC_CACHE_PROBE_DEFAULT_def split: if_splits)
  have "key_at c i = None" if "i < length (slots c)" for i using that by (simp add: key_at_def c)
  then have "keys_ok c" by (simp add: keys_ok_def)
  moreover have "shape_ok c" using pos by (simp add: shape_ok_def c minus)
  moreover have "counts_ok \<lparr>table = c, held = {#}\<rparr>"
    by (simp add: counts_ok_def refs_def c count_eq_zero_iff)
  ultimately show ?thesis by (simp add: cache_inv_def)
qed

interpretation cs: invariant_system cache_init cache_step cache_inv
proof
  show "cache_inv s" if "cache_init s" for s
    using that create_inv unfolding cache_init_def by (cases s) auto
  show "cache_inv t" if "cache_inv s" "cache_step s t" for s t
    using that(2,1)
  proof cases
    case step_put
    with put_inv [OF that(1)] show ?thesis by blast
  qed (auto intro: get_inv release_inv)
qed

section \<open>No use after free\<close>

lemma release_held: "cache_inv s \<Longrightarrow> a \<in># held s \<Longrightarrow> sc_cache_release (table s) (Some a) \<noteq> None"
proof -
  assume inv: "cache_inv s" and "a \<in># held s"
  then have "refs s a \<noteq> 0" by (simp add: refs_def)
  then obtain e where "store (table s) a = Some e"
    using inv counts_okD(1) unfolding cache_inv_def by (metis not_None_eq)
  then show ?thesis by (simp add: sc_cache_release_def Let_def)
qed

lemma get_defined: "cache_inv s \<Longrightarrow> sc_cache_get (table s) now key \<noteq> None"
  using get_walk_live [OF window_live [of s key], of now key]
  by (auto simp: sc_cache_get_def dest!: get_walk_hit split: option.splits)

lemma put_locked_defined: "cache_inv s \<Longrightarrow> put_locked (table s) a now key v \<noteq> None"
  using put_walk_live [OF window_live [of s key], of now key]
  by (auto simp: put_locked_def Let_def split: option.splits)

lemma put_defined:
  assumes inv: "cache_inv s" and fresh: "store (table s) a = None"
  shows "sc_cache_put (table s) (Some a) now key v \<noteq> None"
proof -
  obtain c d where put: "put_locked (table s) a now key v = Some (c, d)"
    using put_locked_defined [OF inv, of a now key v] by (metis not_None_eq surj_pair)
  let ?s' = "s\<lparr>table := c, held := held s + {#a#} + hold d\<rparr>"
  have "cache_inv ?s'" by (rule put_inv [OF inv fresh put])
  then have "sc_cache_release c d \<noteq> None"
    using release_held [of ?s'] by (cases d) (auto simp: hold_def sc_cache_release_def)
  with put show ?thesis by (auto simp: sc_cache_put_def)
qed


definition demo_config :: sc_cache_config where
  "demo_config = \<lparr>capacity = 4, cfg_probe = 0, cfg_timeout = 1000, cfg_free_value = True\<rparr>"

definition demo_start :: cache_sys where
  "demo_start = \<lparr>table = the (sc_cache_create demo_config True 0), held = {#}\<rparr>"

lemma demo_created: "sc_cache_create demo_config True 0 = Some (table demo_start)"
  by (simp add: demo_start_def sc_cache_create_def demo_config_def Let_def)

lemma demo_reach: "reach cache_init cache_step demo_start"
  by (rule reach_init) (use demo_created in \<open>auto simp: cache_init_def demo_start_def\<close>)

lemma demo_empty: "store (table demo_start) = Map.empty" "hard_timeout_ms (table demo_start) = 1000"
  by (simp_all add: demo_start_def sc_cache_create_def demo_config_def Let_def)

lemma demo_put:
  obtains s c d where "put_locked (table demo_start) 5 0 ''k'' 9 = Some (c, d)"
    "s = demo_start\<lparr>table := c, held := held demo_start + {#5#} + hold d\<rparr>"
    "reach cache_init cache_step s" "5 \<in># held s"
proof -
  have "cache_inv demo_start" by (rule cs.reach_inv [OF demo_reach])
  then obtain c d where put: "put_locked (table demo_start) 5 0 ''k'' 9 = Some (c, d)"
    using put_locked_defined [of demo_start 5 0 "''k''" 9] by (metis not_None_eq surj_pair)
  have "cache_step demo_start (demo_start\<lparr>table := c, held := held demo_start + {#5#} + hold d\<rparr>)"
    by (rule step_put [OF _ _ put]) (simp_all add: bad_key_def SC_CACHE_KEY_MAX_def demo_empty)
  then show ?thesis using that [OF put refl] reach_step [OF demo_reach] by simp
qed


section \<open>Lookups are exact\<close>

lemma get_walk_first:
  assumes "live c (pre @ v # post)" "\<forall>p \<in> set pre. key_at c p \<noteq> Some key"
    and "slots c ! v = Some a" "store c a = Some e" "ekey e = key" "\<not> entry_expired c e now"
  shows "get_walk c now key (pre @ v # post) = Some (Some a)"
  using assms(1,2)
proof (induction pre)
  case Nil
  with assms show ?case by simp
next
  case (Cons p pre)
  then have "get_walk c now key (pre @ v # post) = Some (Some a)" by (auto simp: live_def)
  with Cons.prems show ?case
    by (auto simp: live_def key_at_def split: option.splits)
qed

lemma lookup_hit:
  assumes inv: "cache_inv s" and "\<not> bad_key key" "i < length (slots (table s))"
    and a: "slots (table s) ! i = Some a" and e: "store (table s) a = Some e" "ekey e = key"
    and fresh: "\<not> entry_expired (table s) e now"
  shows "\<exists>c. sc_cache_get (table s) now key = Some (c, Some a) \<and> store c a =
           Some (e\<lparr>references := references e + 1\<rparr>)"
proof -
  let ?t = "table s"
  have k: "key_at ?t i = Some key" using a e by (simp add: key_at_def)
  have keys: "keys_ok ?t" and shape: "shape_ok ?t" using inv by (simp_all add: cache_inv_def)
  then have "i \<in> set (window ?t key)" using k assms(3) unfolding keys_ok_def by blast
  then obtain pre post where w: "window ?t key = pre @ i # post" "i \<notin> set pre"
    by (meson split_list_first)
  have "\<forall>p \<in> set pre. key_at ?t p \<noteq> Some key"
  proof
    fix p
    assume "p \<in> set pre"
    then have "p < length (slots ?t)" "p \<noteq> i" using w window_bound [OF shape, of p key] by auto
    then show "key_at ?t p \<noteq> Some key" using keys k assms(3) unfolding keys_ok_def by blast
  qed
  with get_walk_first [of ?t pre i post key a e now] window_live [OF inv, of key] w a e fresh
  have "get_walk ?t now key (window ?t key) = Some (Some a)" by simp
  with assms(2) e show ?thesis by (simp add: sc_cache_get_def)
qed

text \<open>
  A lookup is exact in every reachable state: it hits an entry exactly when the table holds
  an entry under that key that has not expired, and there is at most one such entry.
\<close>

theorem cache_lookup_exact:
  assumes "reach cache_init cache_step s" and "\<not> bad_key key"
  shows "(\<exists>c. sc_cache_get (table s) now key = Some (c, Some a)) \<longleftrightarrow>
         (\<exists>e. Some a \<in> set (slots (table s)) \<and> store (table s) a = Some e \<and> ekey e = key \<and>
              \<not> entry_expired (table s) e now)"
proof -
  have inv: "cache_inv s" by (rule cs.reach_inv [OF assms(1)])
  then have shape: "shape_ok (table s)" by (simp add: cache_inv_def)
  show ?thesis
  proof
    assume "\<exists>c. sc_cache_get (table s) now key = Some (c, Some a)"
    then have "get_walk (table s) now key (window (table s) key) = Some (Some a)"
      using assms(2) by (auto simp: sc_cache_get_def split: option.splits)
    from get_walk_hit [OF this] obtain i e where "i \<in> set (window (table s) key)"
      "slots (table s) ! i = Some a" "store (table s) a = Some e" "ekey e = key"
      "\<not> entry_expired (table s) e now" by blast
    moreover from this have "Some a \<in> set (slots (table s))"
      using window_bound [OF shape] by (metis nth_mem)
    ultimately show "\<exists>e. Some a \<in> set (slots (table s)) \<and> store (table s) a = Some e \<and>
        ekey e = key \<and> \<not> entry_expired (table s) e now" by blast
  next
    assume "\<exists>e. Some a \<in> set (slots (table s)) \<and> store (table s) a = Some e \<and>
        ekey e = key \<and> \<not> entry_expired (table s) e now"
    then show "\<exists>c. sc_cache_get (table s) now key = Some (c, Some a)"
      using lookup_hit [OF inv assms(2)] by (metis in_set_conv_nth)
  qed
qed

theorem cache_lookup_exact_witness:
  "\<exists>(s :: cache_sys) c. 5 \<in># held s \<and> sc_cache_get (table s) 10 ''k'' = Some (c, Some 5)"
proof -
  obtain s c d where put: "put_locked (table demo_start) 5 0 ''k'' 9 = Some (c, d)"
    and s: "s = demo_start\<lparr>table := c, held := held demo_start + {#5#} + hold d\<rparr>"
    and r: "reach cache_init cache_step s" and h: "5 \<in># held s" by (rule demo_put)
  have shape: "shape_ok (table demo_start)"
    using cs.reach_inv [OF demo_reach] by (simp add: cache_inv_def)
  obtain victim where "victim < length (slots (table demo_start))" and
    c: "c = (table demo_start)\<lparr>slots := (slots (table demo_start))[victim := Some 5],
         store := (store (table demo_start))(5 \<mapsto>
            \<lparr>references = 2, ekey = ''k'', created_ms = 0, evalue = 9\<rparr>)\<rparr>"
    by (rule put_locked_eq [OF put shape])
  then have "Some 5 \<in> set (slots (table s))" by (simp add: s set_update_memI)
  moreover have "store (table s) 5 = Some \<lparr>references = 2, ekey = ''k'', created_ms = 0, evalue = 9\<rparr>"
    "\<not> entry_expired (table s) \<lparr>references = 2, ekey = ''k'', created_ms = 0, evalue = 9\<rparr> 10"
    by (simp_all add: s c entry_expired_def demo_empty)
  ultimately show ?thesis
    using cache_lookup_exact [OF r, of "''k''" 10 5] h
    by (auto simp: bad_key_def SC_CACHE_KEY_MAX_def)
qed

section \<open>Insertion, then lookup; the last reference\<close>

lemma release_other:
  assumes "sc_cache_release c d = Some c'" "d \<noteq> Some a"
  shows "slots c' = slots c" "store c' a = store c a" "hard_timeout_ms c' = hard_timeout_ms c"
  using assms by (auto simp: sc_cache_release_def Let_def split: option.splits if_splits)

text \<open>
  C18. What was inserted is found: after an insertion into a reachable table, a lookup of the
  same key before the hard timeout hits that entry and reads the value inserted, whatever was
  displaced.
\<close>

theorem cache_put_get:
  assumes "reach cache_init cache_step s" and "\<not> bad_key key" and "store (table s) a = None"
    and "sc_cache_put (table s) (Some a) now key v = Some (c, r)"
    and "hard_timeout_ms (table s) \<le> 0 \<or> now' - now < hard_timeout_ms (table s)"
  shows "r = Some a \<and> (\<exists>c'. sc_cache_get c now' key = Some (c', Some a) \<and>
           sc_cache_entry_value c' (Some a) = Some (Some v))"
proof -
  let ?t = "table s"
  let ?e = "\<lparr>references = 2, ekey = key, created_ms = now, evalue = v\<rparr>"
  have inv: "cache_inv s" by (rule cs.reach_inv [OF assms(1)])
  from assms(2,4) obtain c1 d where put: "put_locked ?t a now key v = Some (c1, d)"
    and rel: "sc_cache_release c1 d = Some c" and r: "r = Some a"
    by (auto simp: sc_cache_put_def split: option.splits)
  have shape: "shape_ok ?t" using inv by (simp add: cache_inv_def)
  obtain victim where vb: "victim < length (slots ?t)" and d: "d = slots ?t ! victim"
    and c1: "c1 = ?t\<lparr>slots := (slots ?t)[victim := Some a], store := (store ?t)(a \<mapsto> ?e)\<rparr>"
    by (rule put_locked_eq [OF put shape])
  have da: "d \<noteq> Some a"
    using all_live [OF inv] vb assms(3) unfolding d live_def by force
  let ?s1 = "s\<lparr>table := c1, held := held s + {#a#} + hold d\<rparr>"
  have inv1: "cache_inv ?s1" by (rule put_inv [OF inv assms(3) put])
  have "\<exists>h. cache_inv \<lparr>table = c, held = h\<rparr>"
  proof (cases d)
    case None
    with rel have "c = c1" by (simp add: sc_cache_release_def)
    with inv1 show ?thesis by (cases s) (simp, blast)
  next
    case (Some b)
    with release_inv [OF inv1, of b c] rel show ?thesis
      by (cases s) (auto simp: hold_def)
  qed
  then obtain h where inv2: "cache_inv \<lparr>table = c, held = h\<rparr>" by blast
  note same = release_other [OF rel da]
  have "slots c ! victim = Some a" "victim < length (slots c)" "store c a = Some ?e"
    using same vb by (simp_all add: c1)
  moreover have "\<not> entry_expired c ?e now'"
    using assms(5) same(3) by (auto simp: entry_expired_def c1)
  ultimately show ?thesis
    using lookup_hit [OF inv2 assms(2), of victim a ?e now'] r
    by (auto simp: sc_cache_entry_value_def)
qed

theorem cache_put_get_witness:
  "\<exists>c c'. sc_cache_put (table demo_start) (Some 5) 0 ''k'' 9 = Some (c, Some 5) \<and>
      sc_cache_get c 999 ''k'' = Some (c', Some 5) \<and> sc_cache_entry_value c' (Some 5) = Some (Some 9)"
proof -
  have "sc_cache_put (table demo_start) (Some 5) 0 ''k'' 9 \<noteq> None"
    by (rule put_defined [OF cs.reach_inv [OF demo_reach]]) (simp add: demo_empty)
  then obtain c r where put: "sc_cache_put (table demo_start) (Some 5) 0 ''k'' 9 = Some (c, r)"
    by (metis not_None_eq surj_pair)
  have "\<not> bad_key ''k''" "store (table demo_start) 5 = None"
    "hard_timeout_ms (table demo_start) \<le> 0 \<or> 999 - 0 < hard_timeout_ms (table demo_start)"
    by (simp_all add: bad_key_def SC_CACHE_KEY_MAX_def demo_empty)
  from cache_put_get [OF demo_reach this(1,2) put this(3)] put show ?thesis by auto
qed

text \<open>
  An entry is freed exactly when its last reference goes: releasing a held reference in a
  reachable state calls the value's free callback if and only if no slot of the table and no
  other holder refers to the entry, and otherwise the entry stays allocated.
\<close>

theorem cache_frees_last_reference:
  assumes "reach cache_init cache_step s" and "a \<in># held s"
    and "sc_cache_release (table s) (Some a) = Some c"
  shows "\<exists>e. store (table s) a = Some e \<and>
     (if Some a \<notin> set (slots (table s)) \<and> count (held s) a = 1
      then freed c = freed (table s) @ (if free_value (table s) then [evalue e] else []) \<and> store c a = None
      else freed c = freed (table s) \<and> store c a = Some (e\<lparr>references := references e - 1\<rparr>))"
proof -
  have inv: "cache_inv s" by (rule cs.reach_inv [OF assms(1)])
  obtain e where e: "store (table s) a = Some e"
    using assms(3) by (auto simp: sc_cache_release_def split: option.splits)
  then have "references e = int (refs s a)"
    using inv counts_okD(2) unfolding cache_inv_def by blast
  then have "references e - 1 = 0 \<longleftrightarrow> count (mset (slots (table s))) (Some a) + count (held s) a = 1"
    unfolding refs_def by linarith
  also have "\<dots> \<longleftrightarrow> count (mset (slots (table s))) (Some a) = 0 \<and> count (held s) a = 1"
    using assms(2) count_greater_zero_iff [of "held s" a] by linarith
  finally have "references e - 1 = 0 \<longleftrightarrow> Some a \<notin> set (slots (table s)) \<and> count (held s) a = 1"
    by (simp add: count_eq_zero_iff)
  with assms(3) e show ?thesis
    by (auto simp: sc_cache_release_def Let_def split: if_splits)
qed

theorem cache_frees_last_reference_witness:
  "\<exists>(s :: cache_sys) c e. 5 \<in># held s \<and> sc_cache_release (table s) (Some 5) = Some c \<and>
     Some 5 \<in> set (slots (table s)) \<and> store c 5 = Some e \<and> freed c = freed (table s)"
proof -
  obtain s c d where put: "put_locked (table demo_start) 5 0 ''k'' 9 = Some (c, d)"
    and s: "s = demo_start\<lparr>table := c, held := held demo_start + {#5#} + hold d\<rparr>"
    and r: "reach cache_init cache_step s" and h: "5 \<in># held s" by (rule demo_put)
  have shape: "shape_ok (table demo_start)"
    using cs.reach_inv [OF demo_reach] by (simp add: cache_inv_def)
  have slot: "Some 5 \<in> set (slots (table s))"
    by (rule put_locked_eq [OF put shape]) (simp add: s set_update_memI)
  obtain c' where rel: "sc_cache_release (table s) (Some 5) = Some c'"
    using release_held [OF cs.reach_inv [OF r] h] by blast
  from cache_frees_last_reference [OF r h rel] slot h rel show ?thesis by auto
qed

end
