(* ===== verification/CText.thy ===== *)
theory CText
  imports Prelude "HOL-Library.Monad_Syntax"
begin

text \<open>
  The text functions of the C standard library the servers call: \<^verbatim>\<open>isspace\<close>, decimal printing
  (\<^verbatim>\<open>%u\<close>), \<^verbatim>\<open>strtoul\<close> in base 10 on a 64-bit \<^verbatim>\<open>unsigned long\<close>, \<^verbatim>\<open>fgets\<close> on a text file, and
  hexadecimal digits.  They are the language's, so they have definitions here and no source lines.
\<close>

section \<open>Decimal numbers\<close>

definition is_space :: "char \<Rightarrow> bool" where
  "is_space c \<longleftrightarrow> c = SPACE \<or> in_range 9 13 c"

definition digit_char :: "nat \<Rightarrow> char" where
  "digit_char d = char_of (48 + d)"

definition digit_val :: "char \<Rightarrow> nat" where
  "digit_val c = code_of c - 48"

text \<open>\<^verbatim>\<open>printf("%u", n)\<close>.\<close>

fun dec_text :: "nat \<Rightarrow> string" where
  "dec_text n = (if n < 10 then [digit_char n] else dec_text (n div 10) @ [digit_char (n mod 10)])"

declare dec_text.simps [simp del]

definition dec_val :: "string \<Rightarrow> nat" where
  "dec_val ds = foldl (\<lambda>n c. 10 * n + digit_val c) 0 ds"

text \<open>
  \<^verbatim>\<open>strtoul(text, &end, 10)\<close>: the value and the rest of the text; no digits is the value 0 and
  the whole text.  A value that does not fit is clamped, a minus sign negates modulo \<open>2 ^ 64\<close>.
\<close>

definition strtoul :: "string \<Rightarrow> nat \<times> string" where
  "strtoul text =
     (let t = dropWhile is_space text;
          negative = (t \<noteq> [] \<and> hd t = CHR ''-'');
          u = (if t \<noteq> [] \<and> (hd t = CHR ''-'' \<or> hd t = CHR ''+'') then tl t else t);
          ds = takeWhile is_digit u;
          v = dec_val ds
      in if ds = [] then (0, text)
         else (if v \<ge> 2 ^ 64 then 2 ^ 64 - 1 else if negative \<and> v \<noteq> 0 then 2 ^ 64 - v else v,
               dropWhile is_digit u))"

lemma code_of_char_of [simp]: "n < 256 \<Longrightarrow> code_of (char_of n) = n"
  by (simp add: code_of_def)

lemma digit_char_digit [simp]: "d < 10 \<Longrightarrow> is_digit (digit_char d)"
  by (simp add: is_digit_def in_range_def digit_char_def)

lemma digit_val_char [simp]: "d < 10 \<Longrightarrow> digit_val (digit_char d) = d"
  by (simp add: digit_val_def digit_char_def)

lemma digit_not_space: "is_digit c \<Longrightarrow> \<not> is_space c"
  by (auto simp: is_digit_def is_space_def in_range_def code_of_def)

lemma digit_not_sign: "is_digit c \<Longrightarrow> c \<noteq> CHR ''-'' \<and> c \<noteq> CHR ''+'' \<and> c \<noteq> CHR '',''"
  by (auto simp: is_digit_def in_range_def code_of_def)

lemma dec_text_digits: "c \<in> set (dec_text n) \<Longrightarrow> is_digit c"
  by (induction n rule: dec_text.induct)
    (subst (asm) dec_text.simps, auto split: if_splits)

lemma dec_text_nonempty [simp]: "dec_text n \<noteq> []"
  by (subst dec_text.simps) simp

lemma dec_val_text [simp]: "dec_val (dec_text n) = n"
proof (induction n rule: dec_text.induct)
  case (1 n)
  show ?case
    by (subst dec_text.simps) (use 1 in \<open>auto simp: dec_val_def\<close>)
qed

lemma strtoul_dec_text:
  assumes "n < 2 ^ 64" and "rest = [] \<or> \<not> is_digit (hd rest)"
  shows "strtoul (dec_text n @ rest) = (n, rest)"
proof -
  have all: "\<forall>c \<in> set (dec_text n). is_digit c" using dec_text_digits by blast
  then have hd: "is_digit (hd (dec_text n))" by (metis dec_text_nonempty list.set_sel(1))
  have "dropWhile is_space (dec_text n @ rest) = dec_text n @ rest"
    using digit_not_space [OF hd] by (cases "dec_text n") auto
  moreover have "takeWhile is_digit (dec_text n @ rest) = dec_text n"
    using all assms(2) by (cases rest) auto
  moreover have "dropWhile is_digit (dec_text n @ rest) = rest"
    using all assms(2) by (cases rest) auto
  ultimately show ?thesis
    using digit_not_sign [OF hd] assms(1)
    by (simp add: strtoul_def Let_def)
qed

lemma strtoul_progress:
  assumes "strtoul text = (v, rest)" and "rest \<noteq> text"
  shows "length rest < length text"
proof -
  define t where "t = dropWhile is_space text"
  define u where "u = (if t \<noteq> [] \<and> (hd t = CHR ''-'' \<or> hd t = CHR ''+'') then tl t else t)"
  have some: "takeWhile is_digit u \<noteq> []" and rest: "rest = dropWhile is_digit u"
    using assms by (auto simp: strtoul_def Let_def t_def [symmetric] u_def [symmetric] split: if_splits)
  have "length u \<le> length text"
    using length_dropWhile_le [of is_space "text"] by (auto simp: u_def t_def)
  moreover have "length (takeWhile is_digit u) + length (dropWhile is_digit u) = length u"
    by (metis length_append takeWhile_dropWhile_id)
  ultimately show ?thesis using some unfolding rest by (cases "takeWhile is_digit u") auto
qed

lemma strtoul_bound: "fst (strtoul text) < 2 ^ 64"
  by (auto simp: strtoul_def Let_def)

interpretation decimal: codec dec_text "\<lambda>s. let (v, r) = strtoul s in if r = [] then Some v else None"
  "\<lambda>n. n < 2 ^ 64"
  by unfold_locales (use strtoul_dec_text [of _ "[]"] in simp)

lemma dec_text_inj: "m < 2 ^ 64 \<Longrightarrow> n < 2 ^ 64 \<Longrightarrow> dec_text m = dec_text n \<Longrightarrow> m = n"
  by (rule decimal.enc_inj)

text \<open>
  \<^verbatim>\<open>strtoll(text, NULL, 10)\<close>: clamped to 64 bits signed; 0 when there are no digits.
\<close>

definition sign_split :: "string \<Rightarrow> bool \<times> string" where
  "sign_split t =
     (if t \<noteq> [] \<and> hd t = CHR ''-'' then (True, tl t)
      else if t \<noteq> [] \<and> hd t = CHR ''+'' then (False, tl t)
      else (False, t))"

definition strtoll :: "string \<Rightarrow> int" where
  "strtoll txt =
     (let (negative, u) = sign_split (dropWhile is_space txt);
          v = int (dec_val (takeWhile is_digit u));
          w = (if negative then - v else v)
      in max (- (2 ^ 63)) (min (2 ^ 63 - 1) w))"

text \<open>
  One \<^verbatim>\<open>%d\<close> of \<^verbatim>\<open>sscanf\<close> with a field of at most \<open>width\<close> characters: blanks are skipped, then a
  sign and digits; \<open>None\<close> when there is no digit.
\<close>

definition scan_int :: "nat \<Rightarrow> string \<Rightarrow> (int \<times> string) option" where
  "scan_int width txt =
     (let t = dropWhile is_space txt;
          (negative, u) = sign_split (take width t);
          ds = takeWhile is_digit u;
          used = length (take width t) - length u + length ds
      in if ds = [] then None
         else Some (if negative then - int (dec_val ds) else int (dec_val ds), drop used t))"

definition scan_char :: "char \<Rightarrow> string \<Rightarrow> string option" where
  "scan_char c txt = (if txt \<noteq> [] \<and> hd txt = c then Some (tl txt) else None)"

text \<open>\<^verbatim>\<open>sscanf(text, "%d-%d-%d %d:%d:%d%n", ...) == 6\<close>, with the rest of the text.\<close>

definition scan_datetime :: "string \<Rightarrow> (int \<times> int \<times> int \<times> int \<times> int \<times> int \<times> string) option" where
  "scan_datetime txt = do {
     (year, p) \<leftarrow> scan_int (length txt) txt;
     p \<leftarrow> scan_char (CHR ''-'') p;
     (month, p) \<leftarrow> scan_int (length p) p;
     p \<leftarrow> scan_char (CHR ''-'') p;
     (day, p) \<leftarrow> scan_int (length p) p;
     (hour, p) \<leftarrow> scan_int (length p) (dropWhile is_space p);
     p \<leftarrow> scan_char (CHR '':'') p;
     (minute, p) \<leftarrow> scan_int (length p) p;
     p \<leftarrow> scan_char (CHR '':'') p;
     (second, p) \<leftarrow> scan_int (length p) p;
     Some (year, month, day, hour, minute, second, p)
   }"

text \<open>\<^verbatim>\<open>sscanf(text, "%2d:%2d", &oh, &om)\<close> over zeroes: what was not read stays zero.\<close>

definition scan_offset :: "string \<Rightarrow> int \<times> int" where
  "scan_offset txt =
     (case scan_int 2 txt of
        None \<Rightarrow> (0, 0)
      | Some (oh, p) \<Rightarrow>
         (case Option.bind (scan_char (CHR '':'') p) (scan_int 2) of
            None \<Rightarrow> (oh, 0)
          | Some (om, _) \<Rightarrow> (oh, om)))"

section \<open>Lines of a file\<close>

text \<open>
  \<^verbatim>\<open>fgets(out, size, file)\<close> at the start of a file: at most \<open>size - 1\<close> characters, up to and
  with the first newline; \<open>None\<close> at the end of the file.
\<close>

definition fgets :: "nat \<Rightarrow> string \<Rightarrow> string option" where
  "fgets out_size content =
     (if content = [] then None
      else (let line = takeWhile (\<lambda>c. c \<noteq> LF) content;
                full = (if length line < length content then line @ [LF] else line)
            in Some (take (out_size - 1) full)))"

section \<open>Hexadecimal digits\<close>

definition hex_char :: "nat \<Rightarrow> char" where
  "hex_char d = (if d < 10 then char_of (48 + d) else char_of (87 + d))"

text \<open>The value of a hex digit of either case.\<close>

definition hex_val :: "char \<Rightarrow> nat option" where
  "hex_val c =
     (if is_digit c then Some (code_of c - 48)
      else if in_range 97 102 c then Some (code_of c - 97 + 10)
      else if in_range 65 70 c then Some (code_of c - 65 + 10)
      else None)"

lemma hex_val_char [simp]: "d < 16 \<Longrightarrow> hex_val (hex_char d) = Some d"
  by (auto simp: hex_val_def hex_char_def is_digit_def in_range_def)

lemma hex_val_bound: "hex_val c = Some d \<Longrightarrow> d < 16"
  by (auto simp: hex_val_def is_digit_def in_range_def split: if_splits)

end
