(* ===== verification/Topology.thy ===== *)
theory Topology
  imports CText
begin

unbundle bit_operations_syntax

text \<open>
  Cache groups of the machine (\<^verbatim>\<open>service-core/src/topology.c\<close>, \<^verbatim>\<open>topology.h\<close>): sets of CPUs as
  bit arrays, the kernel's CPU list format, the groups found in sysfs, and the rule that spreads
  event loops and database workers over them.

  What the machine answers is an argument: the affinity mask of the calling thread and the two
  sysfs files of each cache index.  Texts are C strings, the end of the list is the terminator.
  The array \<^verbatim>\<open>groups\<close> and its \<^verbatim>\<open>group_count\<close> are one list.
\<close>

section \<open>Sets of CPUs\<close>

definition SC_CPU_MAX :: nat where "SC_CPU_MAX = 1024"
definition SC_CPU_GROUPS_MAX :: nat where "SC_CPU_GROUPS_MAX = 256"

record sc_cpu_set =
  bits :: "64 word list"

definition sc_cpu_set_clear :: sc_cpu_set where
  "sc_cpu_set_clear = \<lparr>bits = replicate (SC_CPU_MAX div 64) 0\<rparr>"

definition sc_cpu_set_add :: "sc_cpu_set \<Rightarrow> nat \<Rightarrow> sc_cpu_set" where
  "sc_cpu_set_add cs cpu =
     (if cpu < SC_CPU_MAX
      then cs\<lparr>bits := (bits cs)[cpu div 64 := bits cs ! (cpu div 64) OR push_bit (cpu mod 64) 1]\<rparr>
      else cs)"

definition sc_cpu_set_has :: "sc_cpu_set \<Rightarrow> nat \<Rightarrow> bool" where
  "sc_cpu_set_has cs cpu \<longleftrightarrow>
     cpu < SC_CPU_MAX \<and> drop_bit (cpu mod 64) (bits cs ! (cpu div 64)) AND 1 \<noteq> 0"

lemma clear_lowest_less: "(w :: 64 word) \<noteq> 0 \<Longrightarrow> unat (w AND (w - 1)) < unat w"
proof -
  assume "w \<noteq> 0"
  have "w AND (w - 1) \<le> w - 1" by (rule word_and_le1)
  moreover have "w - 1 < w" using \<open>w \<noteq> 0\<close> by (simp add: word_less_nat_alt unat_minus_one unat_gt_0)
  ultimately show ?thesis by (simp add: word_less_nat_alt word_le_nat_alt)
qed

text \<open>\<^verbatim>\<open>while (word != 0) { word &= word - 1; ++count; }\<close>.\<close>

function word_count :: "64 word \<Rightarrow> nat" where
  "word_count word = (if word = 0 then 0 else Suc (word_count (word AND (word - 1))))"
  by auto

termination by (relation "measure unat") (use clear_lowest_less in auto)

declare word_count.simps [simp del]

definition sc_cpu_set_count :: "sc_cpu_set \<Rightarrow> nat" where
  "sc_cpu_set_count cs = foldl (\<lambda>count word. count + word_count word) 0 (bits cs)"

definition sc_cpu_set_merge :: "sc_cpu_set \<Rightarrow> sc_cpu_set \<Rightarrow> sc_cpu_set" where
  "sc_cpu_set_merge into from = into\<lparr>bits := map2 (OR) (bits into) (bits from)\<rparr>"

definition sets_equal :: "sc_cpu_set \<Rightarrow> sc_cpu_set \<Rightarrow> bool" where
  "sets_equal a b \<longleftrightarrow> bits a = bits b"

section \<open>The kernel's CPU lists\<close>

lemma cpu_list_progress:
  assumes "strtoul p = (first, e1)" "e1 \<noteq> p"
    and "(if e1 \<noteq> [] \<and> hd e1 = CHR ''-'' then strtoul (tl e1) else (first, e1)) = (final, e2)"
    and "\<not> ((e1 \<noteq> [] \<and> hd e1 = CHR ''-'') \<and> (e2 = tl e1 \<or> final < first))"
  shows "length e2 < length p"
proof -
  have "length e1 < length p" using strtoul_progress [OF assms(1,2)] .
  then show ?thesis
    using assms(3,4) strtoul_progress [of "tl e1" final e2]
    by (cases e1) (auto split: if_splits)
qed

function (sequential) cpu_list_walk :: "string \<Rightarrow> sc_cpu_set \<Rightarrow> bool \<times> sc_cpu_set" where
  "cpu_list_walk p out =
     (if p = [] \<or> hd p = LF then (True, out)
      else
        (let (first, e1) = strtoul p in
         if e1 = p then (False, out)
         else
           (let range = (e1 \<noteq> [] \<and> hd e1 = CHR ''-'');
                (final, e2) = (if range then strtoul (tl e1) else (first, e1))
            in if range \<and> (e2 = tl e1 \<or> final < first) then (False, out)
               else if final \<ge> SC_CPU_MAX then (False, out)
               else
                 (let out' = fold (\<lambda>cpu s. sc_cpu_set_add s cpu) [first..<Suc final] out
                  in if e2 \<noteq> [] \<and> hd e2 = CHR '','' then cpu_list_walk (tl e2) out'
                     else if e2 \<noteq> [] \<and> hd e2 \<noteq> LF then (False, out')
                     else cpu_list_walk e2 out'))))"
  by pat_completeness auto

termination
proof (relation "measure (\<lambda>(p, out). length p)", goal_cases)
  case (2 p out x first e1 range y final e2 out')
  with cpu_list_progress [of p first e1 final e2] show ?case by (cases e2) auto
next
  case (3 p out x first e1 range y final e2 out')
  with cpu_list_progress [of p first e1 final e2] show ?case by auto
qed simp

declare cpu_list_walk.simps [simp del]

text \<open>A missing text is \<open>None\<close>.  The set is the caller's, filled as far as the walk came.\<close>

definition sc_cpu_list_parse :: "string option \<Rightarrow> bool \<times> sc_cpu_set" where
  "sc_cpu_list_parse txt =
     (case txt of None \<Rightarrow> (False, sc_cpu_set_clear)
      | Some t \<Rightarrow> cpu_list_walk t sc_cpu_set_clear)"

section \<open>Groups\<close>

record sc_topology =
  groups :: "sc_cpu_set list"
  cpus_in :: "nat list"
  pinnable :: bool

abbreviation group_count :: "sc_topology \<Rightarrow> nat" where
  "group_count t \<equiv> length (groups t)"

definition restrict_to :: "sc_cpu_set option \<Rightarrow> sc_cpu_set \<Rightarrow> sc_cpu_set" where
  "restrict_to allowed cs =
     (case allowed of None \<Rightarrow> cs | Some a \<Rightarrow> cs\<lparr>bits := map2 (AND) (bits cs) (bits a)\<rparr>)"

fun from_lists_walk :: "string option list \<Rightarrow> sc_cpu_set option \<Rightarrow> sc_topology \<Rightarrow> sc_topology" where
  "from_lists_walk [] allowed out = out"
| "from_lists_walk (l # ls) allowed out =
     (if group_count out = SC_CPU_GROUPS_MAX then out
      else
        (let (ok, parsed) = sc_cpu_list_parse l;
             cs = restrict_to allowed parsed
         in if \<not> ok then from_lists_walk ls allowed out
            else if sc_cpu_set_count cs = 0 then from_lists_walk ls allowed out
            else if list_ex (\<lambda>g. sets_equal g cs) (groups out) then from_lists_walk ls allowed out
            else from_lists_walk ls allowed
                   (out\<lparr>groups := groups out @ [cs],
                        cpus_in := cpus_in out @ [sc_cpu_set_count cs mod 2 ^ 16]\<rparr>)))"

definition sc_topology_from_lists :: "string option list \<Rightarrow> sc_cpu_set option \<Rightarrow> sc_topology" where
  "sc_topology_from_lists names allowed =
     (let out = from_lists_walk names allowed \<lparr>groups = [], cpus_in = [], pinnable = False\<rparr>
      in out\<lparr>pinnable := (group_count out \<noteq> 0)\<rparr>)"

fun group_walk :: "nat list \<Rightarrow> nat \<Rightarrow> nat \<Rightarrow> nat \<Rightarrow> nat option" where
  "group_walk [] g seen position = None"
| "group_walk (c # cs) g seen position =
     (if position < seen + c then Some g else group_walk cs (Suc g) (seen + c) position)"

definition sc_topology_group_of :: "sc_topology \<Rightarrow> nat \<Rightarrow> nat \<Rightarrow> nat" where
  "sc_topology_group_of topology index count =
     (if group_count topology \<le> 1 \<or> count = 0 then 0
      else
        (let total = sum_list (cpus_in topology);
             position = ((2 * index + 1) * total) div (2 * count)
         in case group_walk (cpus_in topology) 0 0 position of
              Some g \<Rightarrow> g
            | None \<Rightarrow> group_count topology - 1))"

section \<open>Reading the machine\<close>

text \<open>
  \<open>affinity\<close> is the mask the thread library filled, \<open>None\<close> when it could not be asked;
  \<open>parallelism\<close> is the number of CPUs assumed then.
\<close>

definition allowed_cpus :: "bool list option \<Rightarrow> nat \<Rightarrow> sc_cpu_set" where
  "allowed_cpus affinity parallelism =
     (case affinity of
        None \<Rightarrow> fold (\<lambda>cpu s. sc_cpu_set_add s cpu) [0..<min parallelism SC_CPU_MAX] sc_cpu_set_clear
      | Some m \<Rightarrow>
          fold (\<lambda>cpu s. if m ! cpu then sc_cpu_set_add s cpu else s)
               [0..<min (length m) SC_CPU_MAX] sc_cpu_set_clear)"

definition read_line :: "string option \<Rightarrow> nat \<Rightarrow> string option" where
  "read_line content out_size =
     (case content of None \<Rightarrow> None
      | Some c \<Rightarrow>
         (case fgets out_size c of None \<Rightarrow> None
          | Some line \<Rightarrow> Some (rtrim (\<lambda>c. c = LF \<or> c = CR) (cstr line))))"

text \<open>\<open>sysfs cpu index\<close> are the files \<^verbatim>\<open>level\<close> and \<^verbatim>\<open>shared_cpu_list\<close> of that cache.\<close>

type_synonym sysfs = "nat \<Rightarrow> nat \<Rightarrow> string option \<times> string option"

fun l3_walk :: "(nat \<Rightarrow> string option \<times> string option) \<Rightarrow> nat \<Rightarrow> nat list \<Rightarrow> string option" where
  "l3_walk files out_size [] = None"
| "l3_walk files out_size (index # rest) =
     (case read_line (fst (files index)) 8 of
        None \<Rightarrow> l3_walk files out_size rest
      | Some level \<Rightarrow>
          if level \<noteq> ''3'' then l3_walk files out_size rest
          else read_line (snd (files index)) out_size)"

definition l3_list_of :: "sysfs \<Rightarrow> nat \<Rightarrow> nat \<Rightarrow> string option" where
  "l3_list_of sys cpu out_size = l3_walk (sys cpu) out_size [0..<10]"

fun load_lists :: "sysfs \<Rightarrow> sc_cpu_set \<Rightarrow> nat list \<Rightarrow> string list \<Rightarrow> string list" where
  "load_lists sys allowed [] names = names"
| "load_lists sys allowed (cpu # cpus) names =
     (if length names = SC_CPU_GROUPS_MAX then names
      else if \<not> sc_cpu_set_has allowed cpu then load_lists sys allowed cpus names
      else
        (case l3_list_of sys cpu 256 of
           None \<Rightarrow> load_lists sys allowed cpus names
         | Some l \<Rightarrow> load_lists sys allowed cpus (if l \<in> set names then names else names @ [l])))"

text \<open>\<open>mem\<close> says whether the list buffer was allocated.\<close>

definition sc_topology_load :: "bool \<Rightarrow> sysfs \<Rightarrow> bool list option \<Rightarrow> nat \<Rightarrow> sc_topology" where
  "sc_topology_load mem sys affinity parallelism =
     (let allowed = allowed_cpus affinity parallelism;
          names = (if mem then load_lists sys allowed [0..<SC_CPU_MAX] [] else []);
          out = sc_topology_from_lists (map Some names) (Some allowed);
          out1 = (if group_count out = 0
                  then \<lparr>groups = [allowed], cpus_in = [sc_cpu_set_count allowed mod 2 ^ 16],
                        pinnable = False\<rparr>
                  else out)
      in if group_count out1 = 1 then out1\<lparr>pinnable := False\<rparr> else out1)"

text \<open>The mask handed to the scheduler, \<open>None\<close> when nothing is pinned.\<close>

definition sc_topology_pin :: "bool \<Rightarrow> nat \<Rightarrow> sc_topology \<Rightarrow> sc_cpu_set \<Rightarrow> bool list option" where
  "sc_topology_pin mem mask_size topology cs =
     (if \<not> pinnable topology then None
      else if mask_size = 0 \<or> \<not> mem then None
      else Some (map (\<lambda>cpu. cpu < SC_CPU_MAX \<and> sc_cpu_set_has cs cpu) [0..<mask_size]))"

section \<open>The bit arrays are sets\<close>

definition set_ok :: "sc_cpu_set \<Rightarrow> bool" where
  "set_ok cs \<longleftrightarrow> length (bits cs) = SC_CPU_MAX div 64"

definition members :: "sc_cpu_set \<Rightarrow> nat set" where
  "members cs = {cpu. sc_cpu_set_has cs cpu}"

lemma has_bit: "sc_cpu_set_has cs cpu \<longleftrightarrow> cpu < SC_CPU_MAX \<and> bit (bits cs ! (cpu div 64)) (cpu mod 64)"
  by (simp add: sc_cpu_set_has_def bit_iff_odd_drop_bit and_one_eq odd_iff_mod_2_eq_one)

lemma slot_less: "cpu < SC_CPU_MAX \<Longrightarrow> set_ok cs \<Longrightarrow> cpu div 64 < length (bits cs)"
  by (simp add: SC_CPU_MAX_def set_ok_def)

lemma clear_ok [simp]: "set_ok sc_cpu_set_clear" "members sc_cpu_set_clear = {}"
  by (auto simp: set_ok_def sc_cpu_set_clear_def members_def has_bit SC_CPU_MAX_def)

lemma add_ok [simp]: "set_ok cs \<Longrightarrow> set_ok (sc_cpu_set_add cs cpu)"
  by (simp add: set_ok_def sc_cpu_set_add_def)

lemma members_add:
  assumes "set_ok cs"
  shows "members (sc_cpu_set_add cs cpu) = members cs \<union> {c. c = cpu \<and> cpu < SC_CPU_MAX}"
proof -
  have "sc_cpu_set_has (sc_cpu_set_add cs cpu) c \<longleftrightarrow> sc_cpu_set_has cs c \<or> c = cpu \<and> cpu < SC_CPU_MAX" for c
  proof (cases "cpu < SC_CPU_MAX \<and> c < SC_CPU_MAX")
    case True
    have "c = cpu \<longleftrightarrow> c div 64 = cpu div 64 \<and> c mod 64 = cpu mod 64"
      by (metis div_mult_mod_eq)
    with True slot_less [OF _ assms] show ?thesis
      by (cases "c div 64 = cpu div 64")
        (auto simp: has_bit sc_cpu_set_add_def bit_or_iff bit_exp_iff)
  qed (auto simp: has_bit sc_cpu_set_add_def)
  then show ?thesis by (auto simp: members_def)
qed

lemma add_all:
  assumes "set xs \<subseteq> {..<SC_CPU_MAX}" and "set_ok cs"
  shows "set_ok (fold (\<lambda>cpu s. sc_cpu_set_add s cpu) xs cs) \<and>
         members (fold (\<lambda>cpu s. sc_cpu_set_add s cpu) xs cs) = members cs \<union> set xs"
  using assms by (induction xs arbitrary: cs) (auto simp: members_add)

lemma add_range:
  assumes "set_ok cs" and "b < SC_CPU_MAX"
  shows "set_ok (fold (\<lambda>cpu s. sc_cpu_set_add s cpu) [a..<Suc b] cs)"
    and "members (fold (\<lambda>cpu s. sc_cpu_set_add s cpu) [a..<Suc b] cs) = members cs \<union> {a..b}"
proof -
  have "set [a..<Suc b] = {a..b}" by auto
  then show "set_ok (fold (\<lambda>cpu s. sc_cpu_set_add s cpu) [a..<Suc b] cs)"
    and "members (fold (\<lambda>cpu s. sc_cpu_set_add s cpu) [a..<Suc b] cs) = members cs \<union> {a..b}"
    using add_all [of "[a..<Suc b]" cs] assms by (simp_all del: upt_Suc add: subset_iff)
qed

lemma merge_ok:
  assumes "set_ok a" "set_ok b"
  shows "set_ok (sc_cpu_set_merge a b)" "members (sc_cpu_set_merge a b) = members a \<union> members b"
  using assms slot_less [OF _ assms(1)] slot_less [OF _ assms(2)]
  by (auto simp: set_ok_def sc_cpu_set_merge_def members_def has_bit bit_or_iff)

lemma restrict_ok:
  assumes "set_ok a" "set_ok cs"
  shows "set_ok (restrict_to (Some a) cs)" "members (restrict_to (Some a) cs) = members cs \<inter> members a"
  using assms slot_less [OF _ assms(1)] slot_less [OF _ assms(2)]
  by (auto simp: set_ok_def restrict_to_def members_def has_bit bit_and_iff)

text \<open>Clearing the lowest bit removes one member, so the loop counts the bits.\<close>

lemma lowest_bit_split: "n \<noteq> 0 \<Longrightarrow> \<exists>k m. (n :: nat) = 2 ^ k * (2 * m + 1)"
proof (induction n rule: less_induct)
  case (less n)
  show ?case
  proof (cases "even n")
    case True
    then obtain q where q: "n = 2 * q" by (elim evenE)
    with less.prems have "q < n" "q \<noteq> 0" by auto
    then obtain k m where "q = 2 ^ k * (2 * m + 1)" using less.IH by blast
    with q have "n = 2 ^ Suc k * (2 * m + 1)" by simp
    then show ?thesis by blast
  next
    case False
    then obtain m where "n = 2 * m + 1" by (elim oddE)
    then have "n = 2 ^ 0 * (2 * m + 1)" by simp
    then show ?thesis by blast
  qed
qed

lemma lowest_bit_nat:
  fixes m k :: nat
  defines "n \<equiv> 2 ^ k * (2 * m + 1)"
  shows "odd (n div 2 ^ i) \<and> odd ((n - 1) div 2 ^ i) \<longleftrightarrow> odd (n div 2 ^ i) \<and> i \<noteq> k" and "odd (n div 2 ^ k)"
proof -
  have pos: "(2 :: nat) ^ k > 0" by simp
  have n1: "n - 1 = 2 ^ k * (2 * m) + (2 ^ k - 1)"
    using pos unfolding n_def by (simp add: algebra_simps)
  have at_k: "n div 2 ^ k = 2 * m + 1" "(n - 1) div 2 ^ k = 2 * m"
    unfolding n1 using pos by (simp_all add: n_def div_mult_self4 del: One_nat_def add_diff_assoc)
  show "odd (n div 2 ^ k)" using at_k by simp
  consider "i < k" | "i = k" | j where "i = k + 1 + j"
    by (metis Suc_eq_plus1 less_iff_Suc_add linorder_neqE_nat add.assoc add.commute)
  then show "odd (n div 2 ^ i) \<and> odd ((n - 1) div 2 ^ i) \<longleftrightarrow> odd (n div 2 ^ i) \<and> i \<noteq> k"
  proof cases
    case 1
    then obtain j where "k = i + Suc j" by (metis add_Suc_right less_iff_Suc_add)
    then have "n div 2 ^ i = 2 ^ Suc j * (2 * m + 1)" by (simp add: n_def power_add)
    then show ?thesis by simp
  next
    case 2
    with at_k show ?thesis by simp
  next
    case 3
    have "x div 2 ^ i = x div 2 ^ k div 2 div 2 ^ j" for x :: nat
      unfolding 3 by (simp only: power_add power_one_right div_mult2_eq)
    with at_k have "n div 2 ^ i = (n - 1) div 2 ^ i" by simp
    with 3 show ?thesis by simp
  qed
qed

lemma clear_lowest_bit:
  assumes "(w :: 64 word) \<noteq> 0"
  obtains k where "k < 64" "bit w k" "\<And>i. bit (w AND (w - 1)) i \<longleftrightarrow> bit w i \<and> i \<noteq> k"
proof -
  obtain k m where n: "unat w = 2 ^ k * (2 * m + 1)"
    using lowest_bit_split [of "unat w"] assms by (auto simp: unat_eq_0)
  have bit: "bit v i \<longleftrightarrow> odd (unat v div 2 ^ i)" for v :: "64 word" and i
    by (metis bit_iff_odd bit_unsigned_iff bit_imp_possible_bit possible_bit_nat)
  have one: "unat (w - 1) = unat w - 1" using assms by (simp add: unat_minus_one)
  have k: "bit w k" unfolding bit n by (rule lowest_bit_nat)
  then have "k < 64" using bit_imp_le_length [of w k] by simp
  moreover have "bit (w AND (w - 1)) i \<longleftrightarrow> bit w i \<and> i \<noteq> k" for i
    using lowest_bit_nat(1) [of k m i] unfolding bit_and_iff unfolding bit one n .
  ultimately show thesis using that k by blast
qed

lemma word_count_card: "word_count w = card {i. i < 64 \<and> bit w i}"
proof (induction w rule: word_count.induct)
  case (1 w)
  show ?case
  proof (cases "w = 0")
    case False
    then obtain k where k: "k < 64" "bit w k" "\<And>i. bit (w AND (w - 1)) i \<longleftrightarrow> bit w i \<and> i \<noteq> k"
      using clear_lowest_bit [OF False] by metis
    then have "{i. i < 64 \<and> bit w i} = insert k {i. i < 64 \<and> bit (w AND (w - 1)) i}" by auto
    moreover have "k \<notin> {i. i < 64 \<and> bit (w AND (w - 1)) i}" using k by simp
    moreover have "finite {i. i < (64::nat) \<and> bit (w AND (w - 1)) i}" by simp
    ultimately have "card {i. i < 64 \<and> bit w i} = Suc (card {i. i < 64 \<and> bit (w AND (w - 1)) i})" by simp
    with 1 False show ?thesis by (simp add: word_count.simps)
  qed (simp add: word_count.simps)
qed

lemma foldl_count: "foldl (\<lambda>n w. n + word_count w) a ws = a + (\<Sum>i<length ws. word_count (ws ! i))"
  by (induction ws rule: rev_induct) (auto simp: nth_append)

lemma count_card:
  assumes "set_ok cs"
  shows "sc_cpu_set_count cs = card (members cs)"
proof -
  let ?S = "SIGMA i:{..<16}. {j. j < 64 \<and> bit (bits cs ! i) j}"
  have "members cs = (\<lambda>(i, j). 64 * i + j) ` ?S"
  proof (rule set_eqI)
    fix c
    have "c \<in> members cs \<longleftrightarrow> (c div 64, c mod 64) \<in> ?S"
      by (auto simp: members_def has_bit SC_CPU_MAX_def)
    also have "\<dots> \<longleftrightarrow> c \<in> (\<lambda>(i, j). 64 * i + j) ` ?S"
      by (force intro: image_eqI [of _ _ "(c div 64, c mod 64)"])
    finally show "c \<in> members cs \<longleftrightarrow> c \<in> (\<lambda>(i, j). 64 * i + j) ` ?S" .
  qed
  moreover have "inj_on (\<lambda>(i, j). 64 * i + j) ?S"
  proof (rule inj_onI, clarify)
    fix a b c d :: nat
    assume "64 * a + b = 64 * c + d" and "b < 64" and "d < 64"
    then have "(64 * a + b) div 64 = (64 * c + d) div 64" by simp
    with \<open>b < 64\<close> \<open>d < 64\<close> have "a = c" by simp
    with \<open>64 * a + b = 64 * c + d\<close> show "a = c \<and> b = d" by simp
  qed
  ultimately have "card (members cs) = card ?S" by (simp add: card_image)
  also have "\<dots> = (\<Sum>i<16. word_count (bits cs ! i))" by (simp add: word_count_card)
  finally show ?thesis
    using assms by (simp add: sc_cpu_set_count_def foldl_count set_ok_def SC_CPU_MAX_def)
qed

section \<open>Lists and their sets\<close>

text \<open>The kernel's own text for a list of ranges: \<^verbatim>\<open>a-b,c-d\<close>.\<close>

fun range_list :: "(nat \<times> nat) list \<Rightarrow> string" where
  "range_list [] = []"
| "range_list [(a, b)] = dec_text a @ ''-'' @ dec_text b"
| "range_list ((a, b) # r # rs) = dec_text a @ ''-'' @ dec_text b @ '','' @ range_list (r # rs)"

lemma walk_range:
  assumes "a \<le> b" "b < SC_CPU_MAX" "rest = [] \<or> rest = CHR '','' # rest'"
  shows "cpu_list_walk (dec_text a @ ''-'' @ dec_text b @ rest) out =
           (let out' = fold (\<lambda>cpu s. sc_cpu_set_add s cpu) [a..<Suc b] out
            in if rest = [] then (True, out') else cpu_list_walk rest' out')"
proof -
  let ?p = "dec_text a @ ''-'' @ dec_text b @ rest"
  have big: "a < 2 ^ 64" "b < 2 ^ 64" using assms by (simp_all add: SC_CPU_MAX_def)
  have "\<not> is_digit (CHR ''-'')" "\<not> is_digit (CHR '','')"
    by (simp_all add: is_digit_def in_range_def code_of_def)
  with big assms(3) have st: "strtoul ?p = (a, ''-'' @ dec_text b @ rest)"
    "strtoul (dec_text b @ rest) = (b, rest)"
    by (auto intro: strtoul_dec_text)
  have hd: "hd ?p \<noteq> LF"
    using dec_text_digits [of "hd (dec_text a)" a]
    by (auto simp: is_digit_def in_range_def code_of_def)
  have ne: "dec_text b @ rest \<noteq> rest" "''-'' @ dec_text b @ rest \<noteq> ?p" by (auto dest: arg_cong [of _ _ length])
  show ?thesis
    by (subst cpu_list_walk.simps) (use hd st ne assms in \<open>auto simp: Let_def cpu_list_walk.simps [of "[]"]\<close>)
qed

text \<open>
  CPU lists read back: the text the kernel writes for a list of ranges, each within the
  CPUs a set can name, is accepted and gives exactly the CPUs of those ranges.
\<close>

theorem cpu_list_roundtrip:
  assumes "\<forall>(a, b) \<in> set rs. a \<le> b \<and> b < SC_CPU_MAX"
  shows "fst (sc_cpu_list_parse (Some (range_list rs))) \<and>
         (\<forall>cpu. sc_cpu_set_has (snd (sc_cpu_list_parse (Some (range_list rs)))) cpu \<longleftrightarrow>
                (\<exists>(a, b) \<in> set rs. a \<le> cpu \<and> cpu \<le> b))"
proof -
  have "fst (cpu_list_walk (range_list rs) out) \<and>
        members (snd (cpu_list_walk (range_list rs) out)) = members out \<union> (\<Union>(a, b) \<in> set rs. {a..b})"
    if "set_ok out" for out
    using assms that
  proof (induction rs arbitrary: out rule: range_list.induct)
    case (2 a b)
    then show ?case
      using walk_range [of a b "[]" "[]" out] by (simp add: add_range Let_def del: upt_Suc)
  next
    case (3 a b r rs)
    let ?out = "fold (\<lambda>cpu s. sc_cpu_set_add s cpu) [a..<Suc b] out"
    have ab: "a \<le> b" "b < SC_CPU_MAX" using 3(2) by auto
    have "cpu_list_walk (range_list ((a, b) # r # rs)) out = cpu_list_walk (range_list (r # rs)) ?out"
      using walk_range [OF ab, of "'','' @ range_list (r # rs)" "range_list (r # rs)" out] by simp
    then show ?case using 3 add_range [OF 3(3) ab(2), of a] by auto
  qed (simp add: cpu_list_walk.simps)
  from this [OF clear_ok(1)]
  have walk: "fst (cpu_list_walk (range_list rs) sc_cpu_set_clear)"
    "members (snd (cpu_list_walk (range_list rs) sc_cpu_set_clear)) = (\<Union>(a, b) \<in> set rs. {a..b})"
    by simp_all
  have "sc_cpu_set_has cs cpu \<longleftrightarrow> cpu \<in> members cs" for cs cpu by (simp add: members_def)
  then show ?thesis using walk by (simp add: sc_cpu_list_parse_def) (auto simp: Bex_def)
qed

theorem cpu_list_roundtrip_witness:
  "fst (sc_cpu_list_parse (Some ''0-3,8-11'')) \<and>
   sc_cpu_set_has (snd (sc_cpu_list_parse (Some ''0-3,8-11''))) 9 \<and>
   \<not> sc_cpu_set_has (snd (sc_cpu_list_parse (Some ''0-3,8-11''))) 5"
proof -
  have "range_list [(0, 3), (8, 11)] = ''0-3,8-11''"
    by code_simp
  with cpu_list_roundtrip [of "[(0, 3), (8, 11)]"] show ?thesis by (simp add: SC_CPU_MAX_def)
qed

section \<open>The groups found\<close>

lemma walk_ok: "set_ok out \<Longrightarrow> set_ok (snd (cpu_list_walk p out))"
proof (induction p out rule: cpu_list_walk.induct)
  case (1 p out)
  obtain first e1 where e1: "strtoul p = (first, e1)" by fastforce
  let ?range = "e1 \<noteq> [] \<and> hd e1 = CHR ''-''"
  obtain final e2 where e2: "(if ?range then strtoul (tl e1) else (first, e1)) = (final, e2)"
    by fastforce
  let ?out = "fold (\<lambda>cpu s. sc_cpu_set_add s cpu) [first..<Suc final] out"
  note IH = 1(1) [OF _ e1 [symmetric] refl _ refl e2 [symmetric] refl _ _ refl]
    1(2) [OF _ e1 [symmetric] refl _ refl e2 [symmetric] refl _ _ refl]
  have "set_ok ?out" if "final < SC_CPU_MAX" using add_range(1) [OF 1(3) that] .
  with IH 1(3) show ?case
    by (subst cpu_list_walk.simps) (auto simp: e1 e2 Let_def simp del: upt_Suc)
qed

lemma parse_ok: "set_ok (snd (sc_cpu_list_parse l))"
  by (auto simp: sc_cpu_list_parse_def walk_ok split: option.splits)

definition topology_ok :: "sc_cpu_set \<Rightarrow> sc_topology \<Rightarrow> bool" where
  "topology_ok allowed t \<longleftrightarrow>
     group_count t \<le> SC_CPU_GROUPS_MAX \<and> distinct (groups t) \<and>
     (\<forall>g \<in> set (groups t). set_ok g \<and> members g \<noteq> {} \<and> members g \<subseteq> members allowed) \<and>
     cpus_in t = map (\<lambda>g. card (members g)) (groups t)"

lemma card_members: "card (members g) \<le> 1024"
proof -
  have "members g \<subseteq> {..<1024}" by (auto simp: members_def has_bit SC_CPU_MAX_def)
  then show ?thesis using card_mono [of "{..<1024::nat}" "members g"] by simp
qed

lemma from_lists_walk_ok:
  assumes "topology_ok allowed out" "set_ok allowed"
  shows "topology_ok allowed (from_lists_walk ls (Some allowed) out)"
  using assms(1)
proof (induction ls arbitrary: out)
  case (Cons l ls)
  let ?g = "restrict_to (Some allowed) (snd (sc_cpu_list_parse l))"
  let ?out = "out\<lparr>groups := groups out @ [?g], cpus_in := cpus_in out @ [sc_cpu_set_count ?g mod 2 ^ 16]\<rparr>"
  have ok: "set_ok ?g" and mem: "members ?g \<subseteq> members allowed"
    using restrict_ok [OF assms(2) parse_ok [of l]] by auto
  have cnt: "sc_cpu_set_count ?g = card (members ?g)" by (rule count_card [OF ok])
  have "topology_ok allowed ?out"
    if "group_count out \<noteq> SC_CPU_GROUPS_MAX" "sc_cpu_set_count ?g \<noteq> 0" "\<forall>g \<in> set (groups out). bits g \<noteq> bits ?g"
  proof -
    have "sc_cpu_set_count ?g mod 2 ^ 16 = card (members ?g)"
      using card_members [of ?g] unfolding cnt by simp
    with that ok mem Cons.prems cnt show ?thesis by (auto simp: topology_ok_def)
  qed
  with Cons show ?case
    by (auto simp: Let_def list_ex_iff sets_equal_def split: prod.splits)
qed simp

lemma from_lists_walk_keeps:
  "set (groups out) \<subseteq> set (groups (from_lists_walk ls allowed out))"
  by (induction ls allowed out rule: from_lists_walk.induct)
    (auto simp: Let_def split: prod.splits)

lemma from_lists_walk_covers:
  assumes "l \<in> set ls" "fst (sc_cpu_list_parse l)" "group_count (from_lists_walk ls allowed out) < SC_CPU_GROUPS_MAX"
    and "sc_cpu_set_count (restrict_to allowed (snd (sc_cpu_list_parse l))) \<noteq> 0"
  shows "\<exists>g \<in> set (groups (from_lists_walk ls allowed out)).
           sets_equal g (restrict_to allowed (snd (sc_cpu_list_parse l)))"
  using assms(1,3)
proof (induction ls arbitrary: out)
  case (Cons k ls)
  show ?case
  proof (cases "l = k")
    case True
    with Cons.prems assms(2,4) show ?thesis
      using from_lists_walk_keeps [of _ ls allowed]
      by (fastforce simp: Let_def list_ex_iff sets_equal_def split: prod.splits if_splits)
  next
    case False
    with Cons show ?thesis by (auto simp: Let_def split: prod.splits if_splits)
  qed
qed simp

lemma allowed_cpus_ok: "set_ok (allowed_cpus affinity parallelism)"
proof (cases affinity)
  case None
  have "set [0..<min parallelism SC_CPU_MAX] \<subseteq> {..<SC_CPU_MAX}" by auto
  from add_all [OF this, of sc_cpu_set_clear] None show ?thesis
    by (simp add: allowed_cpus_def)
next
  case (Some m)
  have "set_ok (fold (\<lambda>cpu s. if m ! cpu then sc_cpu_set_add s cpu else s) xs cs)" if "set_ok cs" for xs cs
    using that by (induction xs arbitrary: cs) auto
  with Some show ?thesis by (simp add: allowed_cpus_def)
qed

lemma from_lists_ok:
  assumes "set_ok allowed"
  shows "topology_ok allowed (sc_topology_from_lists ls (Some allowed))"
proof -
  have "topology_ok allowed \<lparr>groups = [], cpus_in = [], pinnable = False\<rparr>"
    by (simp add: topology_ok_def)
  from from_lists_walk_ok [OF this assms, of ls] show ?thesis
    by (simp add: topology_ok_def sc_topology_from_lists_def Let_def)
qed

lemma load_wf:
  fixes sys affinity parallelism mem
  defines "allowed \<equiv> allowed_cpus affinity parallelism"
    and "t \<equiv> sc_topology_load mem sys affinity parallelism"
  shows "1 \<le> group_count t \<and> group_count t \<le> SC_CPU_GROUPS_MAX \<and> distinct (groups t) \<and>
    cpus_in t = map (\<lambda>g. card {cpu. sc_cpu_set_has g cpu}) (groups t) \<and>
    list_all (\<lambda>g. {cpu. sc_cpu_set_has g cpu} \<subseteq> {cpu. sc_cpu_set_has allowed cpu} \<and>
       (g = allowed \<or> {cpu. sc_cpu_set_has g cpu} \<noteq> {})) (groups t) \<and>
    (if pinnable t then 1 < group_count t else True)"
proof -
  have ok: "set_ok allowed" unfolding allowed_def by (rule allowed_cpus_ok)
  let ?lists = "if mem then load_lists sys allowed [0..<SC_CPU_MAX] [] else []"
  let ?o = "sc_topology_from_lists (map Some ?lists) (Some allowed)"
  have o: "topology_ok allowed ?o" by (rule from_lists_ok [OF ok])
  have t: "t = (let o1 = (if group_count ?o = 0
        then \<lparr>groups = [allowed], cpus_in = [card (members allowed)], pinnable = False\<rparr> else ?o)
      in if group_count o1 = 1 then o1\<lparr>pinnable := False\<rparr> else o1)"
    using card_members [of allowed]
    by (simp add: t_def sc_topology_load_def allowed_def [symmetric] Let_def count_card [OF ok])
  show ?thesis
  proof (cases "group_count ?o = 0")
    case True
    then show ?thesis by (simp add: t members_def SC_CPU_GROUPS_MAX_def)
  next
    case False
    then have "groups t = groups ?o" "cpus_in t = cpus_in ?o" "pinnable t \<Longrightarrow> group_count ?o \<noteq> 1"
      by (auto simp: t Let_def split: if_splits)
    with False o show ?thesis
      unfolding topology_ok_def members_def list_all_iff by (cases "groups ?o") auto
  qed
qed

text \<open>
  The topology a server starts with is well formed whatever the machine answers: it has at
  least one group and at most the arrays hold, every group has only CPUs the process may run on
  and its recorded size is its number of CPUs, the groups are distinct and, unless the fallback
  group of all allowed CPUs is used, not empty; threads are pinned only when there is more than
  one group.
\<close>

theorem topology_load_wf:
  "let t = sc_topology_load mem sys affinity parallelism; allowed = allowed_cpus affinity parallelism in
    1 \<le> group_count t \<and> group_count t \<le> SC_CPU_GROUPS_MAX \<and> distinct (groups t) \<and>
    cpus_in t = map (\<lambda>g. card {cpu. sc_cpu_set_has g cpu}) (groups t) \<and>
    list_all (\<lambda>g. {cpu. sc_cpu_set_has g cpu} \<subseteq> {cpu. sc_cpu_set_has allowed cpu} \<and>
       (g = allowed \<or> {cpu. sc_cpu_set_has g cpu} \<noteq> {})) (groups t) \<and>
    (if pinnable t then 1 < group_count t else True)"
  unfolding Let_def by (rule load_wf)

theorem topology_load_wf_witness:
  "1 \<le> group_count (sc_topology_load True (\<lambda>_ _. (None, None)) None 4)"
  using topology_load_wf [of True "\<lambda>_ _. (None, None)" None 4] by (simp add: Let_def)

section \<open>Proportional placement\<close>

lemma group_walk_spec:
  assumes "seen \<le> position" "position < seen + sum_list cs"
  shows "\<exists>k < length cs. group_walk cs g seen position = Some (g + k) \<and>
           (\<forall>j < length cs. k \<le> j \<longleftrightarrow> position < seen + sum_list (take (Suc j) cs))"
  using assms
proof (induction cs arbitrary: g seen)
  case (Cons c cs)
  show ?case
  proof (cases "position < seen + c")
    case True
    then show ?thesis by (intro exI [of _ 0]) auto
  next
    case False
    with Cons.prems have "seen + c \<le> position" "position < seen + c + sum_list cs" by simp_all
    from Cons.IH [OF this, of "Suc g"] obtain k where k: "k < length cs"
      "group_walk cs (Suc g) (seen + c) position = Some (Suc g + k)"
      "\<And>j. j < length cs \<Longrightarrow> k \<le> j \<longleftrightarrow> position < seen + c + sum_list (take (Suc j) cs)" by blast
    have "Suc k \<le> j \<longleftrightarrow> position < seen + sum_list (take (Suc j) (c # cs))" if "j < length (c # cs)" for j
      using False k(3) [of "j - 1"] that by (cases j) (auto simp: add.assoc)
    with False k show ?thesis by (intro exI [of _ "Suc k"]) auto
  qed
qed simp

text \<open>Items whose middle lies below \<open>S\<close> of \<open>T\<close> CPUs: half of one item off the exact share.\<close>

lemma share_below:
  fixes n T S :: nat
  assumes "0 < T" "S \<le> T"
  defines "N \<equiv> card {i. i < n \<and> ((2 * i + 1) * T) div (2 * n) < S}"
  shows "2 * N * T < 2 * n * S + T" and "2 * n * S \<le> 2 * N * T + T"
proof -
  have below: "((2 * i + 1) * T) div (2 * n) < S \<longleftrightarrow> (2 * i + 1) * T < 2 * n * S" if "i < n" for i
    using that by (simp add: div_less_iff_less_mult algebra_simps)
  let ?P = "\<lambda>i. i < n \<and> (2 * i + 1) * T < 2 * n * S"
  have N: "N = card {i. ?P i}" unfolding N_def using below by (metis (no_types, lifting))
  have down: "?P j" if "?P i" "j \<le> i" for i j
    using that mult_le_mono1 [of "2 * j + 1" "2 * i + 1" T] by linarith
  have set: "{i. ?P i} = {..<N}"
  proof (cases "{i. ?P i} = {}")
    case True
    then show ?thesis unfolding N by (simp only: card.empty) simp
  next
    case False
    have fin: "finite {i. ?P i}" by simp
    have "{i. ?P i} = {..Max {i. ?P i}}"
    proof (rule set_eqI)
      fix j
      have "?P (Max {i. ?P i})" using Max_in [OF fin False] by simp
      then have "j \<le> Max {i. ?P i} \<Longrightarrow> ?P j" by (rule down)
      moreover have "?P j \<Longrightarrow> j \<le> Max {i. ?P i}" using Max_ge [OF fin, of j] by simp
      ultimately show "j \<in> {i. ?P i} \<longleftrightarrow> j \<in> {..Max {i. ?P i}}" by blast
    qed
    then have "\<exists>m. {i. ?P i} = {..m}" by (rule exI)
    then obtain m where M: "{i. ?P i} = {..<Suc m}" by (auto simp only: lessThan_Suc_atMost)
    show ?thesis unfolding N M by simp
  qed
  show "2 * N * T < 2 * n * S + T"
  proof (cases N)
    case (Suc M)
    then have "?P M" using set by blast
    then have "(2 * M + 1) * T < 2 * n * S" by simp
    with Suc show ?thesis by (simp add: algebra_simps)
  qed (simp only: mult_0_right mult_0 \<open>0 < T\<close> add_gr_0 simp_thms)
  show "2 * n * S \<le> 2 * N * T + T"
  proof (cases "N < n")
    case True
    have "\<not> ?P N" using set by blast
    with True have "2 * n * S \<le> (2 * N + 1) * T" by simp
    then show ?thesis by (simp add: algebra_simps)
  next
    case False
    then have "2 * n * S \<le> 2 * N * T" using mult_le_mono [of n N S T] assms(2) by simp
    then show ?thesis by simp
  qed
qed

lemma group_of_le:
  assumes "length (cpus_in t) = group_count t" "i < n" "0 < sum_list (cpus_in t)" "g < group_count t"
  shows "sc_topology_group_of t i n \<le> g \<longleftrightarrow>
           ((2 * i + 1) * sum_list (cpus_in t)) div (2 * n) < sum_list (take (Suc g) (cpus_in t))"
    and "sc_topology_group_of t i n < group_count t"
proof -
  let ?T = "sum_list (cpus_in t)"
  let ?p = "((2 * i + 1) * ?T) div (2 * n)"
  have "(2 * i + 1) * ?T < 2 * n * ?T" using assms(2,3) by (intro mult_less_mono1) auto
  moreover have "?p < ?T \<longleftrightarrow> (2 * i + 1) * ?T < ?T * (2 * n)"
    by (rule div_less_iff_less_mult) (use assms(2) in simp)
  ultimately have p: "?p < ?T" by (simp only: mult.commute [of ?T])
  show "sc_topology_group_of t i n < group_count t"
    "sc_topology_group_of t i n \<le> g \<longleftrightarrow> ?p < sum_list (take (Suc g) (cpus_in t))"
  proof (atomize (full), cases "group_count t \<le> 1")
    case True
    with assms(4) have "group_count t = 1" "g = 0" by auto
    with p assms(1) show "sc_topology_group_of t i n < group_count t \<and>
      (sc_topology_group_of t i n \<le> g \<longleftrightarrow> ?p < sum_list (take (Suc g) (cpus_in t)))"
      by (simp add: sc_topology_group_of_def)
  next
    case False
    from group_walk_spec [of 0 ?p "cpus_in t" 0] p obtain k where "k < length (cpus_in t)"
      "group_walk (cpus_in t) 0 0 ?p = Some k"
      "\<forall>j < length (cpus_in t). k \<le> j \<longleftrightarrow> ?p < sum_list (take (Suc j) (cpus_in t))" by auto
    with False assms show "sc_topology_group_of t i n < group_count t \<and>
      (sc_topology_group_of t i n \<le> g \<longleftrightarrow> ?p < sum_list (take (Suc g) (cpus_in t)))"
      by (simp add: sc_topology_group_of_def Let_def)
  qed
qed

lemma sum_list_take_le: "sum_list (take g cs) \<le> sum_list (cs :: nat list)"
  by (metis append_take_drop_id le_add1 sum_list_append)

text \<open>
  Loops and workers are spread in proportion to the CPUs: of \<open>n\<close> items placed on a
  topology with \<open>T\<close> CPUs, the number that land in a group of \<open>c\<close> CPUs differs from \<open>n * c / T\<close>
  by less than one, and every item lands in a group that exists.
\<close>

theorem placement_proportional:
  fixes t n g
  defines "T \<equiv> sum_list (cpus_in t)"
    and "k \<equiv> card {i. i < n \<and> sc_topology_group_of t i n = g}"
  assumes "length (cpus_in t) = group_count t" and "0 < T" and "g < group_count t"
  shows "k * T < n * cpus_in t ! g + T \<and> n * cpus_in t ! g < k * T + T \<and>
         (\<forall>i. i < n \<longrightarrow> sc_topology_group_of t i n < group_count t)"
proof -
  let ?S = "\<lambda>g. sum_list (take g (cpus_in t))"
  let ?A = "\<lambda>S. {i. i < n \<and> ((2 * i + 1) * T) div (2 * n) < S}"
  note le = group_of_le [OF assms(3) _ assms(4) [unfolded T_def], folded T_def]
  have S: "?S (Suc g) = ?S g + cpus_in t ! g" using assms(3,5) by (simp add: take_Suc_conv_app_nth)
  have A: "?A (?S h) = {i. i < n \<and> sc_topology_group_of t i n < h}" if "h \<le> group_count t" for h
  proof (cases h)
    case (Suc j)
    then have j: "j < group_count t" using that by simp
    have "((2 * i + 1) * T) div (2 * n) < ?S h \<longleftrightarrow> sc_topology_group_of t i n < h" if "i < n" for i
      using le(1) [OF that j] by (simp only: Suc less_Suc_eq_le)
    then show ?thesis by blast
  qed simp
  have "?A (?S (Suc g)) = ?A (?S g) \<union> {i. i < n \<and> sc_topology_group_of t i n = g}"
    using assms(5) by (simp only: A less_imp_le Suc_leI) auto
  moreover have "?A (?S g) \<inter> {i. i < n \<and> sc_topology_group_of t i n = g} = {}"
    using assms(5) by (simp only: A less_imp_le) auto
  moreover have "finite (?A S)" for S by simp
  ultimately have "card (?A (?S (Suc g))) = card (?A (?S g)) + k"
    unfolding k_def by (simp only: card_Un_disjoint) (rule card_Un_disjoint, simp_all)
  then obtain a b where ab: "a = card (?A (?S g))" "b = card (?A (?S (Suc g)))" "b = a + k" by blast
  have "2 * a * T < 2 * n * ?S g + T" "2 * n * ?S g \<le> 2 * a * T + T"
    "2 * b * T < 2 * n * ?S (Suc g) + T" "2 * n * ?S (Suc g) \<le> 2 * b * T + T"
    unfolding ab(1,2) by (rule share_below [OF assms(4) sum_list_take_le [of _ "cpus_in t", folded T_def]])+
  then have "2 * (k * T) < 2 * (n * cpus_in t ! g + T)" and "2 * (n * cpus_in t ! g) < 2 * (k * T + T)"
    unfolding ab(3) S by (simp_all add: algebra_simps)
  then show ?thesis using le(2) assms(5) by simp
qed

theorem placement_proportional_witness:
  "card {i. i < 4 \<and> sc_topology_group_of \<lparr>groups = [sc_cpu_set_clear, sc_cpu_set_clear],
     cpus_in = [8, 24], pinnable = True\<rparr> i 4 = 1} = 3"
  (is "card {i. i < 4 \<and> sc_topology_group_of ?t i 4 = 1} = 3")
  using placement_proportional [of ?t 1 4] by simp

end
