(* ===== verification/Sql.thy ===== *)
theory Sql
  imports CText
begin

text \<open>
  The database-independent half of running a statement (\<^verbatim>\<open>service-core/src/sql.c\<close>,
  \<^verbatim>\<open>service_core/sql.h\<close>): statement slots, error texts, dispatch to the two drivers, cursors and
  the column readers.

  The drivers are parameters: a record of functions each, over a connection of any type
  \<^typ>\<open>'c\<close> and a result of any type \<^typ>\<open>'h\<close>.  A slot is drawn with atomic operations by any number
  of threads; the sequential \<open>slot_of\<close> and the interleaved step relation share those operations.
\<close>

section \<open>Data\<close>

definition SC_SQL_PARAMS_MAX :: nat where "SC_SQL_PARAMS_MAX = 32"
definition SC_SQL_STATEMENTS_MAX :: int where "SC_SQL_STATEMENTS_MAX = 512"
definition SC_SQL_MESSAGE_MAX :: nat where "SC_SQL_MESSAGE_MAX = 512"

datatype sc_db_kind = SC_DB_POSTGRESQL | SC_DB_SQLITE

datatype sc_sql_error_kind =
    SC_SQL_ERROR_NONE | SC_SQL_ERROR_UNIQUE | SC_SQL_ERROR_FOREIGN_KEY | SC_SQL_ERROR_NOT_NULL
  | SC_SQL_ERROR_CONNECTION | SC_SQL_ERROR_OTHER

record sc_sql_error =
  error_kind :: sc_sql_error_kind
  constraint :: string
  message :: string

text \<open>A value and its type; the data of a text or of bytes is its list of characters.\<close>

datatype sc_sql_param =
    SC_SQL_NULL
  | SC_SQL_INT int
  | SC_SQL_TEXT string bool
  | SC_SQL_BOOL bool
  | SC_SQL_TIME int
  | SC_SQL_BYTES "byte list"

definition sc_sql_null :: sc_sql_param where "sc_sql_null = SC_SQL_NULL"
definition sc_sql_int :: "int \<Rightarrow> sc_sql_param" where "sc_sql_int value = SC_SQL_INT value"
definition sc_sql_bool :: "int \<Rightarrow> sc_sql_param" where "sc_sql_bool value = SC_SQL_BOOL (value \<noteq> 0)"
definition sc_sql_time :: "int \<Rightarrow> sc_sql_param" where "sc_sql_time unix_ms = SC_SQL_TIME unix_ms"
definition sc_sql_text :: "string option \<Rightarrow> sc_sql_param" where
  "sc_sql_text t = (case t of None \<Rightarrow> sc_sql_null | Some s \<Rightarrow> SC_SQL_TEXT s True)"
definition sc_sql_textn :: "string \<Rightarrow> sc_sql_param" where "sc_sql_textn t = SC_SQL_TEXT t False"
definition sc_sql_bytes :: "byte list \<Rightarrow> sc_sql_param" where "sc_sql_bytes d = SC_SQL_BYTES d"

text \<open>A statement is named by a number here; its slot lives in the state below.\<close>

record sc_sql_statement =
  statement_id :: nat
  postgresql :: string
  sqlite :: string

record sql_state =
  last_slot :: int
  slot :: "nat \<Rightarrow> int"

record 'c sc_db =
  kind :: sc_db_kind
  native :: 'c
  rerun_unit :: bool

section \<open>Slots\<close>

text \<open>The atomic operations of \<^verbatim>\<open>slot_of\<close>: load, increment, compare and swap.\<close>

definition slot_load :: "nat \<Rightarrow> sql_state \<Rightarrow> int" where
  "slot_load s st = slot st s"

definition slot_draw :: "sql_state \<Rightarrow> int \<times> sql_state" where
  "slot_draw st = (last_slot st + 1, st\<lparr>last_slot := last_slot st + 1\<rparr>)"

definition slot_cas :: "nat \<Rightarrow> int \<Rightarrow> sql_state \<Rightarrow> bool \<times> sql_state" where
  "slot_cas s drawn st =
     (if slot st s = 0 then (True, st\<lparr>slot := (slot st)(s := drawn)\<rparr>) else (False, st))"

definition slot_of :: "nat \<Rightarrow> sql_state \<Rightarrow> int \<times> sql_state" where
  "slot_of s st =
     (if slot_load s st \<noteq> 0 then (slot_load s st, st)
      else
        (let (drawn, st1) = slot_draw st in
         if drawn \<ge> SC_SQL_STATEMENTS_MAX then (-1, st1)
         else
           (let (kept, st2) = slot_cas s drawn st1 in
            if kept then (drawn, st2) else (slot_load s st2, st2))))"

text \<open>Threads inside \<^verbatim>\<open>slot_of\<close>, between two of its atomic operations.\<close>

datatype slot_pc = Outside | Unassigned nat | Drawn nat int | Lost nat | Answered nat int

record slot_sys =
  shared :: sql_state
  pc :: "nat \<Rightarrow> slot_pc"

text \<open>
  The counter is a 32-bit signed integer: a draw needs it below its maximum, which holds for the
  first two billion draws.
\<close>

inductive slot_step :: "slot_sys \<Rightarrow> slot_sys \<Rightarrow> bool" where
  step_load: "pc w t = Outside \<Longrightarrow> n = slot_load s (shared w) \<Longrightarrow>
    slot_step w (w\<lparr>pc := (pc w)(t := if n \<noteq> 0 then Answered s n else Unassigned s)\<rparr>)"
| step_draw: "pc w t = Unassigned s \<Longrightarrow> last_slot (shared w) < 2 ^ 31 - 1 \<Longrightarrow>
    slot_draw (shared w) = (drawn, st) \<Longrightarrow>
    slot_step w (w\<lparr>shared := st,
      pc := (pc w)(t := if drawn \<ge> SC_SQL_STATEMENTS_MAX then Answered s (-1) else Drawn s drawn)\<rparr>)"
| step_cas: "pc w t = Drawn s drawn \<Longrightarrow> slot_cas s drawn (shared w) = (kept, st) \<Longrightarrow>
    slot_step w (w\<lparr>shared := st, pc := (pc w)(t := if kept then Answered s drawn else Lost s)\<rparr>)"
| step_reload: "pc w t = Lost s \<Longrightarrow>
    slot_step w (w\<lparr>pc := (pc w)(t := Answered s (slot_load s (shared w)))\<rparr>)"
| step_return: "pc w t = Answered s n \<Longrightarrow> slot_step w (w\<lparr>pc := (pc w)(t := Outside)\<rparr>)"

definition slot_init :: "slot_sys \<Rightarrow> bool" where
  "slot_init w \<longleftrightarrow> w = \<lparr>shared = \<lparr>last_slot = 0, slot = (\<lambda>_. 0)\<rparr>, pc = (\<lambda>_. Outside)\<rparr>"

section \<open>Error texts\<close>

text \<open>The loop of \<^verbatim>\<open>sc_sql_set_error\<close>; \<open>out\<close> is what has been written so far.\<close>

fun collapse_line :: "string \<Rightarrow> string \<Rightarrow> string" where
  "collapse_line out [] = out"
| "collapse_line out (m # ms) =
     (if \<not> (length out + 1 < SC_SQL_MESSAGE_MAX) then out
      else
        (let c = (if m = LF \<or> m = CR \<or> m = TAB then SPACE else m) in
         if c = SPACE \<and> (out = [] \<or> last out = SPACE) then collapse_line out ms
         else collapse_line (out @ [c]) ms))"

definition sc_sql_set_error :: "sc_sql_error \<Rightarrow> sc_sql_error_kind \<Rightarrow> string option \<Rightarrow> sc_sql_error" where
  "sc_sql_set_error err k msg =
     (let m = (case msg of None \<Rightarrow> ''the driver gave no reason''
               | Some t \<Rightarrow> if t = [] then ''the driver gave no reason'' else t)
      in err\<lparr>error_kind := k, message := rtrim (\<lambda>c. c = SPACE) (collapse_line [] m)\<rparr>)"

definition clear_error :: "sc_sql_error \<Rightarrow> sc_sql_error" where
  "clear_error err = err\<lparr>error_kind := SC_SQL_ERROR_NONE, constraint := [], message := []\<rparr>"

section \<open>Running a statement\<close>

text \<open>
  What a driver does with a prepared statement in its slot, and with plain text.  \<open>rows\<close> is the
  result to read, \<open>changes\<close> the rows changed.
\<close>

record ('c, 'h) sql_driver =
  drv_run :: "'c sc_db \<Rightarrow> sc_sql_statement \<Rightarrow> int \<Rightarrow> sc_sql_param list \<Rightarrow>
     sc_status \<times> 'h option \<times> int \<times> sc_sql_error \<times> 'c sc_db"
  drv_simple :: "'c sc_db \<Rightarrow> string \<Rightarrow> sc_status \<times> sc_sql_error \<times> 'c sc_db"
  drv_next :: "'h \<Rightarrow> bool \<times> sc_status \<times> 'h"
  drv_is_null :: "'h \<Rightarrow> nat \<Rightarrow> bool"
  drv_text :: "'h \<Rightarrow> nat \<Rightarrow> string option"
  drv_int :: "'h \<Rightarrow> nat \<Rightarrow> int"
  drv_bytes :: "'h \<Rightarrow> nat \<Rightarrow> nat \<Rightarrow> byte list option"

type_synonym ('c, 'h) drivers = "sc_db_kind \<Rightarrow> ('c, 'h) sql_driver"

definition run ::
  "('c, 'h) drivers \<Rightarrow> sql_state \<Rightarrow> 'c sc_db \<Rightarrow> sc_sql_statement \<Rightarrow> sc_sql_param list \<Rightarrow> sc_sql_error \<Rightarrow>
   sc_status \<times> 'h option \<times> int \<times> sc_sql_error \<times> 'c sc_db \<times> sql_state" where
  "run drv st db statement params err0 =
     (let err = clear_error err0 in
      if length params > SC_SQL_PARAMS_MAX
      then (SC_ERR_INVALID_ARGUMENT, None, 0,
            sc_sql_set_error err SC_SQL_ERROR_OTHER (Some ''invalid arguments to a statement''), db, st)
      else
        (let (sl, st') = slot_of (statement_id statement) st in
         if sl < 0
         then (SC_ERR_TOO_LONG, None, 0,
               sc_sql_set_error err SC_SQL_ERROR_OTHER (Some ''no statement slot left''), db, st')
         else
           (let (status, rows, changes, err', db') = drv_run (drv (kind db)) db statement sl params
            in (status, rows, changes, err', db', st'))))"

record 'h sc_sql_rows =
  rows_kind :: sc_db_kind
  handle :: "'h option"
  rows_status :: sc_status

definition sc_sql_query ::
  "('c, 'h) drivers \<Rightarrow> sql_state \<Rightarrow> 'c sc_db \<Rightarrow> sc_sql_statement \<Rightarrow> sc_sql_param list \<Rightarrow> sc_sql_error \<Rightarrow>
   sc_status \<times> 'h sc_sql_rows \<times> sc_sql_error \<times> 'c sc_db \<times> sql_state" where
  "sc_sql_query drv st db statement params err =
     (let (status, h, changes, err', db', st') = run drv st db statement params err
      in (status, \<lparr>rows_kind = kind db, handle = h, rows_status = SC_OK\<rparr>, err', db', st'))"

definition sc_sql_exec ::
  "('c, 'h) drivers \<Rightarrow> sql_state \<Rightarrow> 'c sc_db \<Rightarrow> sc_sql_statement \<Rightarrow> sc_sql_param list \<Rightarrow> sc_sql_error \<Rightarrow>
   sc_status \<times> int \<times> sc_sql_error \<times> 'c sc_db \<times> sql_state" where
  "sc_sql_exec drv st db statement params err =
     (let (status, h, changes, err', db', st') = run drv st db statement params err
      in (status, changes, err', db', st'))"

definition sc_sql_simple ::
  "('c, 'h) drivers \<Rightarrow> 'c sc_db \<Rightarrow> string \<Rightarrow> sc_status \<times> sc_sql_error \<times> 'c sc_db" where
  "sc_sql_simple drv db txt = drv_simple (drv (kind db)) db txt"

definition sc_sql_next :: "('c, 'h) drivers \<Rightarrow> 'h sc_sql_rows \<Rightarrow> bool \<times> 'h sc_sql_rows" where
  "sc_sql_next drv rows =
     (case handle rows of
        None \<Rightarrow> (False, rows)
      | Some h \<Rightarrow>
          if rows_status rows \<noteq> SC_OK then (False, rows)
          else (let (more, status, h') = drv_next (drv (rows_kind rows)) h
                in (more, rows\<lparr>handle := Some h', rows_status := status\<rparr>)))"

definition sc_sql_close :: "'h sc_sql_rows \<Rightarrow> sc_status \<times> 'h sc_sql_rows" where
  "sc_sql_close rows = (rows_status rows, rows\<lparr>handle := None\<rparr>)"

section \<open>Columns\<close>

definition sc_sql_col_is_null :: "('c, 'h) drivers \<Rightarrow> 'h sc_sql_rows \<Rightarrow> nat \<Rightarrow> bool" where
  "sc_sql_col_is_null drv rows column =
     (case handle rows of None \<Rightarrow> True | Some h \<Rightarrow> drv_is_null (drv (rows_kind rows)) h column)"

definition sc_sql_col_text :: "('c, 'h) drivers \<Rightarrow> 'h sc_sql_rows \<Rightarrow> nat \<Rightarrow> string" where
  "sc_sql_col_text drv rows column =
     (case handle rows of
        None \<Rightarrow> []
      | Some h \<Rightarrow> (case drv_text (drv (rows_kind rows)) h column of None \<Rightarrow> [] | Some t \<Rightarrow> t))"

definition sc_sql_col_int :: "('c, 'h) drivers \<Rightarrow> 'h sc_sql_rows \<Rightarrow> nat \<Rightarrow> int" where
  "sc_sql_col_int drv rows column =
     (case handle rows of
        None \<Rightarrow> 0
      | Some h \<Rightarrow>
          if rows_kind rows = SC_DB_SQLITE then drv_int (drv SC_DB_SQLITE) h column
          else (case drv_text (drv SC_DB_POSTGRESQL) h column of None \<Rightarrow> 0 | Some t \<Rightarrow> strtoll t))"

definition sc_sql_col_bool :: "('c, 'h) drivers \<Rightarrow> 'h sc_sql_rows \<Rightarrow> nat \<Rightarrow> bool" where
  "sc_sql_col_bool drv rows column =
     (case handle rows of
        None \<Rightarrow> False
      | Some h \<Rightarrow>
          if rows_kind rows = SC_DB_SQLITE then drv_int (drv SC_DB_SQLITE) h column \<noteq> 0
          else (case drv_text (drv SC_DB_POSTGRESQL) h column of
                  None \<Rightarrow> False | Some t \<Rightarrow> t \<noteq> [] \<and> hd t = CHR ''t''))"

text \<open>
  \<^verbatim>\<open>days_from_civil\<close>: the year is a 64-bit signed number, month and day are 32-bit unsigned and
  wrap; the division of the year truncates toward zero.
\<close>

definition days_from_civil :: "int \<Rightarrow> 32 word \<Rightarrow> 32 word \<Rightarrow> int" where
  "days_from_civil y0 m d =
     (let y = (if m \<le> 2 then y0 - 1 else y0);
          era = (if y \<ge> 0 then y div 400 else - ((399 - y) div 400));
          yoe = word_of_int (y - era * 400) :: 32 word;
          doy = (153 * (m + (if m > 2 then -3 else 9)) + 2) div 5 + d - 1;
          doe = yoe * 365 + yoe div 4 - yoe div 100 + doy
      in era * 146097 + uint doe - 719468)"

text \<open>The fraction after the dot: three digits count, missing ones are zero.\<close>

fun fraction_walk :: "string \<Rightarrow> nat \<Rightarrow> int \<Rightarrow> int \<times> string" where
  "fraction_walk p digits millis =
     (if p \<noteq> [] \<and> is_digit (hd p)
      then fraction_walk (tl p) (Suc digits)
             (if digits < 3 then millis * 10 + int (digit_val (hd p)) else millis)
      else (millis * 10 ^ (3 - digits), p))"

declare fraction_walk.simps [simp del]

definition parse_timestamp :: "string option \<Rightarrow> int" where
  "parse_timestamp txt =
     (case Option.bind txt scan_datetime of
        None \<Rightarrow> 0
      | Some (year, month, day, hour, minute, second, p) \<Rightarrow>
         (let (millis, p1) = (if p \<noteq> [] \<and> hd p = CHR ''.'' then fraction_walk (tl p) 0 0 else (0, p));
              offset_minutes =
                (if p1 \<noteq> [] \<and> (hd p1 = CHR ''+'' \<or> hd p1 = CHR ''-'')
                 then (let (oh, om) = scan_offset (tl p1)
                       in (if hd p1 = CHR ''-'' then -1 else 1) * (oh * 60 + om))
                 else 0)
          in ((days_from_civil year (word_of_int month) (word_of_int day) * 86400
               + hour * 3600 + minute * 60 + second) - offset_minutes * 60) * 1000 + millis))"

definition sc_sql_col_time :: "('c, 'h) drivers \<Rightarrow> 'h sc_sql_rows \<Rightarrow> nat \<Rightarrow> int" where
  "sc_sql_col_time drv rows column =
     (case handle rows of
        None \<Rightarrow> 0
      | Some h \<Rightarrow>
          if rows_kind rows = SC_DB_SQLITE then drv_int (drv SC_DB_SQLITE) h column
          else parse_timestamp (drv_text (drv SC_DB_POSTGRESQL) h column))"

text \<open>The value of a hex digit, or \<open>-1\<close>.\<close>

definition hex_digit :: "char \<Rightarrow> int" where
  "hex_digit c =
     (if in_range 48 57 c then int (code_of c) - 48
      else if in_range 97 102 c then int (code_of c) - 97 + 10
      else if in_range 65 70 c then int (code_of c) - 65 + 10
      else -1)"

fun hex_pairs :: "string \<Rightarrow> byte list option" where
  "hex_pairs [] = Some []"
| "hex_pairs [c] = None"
| "hex_pairs (h # l # cs) =
     (if hex_digit h < 0 \<or> hex_digit l < 0 then None
      else map_option (\<lambda>bs. word_of_int (16 * hex_digit h + hex_digit l) # bs) (hex_pairs cs))"

definition sc_sql_col_bytes :: "('c, 'h) drivers \<Rightarrow> 'h sc_sql_rows \<Rightarrow> nat \<Rightarrow> nat \<Rightarrow> byte list option" where
  "sc_sql_col_bytes drv rows column out_size =
     (case handle rows of
        None \<Rightarrow> None
      | Some h \<Rightarrow>
          if rows_kind rows = SC_DB_SQLITE then drv_bytes (drv SC_DB_SQLITE) h column out_size
          else
            (case drv_text (drv SC_DB_POSTGRESQL) h column of
               None \<Rightarrow> None
             | Some t \<Rightarrow>
                 if length t < 2 \<or> t ! 0 \<noteq> BACKSLASH \<or> t ! 1 \<noteq> CHR ''x'' \<or> odd (length t) \<or>
                    (length t - 2) div 2 > out_size
                 then None
                 else hex_pairs (drop 2 t)))"

definition sc_sql_col_copy :: "('c, 'h) drivers \<Rightarrow> 'h sc_sql_rows \<Rightarrow> nat \<Rightarrow> nat \<Rightarrow> string option" where
  "sc_sql_col_copy drv rows column out_size =
     (let t = sc_sql_col_text drv rows column
      in if out_size = 0 \<or> length t + 1 > out_size then None else Some t)"

section \<open>Slots are unique\<close>

text \<open>
  What holds between any two atomic operations: assigned slots are numbers the counter has
  handed out, no two statements share one, and a number drawn and not yet stored is nobody's.
\<close>

definition owned :: "slot_sys \<Rightarrow> nat \<Rightarrow> int \<Rightarrow> bool" where
  "owned w s n \<longleftrightarrow> n \<noteq> 0 \<and> slot (shared w) s = n"

definition pc_ok :: "sql_state \<Rightarrow> slot_pc \<Rightarrow> bool" where
  "pc_ok st p = (case p of
      Drawn s n \<Rightarrow> 0 < n \<and> n \<le> last_slot st \<and> n < SC_SQL_STATEMENTS_MAX \<and> (\<forall>s'. slot st s' \<noteq> n)
    | Lost s \<Rightarrow> slot st s \<noteq> 0
    | Answered s n \<Rightarrow> n = -1 \<or> n \<noteq> 0 \<and> slot st s = n
    | _ \<Rightarrow> True)"

definition slots_ok :: "sql_state \<Rightarrow> bool" where
  "slots_ok st \<longleftrightarrow> 0 \<le> last_slot st \<and>
     (\<forall>s. slot st s = 0 \<or> 0 < slot st s \<and> slot st s \<le> last_slot st \<and> slot st s < SC_SQL_STATEMENTS_MAX) \<and>
     (\<forall>s s'. slot st s = slot st s' \<and> slot st s \<noteq> 0 \<longrightarrow> s = s')"

definition drawn_distinct :: "(nat \<Rightarrow> slot_pc) \<Rightarrow> bool" where
  "drawn_distinct p \<longleftrightarrow> (\<forall>t t' s s' n. p t = Drawn s n \<and> p t' = Drawn s' n \<longrightarrow> t = t')"

definition slot_inv :: "slot_sys \<Rightarrow> bool" where
  "slot_inv w \<longleftrightarrow> slots_ok (shared w) \<and> (\<forall>t. pc_ok (shared w) (pc w t)) \<and> drawn_distinct (pc w)"

lemma drawn_distinct_upd:
  assumes "drawn_distinct p" and "\<And>s n. q = Drawn s n \<Longrightarrow> \<forall>t' s'. p t' \<noteq> Drawn s' n"
  shows "drawn_distinct (p(t := q))"
  unfolding drawn_distinct_def
proof (intro allI impI, elim conjE)
  fix t1 t2 s1 s2 n
  assume a: "(p(t := q)) t1 = Drawn s1 n" "(p(t := q)) t2 = Drawn s2 n"
  consider "t1 = t" "t2 = t" | "t1 = t" "t2 \<noteq> t" | "t1 \<noteq> t" "t2 = t" | "t1 \<noteq> t" "t2 \<noteq> t" by blast
  then show "t1 = t2"
  proof cases
    case 2
    with a have "q = Drawn s1 n" "p t2 = Drawn s2 n" by simp_all
    with assms(2) show ?thesis by blast
  next
    case 3
    with a have "q = Drawn s2 n" "p t1 = Drawn s1 n" by simp_all
    with assms(2) show ?thesis by blast
  next
    case 4
    with a have "p t1 = Drawn s1 n" "p t2 = Drawn s2 n" by simp_all
    with assms(1) show ?thesis unfolding drawn_distinct_def by blast
  qed simp
qed

lemma drawn_distinct_other: "drawn_distinct p \<Longrightarrow> \<forall>s n. q \<noteq> Drawn s n \<Longrightarrow> drawn_distinct (p(t := q))"
  by (rule drawn_distinct_upd) auto

lemma slot_inv_local:
  assumes "slot_inv w" "pc_ok (shared w) q" "\<forall>s n. q \<noteq> Drawn s n"
  shows "slot_inv (w\<lparr>pc := (pc w)(t := q)\<rparr>)"
  using assms drawn_distinct_other unfolding slot_inv_def by simp

lemma slot_inv_step: "slot_step w w' \<Longrightarrow> slot_inv w \<Longrightarrow> slot_inv w'"
proof (induction rule: slot_step.induct)
  case (step_load w t n s)
  then show ?case by (intro slot_inv_local) (auto simp: pc_ok_def slot_load_def)
next
  case (step_draw w t s drawn st)
  let ?st = "shared w"
  have d: "drawn = last_slot ?st + 1" "st = ?st\<lparr>last_slot := last_slot ?st + 1\<rparr>"
    using step_draw(3) unfolding slot_draw_def by (metis Pair_inject)+
  have inv: "slots_ok ?st" "\<And>t. pc_ok ?st (pc w t)" "drawn_distinct (pc w)"
    using step_draw(4) by (simp_all add: slot_inv_def)
  have ok: "slots_ok st" using inv(1) unfolding slots_ok_def d by force
  have pcs: "pc_ok st p" if "pc_ok ?st p" for p
    using that unfolding pc_ok_def d by (cases p) auto
  have free: "slot ?st s' \<noteq> drawn" for s'
  proof
    assume "slot ?st s' = drawn"
    moreover have "slot ?st s' = 0 \<or> slot ?st s' \<le> last_slot ?st" "0 \<le> last_slot ?st"
      using inv(1) unfolding slots_ok_def by blast+
    ultimately show False unfolding d by linarith
  qed
  have "pc w t' \<noteq> Drawn s' drawn" for t' s'
    using inv(2) [of t'] unfolding pc_ok_def d by auto
  then have "drawn_distinct ((pc w)(t := if drawn \<ge> SC_SQL_STATEMENTS_MAX then Answered s (-1) else Drawn s drawn))"
    by (intro drawn_distinct_upd [OF inv(3)]) (auto split: if_splits)
  moreover have "pc_ok st (if drawn \<ge> SC_SQL_STATEMENTS_MAX then Answered s (-1) else Drawn s drawn)"
    using inv(1) free unfolding pc_ok_def slots_ok_def by (auto simp: d)
  ultimately show ?case using ok pcs inv(2) by (simp add: slot_inv_def split: if_splits)
next
  case (step_cas w t s drawn kept st)
  let ?st = "shared w"
  have inv: "slots_ok ?st" "\<And>t. pc_ok ?st (pc w t)" "drawn_distinct (pc w)"
    using step_cas(3) by (simp_all add: slot_inv_def)
  show ?case
  proof (cases "slot ?st s = 0")
    case False
    with step_cas have "st = ?st" "\<not> kept" by (simp_all add: slot_cas_def)
    with False step_cas(3) slot_inv_local [of w "Lost s" t] show ?thesis by (simp add: pc_ok_def)
  next
    case True
    with step_cas have st: "st = ?st\<lparr>slot := (slot ?st)(s := drawn)\<rparr>" "kept" by (simp_all add: slot_cas_def)
    have d: "0 < drawn" "drawn \<le> last_slot ?st" "drawn < SC_SQL_STATEMENTS_MAX" "\<forall>s'. slot ?st s' \<noteq> drawn"
      using inv(2) [of t] step_cas(1) by (simp_all add: pc_ok_def)
    have ok: "slots_ok st" using inv(1) d unfolding slots_ok_def st by auto
    have "pc_ok st (pc w t')" if "t' \<noteq> t" for t'
    proof (cases "pc w t'")
      case (Drawn s' n)
      then have "n \<noteq> drawn" using that step_cas(1) inv(3) unfolding drawn_distinct_def by blast
      with inv(2) [of t'] Drawn show ?thesis by (simp add: pc_ok_def st)
    next
      case (Answered s' n)
      with inv(2) [of t'] True show ?thesis by (auto simp: pc_ok_def st)
    qed (use inv(2) [of t'] d in \<open>auto simp: pc_ok_def st\<close>)
    moreover have "pc_ok st (Answered s drawn)" using d by (simp add: pc_ok_def st)
    ultimately show ?thesis
      using ok st(2) drawn_distinct_other [OF inv(3)] by (simp add: slot_inv_def)
  qed
next
  case (step_reload w t s)
  then have "pc_ok (shared w) (Lost s)" by (metis slot_inv_def)
  with step_reload show ?case by (intro slot_inv_local) (simp_all add: pc_ok_def slot_load_def)
next
  case (step_return w t s n)
  then show ?case by (intro slot_inv_local) (simp_all add: pc_ok_def)
qed

interpretation sl: invariant_system slot_init slot_step slot_inv
proof
  show "slot_init w \<Longrightarrow> slot_inv w" for w
    by (simp add: slot_init_def slot_inv_def slots_ok_def pc_ok_def drawn_distinct_def)
qed (rule slot_inv_step)

text \<open>
  C19. Statement slots are unique: whatever the interleaving of threads that meet new statements,
  two answers with a slot name the same statement exactly when they are the same slot, and every
  slot answered is an index of a connection's table of prepared statements.
\<close>

theorem slot_agreement:
  assumes "reach slot_init slot_step w"
    and "pc w t = Answered s n" and "pc w t' = Answered s' n'" and "n \<noteq> -1" and "n' \<noteq> -1"
  shows "(n = n' \<longleftrightarrow> s = s') \<and> 1 \<le> n \<and> n < SC_SQL_STATEMENTS_MAX"
proof -
  have "slot_inv w" by (rule sl.reach_inv [OF assms(1)])
  then have ok: "slots_ok (shared w)" and "pc_ok (shared w) (pc w t)" "pc_ok (shared w) (pc w t')"
    by (simp_all add: slot_inv_def)
  then have "n \<noteq> 0" "slot (shared w) s = n" "n' \<noteq> 0" "slot (shared w) s' = n'"
    using assms(2-5) by (simp_all add: pc_ok_def)
  with ok show ?thesis unfolding slots_ok_def by (metis int_one_le_iff_zero_less)
qed

lemma demo_slots:
  defines "st \<equiv> \<lparr>last_slot = 2, slot = (\<lambda>_. 0)(7 := 1)\<rparr>"
    and "p \<equiv> (\<lambda>_. Outside)(0 := Answered 7 1, 1 := Lost 7)"
  shows "reach slot_init slot_step \<lparr>shared = st, pc = p(1 := Answered 7 1)\<rparr>"
proof -
  let ?s0 = "\<lparr>last_slot = 0, slot = (\<lambda>_. 0)\<rparr>" and ?s1 = "\<lparr>last_slot = 1, slot = (\<lambda>_. 0)\<rparr>"
    and ?s2 = "\<lparr>last_slot = 2, slot = (\<lambda>_. 0)\<rparr>" and ?o = "(\<lambda>_. Outside) :: nat \<Rightarrow> slot_pc"
  note defs = slot_load_def slot_draw_def slot_cas_def SC_SQL_STATEMENTS_MAX_def st_def p_def
  have "reach slot_init slot_step \<lparr>shared = ?s0, pc = ?o\<rparr>"
    by (rule reach_init) (simp add: slot_init_def)
  from reach_step [OF this step_load [of _ 0 _ 7, OF _ refl]]
  have "reach slot_init slot_step \<lparr>shared = ?s0, pc = ?o(0 := Unassigned 7)\<rparr>" by (simp add: defs)
  from reach_step [OF this step_load [of _ 1 _ 7, OF _ refl]]
  have "reach slot_init slot_step \<lparr>shared = ?s0, pc = ?o(0 := Unassigned 7, 1 := Unassigned 7)\<rparr>"
    by (simp add: defs)
  from reach_step [OF this step_draw [of _ 0 7 1 ?s1]]
  have "reach slot_init slot_step \<lparr>shared = ?s1, pc = ?o(0 := Drawn 7 1, 1 := Unassigned 7)\<rparr>"
    by (simp add: defs fun_upd_twist)
  from reach_step [OF this step_draw [of _ 1 7 2 ?s2]]
  have "reach slot_init slot_step \<lparr>shared = ?s2, pc = ?o(0 := Drawn 7 1, 1 := Drawn 7 2)\<rparr>"
    by (simp add: defs)
  from reach_step [OF this step_cas [of _ 0 7 1 True st]]
  have "reach slot_init slot_step \<lparr>shared = st, pc = ?o(0 := Answered 7 1, 1 := Drawn 7 2)\<rparr>"
    by (simp add: defs fun_upd_twist)
  from reach_step [OF this step_cas [of _ 1 7 2 False st]]
  have "reach slot_init slot_step \<lparr>shared = st, pc = p\<rparr>" by (simp add: defs)
  from reach_step [OF this step_reload [of _ 1 7]] show ?thesis by (simp add: defs)
qed

theorem slot_agreement_witness:
  "\<exists>w. reach slot_init slot_step w \<and> pc w 0 = Answered 7 1 \<and> pc w 1 = Answered 7 1 \<and>
       ((1 :: int) = 1 \<longleftrightarrow> (7 :: nat) = 7) \<and> (1 :: int) < SC_SQL_STATEMENTS_MAX"
  using demo_slots slot_agreement [OF demo_slots, of 0 7 1 1 7 1] by auto

section \<open>A message is one line\<close>

definition one_line :: "string \<Rightarrow> bool" where
  "one_line t \<longleftrightarrow> LF \<notin> set t \<and> CR \<notin> set t \<and> TAB \<notin> set t"

definition single_spaced :: "string \<Rightarrow> bool" where
  "single_spaced t \<longleftrightarrow> (t = [] \<or> hd t \<noteq> SPACE) \<and>
     (\<forall>i. Suc i < length t \<longrightarrow> \<not> (t ! i = SPACE \<and> t ! Suc i = SPACE))"

lemma single_spaced_snoc:
  assumes "single_spaced t" "c = SPACE \<longrightarrow> t \<noteq> [] \<and> last t \<noteq> SPACE"
  shows "single_spaced (t @ [c])"
  using assms by (cases t rule: rev_cases)
    (auto simp: single_spaced_def nth_append hd_append less_Suc_eq split: if_splits)

lemma collapse_line_ok:
  assumes "one_line out" "single_spaced out" "length out < SC_SQL_MESSAGE_MAX"
  shows "one_line (collapse_line out ms) \<and> single_spaced (collapse_line out ms) \<and>
         length (collapse_line out ms) < SC_SQL_MESSAGE_MAX"
  using assms
proof (induction out ms rule: collapse_line.induct)
  case (2 out m ms)
  let ?c = "if m = LF \<or> m = CR \<or> m = TAB then SPACE else m"
  show ?case
  proof (cases "length out + 1 < SC_SQL_MESSAGE_MAX")
    case True
    have c: "?c \<noteq> LF" "?c \<noteq> CR" "?c \<noteq> TAB" by auto
    show ?thesis
    proof (cases "?c = SPACE \<and> (out = [] \<or> last out = SPACE)")
      case False
      then have "single_spaced (out @ [?c])" using 2(4) by (intro single_spaced_snoc) auto
      moreover have "one_line (out @ [?c])" using 2(3) c by (simp only: one_line_def) simp
      ultimately show ?thesis using 2(2) [OF _ refl False] True False by (auto simp: Let_def)
    qed (use 2 True in \<open>simp add: Let_def\<close>)
  qed (use 2 in simp)
qed simp

lemma single_spaced_prefix:
  assumes "single_spaced (t @ u)"
  shows "single_spaced t"
  unfolding single_spaced_def
proof (intro conjI allI impI)
  show "t = [] \<or> hd t \<noteq> SPACE" using assms by (cases t) (auto simp: single_spaced_def)
  fix i
  assume i: "Suc i < length t"
  then have "\<not> ((t @ u) ! i = SPACE \<and> (t @ u) ! Suc i = SPACE)"
    using assms unfolding single_spaced_def by simp
  with i show "\<not> (t ! i = SPACE \<and> t ! Suc i = SPACE)" by (simp add: nth_append)
qed

lemma message_shape:
  fixes err k msg
  defines "m \<equiv> message (sc_sql_set_error err k msg)"
  shows "length m < SC_SQL_MESSAGE_MAX \<and> one_line m \<and> single_spaced m \<and> (m = [] \<or> last m \<noteq> SPACE)"
proof -
  obtain t where m: "m = rtrim (\<lambda>c. c = SPACE) (collapse_line [] t)"
    by (auto simp: m_def sc_sql_set_error_def Let_def)
  have c: "one_line (collapse_line [] t)" "single_spaced (collapse_line [] t)"
    "length (collapse_line [] t) < SC_SQL_MESSAGE_MAX"
    using collapse_line_ok [of "[]" t] by (simp_all add: one_line_def single_spaced_def SC_SQL_MESSAGE_MAX_def)
  obtain u where u: "collapse_line [] t = m @ u" unfolding m using rtrim_prefix by blast
  have "single_spaced m" using c(2) unfolding u by (rule single_spaced_prefix)
  moreover have "one_line m" "length m < SC_SQL_MESSAGE_MAX" using c(1,3) by (auto simp: u one_line_def)
  moreover have "m = [] \<or> last m \<noteq> SPACE" using rtrim_last unfolding m by blast
  ultimately show ?thesis by blast
qed

text \<open>
  Whatever a driver says, the message kept is one line that fits its buffer with the
  terminator: no newline, carriage return or tab, no blank at either end and no two blanks in a
  row.
\<close>

theorem error_message_one_line:
  "let m = message (sc_sql_set_error err k msg) in
     length m < SC_SQL_MESSAGE_MAX \<and> one_line m \<and> single_spaced m \<and> (m = [] \<or> last m \<noteq> SPACE)"
  unfolding Let_def by (rule message_shape)

theorem error_message_one_line_witness:
  "LF \<notin> set (message (sc_sql_set_error \<lparr>error_kind = SC_SQL_ERROR_NONE, constraint = [], message = []\<rparr>
     SC_SQL_ERROR_OTHER (Some (''no'' @ [LF] @ ''row''))))"
  using error_message_one_line [of "\<lparr>error_kind = SC_SQL_ERROR_NONE, constraint = [], message = []\<rparr>"
      SC_SQL_ERROR_OTHER "Some (''no'' @ [LF] @ ''row'')"]
  by (simp add: Let_def one_line_def)

section \<open>Dates\<close>

text \<open>The same count over the integers, and the calendar it has to agree with.\<close>

definition years :: "int \<Rightarrow> int" where
  "years z = 365 * z + z div 4 - z div 100 + z div 400"

definition civil :: "int \<Rightarrow> int \<Rightarrow> int \<Rightarrow> int" where
  "civil y m d =
     (let z = (if m \<le> 2 then y - 1 else y)
      in years z + (153 * (if m > 2 then m - 3 else m + 9) + 2) div 5 + d - 719469)"

definition leap :: "int \<Rightarrow> bool" where
  "leap y \<longleftrightarrow> 4 dvd y \<and> (\<not> 100 dvd y \<or> 400 dvd y)"

definition month_days :: "int \<Rightarrow> int \<Rightarrow> int" where
  "month_days y m = (if m = 2 then (if leap y then 29 else 28) else if m \<in> {4, 6, 9, 11} then 30 else 31)"

definition valid_date :: "int \<Rightarrow> int \<Rightarrow> int \<Rightarrow> bool" where
  "valid_date y m d \<longleftrightarrow> 1 \<le> m \<and> m \<le> 12 \<and> 1 \<le> d \<and> d \<le> month_days y m"

definition next_date :: "int \<Rightarrow> int \<Rightarrow> int \<Rightarrow> int \<times> int \<times> int" where
  "next_date y m d =
     (if d < month_days y m then (y, m, d + 1) else if m < 12 then (y, m + 1, 1) else (y + 1, 1, 1))"

lemma floor_400: "(if (y :: int) \<ge> 0 then y div 400 else - ((399 - y) div 400)) = y div 400"
proof (cases "y \<ge> 0")
  case False
  have "399 - y = (399 - y mod 400) + (- (y div 400)) * 400" by (simp add: minus_div_mult_eq_mod [symmetric])
  also have "\<dots> div 400 = - (y div 400) + (399 - y mod 400) div 400" by (rule div_mult_self1) simp
  also have "(399 - y mod 400) div 400 = 0" by (rule div_pos_pos_trivial) (simp_all add: pos_mod_bound zle_diff1_eq [symmetric])
  finally have "- ((399 - y) div 400) = y div 400" by simp
  with False show ?thesis by simp
qed simp

lemma cycle_400:
  fixes z :: int
  shows "(z div 400) * 146097 + ((z mod 400) * 365 + z mod 400 div 4 - z mod 400 div 100) = years z"
proof -
  obtain e r where er: "z = 400 * e + r" "e = z div 400" "r = z mod 400"
    by (metis div_mult_mod_eq mult.commute)
  have d: "z div 4 = 100 * e + r div 4" "z div 100 = 4 * e + r div 100"
    using div_mult_self1 [of 4 r "100 * e"] div_mult_self1 [of 100 r "4 * e"]
    unfolding er(1) by (simp_all add: algebra_simps)
  have "e * 146097 + (r * 365 + x - w) = 365 * z + (100 * e + x) - (4 * e + w) + e" for x w
    unfolding er(1) by (simp add: algebra_simps)
  then show ?thesis unfolding years_def d er(2,3) [symmetric] by blast
qed

lemma uint_small: "0 \<le> (n :: int) \<Longrightarrow> n < 2 ^ 32 \<Longrightarrow> uint (word_of_int n :: 32 word) = n"
  by (simp add: uint_word_of_int_eq take_bit_int_eq_self)

lemma doe_bounds:
  fixes r a b q d :: int
  assumes "0 \<le> r" "r < 400" "0 \<le> b" "b \<le> a" "a \<le> 100" "0 \<le> q" "q \<le> 400" "1 \<le> d" "d \<le> 31"
  shows "0 \<le> r * 365 + a - b + (q + d - 1)" "r * 365 + a - b + (q + d - 1) < 2 ^ 32"
  using assms by simp_all

lemma shift_sum:
  fixes a b c q d :: int
  shows "a + b = c \<Longrightarrow> a + (b + (q + d - 1)) - 719468 = c + q + d - 719469"
  by simp

lemma days_civil:
  assumes "1 \<le> m" "m \<le> 12" "1 \<le> d" "d \<le> 31"
  shows "days_from_civil y (word_of_int m) (word_of_int d) = civil y m d"
proof -
  let ?m = "word_of_int m :: 32 word" and ?d = "word_of_int d :: 32 word"
  let ?k = "if m > 2 then m - 3 else m + 9"
  let ?z = "if m \<le> 2 then y - 1 else y"
  let ?r = "?z mod 400"
  have um: "uint ?m = m" "uint ?d = d" using assms by (simp_all add: uint_small)
  have le: "?m \<le> 2 \<longleftrightarrow> m \<le> 2" by (simp add: word_le_def um)
  have k: "(?m + (if ?m > 2 then -3 else 9)) = word_of_int ?k"
    using le by (auto simp: not_le [symmetric] simp del: not_le)
  have "153 * word_of_int ?k + 2 = (word_of_int (153 * ?k + 2) :: 32 word)" by simp
  then have doy: "(153 * (?m + (if ?m > 2 then -3 else 9)) + 2) div 5 = word_of_int ((153 * ?k + 2) div 5)"
    unfolding k using assms by (simp only: word_div_def) (subst uint_small, auto)
  have r: "0 \<le> ?r" "?r < 400" by simp_all
  define yoe where "yoe = (word_of_int ?r :: 32 word)"
  have yoe: "yoe div 4 = word_of_int (?r div 4)" "yoe div 100 = word_of_int (?r div 100)"
    using r unfolding yoe_def by (simp_all add: word_div_def uint_small)
  have z: "(if ?m \<le> 2 then y - 1 else y) = ?z" using le by simp
  let ?E = "?r * 365 + ?r div 4 - ?r div 100 + ((153 * ?k + 2) div 5 + d - 1)"
  have quo: "?r div 100 \<le> ?r div 4" "?r div 4 \<le> 100" "0 \<le> ?r div 100"
    using zdiv_mono2 [of ?r 4 100] zdiv_mono1 [of ?r 399 4] r
    by (simp_all add: pos_imp_zdiv_nonneg_iff)
  have "0 \<le> ?k" "?k \<le> 11" using assms by auto
  then have mon: "0 \<le> (153 * ?k + 2) div 5" "(153 * ?k + 2) div 5 \<le> 400"
    using zdiv_mono1 [of "153 * ?k + 2" 1685 5] by (simp_all add: pos_imp_zdiv_nonneg_iff)
  note E = doe_bounds [OF r quo(3,1,2) mon assms(3,4)]
  have doe: "yoe * 365 + yoe div 4 - yoe div 100 +
      ((153 * (?m + (if ?m > 2 then -3 else 9)) + 2) div 5 + ?d - 1) = word_of_int ?E"
    unfolding doy yoe by (simp add: yoe_def)
  have year: "word_of_int (?z - ?z div 400 * 400) = yoe"
    by (simp only: yoe_def minus_div_mult_eq_mod)
  have "days_from_civil y ?m ?d = (?z div 400) * 146097 + uint (word_of_int ?E :: 32 word) - 719468"
    by (simp only: days_from_civil_def Let_def z floor_400 year doe)
  also have "\<dots> = civil y m d"
    unfolding uint_small [OF E] civil_def Let_def by (rule shift_sum [OF cycle_400])
  finally show ?thesis .
qed

lemma div_pred:
  fixes y k :: int
  assumes "0 < k"
  shows "y div k - (y - 1) div k = (if k dvd y then 1 else 0)"
proof -
  obtain q r where qr: "y = k * q + r" "q = y div k" "r = y mod k" by simp
  have r: "0 \<le> r" "r < k" unfolding qr(3) using assms by simp_all
  show ?thesis
  proof (cases "r = 0")
    case True
    then have "y - 1 = (k - 1) + k * (q - 1)" unfolding qr(1) by (simp add: algebra_simps)
    then have "(y - 1) div k = (q - 1) + (k - 1) div k" using assms by (simp only: div_mult_self2)
    with True assms show ?thesis by (simp add: qr(2) [symmetric] dvd_eq_mod_eq_0 qr(3) [symmetric])
  next
    case False
    then have "y - 1 = (r - 1) + k * q" unfolding qr(1) by simp
    then have "(y - 1) div k = q + (r - 1) div k" using assms by (simp only: div_mult_self2)
    with False r show ?thesis by (simp add: qr(2) [symmetric] dvd_eq_mod_eq_0 qr(3) [symmetric])
  qed
qed

lemma year_terms:
  fixes y a b c a' b' c' :: int
  shows "365 * y + a - b + c - (365 * (y - 1) + a' - b' + c') = 365 + (a - a') - (b - b') + (c - c')"
  by simp

lemma leap_terms:
  "(C \<longrightarrow> B) \<Longrightarrow> (B \<longrightarrow> A) \<Longrightarrow>
   365 + (if A then 1 else 0) - (if B then 1 else 0) + (if C then 1 else 0) =
   (if A \<and> (\<not> B \<or> C) then 366 else 365 :: int)"
  by (cases A; cases B; cases C) simp_all

lemma year_length:
  "years y = years (y - 1) + (if leap y then 366 else 365)"
proof -
  have sub: "400 dvd y \<Longrightarrow> 100 dvd y" "100 dvd y \<Longrightarrow> 4 dvd y" 
    using dvd_trans [of 100 400 y] dvd_trans [of 4 100 y] by simp_all
  have "years y - years (y - 1) = 365 + (y div 4 - (y - 1) div 4) - (y div 100 - (y - 1) div 100) +
          (y div 400 - (y - 1) div 400)"
    unfolding years_def by (rule year_terms)
  also have "\<dots> = (if leap y then 366 else 365)"
    unfolding leap_def by (simp only: div_pred zero_less_numeral) (rule leap_terms; use sub in blast)
  finally show ?thesis by simp
qed

lemma month_cases:
  "1 \<le> (m :: int) \<Longrightarrow> m \<le> 12 \<Longrightarrow> m = 1 \<or> m = 2 \<or> m = 3 \<or> m = 4 \<or> m = 5 \<or> m = 6 \<or> m = 7 \<or>
   m = 8 \<or> m = 9 \<or> m = 10 \<or> m = 11 \<or> m = 12"
  by presburger

lemma civil_next:
  assumes "valid_date y m d"
  shows "(case next_date y m d of (y', m', d') \<Rightarrow> civil y' m' d') = civil y m d + 1"
proof (cases "d < month_days y m")
  case True
  then show ?thesis by (simp add: next_date_def civil_def Let_def)
next
  case False
  then have d: "d = month_days y m" using assms by (simp add: valid_date_def)
  consider "m = 1" | "m = 2" | "m = 3" | "m = 4" | "m = 5" | "m = 6" | "m = 7" | "m = 8" | "m = 9"
    | "m = 10" | "m = 11" | "m = 12"
    using month_cases assms unfolding valid_date_def by metis
  then show ?thesis
    using year_length [of y] unfolding next_date_def d
    by cases (simp_all add: civil_def month_days_def)
qed

lemma next_date_bounds:
  assumes "valid_date y m d" "next_date y m d = (y', m', d')"
  shows "1 \<le> m'" "m' \<le> 12" "1 \<le> d'" "d' \<le> 31"
  using assms by (auto simp: next_date_def valid_date_def month_days_def split: if_splits)

text \<open>
  C20. The day count is the calendar's: 1970-01-01 is day 0 and the day after any valid date of
  the proleptic Gregorian calendar has the next number, through the ends of months, leap days
  and turns of the year, before and after year 0.
\<close>

theorem day_count_calendar:
  "days_from_civil 1970 1 1 = 0 \<and>
   (\<forall>y m d. valid_date y m d \<longrightarrow>
      (case next_date y m d of (y', m', d') \<Rightarrow>
         days_from_civil y' (word_of_int m') (word_of_int d') =
         days_from_civil y (word_of_int m) (word_of_int d) + 1))"
proof (intro conjI allI impI)
  show "days_from_civil 1970 1 1 = 0"
    using days_civil [of 1 1 1970] by (simp add: civil_def years_def)
  fix y m d
  assume v: "valid_date y m d"
  obtain y' m' d' where n: "next_date y m d = (y', m', d')" by (metis prod_cases3)
  have "d \<le> 31" using v by (auto simp: valid_date_def month_days_def split: if_splits)
  then have "days_from_civil y (word_of_int m) (word_of_int d) = civil y m d"
    using v by (intro days_civil) (simp_all add: valid_date_def)
  moreover have "days_from_civil y' (word_of_int m') (word_of_int d') = civil y' m' d'"
    using next_date_bounds [OF v n] by (rule days_civil)
  ultimately show "case next_date y m d of (y', m', d') \<Rightarrow>
      days_from_civil y' (word_of_int m') (word_of_int d') =
      days_from_civil y (word_of_int m) (word_of_int d) + 1"
    using civil_next [OF v] by (simp add: n)
qed

theorem day_count_calendar_witness:
  "days_from_civil 2024 3 1 = days_from_civil 2024 2 29 + 1"
proof -
  have "valid_date 2024 2 29" "next_date 2024 2 29 = (2024, 3, 1)"
    by (simp_all add: valid_date_def next_date_def month_days_def leap_def)
  with day_count_calendar show ?thesis by fastforce
qed

section \<open>Byte columns\<close>

definition bytea_text :: "byte list \<Rightarrow> string" where
  "bytea_text bs = BACKSLASH # CHR ''x'' # concat (map (\<lambda>b. [hex_char (unat b div 16), hex_char (unat b mod 16)]) bs)"

lemma hex_digit_char: "d < 16 \<Longrightarrow> hex_digit (hex_char d) = int d"
  by (auto simp: hex_digit_def hex_char_def in_range_def)

lemma hex_pairs_bytes:
  "hex_pairs (concat (map (\<lambda>b. [hex_char (unat b div 16), hex_char (unat b mod 16)]) bs)) = Some bs"
proof (induction bs)
  case (Cons b bs)
  have b: "unat b div 16 < 16" using unsigned_less [of b, where ?'a = nat] by simp
  have "word_of_int (16 * int (unat b div 16) + int (unat b mod 16)) = b"
    by (metis mult_div_mod_eq of_nat_add of_nat_mult of_nat_numeral of_nat_unat word_of_int_uint)
  with Cons b show ?case by (simp add: hex_digit_char)
qed simp

text \<open>
  A byte column survives PostgreSQL's text form: reading the text of any bytes into a
  buffer that holds them gives the bytes, and into a smaller one nothing.
\<close>

theorem bytea_roundtrip:
  assumes "handle rows = Some h" and "rows_kind rows = SC_DB_POSTGRESQL"
    and "drv_text (drv SC_DB_POSTGRESQL) h column = Some (bytea_text bs)"
  shows "sc_sql_col_bytes drv rows column out_size = (if length bs \<le> out_size then Some bs else None)"
proof -
  have len: "length (concat (map (\<lambda>b. [hex_char (unat b div 16), hex_char (unat b mod 16)]) bs)) = 2 * length bs"
    by (induction bs) auto
  show ?thesis
    using assms hex_pairs_bytes [of bs] by (simp add: sc_sql_col_bytes_def bytea_text_def len)
qed

definition demo_driver :: "(unit, string) sql_driver" where
  "demo_driver = \<lparr>drv_run = (\<lambda>db st s ps. (SC_OK, None, 0, \<lparr>error_kind = SC_SQL_ERROR_NONE,
       constraint = [], message = []\<rparr>, db)),
     drv_simple = (\<lambda>db t. (SC_OK, \<lparr>error_kind = SC_SQL_ERROR_NONE, constraint = [], message = []\<rparr>, db)),
     drv_next = (\<lambda>h. (False, SC_OK, h)), drv_is_null = (\<lambda>h c. False), drv_text = (\<lambda>h c. Some h),
     drv_int = (\<lambda>h c. 0), drv_bytes = (\<lambda>h c n. None)\<rparr>"

theorem bytea_roundtrip_witness:
  "sc_sql_col_bytes (\<lambda>_. demo_driver)
     \<lparr>rows_kind = SC_DB_POSTGRESQL, handle = Some (bytea_text [1, 255]), rows_status = SC_OK\<rparr> 0 4 = Some [1, 255]"
  using bytea_roundtrip [of "\<lparr>rows_kind = SC_DB_POSTGRESQL, handle = Some (bytea_text [1, 255]),
      rows_status = SC_OK\<rparr>" "bytea_text [1, 255]" "\<lambda>_. demo_driver" 0 "[1, 255]" 4]
  by (simp add: demo_driver_def)

end
