(* ===== verification/DbUnit.thy ===== *)
theory DbUnit
  imports Sql
begin

text \<open>
  Running one unit of work on a connection (\<^verbatim>\<open>service-core/src/db_exec.c\<close>, the part up to
  \<^verbatim>\<open>run_on_worker\<close>): transaction brackets, the rollback that may not fail, units that ask to run
  again and sessions that lost their prepared statements.

  The database and the caller are parameters, gathered in the record \<open>exec_env\<close>: the two drivers,
  redialling and reviving a PostgreSQL connection, SQLite's autocommit flag, and \<open>work\<close>, which
  stands for the function every unit points at.  Work sees the unit and the connection and
  answers how the transaction ends; of the unit it writes its own part and the error.  Log lines
  are not modelled.  A critical stop of the process is the first component of the result.
\<close>

section \<open>Data\<close>

definition SC_DB_QUEUE_WAIT_MS :: nat where "SC_DB_QUEUE_WAIT_MS = 5000"
definition SC_DB_AGAIN_MAX :: nat where "SC_DB_AGAIN_MAX = 16"
definition SC_DB_RERUN_MAX :: nat where "SC_DB_RERUN_MAX = 64"

datatype sc_db_access = SC_DB_READ | SC_DB_WRITE
datatype sc_db_end = SC_DB_COMMIT | SC_DB_ROLLBACK | SC_DB_AGAIN

record 'u sc_db_unit =
  access :: sc_db_access
  status :: sc_status
  attempt :: nat
  error :: sc_sql_error
  queued_ns :: nat
  own :: 'u

record ('c, 'h, 'u) exec_env =
  drivers :: "('c, 'h) drivers"
  redial :: "'c sc_db \<Rightarrow> 'c sc_db"
  revive :: "'c sc_db \<Rightarrow> sc_status \<times> 'c sc_db"
  in_transaction :: "'c sc_db \<Rightarrow> bool"
  db_error :: "'c sc_db \<Rightarrow> string"
  work :: "'c sc_db \<Rightarrow> 'u sc_db_unit \<Rightarrow> sc_db_end \<times> 'c sc_db \<times> 'u \<times> sc_sql_error"

definition no_error :: sc_sql_error where
  "no_error = \<lparr>error_kind = SC_SQL_ERROR_NONE, constraint = [], message = []\<rparr>"

section \<open>Operations\<close>

definition begin_text :: "'c sc_db \<Rightarrow> string" where
  "begin_text db = (if kind db = SC_DB_SQLITE then ''BEGIN IMMEDIATE'' else ''BEGIN'')"

text \<open>\<open>True\<close> when the unit must not go on: the process is stopping.\<close>

definition roll_back ::
  "('c, 'h, 'u) exec_env \<Rightarrow> 'c sc_db \<Rightarrow> 'u sc_db_unit \<Rightarrow> bool \<times> 'c sc_db \<times> 'u sc_db_unit" where
  "roll_back env db unit =
     (let (st, failure, db1) = sc_sql_simple (drivers env) db ''ROLLBACK'' in
      if st = SC_OK then (False, db1, unit)
      else if kind db = SC_DB_POSTGRESQL then (False, redial env db1, unit)
      else if \<not> in_transaction env db1 then (False, db1, unit)
      else (True, db1, unit\<lparr>error := failure, status := st\<rparr>))"

text \<open>
  One turn of the loop of \<^verbatim>\<open>run_unit\<close>: \<open>Inl\<close> is a return, \<open>Inr\<close> goes round again with the
  number of reruns so far, the connection and the unit.
\<close>

definition run_turn ::
  "('c, 'h, 'u) exec_env \<Rightarrow> nat \<Rightarrow> 'c sc_db \<Rightarrow> 'u sc_db_unit \<Rightarrow>
   bool \<times> 'c sc_db \<times> 'u sc_db_unit + nat \<times> 'c sc_db \<times> 'u sc_db_unit" where
  "run_turn env reruns db0 unit0 =
     (let db1 = db0\<lparr>rerun_unit := False\<rparr>;
          (st, e, db2) = (if access unit0 = SC_DB_WRITE
                          then sc_sql_simple (drivers env) db1 (begin_text db1)
                          else (SC_OK, error unit0, db1));
          unit1 = unit0\<lparr>error := e\<rparr>
      in if st \<noteq> SC_OK then Inl (False, db2, unit1\<lparr>status := st\<rparr>)
      else
        (let (fin, db3, o3, e3) = work env db2 unit1;
             unit3 = unit1\<lparr>own := o3, error := e3\<rparr>
         in if rerun_unit db3
            then
              (let db4 = db3\<lparr>rerun_unit := False\<rparr>;
                   (stop, db5, unit5) = (if access unit3 = SC_DB_WRITE then roll_back env db4 unit3
                                         else (False, db4, unit3))
               in if stop then Inl (True, db5, unit5)
                  else if reruns + 1 < SC_DB_RERUN_MAX then Inr (reruns + 1, db5, unit5)
                  else Inl (False, db5,
                        unit5\<lparr>error := sc_sql_set_error (error unit5) SC_SQL_ERROR_OTHER
                                 (Some ''the connection kept losing its prepared statements''),
                              status := SC_ERR_INVALID_ARGUMENT\<rparr>))
            else if access unit3 = SC_DB_WRITE \<and> fin = SC_DB_COMMIT
            then
              (let (st4, e4, db4) = sc_sql_simple (drivers env) db3 ''COMMIT'';
                   unit4 = unit3\<lparr>error := e4\<rparr>
               in Inl (False, db4, if st4 \<noteq> SC_OK then unit4\<lparr>status := st4\<rparr> else unit4))
            else
              (let (stop, db5, unit5) = (if access unit3 = SC_DB_WRITE then roll_back env db3 unit3
                                         else (False, db3, unit3))
               in if stop then Inl (True, db5, unit5)
                  else if fin \<noteq> SC_DB_AGAIN then Inl (False, db5, unit5)
                  else if attempt unit5 \<ge> SC_DB_AGAIN_MAX
                  then Inl (False, db5,
                        unit5\<lparr>error := sc_sql_set_error (error unit5) SC_SQL_ERROR_OTHER
                                 (Some ''a unit asked to run again SC_DB_AGAIN_MAX times''),
                              status := SC_ERR_INVALID_ARGUMENT\<rparr>)
                  else Inr (reruns, db5, unit5\<lparr>attempt := attempt unit5 + 1\<rparr>))))"

lemma roll_back_keeps:
  assumes "roll_back env db unit = (stop, db', unit')"
  shows "attempt unit' = attempt unit" "access unit' = access unit" "own unit' = own unit"
    "queued_ns unit' = queued_ns unit" "\<not> stop \<Longrightarrow> unit' = unit"
  using assms by (auto simp: roll_back_def Let_def split: prod.splits if_splits)

text \<open>
  What a turn did, by its outcome: the connection after BEGIN, after the work, and how the
  transaction was ended.
\<close>

lemma run_turn_cases:
  assumes "run_turn env reruns db unit = t"
  obtains (no_begin) st e db' where "access unit = SC_DB_WRITE" "st \<noteq> SC_OK"
      "sc_sql_simple (drivers env) (db\<lparr>rerun_unit := False\<rparr>) (begin_text db) = (st, e, db')"
      "t = Inl (False, db', unit\<lparr>error := e, status := st\<rparr>)"
  | (ran) db2 unit1 fin db3 o3 e3 where
      "work env db2 unit1 = (fin, db3, o3, e3)" "access unit1 = access unit" "attempt unit1 = attempt unit"
      "status unit1 = status unit"
      "access unit = SC_DB_WRITE \<Longrightarrow>
        sc_sql_simple (drivers env) (db\<lparr>rerun_unit := False\<rparr>) (begin_text db) = (SC_OK, error unit1, db2)"
      "access unit = SC_DB_READ \<Longrightarrow> db2 = db\<lparr>rerun_unit := False\<rparr>"
      "(\<exists>st e db'. access unit = SC_DB_WRITE \<and> fin = SC_DB_COMMIT \<and>
          sc_sql_simple (drivers env) db3 ''COMMIT'' = (st, e, db') \<and>
          t = Inl (False, db', unit1\<lparr>own := o3, error := e, status := if st \<noteq> SC_OK then st else status unit\<rparr>)) \<or>
       (\<exists>b stop db5 unit5.
          (if access unit = SC_DB_WRITE then roll_back env (db3\<lparr>rerun_unit := b\<rparr>) (unit1\<lparr>own := o3, error := e3\<rparr>)
           else (False, db3\<lparr>rerun_unit := b\<rparr>, unit1\<lparr>own := o3, error := e3\<rparr>)) = (stop, db5, unit5) \<and>
          (if stop then t = Inl (True, db5, unit5)
           else (\<exists>u. t = Inl (False, db5, u) \<and> own u = o3) \<or>
                t = Inr (reruns + 1, db5, unit5) \<and> reruns + 1 < SC_DB_RERUN_MAX \<or>
                t = Inr (reruns, db5, unit5\<lparr>attempt := attempt unit + 1\<rparr>) \<and>
                attempt unit < SC_DB_AGAIN_MAX \<and> fin = SC_DB_AGAIN))"
proof -
  let ?db1 = "db\<lparr>rerun_unit := False\<rparr>"
  have bt: "begin_text ?db1 = begin_text db" by (simp add: begin_text_def)
  obtain st e db2 where beg: "(if access unit = SC_DB_WRITE then sc_sql_simple (drivers env) ?db1 (begin_text ?db1)
      else (SC_OK, error unit, ?db1)) = (st, e, db2)" by (metis prod_cases3)
  let ?unit1 = "unit\<lparr>error := e\<rparr>"
  obtain fin db3 o3 e3 where w: "work env db2 ?unit1 = (fin, db3, o3, e3)" by (metis prod_cases4)
  let ?unit3 = "unit\<lparr>error := e3, own := o3\<rparr>"
  show thesis
  proof (cases "st = SC_OK")
    case False
    with assms beg have "access unit = SC_DB_WRITE" "t = Inl (False, db2, unit\<lparr>error := e, status := st\<rparr>)"
      by (auto simp: run_turn_def Let_def split: if_splits)
    with False beg show thesis by (intro no_begin) (simp_all add: bt)
  next
    case True
    note ran' = ran [OF w]
    have acc: "access unit = SC_DB_READ \<longleftrightarrow> access unit \<noteq> SC_DB_WRITE" by (cases "access unit") auto
    show thesis
    proof (cases "\<not> rerun_unit db3 \<and> access unit = SC_DB_WRITE \<and> fin = SC_DB_COMMIT")
      case commit: True
      obtain st4 e4 db4 where c: "sc_sql_simple (drivers env) db3 ''COMMIT'' = (st4, e4, db4)" by (metis prod_cases3)
      with assms beg w True commit
      have "t = Inl (False, db4, ?unit1\<lparr>own := o3, error := e4, status := if st4 \<noteq> SC_OK then st4 else status unit\<rparr>)"
        by (auto simp: run_turn_def Let_def)
      with c beg True commit acc bt show thesis by (intro ran') auto
    next
      case False
      define b where "b = (if rerun_unit db3 then False else rerun_unit db3)"
      obtain stop db5 unit5 where rb: "(if access unit = SC_DB_WRITE then roll_back env (db3\<lparr>rerun_unit := b\<rparr>) (?unit1\<lparr>own := o3, error := e3\<rparr>)
           else (False, db3\<lparr>rerun_unit := b\<rparr>, ?unit1\<lparr>own := o3, error := e3\<rparr>)) = (stop, db5, unit5)" by (metis prod_cases3)
      then have at: "attempt unit5 = attempt unit" "own unit5 = o3"
        by (auto split: if_splits dest: roll_back_keeps(1,3))
      have res: "if stop then t = Inl (True, db5, unit5)
           else (\<exists>u. t = Inl (False, db5, u) \<and> own u = o3) \<or>
                t = Inr (reruns + 1, db5, unit5) \<and> reruns + 1 < SC_DB_RERUN_MAX \<or>
                t = Inr (reruns, db5, unit5\<lparr>attempt := attempt unit + 1\<rparr>) \<and>
                attempt unit < SC_DB_AGAIN_MAX \<and> fin = SC_DB_AGAIN"
      proof (cases "rerun_unit db3")
        case rerun: True
        have "t = (if stop then Inl (True, db5, unit5)
                   else if reruns + 1 < SC_DB_RERUN_MAX then Inr (reruns + 1, db5, unit5)
                   else Inl (False, db5, unit5\<lparr>error := sc_sql_set_error (error unit5) SC_SQL_ERROR_OTHER
                                 (Some ''the connection kept losing its prepared statements''),
                              status := SC_ERR_INVALID_ARGUMENT\<rparr>))"
          using assms beg w True rerun rb by (simp add: run_turn_def Let_def b_def cong: if_cong)
        with at show ?thesis by (auto split: if_splits)
      next
        case no: False
        then have "db3\<lparr>rerun_unit := b\<rparr> = db3" by (simp add: b_def)
        with assms beg w True no rb False
        have "t = (if stop then Inl (True, db5, unit5)
                  else if fin \<noteq> SC_DB_AGAIN then Inl (False, db5, unit5)
                  else if attempt unit5 \<ge> SC_DB_AGAIN_MAX
                  then Inl (False, db5, unit5\<lparr>error := sc_sql_set_error (error unit5) SC_SQL_ERROR_OTHER
                                 (Some ''a unit asked to run again SC_DB_AGAIN_MAX times''),
                              status := SC_ERR_INVALID_ARGUMENT\<rparr>)
                  else Inr (reruns, db5, unit5\<lparr>attempt := attempt unit5 + 1\<rparr>))"
          by (auto simp: run_turn_def Let_def cong: if_cong)
        with at show ?thesis by (auto split: if_splits)
      qed
      show thesis
      proof (rule ran')
        show "(\<exists>st e db'. access unit = SC_DB_WRITE \<and> fin = SC_DB_COMMIT \<and>
            sc_sql_simple (drivers env) db3 ''COMMIT'' = (st, e, db') \<and>
            t = Inl (False, db', ?unit1\<lparr>own := o3, error := e, status := if st \<noteq> SC_OK then st else status unit\<rparr>)) \<or>
         (\<exists>b stop db5 unit5.
            (if access unit = SC_DB_WRITE then roll_back env (db3\<lparr>rerun_unit := b\<rparr>) (?unit1\<lparr>own := o3, error := e3\<rparr>)
             else (False, db3\<lparr>rerun_unit := b\<rparr>, ?unit1\<lparr>own := o3, error := e3\<rparr>)) = (stop, db5, unit5) \<and>
            (if stop then t = Inl (True, db5, unit5)
             else (\<exists>u. t = Inl (False, db5, u) \<and> own u = o3) \<or>
                  t = Inr (reruns + 1, db5, unit5) \<and> reruns + 1 < SC_DB_RERUN_MAX \<or>
                  t = Inr (reruns, db5, unit5\<lparr>attempt := attempt unit + 1\<rparr>) \<and>
                  attempt unit < SC_DB_AGAIN_MAX \<and> fin = SC_DB_AGAIN))"
          by (rule disjI2, rule exI [of _ b], rule exI [of _ stop], rule exI [of _ db5],
              rule exI [of _ unit5], rule conjI [OF rb res])
      qed (use beg True acc bt in auto)
    qed
  qed
qed

lemma run_turn_measure:
  assumes "run_turn env reruns db unit = Inr (reruns', db', unit')"
  shows "(SC_DB_RERUN_MAX - reruns') + (SC_DB_AGAIN_MAX - attempt unit') <
         (SC_DB_RERUN_MAX - reruns) + (SC_DB_AGAIN_MAX - attempt unit)"
  using assms
proof (cases rule: run_turn_cases)
  case (ran db2 unit1 fin db3 o3 e3)
  from ran(7) show ?thesis
    by (auto split: if_splits dest!: roll_back_keeps(1) simp: ran(3))
qed auto

function run_loop ::
  "('c, 'h, 'u) exec_env \<Rightarrow> nat \<Rightarrow> 'c sc_db \<Rightarrow> 'u sc_db_unit \<Rightarrow> bool \<times> 'c sc_db \<times> 'u sc_db_unit" where
  "run_loop env reruns db unit =
     (case run_turn env reruns db unit of
        Inl result \<Rightarrow> result
      | Inr (reruns', db', unit') \<Rightarrow> run_loop env reruns' db' unit')"
  by auto

termination
  by (relation "measure (\<lambda>(env, reruns, db, unit).
        (SC_DB_RERUN_MAX - reruns) + (SC_DB_AGAIN_MAX - attempt unit))")
    (auto dest: run_turn_measure)

declare run_loop.simps [simp del]

definition run_unit ::
  "('c, 'h, 'u) exec_env \<Rightarrow> 'c sc_db \<Rightarrow> 'u sc_db_unit \<Rightarrow> bool \<times> 'c sc_db \<times> 'u sc_db_unit" where
  "run_unit env db unit = run_loop env 0 db (unit\<lparr>status := SC_OK, attempt := 1, error := no_error\<rparr>)"

definition sc_db_run ::
  "('c, 'h, 'u) exec_env \<Rightarrow> 'c sc_db \<Rightarrow> 'u sc_db_unit \<Rightarrow> sc_status \<times> bool \<times> 'c sc_db \<times> 'u sc_db_unit" where
  "sc_db_run env db unit =
     (let (stop, db', unit') = run_unit env db unit in (status unit', stop, db', unit'))"

definition make_usable ::
  "('c, 'h, 'u) exec_env \<Rightarrow> 'c sc_db \<Rightarrow> 'u sc_db_unit \<Rightarrow> sc_status \<times> 'c sc_db \<times> 'u sc_db_unit" where
  "make_usable env db unit =
     (if kind db \<noteq> SC_DB_POSTGRESQL then (SC_OK, db, unit)
      else
        (let (st, db') = revive env db in
         (st, db', if st \<noteq> SC_OK
                   then unit\<lparr>error := sc_sql_set_error (error unit) SC_SQL_ERROR_CONNECTION (Some (db_error env db'))\<rparr>
                   else unit)))"

definition run_on_worker ::
  "('c, 'h, 'u) exec_env \<Rightarrow> nat \<Rightarrow> 'c sc_db \<Rightarrow> 'u sc_db_unit \<Rightarrow> bool \<times> 'c sc_db \<times> 'u sc_db_unit" where
  "run_on_worker env now db unit =
     (let waited_ns = (if now > queued_ns unit then now - queued_ns unit else 0) in
      if waited_ns > SC_DB_QUEUE_WAIT_MS * 1000000
      then (False, db, unit\<lparr>status := SC_ERR_QUEUE_FULL\<rparr>)
      else
        (let (st, db1, unit1) = make_usable env db unit in
         if st \<noteq> SC_OK then (False, db1, unit1\<lparr>status := st\<rparr>)
         else run_unit env db1 unit1))"

section \<open>What the database promises\<close>

text \<open>
  \<open>open_tx db\<close> says that a transaction is open on the connection and \<open>data db\<close> is what is durable.
  The two drivers keep the connection's kind; BEGIN opens a transaction or reports that it did
  not; COMMIT ends it whatever it answers, and one that is refused, rather than lost with the
  connection, keeps nothing; ROLLBACK that succeeds and a redial end it and keep nothing; SQLite
  answers truthfully whether one is open.  Work does not begin transactions, and what it writes
  inside one is not durable by itself.
\<close>

definition transactional ::
  "('c, 'h, 'u) exec_env \<Rightarrow> ('c sc_db \<Rightarrow> bool) \<Rightarrow> ('c sc_db \<Rightarrow> 'd) \<Rightarrow> bool" where
  "transactional env open_tx data \<longleftrightarrow>
     (\<forall>db b. open_tx (db\<lparr>rerun_unit := b\<rparr>) = open_tx db \<and> data (db\<lparr>rerun_unit := b\<rparr>) = data db) \<and>
     (\<forall>db txt st e db'. sc_sql_simple (drivers env) db txt = (st, e, db') \<longrightarrow> kind db' = kind db) \<and>
     (\<forall>db st e db'. sc_sql_simple (drivers env) db (begin_text db) = (st, e, db') \<and> \<not> open_tx db \<longrightarrow>
        (open_tx db' \<longleftrightarrow> st = SC_OK) \<and> data db' = data db) \<and>
     (\<forall>db st e db'. sc_sql_simple (drivers env) db ''COMMIT'' = (st, e, db') \<longrightarrow>
        \<not> open_tx db' \<and> (st \<noteq> SC_OK \<and> st \<noteq> SC_ERR_NETWORK \<longrightarrow> data db' = data db)) \<and>
     (\<forall>db st e db'. sc_sql_simple (drivers env) db ''ROLLBACK'' = (st, e, db') \<longrightarrow>
        (st = SC_OK \<longrightarrow> \<not> open_tx db') \<and> data db' = data db) \<and>
     (\<forall>db. \<not> open_tx (redial env db) \<and> data (redial env db) = data db \<and> kind (redial env db) = kind db) \<and>
     (\<forall>db. kind db = SC_DB_SQLITE \<longrightarrow> in_transaction env db = open_tx db) \<and>
     (\<forall>db unit fin db' own' e'. work env db unit = (fin, db', own', e') \<longrightarrow>
        kind db' = kind db \<and>
        (access unit = SC_DB_READ \<longrightarrow> open_tx db' = open_tx db) \<and>
        (access unit = SC_DB_WRITE \<and> open_tx db \<longrightarrow> data db' = data db))"

lemma transactionalD:
  assumes "transactional env open_tx data"
  shows tx_flag: "\<And>db b. open_tx (db\<lparr>rerun_unit := b\<rparr>) = open_tx db \<and> data (db\<lparr>rerun_unit := b\<rparr>) = data db"
    and tx_kind: "\<And>db txt st e db'. sc_sql_simple (drivers env) db txt = (st, e, db') \<Longrightarrow> kind db' = kind db"
    and tx_begin: "\<And>db st e db'. sc_sql_simple (drivers env) db (begin_text db) = (st, e, db') \<Longrightarrow>
        \<not> open_tx db \<Longrightarrow> (open_tx db' \<longleftrightarrow> st = SC_OK) \<and> data db' = data db"
    and tx_commit: "\<And>db st e db'. sc_sql_simple (drivers env) db ''COMMIT'' = (st, e, db') \<Longrightarrow>
        \<not> open_tx db' \<and> (st \<noteq> SC_OK \<and> st \<noteq> SC_ERR_NETWORK \<longrightarrow> data db' = data db)"
    and tx_rollback: "\<And>db st e db'. sc_sql_simple (drivers env) db ''ROLLBACK'' = (st, e, db') \<Longrightarrow>
        (st = SC_OK \<longrightarrow> \<not> open_tx db') \<and> data db' = data db"
    and tx_redial: "\<And>db. \<not> open_tx (redial env db) \<and> data (redial env db) = data db"
    and tx_asked: "\<And>db. kind db = SC_DB_SQLITE \<Longrightarrow> in_transaction env db = open_tx db"
    and tx_work: "\<And>db unit fin db' own' e'. work env db unit = (fin, db', own', e') \<Longrightarrow>
        kind db' = kind db \<and> (access unit = SC_DB_READ \<longrightarrow> open_tx db' = open_tx db) \<and>
        (access unit = SC_DB_WRITE \<and> open_tx db \<longrightarrow> data db' = data db)"
proof -
  note d = assms [unfolded transactional_def]
  show "\<And>db b. open_tx (db\<lparr>rerun_unit := b\<rparr>) = open_tx db \<and> data (db\<lparr>rerun_unit := b\<rparr>) = data db"
    using d [THEN conjunct1] by blast
  show "\<And>db txt st e db'. sc_sql_simple (drivers env) db txt = (st, e, db') \<Longrightarrow> kind db' = kind db"
    using d [THEN conjunct2, THEN conjunct1] by blast
  show "\<And>db st e db'. sc_sql_simple (drivers env) db (begin_text db) = (st, e, db') \<Longrightarrow>
        \<not> open_tx db \<Longrightarrow> (open_tx db' \<longleftrightarrow> st = SC_OK) \<and> data db' = data db"
    using d [THEN conjunct2, THEN conjunct2, THEN conjunct1] by blast
  show "\<And>db st e db'. sc_sql_simple (drivers env) db ''COMMIT'' = (st, e, db') \<Longrightarrow>
        \<not> open_tx db' \<and> (st \<noteq> SC_OK \<and> st \<noteq> SC_ERR_NETWORK \<longrightarrow> data db' = data db)"
    using d [THEN conjunct2, THEN conjunct2, THEN conjunct2, THEN conjunct1] by blast
  show "\<And>db st e db'. sc_sql_simple (drivers env) db ''ROLLBACK'' = (st, e, db') \<Longrightarrow>
        (st = SC_OK \<longrightarrow> \<not> open_tx db') \<and> data db' = data db"
    using d [THEN conjunct2, THEN conjunct2, THEN conjunct2, THEN conjunct2, THEN conjunct1] by blast
  show "\<And>db. \<not> open_tx (redial env db) \<and> data (redial env db) = data db"
    using d [THEN conjunct2, THEN conjunct2, THEN conjunct2, THEN conjunct2, THEN conjunct2, THEN conjunct1] by blast
  show "\<And>db. kind db = SC_DB_SQLITE \<Longrightarrow> in_transaction env db = open_tx db"
    using d [THEN conjunct2, THEN conjunct2, THEN conjunct2, THEN conjunct2, THEN conjunct2, THEN conjunct2, THEN conjunct1] by blast
  show "\<And>db unit fin db' own' e'. work env db unit = (fin, db', own', e') \<Longrightarrow>
        kind db' = kind db \<and> (access unit = SC_DB_READ \<longrightarrow> open_tx db' = open_tx db) \<and>
        (access unit = SC_DB_WRITE \<and> open_tx db \<longrightarrow> data db' = data db)"
    using d [THEN conjunct2, THEN conjunct2, THEN conjunct2, THEN conjunct2, THEN conjunct2, THEN conjunct2, THEN conjunct2] by blast
qed

lemma roll_back_ends:
  assumes tx: "transactional env open_tx data" and "roll_back env db unit = (stop, db', unit')"
  shows "data db' = data db" "open_tx db' \<Longrightarrow> stop" "stop \<Longrightarrow> kind db = SC_DB_SQLITE \<and> status unit' \<noteq> SC_OK"
proof -
  obtain st failure db1 where r: "sc_sql_simple (drivers env) db ''ROLLBACK'' = (st, failure, db1)"
    by (metis prod_cases3)
  have kind: "kind db1 = kind db" by (rule tx_kind [OF tx r])
  have sqlite: "kind db \<noteq> SC_DB_POSTGRESQL \<Longrightarrow> in_transaction env db1 = open_tx db1"
    using tx_asked [OF tx, of db1] kind by (cases "kind db") auto
  note eff = tx_rollback [OF tx r] tx_redial [OF tx, of db1]
  have res: "(stop, db', unit') =
     (if st = SC_OK then (False, db1, unit)
      else if kind db = SC_DB_POSTGRESQL then (False, redial env db1, unit)
      else if \<not> in_transaction env db1 then (False, db1, unit)
      else (True, db1, unit\<lparr>error := failure, status := st\<rparr>))"
    using assms(2) r by (simp add: roll_back_def)
  show "data db' = data db" "open_tx db' \<Longrightarrow> stop" "stop \<Longrightarrow> kind db = SC_DB_SQLITE \<and> status unit' \<noteq> SC_OK"
    using res eff sqlite by (cases "kind db"; auto split: if_splits)+
qed

section \<open>No transaction is left open\<close>

text \<open>
  One turn: no transaction is open when it goes round again, nor when it returns without
  stopping the process, and only a commit changes what is durable.
\<close>

definition committed_by ::
  "('c, 'h, 'u) exec_env \<Rightarrow> 'c sc_db \<Rightarrow> 'u sc_db_unit \<Rightarrow> bool" where
  "committed_by env db' unit' \<longleftrightarrow> (\<exists>db2 unit1 db3 e3 st e.
     work env db2 unit1 = (SC_DB_COMMIT, db3, own unit', e3) \<and> access unit1 = SC_DB_WRITE \<and>
     sc_sql_simple (drivers env) db3 ''COMMIT'' = (st, e, db') \<and>
     (st = SC_OK \<or> st = SC_ERR_NETWORK) \<and> (st = SC_OK \<or> status unit' = st))"

lemma begin_flag: "begin_text (db\<lparr>rerun_unit := b\<rparr>) = begin_text db"
  by (simp add: begin_text_def)

lemma turn_brackets:
  assumes tx: "transactional env open_tx data" and "\<not> open_tx db"
  shows "run_turn env reruns db unit = Inl (stop, db', unit') \<Longrightarrow>
           (open_tx db' \<longrightarrow> stop) \<and>
           (access unit = SC_DB_WRITE \<longrightarrow> data db' = data db \<or> committed_by env db' unit')"
    and "run_turn env reruns db unit = Inr (reruns', db', unit') \<Longrightarrow>
           \<not> open_tx db' \<and> access unit' = access unit \<and> (access unit = SC_DB_WRITE \<longrightarrow> data db' = data db)"
proof -
  have main: "(\<forall>stop db' unit'. t = Inl (stop, db', unit') \<longrightarrow>
        (open_tx db' \<longrightarrow> stop) \<and>
        (access unit = SC_DB_WRITE \<longrightarrow> data db' = data db \<or> committed_by env db' unit')) \<and>
     (\<forall>reruns' db' unit'. t = Inr (reruns', db', unit') \<longrightarrow>
        \<not> open_tx db' \<and> access unit' = access unit \<and> (access unit = SC_DB_WRITE \<longrightarrow> data db' = data db))"
    if "run_turn env reruns db unit = t" for t
    using that
  proof (cases rule: run_turn_cases)
    case (no_begin st e db')
    then show ?thesis
      using tx_begin [OF tx, of "db\<lparr>rerun_unit := False\<rparr>" st e db'] tx_flag [OF tx, of False db] assms(2)
      by (simp add: begin_flag)
  next
    case (ran db2 unit1 fin db3 o3 e3)
    have acc: "access unit = SC_DB_READ \<or> access unit = SC_DB_WRITE" by (cases "access unit") auto
    have open2: "open_tx db2 \<longleftrightarrow> access unit = SC_DB_WRITE" and data2: "data db2 = data db"
      using acc ran(5,6) tx_flag [OF tx, of False db] assms(2)
        tx_begin [OF tx, of "db\<lparr>rerun_unit := False\<rparr>" SC_OK "error unit1" db2]
      by (auto simp: begin_flag)
    have data3: "access unit = SC_DB_WRITE \<Longrightarrow> data db3 = data db"
      and open3: "access unit = SC_DB_READ \<Longrightarrow> \<not> open_tx db3"
      using tx_work [OF tx ran(1)] open2 data2 ran(2) by auto
    from ran(7) show ?thesis
    proof (elim disjE exE conjE)
      fix st e db'
      assume c: "sc_sql_simple (drivers env) db3 ''COMMIT'' = (st, e, db')" "access unit = SC_DB_WRITE"
        "fin = SC_DB_COMMIT"
        "t = Inl (False, db', unit1\<lparr>own := o3, error := e, status := if st \<noteq> SC_OK then st else status unit\<rparr>)"
      have "data db' = data db \<or>
          committed_by env db' (unit1\<lparr>own := o3, error := e, status := if st \<noteq> SC_OK then st else status unit\<rparr>)"
      proof (cases "st = SC_OK \<or> st = SC_ERR_NETWORK")
        case True
        have "committed_by env db' (unit1\<lparr>own := o3, error := e, status := if st \<noteq> SC_OK then st else status unit\<rparr>)"
          unfolding committed_by_def
          by (intro exI [of _ db2] exI [of _ unit1] exI [of _ db3] exI [of _ e3] exI [of _ st] exI [of _ e])
            (use True c ran(1,2) in auto)
        then show ?thesis ..
      next
        case False
        with tx_commit [OF tx c(1)] data3 c(2) show ?thesis by auto
      qed
      with c tx_commit [OF tx c(1)] show ?thesis by simp
    next
      fix b stop db5 unit5
      assume rb: "(if access unit = SC_DB_WRITE then roll_back env (db3\<lparr>rerun_unit := b\<rparr>) (unit1\<lparr>own := o3, error := e3\<rparr>)
           else (False, db3\<lparr>rerun_unit := b\<rparr>, unit1\<lparr>own := o3, error := e3\<rparr>)) = (stop, db5, unit5)"
        and t: "if stop then t = Inl (True, db5, unit5)
           else (\<exists>u. t = Inl (False, db5, u) \<and> own u = o3) \<or>
                t = Inr (reruns + 1, db5, unit5) \<and> reruns + 1 < SC_DB_RERUN_MAX \<or>
                t = Inr (reruns, db5, unit5\<lparr>attempt := attempt unit + 1\<rparr>) \<and>
                attempt unit < SC_DB_AGAIN_MAX \<and> fin = SC_DB_AGAIN"
      have "(open_tx db5 \<longrightarrow> stop) \<and> access unit5 = access unit \<and> (access unit = SC_DB_WRITE \<longrightarrow> data db5 = data db)"
      proof (cases "access unit")
        case SC_DB_WRITE
        with rb have r: "roll_back env (db3\<lparr>rerun_unit := b\<rparr>) (unit1\<lparr>own := o3, error := e3\<rparr>) = (stop, db5, unit5)" by simp
        show ?thesis
          using roll_back_ends [OF tx r] roll_back_keeps(2) [OF r] data3 SC_DB_WRITE tx_flag [OF tx, of b db3] ran(2) by auto
      next
        case SC_DB_READ
        with rb open3 tx_flag [OF tx, of b db3] ran(2) show ?thesis by auto
      qed
      with t show ?thesis by (auto split: if_splits)
    qed
  qed
  show "run_turn env reruns db unit = Inl (stop, db', unit') \<Longrightarrow> (open_tx db' \<longrightarrow> stop) \<and>
           (access unit = SC_DB_WRITE \<longrightarrow> data db' = data db \<or> committed_by env db' unit')"
    and "run_turn env reruns db unit = Inr (reruns', db', unit') \<Longrightarrow>
           \<not> open_tx db' \<and> access unit' = access unit \<and> (access unit = SC_DB_WRITE \<longrightarrow> data db' = data db)"
    using main by blast+
qed

lemma loop_brackets:
  assumes "transactional env open_tx data" and "\<not> open_tx db"
    and "run_loop env reruns db unit = (stop, db', unit')"
  shows "(open_tx db' \<longrightarrow> stop) \<and>
         (access unit = SC_DB_WRITE \<longrightarrow> data db' = data db \<or> committed_by env db' unit')"
  using assms
proof (induction env reruns db unit rule: run_loop.induct)
  case (1 env reruns db unit)
  show ?case
  proof (cases "run_turn env reruns db unit")
    case (Inl r)
    with 1(4) have "run_turn env reruns db unit = Inl (stop, db', unit')" by (simp add: run_loop.simps [of _ _ db])
    then show ?thesis by (rule turn_brackets(1) [OF 1(2,3)])
  next
    case (Inr r)
    then obtain n d u where r: "run_turn env reruns db unit = Inr (n, d, u)" by (cases r) auto
    then have "run_loop env n d u = (stop, db', unit')" using 1(4) by (simp add: run_loop.simps [of _ _ db])
    with 1(1) [OF r refl refl 1(2)] turn_brackets(2) [OF 1(2,3) r] show ?thesis by auto
  qed
qed

text \<open>
  A unit never leaves its transaction open: on a connection with none open, whatever the
  work answers, however often it asks to run again, whichever statement fails and however often
  the session loses its prepared statements, the run ends with no transaction open, unless the
  process is stopping because SQLite could not roll back.
\<close>

theorem unit_leaves_no_transaction:
  assumes "transactional env open_tx data" and "\<not> open_tx db"
    and "run_unit env db unit = (stop, db', unit')"
  shows "open_tx db' \<longrightarrow> stop"
  using loop_brackets [OF assms(1,2) assms(3) [unfolded run_unit_def]] by simp


section \<open>The work runs a bounded number of times\<close>

text \<open>\<open>cnt\<close> counts, on the connection, how often the work ran.\<close>

definition counts_runs :: "('c, 'h, 'u) exec_env \<Rightarrow> ('c sc_db \<Rightarrow> nat) \<Rightarrow> bool" where
  "counts_runs env cnt \<longleftrightarrow>
     (\<forall>db b. cnt (db\<lparr>rerun_unit := b\<rparr>) = cnt db) \<and>
     (\<forall>db txt st e db'. sc_sql_simple (drivers env) db txt = (st, e, db') \<longrightarrow> cnt db' = cnt db) \<and>
     (\<forall>db. cnt (redial env db) = cnt db) \<and>
     (\<forall>db unit fin db' own' e'. work env db unit = (fin, db', own', e') \<longrightarrow> cnt db' = cnt db + 1)"

lemma counts_runsD:
  assumes "counts_runs env cnt"
  shows cr_flag: "\<And>db b. cnt (db\<lparr>rerun_unit := b\<rparr>) = cnt db"
    and cr_simple: "\<And>db txt st e db'. sc_sql_simple (drivers env) db txt = (st, e, db') \<Longrightarrow> cnt db' = cnt db"
    and cr_redial: "\<And>db. cnt (redial env db) = cnt db"
    and cr_work: "\<And>db unit fin db' own' e'. work env db unit = (fin, db', own', e') \<Longrightarrow> cnt db' = cnt db + 1"
  using assms unfolding counts_runs_def by blast+

lemma roll_back_runs:
  assumes "counts_runs env cnt" "roll_back env db unit = (stop, db', unit')"
  shows "cnt db' = cnt db"
  using assms(2) cr_simple [OF assms(1)] cr_redial [OF assms(1)]
  by (fastforce simp: roll_back_def Let_def split: prod.splits if_splits)

lemma turn_runs:
  assumes cr: "counts_runs env cnt" and "reruns < SC_DB_RERUN_MAX"
  shows "run_turn env reruns db unit = Inl (stop, db', unit') \<Longrightarrow> cnt db' \<le> cnt db + 1"
    and "run_turn env reruns db unit = Inr (reruns', db', unit') \<Longrightarrow> cnt db' = cnt db + 1 \<and> reruns' < SC_DB_RERUN_MAX"
proof -
  have main: "(\<forall>stop db' unit'. t = Inl (stop, db', unit') \<longrightarrow> cnt db' \<le> cnt db + 1) \<and>
     (\<forall>reruns' db' unit'. t = Inr (reruns', db', unit') \<longrightarrow> cnt db' = cnt db + 1 \<and> reruns' < SC_DB_RERUN_MAX)"
    if "run_turn env reruns db unit = t" for t
    using that
  proof (cases rule: run_turn_cases)
    case (no_begin st e db')
    then show ?thesis using cr_simple [OF cr no_begin(3)] cr_flag [OF cr] by simp
  next
    case (ran db2 unit1 fin db3 o3 e3)
    have "cnt db2 = cnt db"
    proof (cases "access unit")
      case SC_DB_READ
      with ran(6) cr_flag [OF cr] show ?thesis by simp
    next
      case SC_DB_WRITE
      with cr_simple [OF cr ran(5)] cr_flag [OF cr] show ?thesis by simp
    qed
    with cr_work [OF cr ran(1)] have c3: "cnt db3 = cnt db + 1" by simp
    from ran(7) show ?thesis
    proof (elim disjE exE conjE)
      fix st e db'
      assume "sc_sql_simple (drivers env) db3 ''COMMIT'' = (st, e, db')"
        "t = Inl (False, db', unit1\<lparr>own := o3, error := e, status := if st \<noteq> SC_OK then st else status unit\<rparr>)"
      with cr_simple [OF cr] c3 show ?thesis by fastforce
    next
      fix b stop db5 unit5
      assume rb: "(if access unit = SC_DB_WRITE then roll_back env (db3\<lparr>rerun_unit := b\<rparr>) (unit1\<lparr>own := o3, error := e3\<rparr>)
           else (False, db3\<lparr>rerun_unit := b\<rparr>, unit1\<lparr>own := o3, error := e3\<rparr>)) = (stop, db5, unit5)"
        and t: "if stop then t = Inl (True, db5, unit5)
           else (\<exists>u. t = Inl (False, db5, u) \<and> own u = o3) \<or>
                t = Inr (reruns + 1, db5, unit5) \<and> reruns + 1 < SC_DB_RERUN_MAX \<or>
                t = Inr (reruns, db5, unit5\<lparr>attempt := attempt unit + 1\<rparr>) \<and>
                attempt unit < SC_DB_AGAIN_MAX \<and> fin = SC_DB_AGAIN"
      have "cnt db5 = cnt db + 1"
        using rb roll_back_runs [OF cr] cr_flag [OF cr] c3 by (auto split: if_splits)
      with t assms(2) show ?thesis by (auto split: if_splits)
    qed
  qed
  show "run_turn env reruns db unit = Inl (stop, db', unit') \<Longrightarrow> cnt db' \<le> cnt db + 1"
    and "run_turn env reruns db unit = Inr (reruns', db', unit') \<Longrightarrow> cnt db' = cnt db + 1 \<and> reruns' < SC_DB_RERUN_MAX"
    using main by blast+
qed

lemma loop_runs:
  assumes "counts_runs env cnt" and "reruns < SC_DB_RERUN_MAX"
    and "run_loop env reruns db unit = (stop, db', unit')"
  shows "cnt db' \<le> cnt db + (SC_DB_RERUN_MAX - reruns) + (SC_DB_AGAIN_MAX - attempt unit)"
  using assms
proof (induction env reruns db unit rule: run_loop.induct)
  case (1 env reruns db unit)
  show ?case
  proof (cases "run_turn env reruns db unit")
    case (Inl r)
    with 1(4) have "run_turn env reruns db unit = Inl (stop, db', unit')" by (simp add: run_loop.simps [of _ _ db])
    from turn_runs(1) [OF 1(2,3) this] 1(3) show ?thesis by simp
  next
    case (Inr r)
    then obtain n d u where r: "run_turn env reruns db unit = Inr (n, d, u)" by (cases r) auto
    then have "run_loop env n d u = (stop, db', unit')" using 1(4) by (simp add: run_loop.simps [of _ _ db])
    with 1(1) [OF r refl refl 1(2)] turn_runs(2) [OF 1(2,3) r] run_turn_measure [OF r] show ?thesis
      by fastforce
  qed
qed

text \<open>
  C21. A unit always comes to an end and its work runs at most 79 times, 64 runs for sessions that
  lose statements and 15 more for runs the work asked for itself; a unit that is taken after more
  than five seconds in the queue is answered without running at all.
\<close>

theorem unit_bounded:
  assumes "counts_runs env cnt" and "run_unit env db unit = (stop, db', unit')"
  shows "cnt db' \<le> cnt db + 79 \<and>
    (now > queued_ns unit + SC_DB_QUEUE_WAIT_MS * 1000000 \<longrightarrow>
       run_on_worker env now db unit = (False, db, unit\<lparr>status := SC_ERR_QUEUE_FULL\<rparr>))"
  using loop_runs [OF assms(1) _ assms(2) [unfolded run_unit_def]]
  by (auto simp: SC_DB_RERUN_MAX_def SC_DB_AGAIN_MAX_def run_on_worker_def Let_def)

section \<open>A small database\<close>

text \<open>
  A connection that keeps whether a transaction is open, what is durable, what is pending and how
  often work ran, and work that asks to run again until its third attempt.
\<close>

type_synonym toy = "bool \<times> nat \<times> nat \<times> nat"

definition toy_simple :: "toy sc_db \<Rightarrow> string \<Rightarrow> sc_status \<times> sc_sql_error \<times> toy sc_db" where
  "toy_simple db txt =
     (case native db of (tx, durable, pending, runs) \<Rightarrow>
        (SC_OK, no_error, db\<lparr>native :=
          (if txt = ''COMMIT'' then (False, pending, pending, runs)
           else if txt = ''ROLLBACK'' then (False, durable, durable, runs)
           else (True, durable, durable, runs))\<rparr>))"

definition toy_env :: "(toy, unit, nat) exec_env" where
  "toy_env = \<lparr>
     drivers = (\<lambda>_. \<lparr>drv_run = (\<lambda>db st s ps. (SC_OK, None, 0, no_error, db)),
       drv_simple = toy_simple, drv_next = (\<lambda>h. (False, SC_OK, h)), drv_is_null = (\<lambda>h c. True),
       drv_text = (\<lambda>h c. None), drv_int = (\<lambda>h c. 0), drv_bytes = (\<lambda>h c n. None)\<rparr>),
     redial = (\<lambda>db. case native db of (tx, durable, pending, runs) \<Rightarrow> db\<lparr>native := (False, durable, durable, runs)\<rparr>),
     revive = (\<lambda>db. (SC_OK, db)),
     in_transaction = (\<lambda>db. fst (native db)),
     db_error = (\<lambda>db. []),
     work = (\<lambda>db unit. case native db of (tx, durable, pending, runs) \<Rightarrow>
       (if attempt unit < 3 then SC_DB_AGAIN else SC_DB_COMMIT,
        db\<lparr>native := (tx, durable, pending + 1, runs + 1)\<rparr>, own unit + 1, no_error))\<rparr>"

definition toy_db :: "toy sc_db" where
  "toy_db = \<lparr>kind = SC_DB_SQLITE, native = (False, 0, 0, 0), rerun_unit = False\<rparr>"

definition toy_unit :: "nat sc_db_unit" where
  "toy_unit = \<lparr>access = SC_DB_WRITE, status = SC_OK, attempt = 0, error = no_error, queued_ns = 0, own = 0\<rparr>"

lemma toy_transactional: "transactional toy_env (\<lambda>db. fst (native db)) (\<lambda>db. fst (snd (native db)))"
  unfolding transactional_def
  by (intro conjI; clarsimp simp: toy_env_def sc_sql_simple_def toy_simple_def begin_text_def split: prod.splits if_splits)

lemma toy_counts: "counts_runs toy_env (\<lambda>db. snd (snd (snd (native db))))"
  unfolding counts_runs_def
  by (intro conjI; clarsimp simp: toy_env_def sc_sql_simple_def toy_simple_def split: prod.splits if_splits)

lemma toy_run: "run_unit toy_env toy_db toy_unit =
    (False, toy_db\<lparr>native := (False, 1, 1, 3)\<rparr>, toy_unit\<lparr>attempt := 3, own := 3\<rparr>)"
  by (simp add: run_unit_def run_loop.simps run_turn_def roll_back_def toy_env_def toy_db_def toy_unit_def
      sc_sql_simple_def toy_simple_def begin_text_def SC_DB_AGAIN_MAX_def Let_def)

theorem unit_leaves_no_transaction_witness:
  "\<exists>db'. run_unit toy_env toy_db toy_unit = (False, db', toy_unit\<lparr>attempt := 3, own := 3\<rparr>) \<and> \<not> fst (native db')"
  using unit_leaves_no_transaction [OF toy_transactional _ toy_run] toy_run by (auto simp: toy_db_def)


theorem unit_bounded_witness:
  "run_on_worker toy_env 5000000001 toy_db toy_unit = (False, toy_db, toy_unit\<lparr>status := SC_ERR_QUEUE_FULL\<rparr>) \<and>
   snd (snd (snd (native (fst (snd (run_unit toy_env toy_db toy_unit)))))) \<le> 79"
proof -
  have "queued_ns toy_unit = 0" by (simp add: toy_unit_def)
  with unit_bounded [OF toy_counts toy_run, of 5000000001] show ?thesis
    unfolding toy_run by (simp add: SC_DB_QUEUE_WAIT_MS_def)
qed

end
