(* ===== verification/DbExec.thy ===== *)
theory DbExec
  imports DbUnit Topology "HOL-Library.Multiset"
begin

text \<open>
  The executor around the units (\<^verbatim>\<open>service-core/src/db_exec.c\<close>): which queue each event loop
  and each worker uses, the bounded intrusive queue of a group, submitting, taking, the sweeper
  that answers units that waited too long, and opening and closing.

  Units are named by numbers, the addresses of the C objects.  The queue is the pointer structure
  of the source, a head, a tail and a \<^verbatim>\<open>next\<close> field per unit; that it behaves as a bounded
  first-in first-out list is an interpretation of the queue contract.  What happens under the
  group's mutex is one step.
\<close>

section \<open>Groups\<close>

definition SC_DB_QUEUE_PER_WORKER :: nat where "SC_DB_QUEUE_PER_WORKER = 64"
definition SC_DB_POOL_SIZE_DEFAULT :: nat where "SC_DB_POOL_SIZE_DEFAULT = 10"

record exec_group =
  head :: "nat option"
  tail :: "nat option"
  nxt :: "nat \<Rightarrow> nat option"
  qcount :: nat
  capacity :: nat
  idle :: nat
  stopping :: bool
  workers :: nat
  cpus :: sc_cpu_set

definition empty_group :: exec_group where
  "empty_group = \<lparr>head = None, tail = None, nxt = (\<lambda>_. None), qcount = 0, capacity = 0, idle = 0,
     stopping = False, workers = 0, cpus = sc_cpu_set_clear\<rparr>"

record sc_db_exec_config =
  cfg_kind :: sc_db_kind
  pool_size :: nat
  loops :: nat
  cfg_topology :: "sc_topology option"

record sc_db_exec =
  topology :: sc_topology
  exec_kind :: sc_db_kind
  exec_groups :: "exec_group list"
  exec_of :: "nat list"
  loop_count :: nat
  loop_group :: "nat list"
  worker_count :: nat

definition sc_db_exec_workers_for :: "sc_db_exec_config \<Rightarrow> nat" where
  "sc_db_exec_workers_for cfg =
     (if cfg_kind cfg = SC_DB_SQLITE then 1
      else if pool_size cfg \<noteq> 0 then pool_size cfg else SC_DB_POOL_SIZE_DEFAULT)"

text \<open>How many of the workers each cache group holds.\<close>

definition per_cache :: "sc_topology \<Rightarrow> nat \<Rightarrow> nat list" where
  "per_cache t n = fold (\<lambda>w cnts. let g = sc_topology_group_of t w n in cnts[g := Suc (cnts ! g)]) [0..<n]
                        (replicate (group_count t) 0)"

text \<open>\<^verbatim>\<open>exec_of[g] = per_cache[g] != 0 ? next++ : UINT16_MAX\<close>; \<open>None\<close> is \<^verbatim>\<open>UINT16_MAX\<close>.\<close>

fun number_groups :: "nat list \<Rightarrow> nat \<Rightarrow> nat option list" where
  "number_groups [] k = []"
| "number_groups (c # cs) k =
     (if c \<noteq> 0 then Some k # number_groups cs (Suc k) else None # number_groups cs k)"

definition find_target :: "nat option list \<Rightarrow> nat \<Rightarrow> nat option" where
  "find_target ex g =
     (case ex ! g of
        Some t \<Rightarrow> Some t
      | None \<Rightarrow>
         (case find (\<lambda>x. x \<noteq> None) (rev (take g ex)) of
            Some t \<Rightarrow> t
          | None \<Rightarrow>
             (case find (\<lambda>x. x \<noteq> None) (drop (Suc g) ex) of Some t \<Rightarrow> t | None \<Rightarrow> None)))"

text \<open>The loop over cache groups; \<open>None\<close> is the read past the array when no group has a worker.\<close>

fun plan_walk ::
  "sc_topology \<Rightarrow> nat list \<Rightarrow> nat list \<Rightarrow> nat option list \<Rightarrow> exec_group list \<Rightarrow>
   (nat option list \<times> exec_group list) option" where
  "plan_walk t cnts [] ex grps = Some (ex, grps)"
| "plan_walk t cnts (g # gs) ex grps =
     (case find_target ex g of
        None \<Rightarrow> None
      | Some k \<Rightarrow>
         (let grp = (if ex ! g \<noteq> None then (grps ! k)\<lparr>workers := cnts ! g\<rparr> else grps ! k);
              grp' = grp\<lparr>cpus := sc_cpu_set_merge (cpus grp) (groups t ! g)\<rparr>
          in plan_walk t cnts gs (ex[g := Some k]) (grps[k := grp'])))"

text \<open>
  \<^verbatim>\<open>plan_groups\<close>.  \<open>mem\<close> answers its three allocations; the outer \<open>None\<close> is undefined behaviour.
\<close>

definition plan_groups ::
  "bool \<times> bool \<times> bool \<Rightarrow> sc_topology \<Rightarrow> nat \<Rightarrow> nat \<Rightarrow>
   (sc_status \<times> exec_group list \<times> nat list \<times> nat list) option" where
  "plan_groups mem t n lps =
     (case mem of (mem1, mem2, mem3) \<Rightarrow>
      if \<not> mem1 then Some (SC_ERR_NO_MEMORY, [], [], [])
      else
        (let cnts = per_cache t n;
             ex = number_groups cnts 0;
             k = length (filter (\<lambda>c. c \<noteq> 0) cnts)
         in if \<not> mem2 then Some (SC_ERR_NO_MEMORY, [], [], [])
            else
              (case plan_walk t cnts [0..<group_count t] ex (replicate k empty_group) of
                 None \<Rightarrow> None
               | Some (ex', grps) \<Rightarrow>
                  (let grps' = map (\<lambda>g. g\<lparr>capacity := workers g * SC_DB_QUEUE_PER_WORKER\<rparr>) grps;
                       of_cache = map the ex'
                   in if \<not> mem3 then Some (SC_ERR_NO_MEMORY, grps', [], [])
                      else Some (SC_OK, grps', of_cache,
                             map (\<lambda>w. of_cache ! sc_topology_group_of t w lps) [0..<lps])))))"

section \<open>The queue of a group\<close>

definition enqueue :: "nat \<Rightarrow> exec_group \<Rightarrow> exec_group" where
  "enqueue u g =
     (let g0 = g\<lparr>nxt := (nxt g)(u := None)\<rparr>;
          g1 = (case tail g0 of
                  Some t \<Rightarrow> g0\<lparr>nxt := (nxt g0)(t := Some u)\<rparr>
                | None \<Rightarrow> g0\<lparr>head := Some u\<rparr>)
      in g1\<lparr>tail := Some u, qcount := qcount g1 + 1\<rparr>)"

definition group_push :: "nat \<Rightarrow> exec_group \<Rightarrow> exec_group option" where
  "group_push u g = (if stopping g \<or> qcount g \<ge> capacity g then None else Some (enqueue u g))"

definition group_take :: "exec_group \<Rightarrow> (nat \<times> exec_group) option" where
  "group_take g =
     (case head g of
        None \<Rightarrow> None
      | Some u \<Rightarrow>
         (let h = nxt g u
          in Some (u, g\<lparr>head := h, tail := (if h = None then None else tail g), qcount := qcount g - 1,
                        nxt := (nxt g)(u := None)\<rparr>)))"

text \<open>
  One group's share of a sweep: the expired units off the front, in order.  The fuel is the
  number of units the group counts.
\<close>

fun sweep_walk :: "nat \<Rightarrow> nat \<Rightarrow> (nat \<Rightarrow> nat) \<Rightarrow> exec_group \<Rightarrow> nat list \<times> exec_group" where
  "sweep_walk 0 now stamp g = ([], g)"
| "sweep_walk (Suc n) now stamp g =
     (case group_take g of
        None \<Rightarrow> ([], g)
      | Some (u, g') \<Rightarrow>
          if now > stamp u \<and> now - stamp u > SC_DB_QUEUE_WAIT_MS * 1000000
          then (case sweep_walk n now stamp g' of (us, g'') \<Rightarrow> (u # us, g''))
          else ([], g))"

definition sweep_group :: "nat \<Rightarrow> (nat \<Rightarrow> nat) \<Rightarrow> exec_group \<Rightarrow> nat list \<times> exec_group" where
  "sweep_group now stamp g = sweep_walk (qcount g) now stamp g"

section \<open>Submitting\<close>

datatype ('c, 'u) submitted =
    Ran bool "'c sc_db" "'u sc_db_unit"
  | Refused sc_status
  | Queued sc_db_exec "'u sc_db_unit"

text \<open>
  \<open>readers\<close> are SQLite's read connections, one per loop; \<open>park\<close> is the answer of the caller's
  parking function, \<open>SC_OK\<close> when there is none.
\<close>

definition sc_db_exec_submit ::
  "('c, 'h, 'u) exec_env \<Rightarrow> sc_db_exec \<Rightarrow> 'c sc_db list \<Rightarrow> nat \<Rightarrow> nat \<Rightarrow> 'u sc_db_unit \<Rightarrow> sc_status \<Rightarrow> nat \<Rightarrow>
   ('c, 'u) submitted" where
  "sc_db_exec_submit env ex readers loop0 u unit0 park now =
     (let loop = (if loop0 \<ge> loop_count ex then 0 else loop0);
          unit = unit0\<lparr>status := SC_OK, attempt := 0\<rparr>
      in if exec_kind ex = SC_DB_SQLITE \<and> access unit = SC_DB_READ
         then (case run_unit env (readers ! loop) unit of (stop, db, unit') \<Rightarrow> Ran stop db unit')
         else
           (let i = loop_group ex ! loop; g = exec_groups ex ! i in
            if stopping g \<or> qcount g \<ge> capacity g then Refused SC_ERR_QUEUE_FULL
            else if park \<noteq> SC_OK then Refused park
            else Queued (ex\<lparr>exec_groups := (exec_groups ex)[i := enqueue u g]\<rparr>) (unit\<lparr>queued_ns := now\<rparr>)))"

record sc_db_exec_stats =
  st_groups :: nat
  st_workers :: nat
  st_queued :: nat

definition sc_db_exec_stats_of :: "sc_db_exec \<Rightarrow> sc_db_exec_stats" where
  "sc_db_exec_stats_of ex =
     \<lparr>st_groups = length (exec_groups ex), st_workers = worker_count ex,
      st_queued = foldl (\<lambda>n g. n + qcount g) 0 (exec_groups ex)\<rparr>"

section \<open>The pointers are a queue\<close>

fun linked :: "(nat \<Rightarrow> nat option) \<Rightarrow> nat option \<Rightarrow> nat list \<Rightarrow> bool" where
  "linked nx h [] \<longleftrightarrow> h = None"
| "linked nx h (u # us) \<longleftrightarrow> h = Some u \<and> linked nx (nx u) us"

text \<open>The units of a group in order, read off the pointers.\<close>

fun follow :: "nat \<Rightarrow> (nat \<Rightarrow> nat option) \<Rightarrow> nat option \<Rightarrow> nat list" where
  "follow 0 nx h = []"
| "follow (Suc n) nx h = (case h of None \<Rightarrow> [] | Some u \<Rightarrow> u # follow n nx (nx u))"

definition units :: "exec_group \<Rightarrow> nat list" where
  "units g = follow (qcount g) (nxt g) (head g)"

definition room :: "exec_group \<Rightarrow> nat" where
  "room g = (if stopping g then 0 else capacity g)"

definition queue_is :: "exec_group \<Rightarrow> nat list \<Rightarrow> bool" where
  "queue_is g us \<longleftrightarrow> linked (nxt g) (head g) us \<and> distinct us \<and> qcount g = length us \<and>
     tail g = (if us = [] then None else Some (last us))"

definition queue_ok :: "exec_group \<Rightarrow> bool" where
  "queue_ok g \<longleftrightarrow> queue_is g (units g)"

lemma linked_follow: "linked nx h us \<Longrightarrow> follow (length us) nx h = us"
  by (induction us arbitrary: h) auto

lemma queue_is_units: "queue_is g us \<Longrightarrow> units g = us \<and> queue_ok g"
  using linked_follow by (auto simp: queue_is_def units_def queue_ok_def)

lemma linked_other: "u \<notin> set us \<Longrightarrow> linked (nx(u := x)) h us = linked nx h us"
  by (induction us arbitrary: h) auto

lemma linked_snoc:
  assumes "linked nx h us" "us \<noteq> []" "distinct us" "u \<notin> set us" "nx u = None"
  shows "linked (nx(last us := Some u)) h (us @ [u])"
  using assms
proof (induction us arbitrary: h)
  case (Cons v us)
  show ?case
  proof (cases "us = []")
    case False
    then have "linked (nx(last us := Some u)) (nx v) (us @ [u])" using Cons.prems by (intro Cons.IH) auto
    moreover have "last us \<noteq> v" using False Cons.prems(3) by (metis distinct.simps(2) last_in_set)
    ultimately show ?thesis using False Cons.prems(1) by (simp add: fun_upd_def)
  qed (use Cons in auto)
qed simp

lemma enqueue_is:
  assumes "queue_is g us" "u \<notin> set us"
  shows "queue_is (enqueue u g) (us @ [u])"
proof (cases "us = []")
  case True
  with assms show ?thesis by (auto simp: queue_is_def enqueue_def)
next
  case False
  let ?nx = "(nxt g)(u := None)"
  have "linked ?nx (head g) us" using assms by (simp add: queue_is_def linked_other)
  from linked_snoc [OF this False _ assms(2)] assms(1)
  have "linked (?nx(last us := Some u)) (head g) (us @ [u])" by (simp add: queue_is_def)
  with assms False show ?thesis by (simp add: queue_is_def enqueue_def Let_def)
qed

lemma take_is:
  assumes "queue_is g (u # us)"
  shows "\<exists>g'. group_take g = Some (u, g') \<and> queue_is g' us \<and> capacity g' = capacity g \<and>
           stopping g' = stopping g"
proof -
  from assms have h: "head g = Some u" "linked (nxt g) (nxt g u) us" "u \<notin> set us" "distinct us"
    "qcount g = Suc (length us)" "tail g = Some (last (u # us))" by (simp_all add: queue_is_def)
  let ?g = "g\<lparr>head := nxt g u, tail := (if nxt g u = None then None else tail g),
      qcount := qcount g - 1, nxt := (nxt g)(u := None)\<rparr>"
  have "nxt g u = None \<longleftrightarrow> us = []" using h(2) by (cases us) auto
  with h have "queue_is ?g us" by (simp add: queue_is_def linked_other)
  moreover have "group_take g = Some (u, ?g)" using h by (simp add: group_take_def Let_def)
  ultimately show ?thesis by (intro exI [of _ ?g]) simp
qed

lemma take_empty: "queue_is g [] \<Longrightarrow> group_take g = None"
  by (simp add: queue_is_def group_take_def)

lemma take_ok:
  assumes "queue_ok g" "group_take g = Some (u, g')"
  shows "units g = u # units g' \<and> queue_ok g' \<and> capacity g' = capacity g \<and> stopping g' = stopping g"
proof (cases "units g")
  case Nil
  with assms take_empty [of g] show ?thesis by (simp add: queue_ok_def)
next
  case (Cons v us)
  with assms(1) have "queue_is g (v # us)" by (simp add: queue_ok_def)
  from take_is [OF this] assms(2) Cons queue_is_units show ?thesis by auto
qed

lemma push_ok_queue:
  assumes "queue_ok g" "u \<notin> set (units g)" "group_push u g = Some g'"
  shows "units g' = units g @ [u]" "queue_ok g'" "capacity g' = capacity g" "stopping g' = stopping g"
    "length (units g') \<le> capacity g'"
proof -
  have g': "g' = enqueue u g" "\<not> stopping g" "qcount g < capacity g"
    using assms(3) by (auto simp: group_push_def split: if_splits)
  have "queue_is g (units g)" using assms(1) by (simp add: queue_ok_def)
  from queue_is_units [OF enqueue_is [OF this assms(2)]]
  show it: "units g' = units g @ [u]" and "queue_ok g'" by (simp_all add: g')
  show "capacity g' = capacity g" "stopping g' = stopping g"
    by (auto simp: g' enqueue_def Let_def split: option.splits)
  then show "length (units g') \<le> capacity g'"
    using it g'(3) assms(1) by (simp add: queue_ok_def queue_is_def)
qed

text \<open>The intrusive list of a group keeps the contract of a bounded queue.\<close>

interpretation dq: bounded_fifo group_push group_take units room queue_ok "\<lambda>g u. u \<notin> set (units g)"
proof
  fix q :: exec_group and q' and x :: nat
  assume ok: "queue_ok q"
  then have len: "qcount q = length (units q)" by (simp add: queue_ok_def queue_is_def)
  show "group_push x q = None \<longleftrightarrow> room q \<le> length (units q)"
    by (auto simp: group_push_def room_def len)
  show "group_push x q = Some q' \<Longrightarrow> room q' = room q"
    by (auto simp: group_push_def room_def enqueue_def Let_def split: if_splits option.splits)
  show "x \<notin> set (units q) \<Longrightarrow> group_push x q = Some q' \<Longrightarrow> units q' = units q @ [x]"
    "x \<notin> set (units q) \<Longrightarrow> group_push x q = Some q' \<Longrightarrow> queue_ok q'"
    using push_ok_queue [OF ok] by blast+
  show "group_take q = None \<longleftrightarrow> units q = []"
    using take_is [of q "hd (units q)" "tl (units q)"] take_empty [of q] ok
    by (cases "units q") (auto simp: queue_ok_def)
  show "group_take q = Some (x, q') \<Longrightarrow> units q = x # units q'"
    "group_take q = Some (x, q') \<Longrightarrow> queue_ok q'" "group_take q = Some (x, q') \<Longrightarrow> room q' = room q"
    using take_ok [OF ok, of x q'] by (auto simp: room_def)
qed

definition waited_too_long :: "nat \<Rightarrow> (nat \<Rightarrow> nat) \<Rightarrow> nat \<Rightarrow> bool" where
  "waited_too_long now stamp u \<longleftrightarrow> now > stamp u \<and> now - stamp u > SC_DB_QUEUE_WAIT_MS * 1000000"

lemma sweep_walk_prefix:
  assumes "queue_ok g" "length (units g) \<le> n" "sweep_walk n now stamp g = (us, g')"
  shows "us = takeWhile (waited_too_long now stamp) (units g) \<and>
         units g' = dropWhile (waited_too_long now stamp) (units g) \<and> queue_ok g' \<and>
         capacity g' = capacity g \<and> stopping g' = stopping g"
  using assms
proof (induction n arbitrary: g us g')
  case (Suc n)
  show ?case
  proof (cases "group_take g")
    case None
    with Suc.prems dq.pop_empty show ?thesis by auto
  next
    case (Some r)
    then obtain u g1 where r: "group_take g = Some (u, g1)" by (cases r) auto
    note t = take_ok [OF Suc.prems(1) r]
    show ?thesis
    proof (cases "waited_too_long now stamp u")
      case True
      obtain vs g2 where w: "sweep_walk n now stamp g1 = (vs, g2)" by fastforce
      with Suc.prems(3) r True have "us = u # vs" "g' = g2" by (simp_all add: waited_too_long_def)
      with Suc.IH [OF _ _ w] Suc.prems(2) t True show ?thesis by auto
    next
      case False
      with Suc.prems r t show ?thesis by (auto simp: waited_too_long_def)
    qed
  qed
qed auto

lemma sweep_group_prefix:
  assumes "queue_ok g" "sweep_group now stamp g = (us, g')"
  shows "us = takeWhile (waited_too_long now stamp) (units g) \<and>
         units g' = dropWhile (waited_too_long now stamp) (units g) \<and> queue_ok g' \<and>
         capacity g' = capacity g \<and> stopping g' = stopping g"
proof -
  have "length (units g) \<le> qcount g" using assms(1) by (simp add: queue_ok_def queue_is_def)
  from sweep_walk_prefix [OF assms(1) this assms(2) [unfolded sweep_group_def]] show ?thesis .
qed

section \<open>A group at work\<close>

text \<open>
  A group's queue with its event loops, its workers and the sweeper: \<open>running\<close> are the units a
  worker has taken, \<open>returned\<close> those handed back to the caller, \<open>accepted\<close> every submission that was
  queued.  Time does not go back.
\<close>

record group_sys =
  grp :: exec_group
  stamp :: "nat \<Rightarrow> nat"
  clock :: nat
  running :: "nat multiset"
  returned :: "nat multiset"
  accepted :: "nat multiset"

inductive group_step :: "group_sys \<Rightarrow> group_sys \<Rightarrow> bool" where
  gs_tick: "clock s \<le> t \<Longrightarrow> group_step s (s\<lparr>clock := t\<rparr>)"
| gs_submit: "u \<notin> set (units (grp s)) \<Longrightarrow> u \<notin># running s \<Longrightarrow> group_push u (grp s) = Some g \<Longrightarrow>
    group_step s (s\<lparr>grp := g, stamp := (stamp s)(u := clock s), accepted := accepted s + {#u#}\<rparr>)"
| gs_take: "group_take (grp s) = Some (u, g) \<Longrightarrow>
    group_step s (s\<lparr>grp := g, running := running s + {#u#}\<rparr>)"
| gs_finish: "u \<in># running s \<Longrightarrow>
    group_step s (s\<lparr>running := running s - {#u#}, returned := returned s + {#u#}\<rparr>)"
| gs_sweep: "sweep_group (clock s) (stamp s) (grp s) = (us, g) \<Longrightarrow>
    group_step s (s\<lparr>grp := g, returned := returned s + mset us\<rparr>)"
| gs_stop: "group_step s (s\<lparr>grp := (grp s)\<lparr>stopping := True\<rparr>\<rparr>)"

definition group_init :: "group_sys \<Rightarrow> bool" where
  "group_init s \<longleftrightarrow> head (grp s) = None \<and> tail (grp s) = None \<and> qcount (grp s) = 0 \<and>
     running s = {#} \<and> returned s = {#} \<and> accepted s = {#}"

definition group_inv :: "group_sys \<Rightarrow> bool" where
  "group_inv s \<longleftrightarrow> queue_ok (grp s) \<and> length (units (grp s)) \<le> capacity (grp s) \<and>
     accepted s = mset (units (grp s)) + running s + returned s \<and>
     sorted (map (stamp s) (units (grp s))) \<and> (\<forall>u \<in> set (units (grp s)). stamp s u \<le> clock s)"

lemma units_stopping [simp]: "units (g\<lparr>stopping := b\<rparr>) = units g"
  "queue_ok (g\<lparr>stopping := b\<rparr>) = queue_ok g"
  by (simp_all add: units_def queue_ok_def queue_is_def)

lemma group_inv_step: "group_step s s' \<Longrightarrow> group_inv s \<Longrightarrow> group_inv s'"
proof (induction rule: group_step.induct)
  case (gs_tick s t)
  then show ?case by (auto simp: group_inv_def intro: order_trans)
next
  case (gs_submit u s g)
  have ok: "queue_ok (grp s)" using gs_submit(4) by (simp add: group_inv_def)
  note p = push_ok_queue [OF ok gs_submit(1,3)]
  have "map ((stamp s)(u := clock s)) (units (grp s)) = map (stamp s) (units (grp s))"
    using gs_submit(1) by auto
  with gs_submit(1,4) p show ?case by (auto simp: group_inv_def sorted_append)
next
  case (gs_take s u g)
  have ok: "queue_ok (grp s)" using gs_take(2) by (simp add: group_inv_def)
  from take_ok [OF ok gs_take(1)] gs_take(2) show ?case by (auto simp: group_inv_def)
next
  case (gs_finish u s)
  then show ?case by (simp add: group_inv_def)
next
  case (gs_sweep s us g)
  have ok: "queue_ok (grp s)" using gs_sweep(2) by (simp add: group_inv_def)
  let ?P = "waited_too_long (clock s) (stamp s)"
  note p = sweep_group_prefix [OF ok gs_sweep(1)]
  have "mset (units (grp s)) = mset us + mset (units g)"
    using p by (metis mset_append takeWhile_dropWhile_id)
  moreover have "sorted (map (stamp s) (units g))"
    using gs_sweep(2) p by (metis group_inv_def sorted_append map_append takeWhile_dropWhile_id)
  moreover have "set (units g) \<subseteq> set (units (grp s))" using p set_dropWhileD by fastforce
  moreover have "length (units g) \<le> length (units (grp s))" using p length_dropWhile_le by metis
  ultimately show ?case using gs_sweep(2) p by (auto simp: group_inv_def)
next
  case (gs_stop s)
  then show ?case by (simp add: group_inv_def)
qed

interpretation gs: invariant_system group_init group_step group_inv
proof
  fix s
  assume "group_init s"
  moreover from this have "units (grp s) = []" by (simp add: group_init_def units_def)
  ultimately show "group_inv s"
    by (simp add: group_inv_def group_init_def queue_ok_def queue_is_def)
qed (rule group_inv_step)

text \<open>
  C14. Every unit that was accepted is answered exactly once: in every reachable state of a group
  the submissions accepted are those queued, those a worker runs and those handed back, each
  counted once, and the queue never holds more than its capacity; so when a stopped group's queue
  is empty and no worker is busy, everything accepted has been handed back.
\<close>

theorem units_answered_once:
  assumes "reach group_init group_step s"
  shows "accepted s = mset (units (grp s)) + running s + returned s \<and>
         length (units (grp s)) \<le> capacity (grp s) \<and>
         (group_take (grp s) = None \<and> running s = {#} \<longrightarrow> returned s = accepted s)"
proof -
  have "group_inv s" by (rule gs.reach_inv [OF assms])
  then show ?thesis using dq.pop_empty [of "grp s"] by (auto simp: group_inv_def)
qed

text \<open>
  The sweeper keeps the bound on waiting: in every reachable state of a group a sweep takes
  out exactly the queued units that have waited longer than five seconds, in order, and what it
  leaves has not.
\<close>

theorem sweep_takes_all_expired:
  assumes "reach group_init group_step s" and "sweep_group (clock s) (stamp s) (grp s) = (us, g)"
  shows "us = filter (\<lambda>u. clock s - stamp s u > SC_DB_QUEUE_WAIT_MS * 1000000) (units (grp s)) \<and>
         units g = filter (\<lambda>u. clock s - stamp s u \<le> SC_DB_QUEUE_WAIT_MS * 1000000) (units (grp s))"
proof -
  let ?P = "waited_too_long (clock s) (stamp s)"
  have inv: "group_inv s" by (rule gs.reach_inv [OF assms(1)])
  have P: "?P = (\<lambda>u. clock s - stamp s u > SC_DB_QUEUE_WAIT_MS * 1000000)"
    by (auto simp: waited_too_long_def)
  have split: "takeWhile ?P us = filter ?P us \<and> dropWhile ?P us = filter (\<lambda>u. \<not> ?P u) us"
    if "sorted (map (stamp s) us)" for us
    using that
  proof (induction us)
    case (Cons u us)
    show ?case
    proof (cases "?P u")
      case False
      then have "\<forall>v \<in> set us. \<not> ?P v" using Cons.prems unfolding P by (auto intro: order_trans)
      with False show ?thesis by (auto simp: filter_empty_conv)
    qed (use Cons in auto)
  qed simp
  have "sorted (map (stamp s) (units (grp s)))" and ok: "queue_ok (grp s)"
    using inv by (simp_all add: group_inv_def)
  from split [OF this(1)] sweep_group_prefix [OF ok assms(2)] show ?thesis
    by (simp add: P not_less)
qed

definition demo_group :: exec_group where
  "demo_group = empty_group\<lparr>capacity := 64, workers := 1\<rparr>"

definition demo_sys :: group_sys where
  "demo_sys = \<lparr>grp = demo_group, stamp = (\<lambda>_. 0), clock = 0, running = {#}, returned = {#}, accepted = {#}\<rparr>"

definition demo_busy :: group_sys where
  "demo_busy = demo_sys\<lparr>grp := enqueue 7 demo_group, stamp := (\<lambda>_. 0)(7 := 0), accepted := {#7#},
     clock := 5000000001\<rparr>"

lemma demo_units: "units demo_group = []" "units (enqueue 7 demo_group) = [7]"
  by (simp_all add: units_def demo_group_def empty_group_def enqueue_def)

lemma demo_group_reach: "reach group_init group_step demo_sys" "reach group_init group_step demo_busy"
proof -
  show s: "reach group_init group_step demo_sys"
    by (rule reach_init) (simp add: group_init_def demo_sys_def demo_group_def empty_group_def)
  have "group_step demo_sys (demo_sys\<lparr>grp := enqueue 7 demo_group, stamp := (stamp demo_sys)(7 := clock demo_sys),
      accepted := accepted demo_sys + {#7#}\<rparr>)"
    by (rule gs_submit) (simp_all add: demo_sys_def demo_units group_push_def, simp add: demo_group_def empty_group_def)
  from reach_step [OF reach_step [OF s this] gs_tick [of _ 5000000001]]
  show "reach group_init group_step demo_busy" by (simp add: demo_busy_def demo_sys_def)
qed

theorem units_answered_once_witness:
  "accepted demo_busy = {#7#} \<and> accepted demo_busy = mset (units (grp demo_busy)) + running demo_busy + returned demo_busy"
  using units_answered_once [OF demo_group_reach(2)] by (simp add: demo_busy_def)

theorem sweep_takes_all_expired_witness:
  "\<exists>g. sweep_group (clock demo_busy) (stamp demo_busy) (grp demo_busy) = ([7], g) \<and> units g = []"
proof -
  obtain us g where w: "sweep_group (clock demo_busy) (stamp demo_busy) (grp demo_busy) = (us, g)" by fastforce
  with sweep_takes_all_expired [OF demo_group_reach(2) w] show ?thesis
    by (simp add: demo_busy_def demo_sys_def demo_units SC_DB_QUEUE_WAIT_MS_def)
qed

section \<open>The plan of the groups\<close>

lemma group_of_range:
  assumes "1 \<le> group_count t" "length (cpus_in t) = group_count t"
  shows "sc_topology_group_of t i n < group_count t"
proof -
  have "group_walk cs g seen p = Some h \<Longrightarrow> h < g + length cs" for cs g seen p h
    by (induction cs g seen p rule: group_walk.induct) (auto split: if_splits)
  from this [of "cpus_in t" 0] assms show ?thesis
    by (auto simp: sc_topology_group_of_def Let_def split: option.splits)
qed

lemma per_cache_ok:
  assumes "1 \<le> group_count t" "length (cpus_in t) = group_count t"
  shows "length (per_cache t n) = group_count t" "sum_list (per_cache t n) = n"
proof -
  let ?f = "\<lambda>w cnts. let g = sc_topology_group_of t w n in cnts[g := Suc (cnts ! g)]"
  have upd: "sum_list (cnts[g := Suc (cnts ! g)]) = Suc (sum_list cnts)" if "g < length cnts" for cnts :: "nat list" and g
    using that by (simp add: sum_list_update)
  have "length (fold ?f ws cnts) = length cnts \<and>
        (length cnts = group_count t \<longrightarrow> sum_list (fold ?f ws cnts) = sum_list cnts + length ws)" for ws cnts
    by (induction ws arbitrary: cnts) (auto simp: Let_def upd group_of_range [OF assms])
  from this [of "[0..<n]" "replicate (group_count t) 0"]
  show "length (per_cache t n) = group_count t" "sum_list (per_cache t n) = n"
    by (simp_all add: per_cache_def sum_list_replicate)
qed

abbreviation used :: "nat list \<Rightarrow> nat list" where
  "used cnts \<equiv> filter (\<lambda>c. c \<noteq> 0) cnts"

lemma number_groups_nth:
  assumes "g < length cnts"
  shows "number_groups cnts k ! g = (if cnts ! g \<noteq> 0 then Some (k + length (used (take g cnts))) else None)"
  using assms
  by (induction cnts k arbitrary: g rule: number_groups.induct) (auto simp: nth_Cons split: nat.splits)

lemma number_groups_length [simp]: "length (number_groups cnts k) = length cnts"
  by (induction cnts k rule: number_groups.induct) auto

lemma used_nth:
  assumes "g < length cnts" "cnts ! g \<noteq> 0"
  shows "length (used (take g cnts)) < length (used cnts)"
    "used cnts ! length (used (take g cnts)) = cnts ! g"
proof -
  have "cnts = take g cnts @ cnts ! g # drop (Suc g) cnts" using assms(1) by (simp add: id_take_nth_drop)
  then have "used cnts = used (take g cnts @ cnts ! g # drop (Suc g) cnts)" by (rule arg_cong)
  also have "\<dots> = used (take g cnts) @ cnts ! g # used (drop (Suc g) cnts)" using assms(2) by simp
  finally have "used cnts = used (take g cnts) @ cnts ! g # used (drop (Suc g) cnts)" .
  then show "length (used (take g cnts)) < length (used cnts)"
    "used cnts ! length (used (take g cnts)) = cnts ! g" by (simp_all add: nth_append)
qed

definition idle_group :: "exec_group \<Rightarrow> bool" where
  "idle_group g \<longleftrightarrow> head g = None \<and> tail g = None \<and> qcount g = 0 \<and> \<not> stopping g"

definition plan_inv :: "nat list \<Rightarrow> nat \<Rightarrow> nat option list \<Rightarrow> exec_group list \<Rightarrow> bool" where
  "plan_inv cnts g ex grps \<longleftrightarrow>
     length ex = length cnts \<and> length grps = length (used cnts) \<and>
     (\<forall>j < g. \<exists>k < length (used cnts). ex ! j = Some k) \<and>
     (\<forall>j. g \<le> j \<and> j < length cnts \<longrightarrow> ex ! j = number_groups cnts 0 ! j) \<and>
     (\<forall>k < length (used (take g cnts)). workers (grps ! k) = used cnts ! k) \<and>
     (\<forall>grp \<in> set grps. idle_group grp)"

lemma find_SomeD: "find P xs = Some x \<Longrightarrow> x \<in> set xs \<and> P x"
  by (induction xs) (auto split: if_splits)

lemma plan_target:
  assumes inv: "plan_inv cnts g ex grps" and g: "g < length cnts" and "used cnts \<noteq> []"
  shows "\<exists>k < length (used cnts). find_target ex g = Some k \<and>
           (ex ! g \<noteq> None \<longrightarrow> k = length (used (take g cnts)) \<and> cnts ! g \<noteq> 0)"
proof (cases "ex ! g")
  case (Some k)
  then have "cnts ! g \<noteq> 0" "k = length (used (take g cnts))"
    using inv g by (auto simp: plan_inv_def number_groups_nth split: if_splits)
  with Some used_nth(1) [OF g] show ?thesis by (auto simp: find_target_def)
next
  case None
  let ?Q = "\<lambda>x. x \<noteq> (None :: nat option)"
  have below: "\<exists>k < length (used cnts). x = Some k" if "x \<in> set (take g ex)" for x
    using that inv g by (auto simp: plan_inv_def in_set_conv_nth)
  have above: "\<exists>k < length (used cnts). x = Some k" if "x \<in> set (drop (Suc g) ex)" "?Q x" for x
  proof -
    note x = that(1)
    have len: "length ex = length cnts" using inv by (simp add: plan_inv_def)
    obtain i where "i < length (drop (Suc g) ex)" "x = drop (Suc g) ex ! i" 
      using x unfolding in_set_conv_nth by blast
    with len have "x = ex ! (Suc g + i)" "g \<le> Suc g + i" "Suc g + i < length cnts" by simp_all
    then obtain j where j: "x = ex ! j" "g \<le> j" "j < length cnts" by blast
    with inv have "x = number_groups cnts 0 ! j" by (simp add: plan_inv_def)
    with that(2) j(3) number_groups_nth [OF j(3), of 0] used_nth(1) [OF j(3)] show ?thesis
      by (auto split: if_splits)
  qed
  show ?thesis
  proof (cases "find ?Q (rev (take g ex))")
    case (Some t)
    then have "t \<in> set (take g ex)" by (auto dest: find_SomeD)
    with below None Some show ?thesis by (auto simp: find_target_def)
  next
    case no: None
    then have "\<forall>x \<in> set (take g ex). x = None" by (auto simp: find_None_iff)
    with below have "set (take g ex) = {}" by (metis option.distinct(1) all_not_in_conv)
    then have "take g ex = []" by simp
    then have g0: "g = 0" using g inv by (auto simp: plan_inv_def)
    obtain c where "c \<in> set cnts" "c \<noteq> 0" using assms(3) by (auto simp: filter_empty_conv)
    then obtain j where j: "j < length cnts" "cnts ! j \<noteq> 0" by (metis in_set_conv_nth)
    then have exj: "ex ! j \<noteq> None" using inv g0 by (simp add: plan_inv_def number_groups_nth)
    with None g0 have "j \<noteq> 0" by metis
    then obtain i where i: "j = Suc i" by (cases j) auto
    have "length ex = length cnts" using inv by (simp add: plan_inv_def)
    with j(1) have il: "Suc i < length ex" by (simp only: i)
    then have eq: "drop (Suc g) ex ! i = ex ! j" and "i < length (drop (Suc g) ex)"
      unfolding i g0 by (simp_all add: drop_Suc nth_tl)
    from nth_mem [OF this(2)] have "ex ! j \<in> set (drop (Suc g) ex)" unfolding eq .
    with exj have "find ?Q (drop (Suc g) ex) \<noteq> None" by (auto simp: find_None_iff)
    then obtain t where t: "find ?Q (drop (Suc g) ex) = Some t" by blast
    then have "t \<in> set (drop (Suc g) ex)" "?Q t" by (auto dest: find_SomeD)
    with above None no t show ?thesis by (auto simp: find_target_def)
  qed
qed

lemma plan_inv_step:
  assumes inv: "plan_inv cnts g ex grps" and g: "g < length cnts"
    and k: "k < length (used cnts)" "ex ! g \<noteq> None \<longrightarrow> k = length (used (take g cnts)) \<and> cnts ! g \<noteq> 0"
    and w: "workers gr = (if ex ! g \<noteq> None then cnts ! g else workers (grps ! k))" "idle_group gr"
  shows "plan_inv cnts (Suc g) (ex[g := Some k]) (grps[k := gr])"
proof -
  have len: "length ex = length cnts" "length grps = length (used cnts)" using inv by (simp_all add: plan_inv_def)
  have exg: "ex ! g = number_groups cnts 0 ! g" using inv g by (simp add: plan_inv_def)
  have take: "take (Suc g) cnts = take g cnts @ [cnts ! g]" using g by (rule take_Suc_conv_app_nth)
  have "workers (grps[k := gr] ! i) = used cnts ! i" if "i < length (used (take (Suc g) cnts))" for i
  proof (cases "cnts ! g = 0")
    case True
    then have "ex ! g = None" using exg g by (simp add: number_groups_nth)
    with that True inv w(1) k(1) len show ?thesis
      by (cases "i = k") (auto simp: plan_inv_def take)
  next
    case False
    then have "ex ! g \<noteq> None" using exg g by (simp add: number_groups_nth)
    with k(2) w(1) have kk: "k = length (used (take g cnts))" "workers gr = cnts ! g" by auto
    show ?thesis
    proof (cases "i = k")
      case True
      with kk used_nth(2) [OF g False] k(1) len show ?thesis by simp
    next
      case no: False
      with that kk(1) False have "i < length (used (take g cnts))" by (simp add: take)
      with no inv show ?thesis by (simp add: plan_inv_def)
    qed
  qed
  moreover have "\<exists>k' < length (used cnts). ex[g := Some k] ! j = Some k'" if "j < Suc g" for j
    using that inv k(1) g len by (cases "j = g") (auto simp: plan_inv_def)
  moreover have "\<forall>x \<in> set (grps[k := gr]). idle_group x"
    using inv w(2) set_update_subset_insert [of grps k gr] by (auto simp: plan_inv_def)
  ultimately show ?thesis using inv by (auto simp: plan_inv_def)
qed

lemma plan_walk_ok:
  assumes "plan_inv cnts g ex grps" "used cnts \<noteq> []" "g \<le> length cnts"
  shows "\<exists>ex' grps'. plan_walk t cnts [g..<length cnts] ex grps = Some (ex', grps') \<and>
           plan_inv cnts (length cnts) ex' grps'"
  using assms(1,3)
proof (induction "length cnts - g" arbitrary: g ex grps)
  case 0
  then show ?case by simp
next
  case (Suc d)
  then have g: "g < length cnts" by simp
  from plan_target [OF Suc.prems(1) g assms(2)] obtain k where k: "k < length (used cnts)"
    "find_target ex g = Some k" "ex ! g \<noteq> None \<longrightarrow> k = length (used (take g cnts)) \<and> cnts ! g \<noteq> 0" by blast
  let ?grp = "if ex ! g \<noteq> None then (grps ! k)\<lparr>workers := cnts ! g\<rparr> else grps ! k"
  let ?grp' = "?grp\<lparr>cpus := sc_cpu_set_merge (cpus ?grp) (groups t ! g)\<rparr>"
  have "idle_group (grps ! k)" using Suc.prems(1) k(1) by (simp add: plan_inv_def)
  then have "plan_inv cnts (Suc g) (ex[g := Some k]) (grps[k := ?grp'])"
    by (intro plan_inv_step [OF Suc.prems(1) g k(1,3)]) (auto simp: idle_group_def)
  from Suc.hyps(1) [OF _ this] Suc.hyps(2) g k(2) show ?case
    by (simp add: upt_conv_Cons Let_def)
qed

lemma plan_groups_sound_core:
  assumes "1 \<le> group_count t" and "length (cpus_in t) = group_count t" and "1 \<le> n"
  shows "\<exists>grps of_cache of_loop.
    plan_groups (True, True, True) t n lps = Some (SC_OK, grps, of_cache, of_loop) \<and>
    sum_list (map workers grps) = n \<and>
    list_all (\<lambda>g. 1 \<le> workers g \<and> capacity g = 64 * workers g \<and> group_take g = None) grps \<and>
    length of_cache = group_count t \<and> list_all (\<lambda>k. k < length grps) of_cache \<and>
    length of_loop = lps \<and> list_all (\<lambda>k. k < length grps) of_loop"
proof -
  let ?c = "per_cache t n"
  have len: "length ?c = group_count t" and sum: "sum_list ?c = n" by (rule per_cache_ok [OF assms(1,2)])+
  have total: "sum_list (used cs) = sum_list cs" for cs by (induction cs) auto
  from this [of ?c] sum assms(3) have "used ?c \<noteq> []" by auto
  moreover have "plan_inv ?c 0 (number_groups ?c 0) (replicate (length (used ?c)) empty_group)"
    by (auto simp: plan_inv_def idle_group_def empty_group_def)
  ultimately obtain ex grps where walk:
    "plan_walk t ?c [0..<length ?c] (number_groups ?c 0) (replicate (length (used ?c)) empty_group) = Some (ex, grps)"
    and inv: "plan_inv ?c (length ?c) ex grps" using plan_walk_ok [of ?c 0] by blast
  have lg: "length grps = length (used ?c)" and le: "length ex = length ?c" using inv by (simp_all add: plan_inv_def)
  have workers: "map workers grps = used ?c"
    using inv lg by (intro nth_equalityI) (auto simp: plan_inv_def)
  have ex: "the (ex ! j) < length grps" if "j < length ?c" for j using inv that lg by (fastforce simp: plan_inv_def)
  let ?g = "map (\<lambda>g. g\<lparr>capacity := workers g * SC_DB_QUEUE_PER_WORKER\<rparr>) grps"
  have ok: "1 \<le> workers g \<and> idle_group g" if "g \<in> set grps" for g
  proof -
    have "workers g \<in> set (used ?c)" using that workers by (metis image_eqI set_map)
    then show ?thesis using inv that by (simp add: plan_inv_def)
  qed
  have grps: "list_all (\<lambda>g. 1 \<le> workers g \<and> capacity g = 64 * workers g \<and> group_take g = None) ?g"
    using ok by (auto simp: list_all_iff SC_DB_QUEUE_PER_WORKER_def group_take_def idle_group_def)
  have "sum_list (map workers ?g) = n" using workers total sum by (simp add: comp_def)
  moreover have "list_all (\<lambda>k. k < length ?g) (map the ex)" using ex le by (auto simp: list_all_iff in_set_conv_nth)
  moreover have "list_all (\<lambda>k. k < length ?g) (map (\<lambda>w. map the ex ! sc_topology_group_of t w lps) [0..<lps])"
    using ex group_of_range [OF assms(1,2)] len le by (auto simp: list_all_iff)
  ultimately show ?thesis using grps walk len le by (simp add: plan_groups_def Let_def)
qed

text \<open>
  The plan of the executor is sound on every topology: every worker is in a group, each group
  has at least one worker and room for 64 units per worker, the group sizes add up to the number
  of workers, and every cache group and every event loop is served by a group that exists.
\<close>

theorem plan_groups_sound:
  assumes "1 \<le> group_count t" and "length (cpus_in t) = group_count t" and "1 \<le> n"
  shows "\<exists>grps of_cache of_loop.
    plan_groups (True, True, True) t n lps = Some (SC_OK, grps, of_cache, of_loop) \<and>
    sum_list (map workers grps) = n \<and>
    list_all (\<lambda>g. 1 \<le> workers g \<and> capacity g = 64 * workers g \<and> group_take g = None) grps \<and>
    length of_cache = group_count t \<and> list_all (\<lambda>k. k < length grps) of_cache \<and>
    length of_loop = lps \<and> list_all (\<lambda>k. k < length grps) of_loop"
  by (rule plan_groups_sound_core [OF assms])

theorem plan_groups_sound_witness:
  "\<exists>grps of_cache of_loop.
     plan_groups (True, True, True) \<lparr>groups = [sc_cpu_set_clear, sc_cpu_set_clear], cpus_in = [8, 8], pinnable = True\<rparr> 3 4
       = Some (SC_OK, grps, of_cache, of_loop) \<and> sum_list (map workers grps) = 3"
  using plan_groups_sound [of "\<lparr>groups = [sc_cpu_set_clear, sc_cpu_set_clear], cpus_in = [8, 8], pinnable = True\<rparr>" 3 4]
  by auto

section \<open>Opening and closing\<close>

text \<open>
  Opening and closing as the sequence of what they do to connections and threads.  Worker
  connections are numbered from 0 in the order they are opened, SQLite's read connections after
  them.  \<open>exec_faults\<close> is what the allocator, the database and the thread library answer.
\<close>

datatype exec_event =
    OpenConn nat | CloseConn nat | StartWorker nat | JoinWorker nat
  | StartSweeper | StopSweeper | StopGroup nat

record exec_faults =
  mem_exec :: bool
  mem_plan :: "bool \<times> bool \<times> bool"
  mem_workers :: bool
  mem_readers :: bool
  conn_status :: "nat \<Rightarrow> sc_status"
  worker_starts :: "nat \<Rightarrow> bool"
  sweep_lock_ok :: bool
  sweep_wake_ok :: bool
  sweeper_starts :: bool

definition close_everything :: "bool \<Rightarrow> nat \<Rightarrow> nat \<Rightarrow> nat \<Rightarrow> exec_event list" where
  "close_everything sweeping n_groups started n_open =
     (if sweeping then [StopSweeper] else []) @ map StopGroup [0..<n_groups] @
     map JoinWorker [0..<started] @ map CloseConn [0..<n_open]"

text \<open>Opens \<open>n\<close> more connections after \<open>made\<close>, up to the first that fails.\<close>

fun open_conns :: "(nat \<Rightarrow> sc_status) \<Rightarrow> nat \<Rightarrow> nat \<Rightarrow> sc_status \<times> nat \<times> exec_event list" where
  "open_conns f made 0 = (SC_OK, made, [])"
| "open_conns f made (Suc n) =
     (if f made \<noteq> SC_OK then (f made, made, [])
      else (case open_conns f (made + 1) n of (st, m, es) \<Rightarrow> (st, m, OpenConn made # es)))"

fun start_workers :: "(nat \<Rightarrow> bool) \<Rightarrow> nat \<Rightarrow> nat \<Rightarrow> bool \<times> nat \<times> exec_event list" where
  "start_workers f i 0 = (True, i, [])"
| "start_workers f i (Suc n) =
     (if \<not> f i then (False, i, [])
      else (case start_workers f (i + 1) n of (ok, m, es) \<Rightarrow> (ok, m, StartWorker i # es)))"

definition one_group :: sc_topology where
  "one_group = \<lparr>groups = [sc_cpu_set_clear], cpus_in = [1], pinnable = False\<rparr>"

definition open_topology :: "sc_db_exec_config \<Rightarrow> sc_topology" where
  "open_topology cfg =
     (case cfg_topology cfg of
        Some t \<Rightarrow> if cfg_kind cfg = SC_DB_POSTGRESQL then t else one_group
      | None \<Rightarrow> one_group)"

text \<open>The threads, after the connections: workers, then the sweeper.\<close>

definition open_threads :: "exec_faults \<Rightarrow> nat \<Rightarrow> nat \<Rightarrow> nat \<Rightarrow> sc_status \<times> exec_event list" where
  "open_threads fl n_groups n made =
     (let (started_all, started, es) = start_workers (worker_starts fl) 0 n;
          undo = close_everything False n_groups started made
      in if \<not> started_all then (SC_ERR_NO_MEMORY, es @ undo)
         else if \<not> sweep_lock_ok fl then (SC_ERR_NO_MEMORY, es @ undo)
         else if \<not> sweep_wake_ok fl then (SC_ERR_NO_MEMORY, es @ undo)
         else if \<not> sweeper_starts fl then (SC_ERR_NO_MEMORY, es @ undo)
         else (SC_OK, es @ [StartSweeper]))"

text \<open>The status, \<^verbatim>\<open>*opened\<close> and what was done.  The outer \<open>None\<close> is undefined behaviour.\<close>

definition sc_db_exec_open ::
  "exec_faults \<Rightarrow> sc_db_exec_config \<Rightarrow> (sc_status \<times> nat \<times> exec_event list) option" where
  "sc_db_exec_open fl cfg =
     (if \<not> mem_exec fl then Some (SC_ERR_NO_MEMORY, 0, [])
      else
        (let lps = (if loops cfg \<noteq> 0 then loops cfg else 1);
             n = sc_db_exec_workers_for cfg
         in case plan_groups (mem_plan fl) (open_topology cfg) n lps of
              None \<Rightarrow> None
            | Some (st, grps, _, _) \<Rightarrow>
               if st \<noteq> SC_OK then Some (st, 0, [])
               else if \<not> mem_workers fl
               then Some (SC_ERR_NO_MEMORY, 0, close_everything False (length grps) 0 0)
               else
                 (let (st1, made1, es1) = open_conns (conn_status fl) 0 n in
                  if st1 \<noteq> SC_OK
                  then Some (st1, made1, es1 @ close_everything False (length grps) 0 made1)
                  else if cfg_kind cfg = SC_DB_SQLITE \<and> \<not> mem_readers fl
                  then Some (SC_ERR_NO_MEMORY, 0, es1 @ close_everything False (length grps) 0 made1)
                  else
                    (let (st2, made2, es2) =
                           (if cfg_kind cfg = SC_DB_SQLITE then open_conns (conn_status fl) made1 lps
                            else (SC_OK, made1, []))
                     in if st2 \<noteq> SC_OK
                        then Some (st2, made2, es1 @ es2 @ close_everything False (length grps) 0 made2)
                        else (case open_threads fl (length grps) n made2 of
                                (st3, es3) \<Rightarrow> Some (st3, made2, es1 @ es2 @ es3))))))"

text \<open>\<^verbatim>\<open>sc_db_exec_close\<close> of an executor that was opened.\<close>

definition sc_db_exec_close :: "nat \<Rightarrow> nat \<Rightarrow> nat \<Rightarrow> exec_event list" where
  "sc_db_exec_close n_groups n_workers n_open = close_everything True n_groups n_workers n_open"

text \<open>
  No leak and no use of a closed connection, for a whole sequence: what was opened is closed,
  what was started is joined, and no connection is closed while a worker still runs.
\<close>

fun opens :: "exec_event \<Rightarrow> nat multiset" where
  "opens (OpenConn i) = {#i#}" | "opens _ = {#}"
fun closes :: "exec_event \<Rightarrow> nat multiset" where
  "closes (CloseConn i) = {#i#}" | "closes _ = {#}"
fun starts :: "exec_event \<Rightarrow> nat multiset" where
  "starts (StartWorker i) = {#i#}" | "starts _ = {#}"
fun joins :: "exec_event \<Rightarrow> nat multiset" where
  "joins (JoinWorker i) = {#i#}" | "joins _ = {#}"

definition total_of :: "(exec_event \<Rightarrow> nat multiset) \<Rightarrow> exec_event list \<Rightarrow> nat multiset" where
  "total_of f es = sum_list (map f es)"

definition tidy :: "exec_event list \<Rightarrow> bool" where
  "tidy es \<longleftrightarrow> total_of opens es = total_of closes es \<and> total_of starts es = total_of joins es \<and>
     (\<forall>pre i post. es = pre @ CloseConn i # post \<longrightarrow> total_of joins post = {#} \<and> total_of starts post = {#})"

lemma total_of_append [simp]: "total_of f (es @ fs) = total_of f es + total_of f fs"
  by (simp add: total_of_def)

lemma total_of_Cons [simp]: "total_of f (e # es) = f e + total_of f es" "total_of f [] = {#}"
  by (simp_all add: total_of_def)

lemma total_of_map [simp]:
  "total_of opens (map CloseConn is) = {#}" "total_of closes (map CloseConn is) = mset is"
  "total_of starts (map CloseConn is) = {#}" "total_of joins (map CloseConn is) = {#}"
  "total_of opens (map JoinWorker is) = {#}" "total_of closes (map JoinWorker is) = {#}"
  "total_of starts (map JoinWorker is) = {#}" "total_of joins (map JoinWorker is) = mset is"
  "total_of opens (map StopGroup is) = {#}" "total_of closes (map StopGroup is) = {#}"
  "total_of starts (map StopGroup is) = {#}" "total_of joins (map StopGroup is) = {#}"
  by (induction "is") auto

lemma open_conns_does:
  assumes "open_conns f made n = (st, made', es)"
  shows "total_of opens es = mset [made..<made'] \<and> made \<le> made' \<and> made' \<le> made + n \<and>
         (st = SC_OK \<longrightarrow> made' = made + n) \<and>
         total_of closes es = {#} \<and> total_of starts es = {#} \<and> total_of joins es = {#}"
  using assms
proof (induction f made n arbitrary: es rule: open_conns.induct)
  case (2 f made n)
  show ?case
  proof (cases "f made = SC_OK")
    case True
    obtain st1 m es1 where r: "open_conns f (made + 1) n = (st1, m, es1)" by (metis prod_cases3)
    with 2(2) True have "st = st1" "made' = m" "es = OpenConn made # es1" by simp_all
    with 2(1) [of es1] True r show ?thesis by (auto simp: upt_conv_Cons)
  qed (use 2 in auto)
qed simp

lemma start_workers_does:
  assumes "start_workers f i n = (ok, i', es)"
  shows "total_of starts es = mset [i..<i'] \<and> i \<le> i' \<and> (ok \<longrightarrow> i' = i + n) \<and>
         total_of opens es = {#} \<and> total_of closes es = {#} \<and> total_of joins es = {#}"
  using assms
proof (induction f i n arbitrary: es rule: start_workers.induct)
  case (2 f i n)
  show ?case
  proof (cases "f i")
    case True
    obtain ok1 m es1 where r: "start_workers f (i + 1) n = (ok1, m, es1)" by (metis prod_cases3)
    with 2(2) True have "ok = ok1" "i' = m" "es = StartWorker i # es1" by simp_all
    with 2(1) [of es1] True r show ?thesis by (auto simp: upt_conv_Cons)
  qed (use 2 in auto)
qed simp

lemma total_of_none: "total_of f es = {#} \<longleftrightarrow> (\<forall>e \<in> set es. f e = {#})"
  by (induction es) auto

lemma suffix_after:
  assumes "xs @ ys = pre @ c # post" "c \<notin> set xs"
  shows "\<exists>q. ys = q @ c # post"
  using assms by (auto simp: append_eq_append_conv2 append_eq_Cons_conv)

lemma tidy_undo:
  assumes "total_of closes es = {#}" "total_of joins es = {#}"
    "total_of opens es = mset [0..<made]" "total_of starts es = mset [0..<started]"
  shows "tidy (es @ close_everything sweeping n_groups started made)"
proof -
  let ?a = "es @ (if sweeping then [StopSweeper] else []) @ map StopGroup [0..<n_groups] @ map JoinWorker [0..<started]"
  let ?z = "map CloseConn [0..<made]"
  have all: "es @ close_everything sweeping n_groups started made = ?a @ ?z"
    by (simp add: close_everything_def)
  have "total_of joins post = {#} \<and> total_of starts post = {#}" if "?a @ ?z = pre @ CloseConn i # post" for pre i post
  proof -
    have "total_of closes ?a = {#}" using assms(1) by simp
    then have "CloseConn i \<notin> set ?a" unfolding total_of_none by fastforce
    from suffix_after [OF that this] obtain q where "?z = q @ CloseConn i # post" by blast
    then have "set post \<subseteq> set ?z" by (metis Un_upper2 insert_subset list.set(2) set_append)
    then show ?thesis unfolding total_of_none by auto
  qed
  then show ?thesis using assms unfolding all tidy_def by (simp add: mset_map)
qed

lemma open_topology_ok:
  assumes "\<And>t. cfg_topology cfg = Some t \<Longrightarrow> 1 \<le> group_count t \<and> length (cpus_in t) = group_count t"
  shows "1 \<le> group_count (open_topology cfg)" "length (cpus_in (open_topology cfg)) = group_count (open_topology cfg)"
  using assms by (auto simp: open_topology_def one_group_def split: option.splits)

lemma plan_groups_defined:
  assumes "1 \<le> group_count t" "length (cpus_in t) = group_count t" "1 \<le> n"
  shows "plan_groups mem t n lps \<noteq> None"
proof -
  let ?w = "plan_walk t (per_cache t n) [0..<group_count t] (number_groups (per_cache t n) 0)
    (replicate (length (used (per_cache t n))) empty_group)"
  have "?w \<noteq> None"
  proof
    assume "?w = None"
    then have "plan_groups (True, True, True) t n lps = None" by (simp add: plan_groups_def Let_def)
    with plan_groups_sound_core [OF assms, of lps] show False by auto
  qed
  then obtain ex grps where w: "?w = Some (ex, grps)" by (metis not_None_eq surj_pair)
  obtain m1 m2 m3 where mem: "mem = (m1, m2, m3)" by (metis prod_cases3)
  show ?thesis using w by (simp add: plan_groups_def mem Let_def)
qed

lemma workers_for_pos: "1 \<le> sc_db_exec_workers_for cfg"
  by (simp add: sc_db_exec_workers_for_def SC_DB_POOL_SIZE_DEFAULT_def)

lemma open_threads_tidy:
  assumes "open_threads fl n_groups n made = (st, es3)"
    and "total_of closes es = {#}" "total_of joins es = {#}" "total_of starts es = {#}" "total_of opens es = mset [0..<made]"
  shows "if st = SC_OK then tidy (es @ es3 @ sc_db_exec_close k n made) else tidy (es @ es3)"
proof -
  obtain ok started es1 where sw: "start_workers (worker_starts fl) 0 n = (ok, started, es1)" by (metis prod_cases3)
  note d = start_workers_does [OF sw]
  have undo: "tidy ((es @ es1 @ x) @ close_everything b g started made)" if "x = [] \<or> x = [StartSweeper]" for b g x
    using d assms(2-5) that by (intro tidy_undo) auto
  show ?thesis
  proof (cases "st = SC_OK")
    case True
    then have "es3 = es1 @ [StartSweeper]" "started = n"
      using assms(1) sw d by (auto simp: open_threads_def Let_def split: if_splits)
    with True undo [of "[StartSweeper]" True k] show ?thesis by (simp add: sc_db_exec_close_def)
  next
    case False
    then have "es3 = es1 @ close_everything False n_groups started made"
      using assms(1) sw by (auto simp: open_threads_def Let_def split: if_splits)
    with False undo [of "[]" False n_groups] show ?thesis by simp
  qed
qed

lemma open_all_does:
  assumes c1: "open_conns f 0 n = (st1, made1, es1)"
    and c2: "(if b then open_conns f made1 lps else (SC_OK, made1, [])) = (st2, made2, es2)"
  shows "total_of opens es1 = mset [0..<made1]" "total_of closes es1 = {#}" "total_of starts es1 = {#}"
    "total_of joins es1 = {#}" "total_of opens (es1 @ es2) = mset [0..<made2]"
    "total_of closes (es1 @ es2) = {#}" "total_of starts (es1 @ es2) = {#}" "total_of joins (es1 @ es2) = {#}"
proof -
  show d1: "total_of opens es1 = mset [0..<made1]" "total_of closes es1 = {#}" "total_of starts es1 = {#}"
    "total_of joins es1 = {#}"
    using open_conns_does [OF c1] by simp_all
  have "total_of opens es2 = mset [made1..<made2] \<and> made1 \<le> made2 \<and> total_of closes es2 = {#} \<and>
      total_of starts es2 = {#} \<and> total_of joins es2 = {#}"
    using c2 open_conns_does [of f made1 lps st2 made2 es2] by (auto split: if_splits)
  then show "total_of opens (es1 @ es2) = mset [0..<made2]" "total_of closes (es1 @ es2) = {#}"
    "total_of starts (es1 @ es2) = {#}" "total_of joins (es1 @ es2) = {#}"
    using d1 upt_add_eq_append [of 0 made1 "made2 - made1"] by (auto simp del: mset_upt)
qed

text \<open>
  Opening and closing leave nothing behind, whichever step fails: opening is always defined;
  when it fails every connection it opened is closed again and every worker it started is joined,
  and when it succeeds closing does the same; and no connection is ever closed before the last
  worker has been joined.
\<close>

theorem exec_open_close_tidy:
  assumes "case cfg_topology cfg of None \<Rightarrow> True
           | Some t \<Rightarrow> 1 \<le> group_count t \<and> length (cpus_in t) = group_count t"
  shows "\<exists>st n_open es. sc_db_exec_open fl cfg = Some (st, n_open, es) \<and>
           (if st = SC_OK then tidy (es @ sc_db_exec_close k (sc_db_exec_workers_for cfg) n_open) else tidy es)"
proof -
  let ?n = "sc_db_exec_workers_for cfg" and ?lps = "if loops cfg \<noteq> 0 then loops cfg else 1"
  have ok: "\<And>t. cfg_topology cfg = Some t \<Longrightarrow> 1 \<le> group_count t \<and> length (cpus_in t) = group_count t"
    using assms by simp
  obtain st0 grps oc ol where plan: "plan_groups (mem_plan fl) (open_topology cfg) ?n ?lps = Some (st0, grps, oc, ol)"
    using plan_groups_defined [OF open_topology_ok [OF ok] workers_for_pos] by (metis not_None_eq prod_cases4)
  obtain st1 made1 es1 where c1: "open_conns (conn_status fl) 0 ?n = (st1, made1, es1)" by (metis prod_cases3)
  obtain st2 made2 es2 where c2: "(if cfg_kind cfg = SC_DB_SQLITE then open_conns (conn_status fl) made1 ?lps
      else (SC_OK, made1, [])) = (st2, made2, es2)" by (metis prod_cases3)
  obtain st3 es3 where c3: "open_threads fl (length grps) ?n made2 = (st3, es3)" by fastforce
  note d1 = open_all_does(1-4) [OF c1 c2] and d2 = open_all_does(5-8) [OF c1 c2]
  have t1: "tidy (es1 @ close_everything False (length grps) 0 made1)"
    and t2: "tidy ((es1 @ es2) @ close_everything False (length grps) 0 made2)"
    and t0: "tidy ([] @ close_everything False (length grps) 0 0)" "tidy []"
    using d1 d2 tidy_undo [of es1 made1 0] tidy_undo [of "es1 @ es2" made2 0] tidy_undo [of "[]" 0 0]
    by (auto simp: tidy_def)
  have t3: "if st3 = SC_OK then tidy ((es1 @ es2) @ es3 @ sc_db_exec_close k ?n made2) else tidy ((es1 @ es2) @ es3)"
    by (rule open_threads_tidy [OF c3 d2(2,4,3,1)])
  have run: "sc_db_exec_open fl cfg =
     (if \<not> mem_exec fl then Some (SC_ERR_NO_MEMORY, 0, [])
      else if st0 \<noteq> SC_OK then Some (st0, 0, [])
      else if \<not> mem_workers fl then Some (SC_ERR_NO_MEMORY, 0, close_everything False (length grps) 0 0)
      else if st1 \<noteq> SC_OK then Some (st1, made1, es1 @ close_everything False (length grps) 0 made1)
      else if cfg_kind cfg = SC_DB_SQLITE \<and> \<not> mem_readers fl
      then Some (SC_ERR_NO_MEMORY, 0, es1 @ close_everything False (length grps) 0 made1)
      else if st2 \<noteq> SC_OK then Some (st2, made2, es1 @ es2 @ close_everything False (length grps) 0 made2)
      else Some (st3, made2, es1 @ es2 @ es3))"
    by (simp only: sc_db_exec_open_def Let_def plan c1 c2 c3 prod.case option.case)
  show ?thesis
  proof (cases "mem_exec fl \<and> st0 = SC_OK \<and> mem_workers fl \<and> st1 = SC_OK \<and>
      \<not> (cfg_kind cfg = SC_DB_SQLITE \<and> \<not> mem_readers fl) \<and> st2 = SC_OK")
    case True
    then have "sc_db_exec_open fl cfg = Some (st3, made2, es1 @ es2 @ es3)" by (auto simp: run)
    with t3 show ?thesis by auto
  next
    case False
    then have "\<exists>st n_open es. sc_db_exec_open fl cfg = Some (st, n_open, es) \<and> st \<noteq> SC_OK \<and> tidy es"
      using t0 t1 t2 unfolding run by (auto split: if_splits)
    then show ?thesis by auto
  qed
qed

definition demo_faults :: exec_faults where
  "demo_faults = \<lparr>mem_exec = True, mem_plan = (True, True, True), mem_workers = True, mem_readers = True,
     conn_status = (\<lambda>i. if i < 3 then SC_OK else SC_ERR_NETWORK), worker_starts = (\<lambda>_. True),
     sweep_lock_ok = True, sweep_wake_ok = True, sweeper_starts = True\<rparr>"

theorem exec_open_close_tidy_witness:
  "\<exists>st n_open es. sc_db_exec_open demo_faults
      \<lparr>cfg_kind = SC_DB_POSTGRESQL, pool_size = 4, loops = 2, cfg_topology = None\<rparr> = Some (st, n_open, es) \<and>
     (if st = SC_OK then tidy (es @ sc_db_exec_close 1 4 n_open) else tidy es)"
  using exec_open_close_tidy [of "\<lparr>cfg_kind = SC_DB_POSTGRESQL, pool_size = 4, loops = 2, cfg_topology = None\<rparr>"
      demo_faults 1]
  by (simp add: sc_db_exec_workers_for_def cong: if_cong)

end
