(* ===== verification/EnvFile.thy ===== *)
theory EnvFile
  imports CText "HOL-Library.Code_Target_Nat"
begin

text \<open>
  The \<^verbatim>\<open>.env\<close> file (\<^verbatim>\<open>service-core/src/env_file.c\<close>): reading assignments into the environment
  and writing answers back in place.

  A file is its text, \<open>None\<close> when there is none; the environment is a map.  An index into the text
  is the rest of the text.  What the allocator and the file system answer are arguments.  The
  sentence written for the operator on an error is not modelled, its status is.
\<close>

section \<open>Data\<close>

definition NAME_MAX_LEN :: nat where "NAME_MAX_LEN = 128"
definition VALUE_MAX :: nat where "VALUE_MAX = 1024"
definition SC_ENV_FILE_MAX :: nat where "SC_ENV_FILE_MAX = 65536"
definition ENTRIES_MAX :: nat where "ENTRIES_MAX = 64"

type_synonym environment = "string \<rightharpoonup> string"

record sc_env_entry =
  name :: string
  val :: string

definition sc_env_set :: "bool \<Rightarrow> string \<Rightarrow> string \<Rightarrow> environment \<Rightarrow> sc_status \<times> environment" where
  "sc_env_set mem n v env = (if mem then (SC_OK, env(n \<mapsto> v)) else (SC_ERR_NO_MEMORY, env))"

text \<open>\<^verbatim>\<open>None\<close> in the second component is the null pointer.\<close>

definition read_all :: "bool \<Rightarrow> string option \<Rightarrow> sc_status \<times> string option" where
  "read_all mem content =
     (case content of
        None \<Rightarrow> (SC_OK, None)
      | Some t \<Rightarrow>
          if \<not> mem then (SC_ERR_NO_MEMORY, None)
          else if length t > SC_ENV_FILE_MAX then (SC_ERR_TOO_LONG, None)
          else (SC_OK, Some t))"

section \<open>Reading\<close>

definition is_name_start :: "char \<Rightarrow> bool" where
  "is_name_start c \<longleftrightarrow> is_upper c \<or> is_lower c \<or> c = CHR ''_''"

definition is_name_char :: "char \<Rightarrow> bool" where
  "is_name_char c \<longleftrightarrow> is_name_start c \<or> is_digit c"

definition skip_blanks :: "string \<Rightarrow> string" where
  "skip_blanks t = dropWhile is_blank t"

definition skip_line :: "string \<Rightarrow> string" where
  "skip_line t = tl (dropWhile (\<lambda>c. c \<noteq> LF) t)"

text \<open>
  The loop of \<^verbatim>\<open>read_value\<close>: \<open>out\<close> is what was written; the result says whether the value was
  too long, what was written and the rest of the text.
\<close>

fun value_walk :: "char option \<Rightarrow> string \<Rightarrow> string \<Rightarrow> bool \<times> string \<times> string" where
  "value_walk quote out [] = (False, out, [])"
| "value_walk quote out (c # cs) =
     (case quote of
        Some q \<Rightarrow>
          if c = q then (False, out, cs)
          else if q = QUOTE \<and> c = BACKSLASH \<and> cs \<noteq> [] \<and> (hd cs = CHR ''n'' \<or> hd cs = CHR ''r'')
          then (if length out + 1 \<ge> VALUE_MAX then (True, out, cs)
                else value_walk quote (out @ [if hd cs = CHR ''n'' then LF else CR]) (tl cs))
          else if length out + 1 \<ge> VALUE_MAX then (True, out, c # cs)
          else value_walk quote (out @ [c]) cs
      | None \<Rightarrow>
          if c = LF \<or> c = CR \<or> c = CHR ''#'' then (False, out, c # cs)
          else if length out + 1 \<ge> VALUE_MAX then (True, out, c # cs)
          else value_walk quote (out @ [c]) cs)"

definition read_value :: "string \<Rightarrow> bool \<times> string \<times> string" where
  "read_value t =
     (let quote = (if t \<noteq> [] \<and> (hd t = APOS \<or> hd t = QUOTE) then Some (hd t) else None);
          (too_long, out, rest) = value_walk quote [] (if quote = None then t else tl t)
      in if too_long then (True, out, rest)
         else (False, if quote = None then rtrim is_blank out else out, rest))"

lemma value_walk_length: "length (snd (snd (value_walk quote out t))) \<le> length t"
proof (induction quote out t rule: value_walk.induct)
  case (2 quote out c cs)
  then show ?case by (cases quote; cases cs) (auto split: if_splits intro: le_SucI)
qed simp

lemma read_value_length: "length (snd (snd (read_value t))) \<le> length t"
proof -
  have "length (snd (snd (value_walk quote [] u))) \<le> length u" for quote u by (rule value_walk_length)
  from this [of None t] this [of "Some (hd t)" "tl t"] show ?thesis
    by (auto simp: read_value_def Let_def split: prod.splits intro: order_trans)
qed

definition getenv_set :: "string \<Rightarrow> string \<Rightarrow> environment \<Rightarrow> environment" where
  "getenv_set n v env = (if env n = None then env(n \<mapsto> v) else env)"

text \<open>
  One line of the loop of \<^verbatim>\<open>sc_env_file_load\<close>: \<open>Inl\<close> is the status the loop ends with, \<open>Inr\<close> goes on
  with an assignment to make, if there is one, and the rest of the text.
\<close>

definition load_line :: "string \<Rightarrow> sc_status + (string \<times> string) option \<times> string" where
  "load_line text0 =
     (let t = skip_blanks text0 in
      if t = [] then Inl SC_OK
      else if hd t = LF \<or> hd t = CR \<or> hd t = CHR ''#'' then Inr (None, skip_line t)
      else
        (let t1 = (if starts_with ''export'' t \<and> 6 < length t \<and> is_blank (t ! 6)
                   then skip_blanks (drop 6 t) else t)
         in if t1 = [] \<or> \<not> is_name_start (hd t1) then Inl SC_ERR_MALFORMED
            else
              (let n = takeWhile is_name_char t1;
                   t2 = skip_blanks (dropWhile is_name_char t1)
               in if length n \<ge> NAME_MAX_LEN then Inl SC_ERR_TOO_LONG
                  else if t2 = [] \<or> hd t2 \<noteq> CHR ''='' then Inl SC_ERR_MALFORMED
                  else
                    (let (too_long, v, t3) = read_value (skip_blanks (tl t2))
                     in if too_long then Inl SC_ERR_TOO_LONG
                        else Inr (Some (n, cstr v), skip_line t3)))))"

lemma skip_line_length: "length (skip_line t) \<le> length t - 1" "length (skip_line t) \<le> length t"
  using length_dropWhile_le [of "\<lambda>c. c \<noteq> LF" t] by (auto simp: skip_line_def)

lemma skip_blanks_length: "length (skip_blanks t) \<le> length t"
  unfolding skip_blanks_def by (rule length_dropWhile_le)

lemma load_line_progress:
  assumes "load_line t = Inr (a, t')" and "t \<noteq> []"
  shows "length t' < length t"
proof -
  let ?t = "skip_blanks t"
  let ?t1 = "if starts_with ''export'' ?t \<and> 6 < length ?t \<and> is_blank (?t ! 6) then skip_blanks (drop 6 ?t) else ?t"
  let ?t2 = "skip_blanks (dropWhile is_name_char ?t1)"
  let ?t3 = "snd (snd (read_value (skip_blanks (tl ?t2))))"
  have "length ?t \<le> length t" by (rule skip_blanks_length)
  show ?thesis
  proof (cases "?t \<noteq> [] \<and> (hd ?t = LF \<or> hd ?t = CR \<or> hd ?t = CHR ''#'')")
    case True
    with assms(1) have "t' = skip_line ?t" by (auto simp: load_line_def Let_def)
    with skip_line_length(1) [of ?t] True \<open>length ?t \<le> length t\<close> show ?thesis by (cases ?t) auto
  next
    case False
    then have t': "t' = skip_line ?t3" and t2: "?t2 \<noteq> []"
      using assms(1) by (auto simp: load_line_def Let_def split: if_splits prod.splits)
    have "length ?t1 \<le> length ?t" using skip_blanks_length [of "drop 6 ?t"] by auto
    moreover have "length ?t2 \<le> length ?t1"
      using skip_blanks_length [of "dropWhile is_name_char ?t1"] length_dropWhile_le [of is_name_char ?t1] by linarith
    moreover have "length ?t3 \<le> length (tl ?t2)"
      using read_value_length [of "skip_blanks (tl ?t2)"] skip_blanks_length [of "tl ?t2"] by linarith
    moreover have "length (tl ?t2) < length ?t2" using t2 by simp
    ultimately show ?thesis
      using \<open>length ?t \<le> length t\<close> skip_line_length(2) [of ?t3] unfolding t' by linarith
  qed
qed

function load_walk :: "string \<Rightarrow> environment \<Rightarrow> sc_status \<times> environment" where
  "load_walk t env =
     (if t = [] then (SC_OK, env)
      else
        (case load_line t of
           Inl st \<Rightarrow> (st, env)
         | Inr (a, t') \<Rightarrow>
             load_walk t' (case a of None \<Rightarrow> env | Some (n, v) \<Rightarrow> getenv_set n v env)))"
  by auto
termination by (relation "measure (\<lambda>(t, env). length t)") (auto dest: load_line_progress)

declare load_walk.simps [simp del]

definition sc_env_file_load :: "bool \<Rightarrow> string option \<Rightarrow> environment \<Rightarrow> sc_status \<times> environment" where
  "sc_env_file_load mem content env =
     (case read_all mem content of
        (st, None) \<Rightarrow> (st, env)
      | (st, Some t) \<Rightarrow> load_walk t env)"

section \<open>Writing\<close>

definition is_bare :: "char \<Rightarrow> bool" where
  "is_bare c \<longleftrightarrow> is_upper c \<or> is_lower c \<or> is_digit c \<or> c \<in> set ''_@%+:,./=-''"

text \<open>The quote a value is written in: a blank for none, \<open>None\<close> when no form carries it.\<close>

definition quote_for :: "string \<Rightarrow> char option" where
  "quote_for v =
     (if list_all is_bare v then Some SPACE
      else if APOS \<notin> set v then Some APOS
      else if QUOTE \<notin> set v \<and> \<not> contains [BACKSLASH, CHR ''n''] v \<and> \<not> contains [BACKSLASH, CHR ''r''] v
      then Some QUOTE
      else None)"

definition assignment :: "sc_env_entry \<Rightarrow> char \<Rightarrow> string" where
  "assignment entry q =
     (if q = SPACE then name entry @ ''='' @ val entry @ [LF]
      else name entry @ ''='' @ [q] @ val entry @ [q] @ [LF])"

text \<open>\<open>None\<close> when the assignment does not fit or no form carries the value.\<close>

definition append_assignment :: "string \<Rightarrow> sc_env_entry \<Rightarrow> string option" where
  "append_assignment out entry =
     (case quote_for (val entry) of
        None \<Rightarrow> None
      | Some q \<Rightarrow>
          if length (assignment entry q) \<ge> SC_ENV_FILE_MAX + 1 - length out then None
          else Some (out @ assignment entry q))"

text \<open>The index of the entry a line assigns to.\<close>

definition assigned :: "string \<Rightarrow> sc_env_entry list \<Rightarrow> bool list \<Rightarrow> nat option" where
  "assigned line entries written =
     (let t = skip_blanks line in
      if t = [] \<or> \<not> is_name_start (hd t) then None
      else
        (let n = takeWhile is_name_char t;
             after = skip_blanks (dropWhile is_name_char t)
         in if after = [] \<or> hd after \<noteq> CHR ''='' then None
            else find (\<lambda>i. \<not> written ! i \<and> name (entries ! i) = n) [0..<length entries]))"

definition line_of :: "string \<Rightarrow> string" where
  "line_of t = takeWhile (\<lambda>c. c \<noteq> LF) t"

function rewrite_walk ::
  "sc_env_entry list \<Rightarrow> string \<Rightarrow> string \<Rightarrow> bool list \<Rightarrow> sc_status \<times> string \<times> bool list" where
  "rewrite_walk entries existing out written =
     (if existing = [] then (SC_OK, out, written)
      else
        (case assigned (line_of existing) entries written of
           Some i \<Rightarrow>
             (case append_assignment out (entries ! i) of
                None \<Rightarrow> (SC_ERR_MALFORMED, out, written)
              | Some out' \<Rightarrow> rewrite_walk entries (skip_line existing) out' (written[i := True]))
         | None \<Rightarrow>
             if length out + length (line_of existing) + 1 \<ge> SC_ENV_FILE_MAX then (SC_ERR_TOO_LONG, out, written)
             else rewrite_walk entries (skip_line existing) (out @ line_of existing @ [LF]) written))"
  by auto
termination
proof (relation "measure (\<lambda>(entries, existing, out, written). length existing)", goal_cases)
  case (2 entries existing out written)
  with skip_line_length(1) [of existing] show ?case by (cases existing) auto
next
  case (3 entries existing out written)
  with skip_line_length(1) [of existing] show ?case by (cases existing) auto
qed simp

declare rewrite_walk.simps [simp del]

definition heading_text :: "string \<Rightarrow> string" where
  "heading_text out = (if out = [] then '''' else [LF]) @ ''# written by the setup command'' @ [LF]"

fun append_rest :: "(sc_env_entry \<times> bool) list \<Rightarrow> bool \<Rightarrow> string \<Rightarrow> sc_status \<times> string" where
  "append_rest [] heading out = (SC_OK, out)"
| "append_rest ((entry, written) # rest) heading out =
     (if written then append_rest rest heading out
      else if \<not> heading \<and> length out + length (heading_text out) \<ge> SC_ENV_FILE_MAX then (SC_ERR_TOO_LONG, out)
      else
        (case append_assignment (if heading then out else out @ heading_text out) entry of
           None \<Rightarrow> (SC_ERR_MALFORMED, out)
         | Some out' \<Rightarrow> append_rest rest True out'))"

text \<open>
  The status and the text of the file afterwards.  \<open>io\<close> answers the allocation, opening the file
  for writing and how many bytes were written; opening truncates.
\<close>

definition sc_env_file_write ::
  "bool \<times> bool \<times> bool \<times> nat \<Rightarrow> string option \<Rightarrow> sc_env_entry list \<Rightarrow> sc_status \<times> string option" where
  "sc_env_file_write io content entries =
     (case io of (mem1, mem2, opens, put) \<Rightarrow>
      if length entries > ENTRIES_MAX then (SC_ERR_INVALID_ARGUMENT, content)
      else
        (case read_all mem1 content of
           (st, existing) \<Rightarrow>
             if st \<noteq> SC_OK then (st, content)
             else if \<not> mem2 then (SC_ERR_NO_MEMORY, content)
             else
               (case rewrite_walk entries (case existing of None \<Rightarrow> [] | Some t \<Rightarrow> t) []
                       (replicate (length entries) False) of
                  (st1, out1, written) \<Rightarrow>
                    (case (if st1 = SC_OK then append_rest (zip entries written) False out1 else (st1, out1)) of
                       (st2, out2) \<Rightarrow>
                         if st2 \<noteq> SC_OK then (st2, content)
                         else if \<not> opens then (SC_ERR_UNAVAILABLE, content)
                         else if put < length out2 then (SC_ERR_UNAVAILABLE, Some (take put out2))
                         else (SC_OK, Some out2)))))"

section \<open>What is written reads back\<close>

definition valid_name :: "string \<Rightarrow> bool" where
  "valid_name n \<longleftrightarrow> n \<noteq> [] \<and> is_name_start (hd n) \<and> list_all is_name_char n \<and> length n < NAME_MAX_LEN"

definition valid_entry :: "sc_env_entry \<Rightarrow> bool" where
  "valid_entry e \<longleftrightarrow> valid_name (name e) \<and> length (val e) < VALUE_MAX \<and> NUL \<notin> set (val e) \<and> quote_for (val e) \<noteq> None"

lemma code_of_numeral [simp]: "code_of (CHR 0x0A) = 10" "code_of (CHR 0x0D) = 13" "code_of (CHR 0x09) = 9"
  "code_of (CHR 0x20) = 32" "code_of (CHR 0x22) = 34" "code_of (CHR 0x27) = 39" "code_of (CHR ''#'') = 35"
  "code_of (CHR ''='') = 61" "code_of (CHR ''_'') = 95"
  by (simp_all add: code_of_def)

lemma bare_not: "is_bare c \<Longrightarrow> c \<noteq> LF \<and> c \<noteq> CR \<and> c \<noteq> CHR ''#'' \<and> \<not> is_blank c \<and> c \<noteq> APOS \<and> c \<noteq> QUOTE"
  by (auto simp: is_bare_def is_blank_def is_upper_def is_lower_def is_digit_def in_range_def)

lemma name_char_not: "is_name_char c \<Longrightarrow> \<not> is_blank c \<and> c \<noteq> LF \<and> c \<noteq> CR \<and> c \<noteq> CHR ''#'' \<and> c \<noteq> CHR ''=''"
  by (auto simp: is_name_char_def is_name_start_def is_blank_def is_upper_def is_lower_def is_digit_def in_range_def)

lemma value_walk_bare:
  assumes "list_all is_bare v" "length out + length v < VALUE_MAX"
  shows "value_walk None out (v @ LF # rest) = (False, out @ v, LF # rest)"
  using assms
proof (induction v arbitrary: out)
  case (Cons c v)
  with bare_not [of c] show ?case by simp
qed simp

lemma value_walk_quoted:
  assumes "q \<notin> set v" "length out + length v < VALUE_MAX" "q = APOS \<or> q = QUOTE"
    and "q = QUOTE \<longrightarrow> \<not> contains [BACKSLASH, CHR ''n''] v \<and> \<not> contains [BACKSLASH, CHR ''r''] v"
  shows "value_walk (Some q) out (v @ q # rest) = (False, out @ v, rest)"
  using assms
proof (induction v arbitrary: out)
  case (Cons c v)
  have plain: "\<not> (q = QUOTE \<and> c = BACKSLASH \<and> (hd (v @ q # rest) = CHR ''n'' \<or> hd (v @ q # rest) = CHR ''r''))"
    using Cons.prems(3,4) by (cases v) auto
  have "value_walk (Some q) (out @ [c]) (v @ q # rest) = (False, (out @ [c]) @ v, rest)"
    using Cons.prems by (intro Cons.IH) auto
  with plain Cons.prems show ?case by auto
qed auto

lemma rtrim_bare: "list_all is_bare v \<Longrightarrow> rtrim is_blank v = v"
proof (rule rtrim_id)
  assume "list_all is_bare v"
  then show "v = [] \<or> \<not> is_blank (last v)"
    using bare_not by (metis last_in_set list_all_iff)
qed

lemma read_value_assignment:
  assumes "length v < VALUE_MAX" "quote_for v = Some q"
  shows "\<exists>u. read_value (skip_blanks ((if q = SPACE then v @ [LF] else q # v @ [q] @ [LF]) @ rest)) = (False, v, u) \<and>
             skip_line u = rest"
proof (cases "q = SPACE")
  case True
  then have bare: "list_all is_bare v" using assms(2) by (auto simp: quote_for_def split: if_splits)
  then have hd: "hd (v @ LF # rest) \<noteq> APOS \<and> hd (v @ LF # rest) \<noteq> QUOTE \<and> \<not> is_blank (hd (v @ LF # rest))"
    using bare_not by (cases v) (auto simp: is_blank_def)
  then have "skip_blanks (v @ LF # rest) = v @ LF # rest"
    unfolding skip_blanks_def by (intro dropWhile_id) simp
  with True bare hd assms(1) show ?thesis
    by (simp add: read_value_def value_walk_bare rtrim_bare skip_line_def)
next
  case False
  then have q: "q = APOS \<or> q = QUOTE" "q \<notin> set v"
    "q = QUOTE \<longrightarrow> \<not> contains [BACKSLASH, CHR ''n''] v \<and> \<not> contains [BACKSLASH, CHR ''r''] v"
    using assms(2) by (auto simp: quote_for_def split: if_splits)
  then have "\<not> is_blank q" by (auto simp: is_blank_def)
  then have "skip_blanks (q # v @ q # LF # rest) = q # v @ q # LF # rest" by (simp add: skip_blanks_def)
  with False q value_walk_quoted [OF q(2) _ q(1,3), of "[]"] assms(1) show ?thesis
    by (simp add: read_value_def skip_line_def)
qed

lemma takeWhile_name:
  assumes "valid_name n"
  shows "takeWhile is_name_char (n @ CHR ''='' # t) = n" "dropWhile is_name_char (n @ CHR ''='' # t) = CHR ''='' # t"
  using assms by (auto simp: valid_name_def list_all_iff is_name_char_def is_name_start_def is_upper_def
      is_lower_def is_digit_def in_range_def)

lemma load_line_assignment:
  assumes "valid_entry e" "quote_for (val e) = Some q"
  shows "load_line (assignment e q @ rest) = Inr (Some (name e, val e), rest)"
proof -
  let ?v = "(if q = SPACE then val e @ [LF] else q # val e @ [q] @ [LF]) @ rest"
  have asg: "assignment e q @ rest = name e @ CHR ''='' # ?v" by (simp add: assignment_def)
  have n: "valid_name (name e)" and len: "length (val e) < VALUE_MAX" using assms(1) by (simp_all add: valid_entry_def)
  then obtain c n' where cn: "name e = c # n'" "is_name_start c" by (cases "name e") (auto simp: valid_name_def)
  then have c: "\<not> is_blank c" "c \<noteq> LF" "c \<noteq> CR" "c \<noteq> CHR ''#''"
    using name_char_not [of c] by (auto simp: is_name_char_def)
  have sk: "skip_blanks (name e @ CHR ''='' # ?v) = name e @ CHR ''='' # ?v"
    using cn c by (simp add: skip_blanks_def)
  have noexp: "\<not> (starts_with ''export'' (name e @ CHR ''='' # ?v) \<and> 6 < length (name e @ CHR ''='' # ?v) \<and>
      is_blank ((name e @ CHR ''='' # ?v) ! 6))"
  proof
    assume a: "starts_with ''export'' (name e @ CHR ''='' # ?v) \<and> 6 < length (name e @ CHR ''='' # ?v) \<and>
      is_blank ((name e @ CHR ''='' # ?v) ! 6)"
    then obtain w where w: "name e @ CHR ''='' # ?v = ''export'' @ w" by (auto simp: starts_with_iff)
    have "\<forall>i < length (name e). is_name_char (name e ! i)" using n by (simp add: valid_name_def list_all_length)
    then have "6 \<ge> length (name e)" using a name_char_not by (metis nth_append not_le)
    moreover have "length (name e) \<noteq> i" if "i < 6" for i
    proof
      assume i: "length (name e) = i"
      then have "(''export'' @ w) ! i = CHR ''=''" using w by (metis nth_append_length)
      moreover have "i \<in> {0,1,2,3,4,5}" using that by auto
      ultimately show False by auto
    qed
    ultimately have "length (name e) = 6" by (metis le_neq_implies_less)
    then have "(name e @ CHR ''='' # ?v) ! 6 = CHR ''=''" by (metis nth_append_length)
    with a show False by (simp add: is_blank_def)
  qed
  obtain u where u: "read_value (skip_blanks ?v) = (False, val e, u)" "skip_line u = rest"
    using read_value_assignment [OF len assms(2)] by blast
  have nul: "cstr (val e) = val e" using assms(1) by (simp add: valid_entry_def)
  have eq: "skip_blanks (CHR ''='' # ?v) = CHR ''='' # ?v" by (simp add: skip_blanks_def is_blank_def)
  have nn: "length (name e) < NAME_MAX_LEN" using n by (simp add: valid_name_def)
  show ?thesis
    unfolding asg load_line_def Let_def sk if_not_P [OF noexp] takeWhile_name [OF n] eq
    using c cn nn u nul by simp
qed

section \<open>Files made of comments and one-line assignments\<close>

datatype env_item = Comment string | Assign sc_env_entry

fun valid_item :: "env_item \<Rightarrow> bool" where
  "valid_item (Comment c) \<longleftrightarrow> LF \<notin> set c \<and> (c = [] \<or> hd c = CHR ''#'')"
| "valid_item (Assign e) \<longleftrightarrow> valid_entry e \<and> LF \<notin> set (val e)"

fun item_line :: "env_item \<Rightarrow> string" where
  "item_line (Comment c) = c"
| "item_line (Assign e) =
     (case quote_for (val e) of Some q \<Rightarrow> butlast (assignment e q) | None \<Rightarrow> [])"

definition file_text :: "env_item list \<Rightarrow> string" where
  "file_text items = concat (map (\<lambda>i. item_line i @ [LF]) items)"

fun item_pair :: "env_item \<Rightarrow> (string \<times> string) list" where
  "item_pair (Comment c) = []"
| "item_pair (Assign e) = [(name e, val e)]"

definition file_map :: "env_item list \<Rightarrow> string \<rightharpoonup> string" where
  "file_map items = map_of (concat (map item_pair items))"

lemma file_text_simps [simp]:
  "file_text [] = []" "file_text (i # is) = item_line i @ LF # file_text is"
  "file_text (is @ js) = file_text is @ file_text js"
  by (simp_all add: file_text_def)

lemma file_map_simps [simp]:
  "file_map [] = Map.empty" "file_map (Comment c # is) = file_map is"
  "file_map (Assign e # is) = (file_map is)(name e \<mapsto> val e)"
  "file_map (is @ js) n = (case file_map is n of Some v \<Rightarrow> Some v | None \<Rightarrow> file_map js n)"
  by (auto simp: file_map_def map_add_def split: option.splits)

lemma assign_line:
  assumes "valid_entry e" "quote_for (val e) = Some q"
  shows "item_line (Assign e) @ [LF] = assignment e q"
  using assms by (simp add: assignment_def butlast_append)

lemma load_line_item:
  assumes "valid_item i"
  shows "load_line (item_line i @ LF # rest) = Inr (case i of Comment c \<Rightarrow> None | Assign e \<Rightarrow> Some (name e, val e), rest)"
proof (cases i)
  case (Assign e)
  with assms obtain q where q: "quote_for (val e) = Some q" "valid_entry e" by (auto simp: valid_entry_def)
  have eq: "item_line i @ LF # rest = assignment e q @ rest"
    unfolding Assign assign_line [OF q(2,1), symmetric] by (simp del: item_line.simps)
  show ?thesis unfolding eq load_line_assignment [OF q(2,1)] by (simp add: Assign)
next
  case (Comment c)
  with assms have c: "LF \<notin> set c" "c = [] \<or> hd c = CHR ''#''" by simp_all
  then have "hd (c @ LF # rest) = LF \<or> hd (c @ LF # rest) = CHR ''#''" by (cases c) auto
  moreover from this have "skip_blanks (c @ LF # rest) = c @ LF # rest"
    unfolding skip_blanks_def by (intro dropWhile_id) (auto simp: is_blank_def)
  moreover have "skip_line (c @ LF # rest) = rest"
    using c(1) by (simp add: skip_line_def)
  ultimately show ?thesis using Comment by (auto simp: load_line_def)
qed

lemma load_file:
  assumes "list_all valid_item items"
  shows "load_walk (file_text items) env = (SC_OK, \<lambda>n. case env n of Some v \<Rightarrow> Some v | None \<Rightarrow> file_map items n)"
  using assms
proof (induction items arbitrary: env)
  case Nil
  show ?case by (simp add: load_walk.simps fun_eq_iff split: option.splits)
next
  case (Cons i items)
  then have "load_walk (file_text (i # items)) env =
      load_walk (file_text items) (case i of Comment c \<Rightarrow> env | Assign e \<Rightarrow> getenv_set (name e) (val e) env)"
    by (subst load_walk.simps) (simp add: load_line_item split: env_item.splits)
  with Cons show ?case
    by (auto simp: getenv_set_def fun_eq_iff split: env_item.splits option.splits)
qed

section \<open>Updating a file\<close>

lemma line_of_item: "valid_item i \<Longrightarrow> line_of (item_line i @ LF # rest) = item_line i"
  and skip_line_item: "valid_item i \<Longrightarrow> skip_line (item_line i @ LF # rest) = rest"
proof -
  assume v: "valid_item i"
  have "LF \<notin> set (item_line i)"
  proof (cases i)
    case (Assign e)
    with v obtain q where q: "quote_for (val e) = Some q" "valid_name (name e)" "LF \<notin> set (val e)"
      by (auto simp: valid_entry_def)
    then have "q \<noteq> LF" by (auto simp: quote_for_def split: if_splits)
    moreover have "LF \<notin> set (name e)" using q(2) name_char_not by (auto simp: valid_name_def list_all_iff)
    ultimately show ?thesis using Assign q by (auto simp: assignment_def butlast_append)
  qed (use v in auto)
  then show "line_of (item_line i @ LF # rest) = item_line i" "skip_line (item_line i @ LF # rest) = rest"
    by (simp_all add: line_of_def skip_line_def del: dropWhile_append)
qed

lemma assigned_comment:
  assumes "valid_item (Comment c)"
  shows "assigned c entries written = None"
proof (cases c)
  case (Cons x xs)
  with assms have "skip_blanks c = c" "\<not> is_name_start (hd c)"
    by (auto simp: skip_blanks_def is_blank_def is_name_start_def is_upper_def is_lower_def in_range_def)
  then show ?thesis by (simp add: assigned_def)
qed (simp add: assigned_def skip_blanks_def)

lemma assigned_assign:
  assumes "valid_item (Assign e)"
  shows "assigned (item_line (Assign e)) entries written =
           find (\<lambda>i. \<not> written ! i \<and> name (entries ! i) = name e) [0..<length entries]"
proof -
  from assms obtain q where q: "quote_for (val e) = Some q" and n: "valid_name (name e)" by (auto simp: valid_entry_def)
  obtain v where line: "item_line (Assign e) = name e @ CHR ''='' # v"
    using q by (cases "q = SPACE") (auto simp: assignment_def butlast_append)
  have "\<not> is_blank (hd (name e))" "name e \<noteq> []" "is_name_start (hd (name e))"
    using n name_char_not [of "hd (name e)"] by (auto simp: valid_name_def is_name_char_def)
  then have "skip_blanks (name e @ CHR ''='' # v) = name e @ CHR ''='' # v"
    "hd (name e @ CHR ''='' # v) = hd (name e)"
    unfolding skip_blanks_def by (auto intro!: dropWhile_id)
  moreover have "skip_blanks (CHR ''='' # v) = CHR ''='' # v" by (simp add: skip_blanks_def is_blank_def)
  ultimately show ?thesis
    unfolding line assigned_def Let_def using \<open>is_name_start (hd (name e))\<close>
    by (simp add: takeWhile_name [OF n])
qed

lemma append_assignment_item:
  assumes "append_assignment out e = Some out'" "valid_entry e"
  shows "out' = out @ file_text [Assign e]" "length out' \<le> SC_ENV_FILE_MAX"
proof -
  obtain q where q: "quote_for (val e) = Some q" using assms(2) by (auto simp: valid_entry_def)
  with assms(1) have o: "out' = out @ assignment e q" "length (assignment e q) < SC_ENV_FILE_MAX + 1 - length out"
    by (auto simp: append_assignment_def split: if_splits)
  then show "length out' \<le> SC_ENV_FILE_MAX" by simp
  show "out' = out @ file_text [Assign e]"
    using o(1) assign_line [OF assms(2) q] by (simp add: file_text_def del: item_line.simps)
qed

definition entry_map :: "sc_env_entry list \<Rightarrow> string \<rightharpoonup> string" where
  "entry_map entries = map_of (map (\<lambda>e. (name e, val e)) entries)"

text \<open>The entries not written yet, as a map.\<close>

definition pending :: "sc_env_entry list \<Rightarrow> bool list \<Rightarrow> string \<Rightarrow> nat option" where
  "pending entries written n = find (\<lambda>i. \<not> written ! i \<and> name (entries ! i) = n) [0..<length entries]"

lemma pending_Some:
  assumes "pending entries written n = Some i"
  shows "i < length entries" "\<not> written ! i" "name (entries ! i) = n"
  using assms by (auto simp: pending_def find_Some_iff)

lemma pending_None:
  "pending entries written n = None \<longleftrightarrow> (\<forall>i < length entries. written ! i \<or> name (entries ! i) \<noteq> n)"
  by (auto simp: pending_def find_None_iff)

definition replaced :: "sc_env_entry list \<Rightarrow> bool list \<Rightarrow> env_item list \<Rightarrow> env_item list \<Rightarrow> bool" where
  "replaced entries written items items' \<longleftrightarrow> list_all valid_item items' \<and>
     (\<forall>n. file_map items' n =
        (if file_map items n = None then None
         else case pending entries written n of Some i \<Rightarrow> Some (val (entries ! i)) | None \<Rightarrow> file_map items n))"

lemma pending_upd:
  assumes "distinct (map name entries)" "pending entries written m = Some i" "length written = length entries"
  shows "pending entries (written[i := True]) n = (if n = m then None else pending entries written n)"
proof -
  have i: "i < length entries" "name (entries ! i) = m" using pending_Some [OF assms(2)] by auto
  have uniq: "j = i" if "j < length entries" "name (entries ! j) = m" for j
    using that i assms(1) by (metis length_map nth_eq_iff_index_eq nth_map)
  show ?thesis
  proof (cases "n = m")
    case True
    have "written[i := True] ! j \<or> name (entries ! j) \<noteq> m" if "j < length entries" for j
      using uniq [OF that] that assms(3) by (cases "j = i") auto
    with True show ?thesis by (auto simp: pending_None)
  next
    case False
    have "(\<not> written[i := True] ! j \<and> name (entries ! j) = n) = (\<not> written ! j \<and> name (entries ! j) = n)" for j
      using False i(2) by (cases "j = i") auto
    with False show ?thesis by (simp add: pending_def)
  qed
qed

lemma rewrite_file:
  assumes "distinct (map name entries)" "list_all valid_item items" "list_all (\<lambda>e. valid_item (Assign e)) entries"
    and "length written = length entries" "length out \<le> SC_ENV_FILE_MAX"
    and "rewrite_walk entries (file_text items) out written = (SC_OK, out', written')"
  shows "\<exists>items'. out' = out @ file_text items' \<and> replaced entries written items items' \<and>
           length written' = length entries \<and> length out' \<le> SC_ENV_FILE_MAX \<and>
           (\<forall>n. pending entries written' n = (if file_map items n = None then pending entries written n else None))"
  using assms(2,4-)
proof (induction items arbitrary: out written)
  case Nil
  then show ?case by (intro exI [of _ "[]"]) (auto simp: rewrite_walk.simps replaced_def)
next
  case (Cons i items)
  have vi: "valid_item i" "list_all valid_item items" using Cons.prems(1) by simp_all
  note split = line_of_item [OF vi(1), of "file_text items"] skip_line_item [OF vi(1), of "file_text items"]
  have keep: ?case if none: "assigned (item_line i) entries written = None"
    and same: "\<And>n. file_map [i] n \<noteq> None \<Longrightarrow> pending entries written n = None"
  proof -
    let ?out = "out @ item_line i @ [LF]"
    have walk: "rewrite_walk entries (file_text items) ?out written = (SC_OK, out', written')"
      and len: "length ?out \<le> SC_ENV_FILE_MAX"
      using Cons.prems(4) none split by (auto simp: rewrite_walk.simps [of _ "_ # _"] rewrite_walk.simps [of _ "_ @ _"] split: if_splits)
    from Cons.IH [OF vi(2) Cons.prems(2) len walk] obtain items' where
      I: "out' = ?out @ file_text items'" "replaced entries written items items'" "length written' = length entries"
        "length out' \<le> SC_ENV_FILE_MAX"
        "\<forall>n. pending entries written' n = (if file_map items n = None then pending entries written n else None)" by blast
    have fm: "file_map (i # is) n = (case file_map [i] n of Some v \<Rightarrow> Some v | None \<Rightarrow> file_map is n)" for "is" n
      by (metis append_Cons append_Nil file_map_simps(4))
    have "replaced entries written (i # items) (i # items')"
      using I(2) vi(1) same by (auto simp: replaced_def fm [of items] fm [of items'] split: option.splits)
    moreover have "pending entries written' n = (if file_map (i # items) n = None then pending entries written n else None)" for n
      using I(5) same [of n] by (auto simp: fm [of items] split: option.splits)
    ultimately show ?case using I by (intro exI [of _ "i # items'"]) auto
  qed
  show ?case
  proof (cases i)
    case (Comment c)
    with vi(1) show ?thesis by (intro keep) (auto intro: assigned_comment simp del: valid_item.simps)
  next
    case (Assign e)
    have asg: "assigned (item_line i) entries written = pending entries written (name e)"
      using assigned_assign vi(1) unfolding Assign pending_def by blast
    show ?thesis
    proof (cases "pending entries written (name e)")
      case None
      then show ?thesis using asg Assign by (intro keep) (auto split: if_splits)
    next
      case (Some k)
      note k = pending_Some [OF Some]
      have ve: "valid_item (Assign (entries ! k))" using assms(3) k(1) by (simp add: list_all_length)
      then have ve': "valid_entry (entries ! k)" by simp
      obtain out1 where out1: "append_assignment out (entries ! k) = Some out1"
        and walk: "rewrite_walk entries (file_text items) out1 (written[k := True]) = (SC_OK, out', written')"
        using Cons.prems(4) asg Some split
        by (auto simp: rewrite_walk.simps [of _ "_ @ _"] split: option.splits)
      note o = append_assignment_item [OF out1 ve']
      note upd = pending_upd [OF assms(1) Some Cons.prems(2)]
      from Cons.IH [OF vi(2) _ o(2) walk] Cons.prems(2) obtain items' where
        I: "out' = out1 @ file_text items'" "replaced entries (written[k := True]) items items'"
          "length written' = length entries" "length out' \<le> SC_ENV_FILE_MAX"
          "\<forall>n. pending entries written' n = (if file_map items n = None then pending entries (written[k := True]) n else None)"
        by auto
      have "replaced entries written (i # items) (Assign (entries ! k) # items')"
        using I(2) ve Assign k(3) Some by (auto simp: replaced_def upd split: if_splits option.splits)
      moreover have "pending entries written' n = (if file_map (i # items) n = None then pending entries written n else None)" for n
        using I(5) Assign by (auto simp: upd)
      ultimately show ?thesis
        using I o(1) by (intro exI [of _ "Assign (entries ! k) # items'"]) auto
    qed
  qed
qed

lemma append_file:
  assumes "list_all (\<lambda>(e, w). valid_item (Assign e)) ews" "length out \<le> SC_ENV_FILE_MAX"
    and "append_rest ews heading out = (SC_OK, out')"
  shows "\<exists>items. out' = out @ file_text items \<and> list_all valid_item items \<and> length out' \<le> SC_ENV_FILE_MAX \<and>
           file_map items = entry_map (map fst (filter (\<lambda>(e, w). \<not> w) ews))"
  using assms
proof (induction ews heading out rule: append_rest.induct)
  case (1 heading out)
  then show ?case by (intro exI [of _ "[]"]) (simp add: entry_map_def)
next
  case (2 e w rest heading out)
  show ?case
  proof (cases w)
    case True
    with 2 show ?thesis by simp
  next
    case False
    let ?head = "if heading then [] else (if out = [] then [] else [Comment []]) @ [Comment ''# written by the setup command'']"
    have head: "(if heading then out else out @ heading_text out) = out @ file_text ?head"
      by (auto simp: heading_text_def)
    have vh: "list_all valid_item ?head" "file_map ?head = Map.empty" by auto
    obtain out1 where o: "append_assignment (out @ file_text ?head) e = Some out1"
      and rest: "append_rest rest True out1 = (SC_OK, out')"
      using 2(5) False head by (auto split: if_splits option.splits)
    have ve: "valid_item (Assign e)" using 2(3) by simp
    note a = append_assignment_item [OF o, OF ve [simplified, THEN conjunct1]]
    have "\<not> (\<not> heading \<and> SC_ENV_FILE_MAX \<le> length out + length (heading_text out))"
      using 2(5) False by (auto split: if_splits)
    from 2(2) [OF False this _ _ a(2) rest] o head 2(3) obtain items where
      I: "out' = out1 @ file_text items" "list_all valid_item items" "length out' \<le> SC_ENV_FILE_MAX"
        "file_map items = entry_map (map fst (filter (\<lambda>(e, w). \<not> w) rest))" by auto
    have "file_map (?head @ Assign e # items) n = entry_map (map fst (filter (\<lambda>(e, w). \<not> w) ((e, w) # rest))) n" for n
      using vh(2) False I(4) by (simp only: file_map_simps(4)) (simp add: entry_map_def)
    with I a(1) vh(1) ve show ?thesis
      by (intro exI [of _ "?head @ Assign e # items"]) (auto simp del: valid_item.simps)
  qed
qed

lemma unwritten_map:
  assumes "distinct (map name entries)" "length written = length entries"
  shows "entry_map (map fst (filter (\<lambda>(e, w). \<not> w) (zip entries written))) n =
           map_option (\<lambda>i. val (entries ! i)) (pending entries written n)"
proof -
  let ?es = "map fst (filter (\<lambda>(e, w). \<not> w) (zip entries written))"
  have mem: "e \<in> set ?es \<longleftrightarrow> (\<exists>i < length entries. e = entries ! i \<and> \<not> written ! i)" for e
    using assms(2) by (force simp: in_set_zip)
  have uniq: "e = e'" if "e \<in> set entries" "e' \<in> set entries" "name e = name e'" for e e'
    using assms(1) that by (meson distinct_map inj_onD)
  show ?thesis
  proof (cases "pending entries written n")
    case None
    then have "n \<notin> fst ` set (map (\<lambda>e. (name e, val e)) ?es)" using mem by (force simp: pending_None)
    then have "entry_map ?es n = None" unfolding entry_map_def by (metis map_of_eq_None_iff)
    with None show ?thesis by simp
  next
    case (Some i)
    note i = pending_Some [OF Some]
    then have "entries ! i \<in> set ?es" using mem by blast
    then have "n \<in> fst ` set (map (\<lambda>e. (name e, val e)) ?es)" using i(3) by force
    then obtain v where v: "entry_map ?es n = Some v" unfolding entry_map_def by (metis map_of_eq_None_iff not_None_eq)
    then obtain e where e: "e \<in> set ?es" "name e = n" "val e = v"
      unfolding entry_map_def using map_of_SomeD by fastforce
    then have "e = entries ! i" using mem uniq i by (metis nth_mem)
    with e v Some show ?thesis by simp
  qed
qed

lemma pending_all:
  assumes "distinct (map name entries)"
  shows "entry_map entries n = map_option (\<lambda>i. val (entries ! i)) (pending entries (replicate (length entries) False) n)"
proof -
  have "map fst (filter (\<lambda>(e, w). \<not> w) (zip es (replicate (length es) False))) = es" for es :: "sc_env_entry list"
    by (induction es) auto
  with unwritten_map [OF assms, of "replicate (length entries) False" n] show ?thesis by simp
qed


definition demo_entries :: "sc_env_entry list" where
  "demo_entries = [\<lparr>name = ''DB_PASSWORD'', val = ''it is 5 #''\<rparr>, \<lparr>name = ''PORT'', val = ''8080''\<rparr>]"


text \<open>
  The environment wins: whatever a file holds and however loading it ends, no variable that
  was set before is changed.
\<close>

theorem env_load_keeps:
  "env n = Some v \<Longrightarrow> snd (sc_env_file_load mem content env) n = Some v"
proof -
  have "env n = Some v \<Longrightarrow> snd (load_walk t env) n = Some v" for t
  proof (induction t env rule: load_walk.induct)
    case (1 t env)
    show ?case
    proof (cases "t = []")
      case False
      show ?thesis
      proof (cases "load_line t")
        case (Inl st)
        with False 1(2) show ?thesis by (simp add: load_walk.simps)
      next
        case (Inr r)
        then obtain a t' where r: "load_line t = Inr (a, t')" by (cases r) auto
        have "(case a of None \<Rightarrow> env | Some (m, w) \<Rightarrow> getenv_set m w env) n = Some v"
          using 1(2) by (auto simp: getenv_set_def split: option.splits)
        with 1(1) [OF False r refl] r False show ?thesis by (simp add: load_walk.simps [of t])
      qed
    qed (use 1(2) in \<open>simp add: load_walk.simps\<close>)
  qed
  then show "env n = Some v \<Longrightarrow> snd (sc_env_file_load mem content env) n = Some v"
    by (auto simp: sc_env_file_load_def split: prod.splits option.splits)
qed

theorem env_load_keeps_witness:
  "snd (sc_env_file_load True (Some ''PORT=9'') [''PORT'' \<mapsto> ''1'']) ''PORT'' = Some ''1''"
  by (rule env_load_keeps) simp

section \<open>Where an update loses a value\<close>

text \<open>
  The writer looks for assignments line by line, but a quoted value may span lines: a value of two
  lines that is replaced leaves its second line behind, and the file no longer loads.
\<close>

lemma multi_line_value_left_behind:
  "fst (sc_env_file_load True (Some (''KEY='' @ [QUOTE] @ ''a'' @ [LF] @ ''b'' @ [QUOTE, LF])) (\<lambda>_. None)) = SC_OK \<and>
   fst (sc_env_file_load True (snd (sc_env_file_write (True, True, True, 99999)
      (Some (''KEY='' @ [QUOTE] @ ''a'' @ [LF] @ ''b'' @ [QUOTE, LF])) [\<lparr>name = ''KEY'', val = ''c''\<rparr>])) (\<lambda>_. None))
     = SC_ERR_MALFORMED"
  by code_simp

text \<open>
  The reader accepts \<^verbatim>\<open>export NAME=value\<close>, the writer does not see it as an assignment: the answer is
  appended and the old value, which comes first, still wins.
\<close>

lemma exported_value_wins:
  "snd (sc_env_file_load True (snd (sc_env_file_write (True, True, True, 99999)
      (Some (''export KEY=old'' @ [LF])) [\<lparr>name = ''KEY'', val = ''new''\<rparr>])) (\<lambda>_. None)) ''KEY''
     = Some ''old''"
  by code_simp

end
