(* ===== verification/LogRing.thy ===== *)
theory LogRing
  imports Prelude
begin

text \<open>
  The ring between the threads that log and the drain thread,
  \<^verbatim>\<open>service-core/src/log/ring.c\<close>, and the return queues that bring spent arenas back to their
  owners.

  The ring is a step relation: every atomic access of \<^verbatim>\<open>sc_log_ring_reserve\<close>,
  \<^verbatim>\<open>sc_log_ring_publish\<close>, \<^verbatim>\<open>sc_log_ring_take\<close> and \<^verbatim>\<open>sc_log_ring_done\<close>, and every critical section
  that puts a thread to sleep or wakes it, is one step, and the steps of the submitting threads
  and of the drain thread interleave in any order. The cursors are the 64-bit words of the code
  and wrap around. A system state carries three history variables the code does not have: the
  lines in the order of their tickets, the lines the drain thread has read, and the number of
  each thread's ticket.

  Shown: the drain thread reads the lines in ticket order, each once and unharmed, however the
  threads interleave; and no wake-up is lost: with no further line submitted, every run stops,
  and when it stops every line has been drained.
\<close>

unbundle bit_operations_syntax

section \<open>The ring\<close>

text \<open>Pointers (to an arena, to a record) are modelled by their identity, a number.\<close>

record sc_log_slot =
  seq :: "64 word"
  arena :: nat
  rec :: nat
  owner :: "32 word"

record ring_state =
  g_ring :: "sc_log_slot list"
  g_capacity :: "64 word"
  g_mask :: "64 word"
  g_head :: "64 word"
  g_tail :: "64 word"
  g_sync_ready :: bool
  g_producer_waiters :: "32 word"
  g_consumer_waiting :: bool
  g_running :: bool
  n_blocked :: "64 word"
  n_submitted :: "64 word"

definition SC_LOG_MAX_THREADS :: nat where
  "SC_LOG_MAX_THREADS = 64"

text \<open>
  \<^verbatim>\<open>round_pow2\<close>: the loop doubles a word until it reaches \<open>v\<close>. The fuel is the number of times
  a bit can be shifted before it leaves the word.
\<close>

primrec pow2_loop :: "nat \<Rightarrow> 64 word \<Rightarrow> 64 word \<Rightarrow> 64 word option" where
  "pow2_loop 0 p v = None"
| "pow2_loop (Suc n) p v = (if p < v then pow2_loop n (push_bit 1 p) v else Some p)"

definition round_pow2 :: "64 word \<Rightarrow> 64 word option" where
  "round_pow2 v = pow2_loop 62 8 v"

definition first_slot :: "nat \<Rightarrow> sc_log_slot" where
  "first_slot i = \<lparr> seq = of_nat i, arena = 0, rec = 0, owner = 0 \<rparr>"

text \<open>
  \<^verbatim>\<open>sc_log_ring_init\<close>. What the platform answers is an argument: whether the mutex, the two
  condition variables and the slots can be had. The result is 0 or -1 with the new state.
\<close>

record platform =
  mutex_ok :: bool
  notfull_ok :: bool
  notempty_ok :: bool
  calloc_ok :: bool

definition sync_init :: "platform \<Rightarrow> ring_state \<Rightarrow> ring_state option" where
  "sync_init p r =
     (if g_sync_ready r then Some r
      else if mutex_ok p \<and> notfull_ok p \<and> notempty_ok p then Some (r\<lparr>g_sync_ready := True\<rparr>)
      else None)"

definition sc_log_ring_init :: "platform \<Rightarrow> 32 word \<Rightarrow> ring_state \<Rightarrow> (int \<times> ring_state) option" where
  "sc_log_ring_init p requested r =
     (case sync_init p r of
        None \<Rightarrow> Some (- 1, r)
      | Some r1 \<Rightarrow>
          (case round_pow2 (if requested \<noteq> 0 then ucast requested else 4096) of
             None \<Rightarrow> None
           | Some cap \<Rightarrow>
               let r2 = r1\<lparr>g_capacity := cap, g_mask := cap - 1, g_ring := []\<rparr>
               in if \<not> calloc_ok p then Some (- 1, r2)
                  else Some (0, r2\<lparr>g_ring := map first_slot [0..<unat cap],
                                   g_head := 0, g_tail := 0, g_running := True\<rparr>)))"

definition sc_log_ring_free :: "ring_state \<Rightarrow> ring_state" where
  "sc_log_ring_free r = r\<lparr>g_ring := [], g_sync_ready := False\<rparr>"

definition sc_log_ring_capacity :: "ring_state \<Rightarrow> 64 word" where
  "sc_log_ring_capacity r = g_capacity r"

definition sc_log_ring_fill :: "ring_state \<Rightarrow> 64 word" where
  "sc_log_ring_fill r = g_head r - g_tail r"

subsection \<open>The accesses of the producer\<close>

definition slot_index :: "ring_state \<Rightarrow> 64 word \<Rightarrow> nat" where
  "slot_index r pos = unat (pos AND g_mask r)"

definition slot_seq :: "ring_state \<Rightarrow> 64 word \<Rightarrow> 64 word" where
  "slot_seq r pos = seq (g_ring r ! slot_index r pos)"

definition on_slot :: "(sc_log_slot \<Rightarrow> sc_log_slot) \<Rightarrow> 64 word \<Rightarrow> ring_state \<Rightarrow> ring_state" where
  "on_slot f pos r =
     r\<lparr>g_ring := (g_ring r)[slot_index r pos := f (g_ring r ! slot_index r pos)]\<rparr>"

definition reserve_draw :: "ring_state \<Rightarrow> ring_state" where
  "reserve_draw r = r\<lparr>g_head := g_head r + 1\<rparr>"

definition reserve_ready :: "ring_state \<Rightarrow> 64 word \<Rightarrow> bool" where
  "reserve_ready r pos \<longleftrightarrow> slot_seq r pos = pos"

definition reserve_count :: "ring_state \<Rightarrow> ring_state" where
  "reserve_count r = r\<lparr>n_blocked := n_blocked r + 1, g_producer_waiters := g_producer_waiters r + 1\<rparr>"

definition reserve_uncount :: "ring_state \<Rightarrow> ring_state" where
  "reserve_uncount r = r\<lparr>g_producer_waiters := g_producer_waiters r - 1\<rparr>"

type_synonym line = "nat \<times> nat \<times> 32 word"

text \<open>The three stores of \<^verbatim>\<open>submit\<close> between reserving and publishing.\<close>

definition fill_slot :: "64 word \<Rightarrow> line \<Rightarrow> ring_state \<Rightarrow> ring_state" where
  "fill_slot pos l = on_slot (\<lambda>s. s\<lparr>arena := fst l, rec := fst (snd l), owner := snd (snd l)\<rparr>) pos"

definition publish_store :: "64 word \<Rightarrow> ring_state \<Rightarrow> ring_state" where
  "publish_store pos r =
     (on_slot (\<lambda>s. s\<lparr>seq := pos + 1\<rparr>) pos r)\<lparr>n_submitted := n_submitted r + 1\<rparr>"

subsection \<open>The accesses of the drain thread\<close>

definition take_empty :: "ring_state \<Rightarrow> bool" where
  "take_empty r \<longleftrightarrow> g_tail r = g_head r"

definition take_ready :: "ring_state \<Rightarrow> bool" where
  "take_ready r \<longleftrightarrow> slot_seq r (g_tail r) = g_tail r + 1"

definition take_line :: "ring_state \<Rightarrow> line" where
  "take_line r = (let s = g_ring r ! slot_index r (g_tail r) in (arena s, rec s, owner s))"

definition done_store :: "ring_state \<Rightarrow> ring_state" where
  "done_store r =
     (on_slot (\<lambda>s. s\<lparr>seq := g_tail r + g_capacity r\<rparr>) (g_tail r) r)\<lparr>g_tail := g_tail r + 1\<rparr>"

section \<open>The threads\<close>

text \<open>
  Where a submitting thread is. \<^verbatim>\<open>sc_log_ring_reserve\<close>: \<open>Drawn\<close> after the \<^verbatim>\<open>fetch_add\<close> on the
  head, \<open>Counted\<close> inside the mutex before the test of the wait loop, \<open>Asleep\<close> in
  \<^verbatim>\<open>uv_cond_wait\<close>, \<open>Admitted\<close> after the loop. \<open>Writing\<close>: the slot is its own. \<^verbatim>\<open>sc_log_ring_publish\<close>:
  \<open>Written\<close> before the store of the sequence word, \<open>Published\<close> after it, \<open>Signalling\<close> when it has
  seen the drain thread waiting.
\<close>

datatype phase =
  Idle | Drawn | Counted | Asleep | Admitted | Writing | Written | Published | Signalling

record producer =
  phase :: phase
  pos :: "64 word"
  message :: line
  ticket :: nat

text \<open>
  Where the drain thread is. \<^verbatim>\<open>sc_log_ring_take\<close>: \<open>C_look\<close> at the head of its loop, \<open>C_idle\<close> after
  seeing an empty ring of a running logger, \<open>C_check\<close> at the test of the inner loop with the
  waiting flag set, \<open>C_asleep\<close> in \<^verbatim>\<open>uv_cond_wait\<close>, \<open>C_reading\<close> once it has answered 1, \<open>C_ended\<close> once
  it has answered 0. \<^verbatim>\<open>sc_log_ring_done\<close>: \<open>C_freed\<close> after the two stores, \<open>C_waking\<close> when it has seen
  producers waiting.
\<close>

datatype consumer =
  C_look | C_idle | C_check | C_asleep | C_reading | C_freed | C_waking | C_ended

record system =
  ring :: ring_state
  producers :: "nat \<Rightarrow> producer"
  consumer :: consumer
  said :: "line list"
  drained :: "line list"

definition on_producer :: "nat \<Rightarrow> (producer \<Rightarrow> producer) \<Rightarrow> system \<Rightarrow> system" where
  "on_producer i f s = s\<lparr>producers := (producers s)(i := f (producers s i))\<rparr>"

definition go :: "nat \<Rightarrow> phase \<Rightarrow> system \<Rightarrow> system" where
  "go i ph = on_producer i (\<lambda>p. p\<lparr>phase := ph\<rparr>)"

definition on_ring :: "(ring_state \<Rightarrow> ring_state) \<Rightarrow> system \<Rightarrow> system" where
  "on_ring f s = s\<lparr>ring := f (ring s)\<rparr>"

text \<open>\<^verbatim>\<open>uv_cond_signal(&g_cv_notempty)\<close>: the drain thread is the only one that waits on it.\<close>

definition signal_notempty :: "system \<Rightarrow> system" where
  "signal_notempty s = (if consumer s = C_asleep then s\<lparr>consumer := C_check\<rparr> else s)"

text \<open>\<^verbatim>\<open>uv_cond_broadcast(&g_cv_notfull)\<close>: every sleeping producer tests its slot again.\<close>

definition wake :: "producer \<Rightarrow> producer" where
  "wake p = (if phase p = Asleep then p\<lparr>phase := Counted\<rparr> else p)"

definition broadcast_notfull :: "system \<Rightarrow> system" where
  "broadcast_notfull s = s\<lparr>producers := (\<lambda>i. wake (producers s i))\<rparr>"

text \<open>\<^verbatim>\<open>atomic_fetch_add(&g_head, 1)\<close>: thread \<open>i\<close> comes with the line \<open>l\<close> and draws a ticket.\<close>

definition draw :: "nat \<Rightarrow> line \<Rightarrow> system \<Rightarrow> system" where
  "draw i l s =
     (on_producer i (\<lambda>p. \<lparr>phase = Drawn, pos = g_head (ring s), message = l,
                          ticket = length (said s)\<rparr>)
        (on_ring reserve_draw s))\<lparr>said := said s @ [l]\<rparr>"

definition drain :: "system \<Rightarrow> system" where
  "drain s = (on_ring done_store s)\<lparr>consumer := C_freed, drained := drained s @ [take_line (ring s)]\<rparr>"

definition sc_log_ring_stop :: "system \<Rightarrow> system" where
  "sc_log_ring_stop s =
     broadcast_notfull (signal_notempty (on_ring (\<lambda>r. r\<lparr>g_running := False\<rparr>) s))"

abbreviation at_phase :: "system \<Rightarrow> nat \<Rightarrow> phase \<Rightarrow> bool" where
  "at_phase s i ph \<equiv> i < SC_LOG_MAX_THREADS \<and> phase (producers s i) = ph"

text \<open>What the threads do by themselves once a line has been submitted.\<close>

inductive ring_work :: "system \<Rightarrow> system \<Rightarrow> bool" where
  w_ready: "at_phase s i Drawn \<Longrightarrow> reserve_ready (ring s) (pos (producers s i))
    \<Longrightarrow> ring_work s (go i Writing s)"
| w_count: "at_phase s i Drawn \<Longrightarrow> \<not> reserve_ready (ring s) (pos (producers s i))
    \<Longrightarrow> ring_work s (on_ring reserve_count (go i Counted s))"
| w_admit: "at_phase s i Counted \<Longrightarrow> reserve_ready (ring s) (pos (producers s i))
    \<Longrightarrow> ring_work s (go i Admitted s)"
| w_sleep: "at_phase s i Counted \<Longrightarrow> \<not> reserve_ready (ring s) (pos (producers s i))
    \<Longrightarrow> ring_work s (go i Asleep (signal_notempty s))"
| w_uncount: "at_phase s i Admitted \<Longrightarrow> ring_work s (on_ring reserve_uncount (go i Writing s))"
| w_write: "at_phase s i Writing
    \<Longrightarrow> ring_work s
          (on_ring (fill_slot (pos (producers s i)) (message (producers s i))) (go i Written s))"
| w_publish: "at_phase s i Written
    \<Longrightarrow> ring_work s (on_ring (publish_store (pos (producers s i))) (go i Published s))"
| w_quiet: "at_phase s i Published \<Longrightarrow> \<not> g_consumer_waiting (ring s) \<Longrightarrow> ring_work s (go i Idle s)"
| w_seen: "at_phase s i Published \<Longrightarrow> g_consumer_waiting (ring s) \<Longrightarrow> ring_work s (go i Signalling s)"
| w_signal: "at_phase s i Signalling \<Longrightarrow> ring_work s (go i Idle (signal_notempty s))"
| c_idle: "consumer s = C_look \<Longrightarrow> take_empty (ring s) \<Longrightarrow> g_running (ring s)
    \<Longrightarrow> ring_work s (s\<lparr>consumer := C_idle\<rparr>)"
| c_end: "consumer s = C_look \<Longrightarrow> take_empty (ring s) \<Longrightarrow> \<not> g_running (ring s)
    \<Longrightarrow> ring_work s (s\<lparr>consumer := C_ended\<rparr>)"
| c_again: "consumer s = C_idle \<Longrightarrow> \<not> take_empty (ring s) \<Longrightarrow> ring_work s (s\<lparr>consumer := C_look\<rparr>)"
| c_flag: "consumer s = C_idle \<Longrightarrow> take_empty (ring s)
    \<Longrightarrow> ring_work s (on_ring (\<lambda>r. r\<lparr>g_consumer_waiting := True\<rparr>) (s\<lparr>consumer := C_check\<rparr>))"
| c_sleep: "consumer s = C_check \<Longrightarrow> take_empty (ring s) \<Longrightarrow> g_running (ring s)
    \<Longrightarrow> ring_work s (s\<lparr>consumer := C_asleep\<rparr>)"
| c_stay: "consumer s = C_check \<Longrightarrow> \<not> (take_empty (ring s) \<and> g_running (ring s))
    \<Longrightarrow> ring_work s (on_ring (\<lambda>r. r\<lparr>g_consumer_waiting := False\<rparr>) (s\<lparr>consumer := C_look\<rparr>))"
| c_take: "consumer s = C_look \<Longrightarrow> \<not> take_empty (ring s) \<Longrightarrow> take_ready (ring s)
    \<Longrightarrow> ring_work s (s\<lparr>consumer := C_reading\<rparr>)"
| c_done: "consumer s = C_reading \<Longrightarrow> ring_work s (drain s)"
| c_quiet: "consumer s = C_freed \<Longrightarrow> g_producer_waiters (ring s) = 0
    \<Longrightarrow> ring_work s (s\<lparr>consumer := C_look\<rparr>)"
| c_loud: "consumer s = C_freed \<Longrightarrow> g_producer_waiters (ring s) \<noteq> 0
    \<Longrightarrow> ring_work s (s\<lparr>consumer := C_waking\<rparr>)"
| c_wake: "consumer s = C_waking \<Longrightarrow> ring_work s (broadcast_notfull (s\<lparr>consumer := C_look\<rparr>))"

text \<open>
  Everything that can happen: also a thread that comes with a new line, the shutdown, and the
  wake-ups without a reason that \<^verbatim>\<open>uv_cond_wait\<close> permits.
\<close>

inductive ring_step :: "system \<Rightarrow> system \<Rightarrow> bool" where
  s_work: "ring_work s t \<Longrightarrow> ring_step s t"
| s_call: "at_phase s i Idle \<Longrightarrow> ring_step s (draw i l s)"
| s_stop: "ring_step s (sc_log_ring_stop s)"
| s_spurious_consumer: "ring_step s (signal_notempty s)"
| s_spurious_producer: "at_phase s i Asleep \<Longrightarrow> ring_step s (go i Counted s)"

text \<open>A ring just initialised, with no thread in it and the drain thread at the head of its loop.\<close>

definition ring_start :: "system \<Rightarrow> bool" where
  "ring_start s \<longleftrightarrow>
     (\<exists>p requested r. sc_log_ring_init p requested r = Some (0, ring s)
        \<and> g_producer_waiters r = 0 \<and> \<not> g_consumer_waiting r)
     \<and> (\<forall>i. phase (producers s i) = Idle) \<and> consumer s = C_look \<and> said s = [] \<and> drained s = []"

section \<open>Words and slots\<close>

definition geometry :: "ring_state \<Rightarrow> bool" where
  "geometry r \<longleftrightarrow>
     (\<exists>e \<in> {3..32}. g_capacity r = 2 ^ e) \<and> g_mask r = g_capacity r - 1
     \<and> length (g_ring r) = unat (g_capacity r)"

abbreviation cap :: "ring_state \<Rightarrow> nat" where
  "cap r \<equiv> unat (g_capacity r)"

lemma unat_exp: "e < 64 \<Longrightarrow> unat (2 ^ e :: 64 word) = 2 ^ e"
proof -
  assume "e < 64"
  then have "(2::nat) ^ e < 2 ^ LENGTH(64)" by (intro power_strict_increasing) auto
  from unat_of_nat_less [OF this] show ?thesis by simp
qed

lemma geometry_cap:
  assumes "geometry r"
  shows "8 \<le> cap r" and "cap r \<le> 2 ^ 32" and "length (g_ring r) = cap r"
proof -
  obtain e where e: "3 \<le> e" "e \<le> 32" "g_capacity r = 2 ^ e" using assms by (auto simp: geometry_def)
  then have "cap r = 2 ^ e" by (simp add: unat_exp)
  moreover have "(2::nat) ^ 3 \<le> 2 ^ e" by (rule power_increasing) (use e in auto)
  moreover have "(2::nat) ^ e \<le> 2 ^ 32" by (rule power_increasing) (use e in auto)
  ultimately show "8 \<le> cap r" and "cap r \<le> 2 ^ 32" by simp_all
  show "length (g_ring r) = cap r" using assms by (simp add: geometry_def)
qed

text \<open>Masking a counter picks the slot of its number, also after the counter has wrapped.\<close>

lemma masked_index:
  assumes "e \<le> 64"
  shows "unat (of_nat k AND (2 ^ e - 1 :: 64 word)) = k mod 2 ^ e"
proof -
  have "of_nat k AND (2 ^ e - 1) = take_bit e (of_nat k :: 64 word)"
    by (simp add: take_bit_eq_mask mask_eq_exp_minus_1)
  then have "unat (of_nat k AND (2 ^ e - 1 :: 64 word)) = take_bit e (unat (of_nat k :: 64 word))"
    by (simp add: unsigned_take_bit_eq)
  also have "\<dots> = (k mod 2 ^ 64) mod 2 ^ e"
    by (simp add: take_bit_eq_mod unat_of_nat)
  also have "\<dots> = k mod 2 ^ e"
    by (rule mod_mod_cancel, rule le_imp_power_dvd) (use assms in simp)
  finally show ?thesis .
qed

lemma slot_index_of_nat:
  assumes "geometry r"
  shows "slot_index r (of_nat k) = k mod cap r"
proof -
  obtain e where e: "3 \<le> e" "e \<le> 32" "g_capacity r = 2 ^ e" "g_mask r = 2 ^ e - 1"
    using assms by (auto simp: geometry_def)
  then show ?thesis using masked_index [of e k] by (simp add: slot_index_def unat_exp)
qed

lemma pow2_loop_exp:
  assumes "e < 64" and "v \<le> 2 ^ 32" and "33 \<le> e + n" and "e \<le> 32"
  shows "\<exists>e' \<in> {e..32}. pow2_loop n (2 ^ e) v = Some (2 ^ e') \<and> v \<le> 2 ^ e'"
  using assms
proof (induction n arbitrary: e)
  case (Suc n)
  show ?case
  proof (cases "2 ^ e < v")
    case True
    then have "e < 32" using Suc.prems by (cases "e = 32") auto
    with Suc.IH [of "Suc e"] Suc.prems True
    obtain e' where "e' \<in> {Suc e..32}" "pow2_loop n (2 ^ Suc e) v = Some (2 ^ e')" "v \<le> 2 ^ e'"
      by auto
    with True show ?thesis by (auto simp: push_bit_eq_mult mult.commute intro!: bexI [of _ e'])
  next
    case False
    then show ?thesis using Suc.prems by (auto intro!: bexI [of _ e])
  qed
qed auto

lemma round_pow2_exp:
  assumes "v \<le> 2 ^ 32"
  shows "\<exists>e \<in> {3..32}. round_pow2 v = Some (2 ^ e) \<and> v \<le> 2 ^ e"
  using pow2_loop_exp [of 3 v 62] assms by (simp add: round_pow2_def)

lemma ucast_small: "(ucast (w :: 32 word) :: 64 word) \<le> 2 ^ 32"
proof -
  have "unat w < 2 ^ 32" using unsigned_less [of w, where 'a = nat] by simp
  moreover from this have "unat (ucast w :: 64 word) = unat w"
    by (simp add: unsigned_ucast_eq take_bit_nat_eq_self)
  ultimately show ?thesis by (simp add: word_le_nat_alt)
qed

lemma ring_init_geometry:
  assumes "sc_log_ring_init p requested r = Some (0, r')"
  shows "geometry r' \<and> g_ring r' = map first_slot [0..<cap r'] \<and> g_head r' = 0 \<and> g_tail r' = 0
    \<and> g_running r' \<and> g_producer_waiters r' = g_producer_waiters r
    \<and> g_consumer_waiting r' = g_consumer_waiting r"
proof -
  obtain r1 where r1: "sync_init p r = Some r1"
    using assms by (auto simp: sc_log_ring_init_def split: option.splits)
  let ?v = "if requested \<noteq> 0 then ucast requested else 4096 :: 64 word"
  have "?v \<le> 2 ^ 32" using ucast_small [of requested] by auto
  then obtain e where e: "e \<in> {3..32}" "round_pow2 ?v = Some (2 ^ e)"
    using round_pow2_exp by blast
  have keeps: "g_producer_waiters r1 = g_producer_waiters r" "g_consumer_waiting r1 = g_consumer_waiting r"
    using r1 by (auto simp: sync_init_def split: if_splits)
  have "r' = r1\<lparr>g_capacity := 2 ^ e, g_mask := 2 ^ e - 1,
                 g_ring := map first_slot [0..<unat (2 ^ e :: 64 word)],
                 g_head := 0, g_tail := 0, g_running := True\<rparr>"
    using assms unfolding sc_log_ring_init_def r1 e(2) by (auto simp: Let_def split: if_splits)
  then show ?thesis using e(1) keeps by (auto simp: geometry_def)
qed

lemma mod_window_inj:
  assumes "(k::nat) mod c = j mod c" and "t \<le> k" "k < t + c" "t \<le> j" "j < t + c"
  shows "k = j"
proof -
  have "a = b" if "a mod c = b mod c" "a \<le> b" "b < a + c" for a b :: nat
  proof -
    have "c dvd b - a" using that mod_eq_dvd_iff_nat [of a b c] by simp
    moreover have "b - a < c" using that by simp
    ultimately show ?thesis using that nat_dvd_not_less by fastforce
  qed
  from this [of k j] this [of j k] assms show ?thesis by linarith
qed

lemma of_nat_window:
  assumes "of_nat a = (of_nat b :: 64 word)" and "a \<le> b" and "b < a + 2 ^ 64"
  shows "a = b"
proof -
  have "a mod 2 ^ 64 = b mod 2 ^ 64"
    using assms(1) by (simp add: word_of_nat_eq_iff take_bit_eq_mod)
  from mod_window_inj [OF this, of a] assms(2,3) show ?thesis by simp
qed

section \<open>The invariant of the data\<close>

definition held :: "phase \<Rightarrow> bool" where
  "held ph \<longleftrightarrow> ph \<in> {Drawn, Counted, Asleep, Admitted, Writing, Written}"

text \<open>Thread \<open>i\<close> holds ticket \<open>k\<close>: drawn and not yet published.\<close>

definition holds :: "(nat \<Rightarrow> producer) \<Rightarrow> nat \<Rightarrow> nat \<Rightarrow> bool" where
  "holds P i k \<longleftrightarrow> i < SC_LOG_MAX_THREADS \<and> held (phase (P i)) \<and> ticket (P i) = k"

definition is_open :: "(nat \<Rightarrow> producer) \<Rightarrow> nat \<Rightarrow> bool" where
  "is_open P k \<longleftrightarrow> (\<exists>i. holds P i k)"

definition payload :: "ring_state \<Rightarrow> nat \<Rightarrow> line" where
  "payload r k = (let s = g_ring r ! (k mod cap r) in (arena s, rec s, owner s))"

text \<open>
  With \<open>t\<close> lines drained and \<open>h\<close> tickets drawn, the slots stand for the tickets from \<open>t\<close> to
  \<open>t\<close> plus the capacity. The sequence word of ticket \<open>k\<close>'s slot is \<open>k + 1\<close> when \<open>k\<close> is published and
  \<open>k\<close> otherwise.
\<close>

definition data_inv :: "ring_state \<Rightarrow> (nat \<Rightarrow> producer) \<Rightarrow> line list \<Rightarrow> line list \<Rightarrow> bool \<Rightarrow> bool" where
  "data_inv r P S D reading \<longleftrightarrow>
     geometry r \<and> g_head r = of_nat (length S) \<and> g_tail r = of_nat (length D)
     \<and> length D \<le> length S \<and> take (length D) S = D
     \<and> (\<forall>i k. holds P i k \<longrightarrow>
          pos (P i) = of_nat k \<and> length D \<le> k \<and> k < length S \<and> message (P i) = S ! k)
     \<and> (\<forall>i j k. holds P i k \<longrightarrow> holds P j k \<longrightarrow> i = j)
     \<and> (\<forall>k. length D \<le> k \<longrightarrow> k < length D + cap r \<longrightarrow>
          seq (g_ring r ! (k mod cap r)) = of_nat (if k < length S \<and> \<not> is_open P k then k + 1 else k))
     \<and> (\<forall>k. length D \<le> k \<longrightarrow> k < length D + cap r \<longrightarrow> k < length S \<longrightarrow> \<not> is_open P k \<longrightarrow>
          payload r k = S ! k)
     \<and> (\<forall>k. length D + cap r \<le> k \<longrightarrow> k < length S \<longrightarrow> is_open P k)
     \<and> (\<forall>i < SC_LOG_MAX_THREADS. phase (P i) \<in> {Admitted, Writing, Written} \<longrightarrow>
          ticket (P i) < length D + cap r)
     \<and> (\<forall>i < SC_LOG_MAX_THREADS. phase (P i) = Written \<longrightarrow> payload r (ticket (P i)) = message (P i))
     \<and> (reading \<longrightarrow> length D < length S \<and> \<not> is_open P (length D))"

lemma data_invD:
  assumes "data_inv r P S D reading"
  shows "geometry r" and "g_head r = of_nat (length S)" and "g_tail r = of_nat (length D)"
    and "length D \<le> length S" and "take (length D) S = D"
    and "holds P i k \<Longrightarrow> pos (P i) = of_nat k \<and> length D \<le> k \<and> k < length S \<and> message (P i) = S ! k"
    and "holds P i k \<Longrightarrow> holds P j k \<Longrightarrow> i = j"
    and "length D \<le> k \<Longrightarrow> k < length D + cap r \<Longrightarrow>
          seq (g_ring r ! (k mod cap r)) = of_nat (if k < length S \<and> \<not> is_open P k then k + 1 else k)"
    and "length D \<le> k \<Longrightarrow> k < length D + cap r \<Longrightarrow> k < length S \<Longrightarrow> \<not> is_open P k \<Longrightarrow>
          payload r k = S ! k"
    and "length D + cap r \<le> k \<Longrightarrow> k < length S \<Longrightarrow> is_open P k"
    and "i < SC_LOG_MAX_THREADS \<Longrightarrow> phase (P i) \<in> {Admitted, Writing, Written} \<Longrightarrow>
          ticket (P i) < length D + cap r"
    and "i < SC_LOG_MAX_THREADS \<Longrightarrow> phase (P i) = Written \<Longrightarrow> payload r (ticket (P i)) = message (P i)"
    and "reading \<Longrightarrow> length D < length S \<and> \<not> is_open P (length D)"
  using assms unfolding data_inv_def by (simp_all, elim disjE, simp_all)

lemma data_inv_cong:
  assumes "g_ring r' = g_ring r" "g_capacity r' = g_capacity r" "g_mask r' = g_mask r"
    "g_head r' = g_head r" "g_tail r' = g_tail r"
  shows "data_inv r' P S D b = data_inv r P S D b"
  using assms by (simp add: data_inv_def geometry_def payload_def)

lemma ring_never_wraps:
  assumes "data_inv r P S D b"
  shows "length S \<le> length D + cap r + SC_LOG_MAX_THREADS"
proof -
  define f where "f k = (SOME i. holds P i k)" for k
  have h: "holds P (f k) k" if "k \<in> {length D + cap r..<length S}" for k
    using data_invD(10) [OF assms, of k] that someI_ex [of "\<lambda>i. holds P i k"]
    by (simp add: f_def is_open_def)
  have "inj_on f {length D + cap r..<length S}"
  proof (rule inj_onI)
    fix x y
    assume xy: "x \<in> {length D + cap r..<length S}" "y \<in> {length D + cap r..<length S}" "f x = f y"
    have "ticket (P (f x)) = x" and "ticket (P (f y)) = y"
      using h [OF xy(1)] h [OF xy(2)] unfolding holds_def by blast+
    with xy(3) show "x = y" by metis
  qed
  moreover have "f ` {length D + cap r..<length S} \<subseteq> {..<SC_LOG_MAX_THREADS}"
    using h by (auto simp: holds_def)
  ultimately have "card {length D + cap r..<length S} \<le> card {..<SC_LOG_MAX_THREADS}"
    by (rule card_inj_on_le) simp
  then show ?thesis by simp
qed

lemma take_empty_iff:
  assumes "data_inv r P S D b"
  shows "take_empty r \<longleftrightarrow> length D = length S"
proof
  assume "take_empty r"
  then have eq: "of_nat (length D) = (of_nat (length S) :: 64 word)"
    using data_invD(2,3) [OF assms] by (simp add: take_empty_def)
  show "length D = length S"
    by (rule of_nat_window [OF eq data_invD(4) [OF assms]])
      (use ring_never_wraps [OF assms] geometry_cap(2) [OF data_invD(1) [OF assms]]
        in \<open>simp add: SC_LOG_MAX_THREADS_def\<close>)
qed (use data_invD(2,3) [OF assms] in \<open>simp add: take_empty_def\<close>)

lemma slot_seq_window:
  assumes "data_inv r P S D b" and "length D \<le> k" and "k < length D + cap r"
  shows "slot_seq r (of_nat k) = of_nat (if k < length S \<and> \<not> is_open P k then k + 1 else k)"
  using data_invD(8) [OF assms] slot_index_of_nat [OF data_invD(1) [OF assms(1)]]
  by (simp add: slot_seq_def)

lemma take_ready_iff:
  assumes "data_inv r P S D b"
  shows "take_ready r \<longleftrightarrow> length D < length S \<and> \<not> is_open P (length D)"
proof -
  have "slot_seq r (g_tail r)
      = of_nat (if length D < length S \<and> \<not> is_open P (length D) then length D + 1 else length D)"
    using slot_seq_window [OF assms, of "length D"] data_invD(3) [OF assms]
      geometry_cap(1) [OF data_invD(1) [OF assms]] by simp
  then show ?thesis using data_invD(3) [OF assms] by (simp add: take_ready_def)
qed

lemma reserve_ready_iff:
  assumes "data_inv r P S D b" and h: "holds P i k"
  shows "reserve_ready r (pos (P i)) \<longleftrightarrow> k < length D + cap r"
proof -
  note geo = data_invD(1) [OF assms(1)]
  have k: "pos (P i) = of_nat k" "length D \<le> k" "k < length S" using data_invD(6) [OF assms] by auto
  have op: "is_open P k" using h by (auto simp: is_open_def)
  show ?thesis
  proof (cases "k < length D + cap r")
    case True
    then show ?thesis using slot_seq_window [OF assms(1) k(2) True] op k by (simp add: reserve_ready_def)
  next
    case False
    let ?j = "length D + (k - length D) mod cap r"
    have c: "8 \<le> cap r" "cap r \<le> 2 ^ 32" using geometry_cap [OF geo] by auto
    have jw: "length D \<le> ?j" "?j < length D + cap r" using c by auto
    have "?j mod cap r = (length D + (k - length D)) mod cap r" by (rule mod_add_right_eq)
    then have jm: "?j mod cap r = k mod cap r" using k(2) by simp
    have far: "?j + cap r \<le> k"
    proof -
      have "cap r dvd k - ?j" using jm jw False mod_eq_dvd_iff_nat [of ?j k "cap r"] by linarith
      moreover have "0 < k - ?j" using jw False by simp
      ultimately show ?thesis using dvd_imp_le [of "cap r" "k - ?j"] by linarith
    qed
    have near: "k < ?j + 2 ^ 64"
      using ring_never_wraps [OF assms(1)] k(3) c jw(1) by (simp add: SC_LOG_MAX_THREADS_def)
    have "slot_seq r (of_nat k) = slot_seq r (of_nat ?j)"
      using jm by (simp only: slot_seq_def slot_index_of_nat [OF geo])
    also have "\<dots> = of_nat (if ?j < length S \<and> \<not> is_open P ?j then ?j + 1 else ?j)"
      by (rule slot_seq_window [OF assms(1) jw])
    finally have s: "slot_seq r (of_nat k) = of_nat (?j + 1) \<or> slot_seq r (of_nat k) = of_nat ?j"
      by (simp split: if_splits)
    have "of_nat (?j + 1) \<noteq> (of_nat k :: 64 word)"
      using of_nat_window [of "?j + 1" k] far near c by linarith
    moreover have "of_nat ?j \<noteq> (of_nat k :: 64 word)"
      using of_nat_window [of ?j k] far near c by linarith
    ultimately show ?thesis using s k(1) False by (auto simp: reserve_ready_def)
  qed
qed

subsection \<open>Every access keeps it\<close>

lemma data_inv_threads:
  assumes "data_inv r P S D b"
    and same: "\<And>j. pos (P' j) = pos (P j) \<and> message (P' j) = message (P j)
      \<and> ticket (P' j) = ticket (P j) \<and> held (phase (P' j)) = held (phase (P j))"
    and "\<And>j. j < SC_LOG_MAX_THREADS \<Longrightarrow> phase (P' j) \<in> {Admitted, Writing, Written} \<Longrightarrow>
      ticket (P j) < length D + cap r"
    and "\<And>j. j < SC_LOG_MAX_THREADS \<Longrightarrow> phase (P' j) = Written \<Longrightarrow>
      payload r (ticket (P j)) = message (P j)"
  shows "data_inv r P' S D b"
proof -
  have h: "holds P' = holds P" using same by (auto simp: holds_def fun_eq_iff)
  then have o: "is_open P' = is_open P" by (simp add: is_open_def fun_eq_iff)
  show ?thesis
    using assms(1,3,4) unfolding data_inv_def h o by (simp add: same)
qed

lemma data_inv_phase:
  assumes "data_inv r P S D b" and "held (phase (P i)) = held ph"
    and "i < SC_LOG_MAX_THREADS \<Longrightarrow> ph \<in> {Admitted, Writing, Written} \<Longrightarrow> ticket (P i) < length D + cap r"
    and "i < SC_LOG_MAX_THREADS \<Longrightarrow> ph = Written \<Longrightarrow> payload r (ticket (P i)) = message (P i)"
  shows "data_inv r (P(i := (P i)\<lparr>phase := ph\<rparr>)) S D b"
  using assms data_invD(11,12) [OF assms(1)]
  by (intro data_inv_threads [OF assms(1)]) (auto split: if_splits)

lemma data_inv_wake:
  assumes "data_inv r P S D b"
  shows "data_inv r (\<lambda>i. wake (P i)) S D b"
  using data_invD(11,12) [OF assms]
  by (intro data_inv_threads [OF assms]) (auto simp: wake_def held_def split: if_splits)

lemma on_slot_simps [simp]:
  "g_capacity (on_slot f p r) = g_capacity r" "g_mask (on_slot f p r) = g_mask r"
  "g_head (on_slot f p r) = g_head r" "g_tail (on_slot f p r) = g_tail r"
  "g_running (on_slot f p r) = g_running r" "g_producer_waiters (on_slot f p r) = g_producer_waiters r"
  "g_consumer_waiting (on_slot f p r) = g_consumer_waiting r"
  "geometry (on_slot f p r) = geometry r"
  by (simp_all add: on_slot_def geometry_def)

lemma on_slot_nth:
  assumes "geometry r"
  shows "g_ring (on_slot f (of_nat k) r) ! (j mod cap r)
    = (if j mod cap r = k mod cap r then f (g_ring r ! (j mod cap r)) else g_ring r ! (j mod cap r))"
  using geometry_cap [OF assms] by (simp add: on_slot_def slot_index_of_nat [OF assms])

lemma window_other:
  assumes "t \<le> k" "k < t + c" "t \<le> j" "j < t + c" "j \<noteq> (k::nat)"
  shows "j mod c \<noteq> k mod c"
  using mod_window_inj [of j c k t] assms by auto

lemma holdsI: "i < SC_LOG_MAX_THREADS \<Longrightarrow> held (phase (P i)) \<Longrightarrow> holds P i (ticket (P i))"
  by (simp add: holds_def)

lemma data_inv_fill:
  assumes inv: "data_inv r P S D b" and i: "i < SC_LOG_MAX_THREADS" "phase (P i) = Writing"
  shows "data_inv (fill_slot (pos (P i)) l r) P S D b
    \<and> payload (fill_slot (pos (P i)) l r) (ticket (P i)) = l"
proof -
  let ?k = "ticket (P i)" and ?r = "fill_slot (pos (P i)) l r"
  note geo = data_invD(1) [OF inv]
  have h: "holds P i ?k" using i by (simp add: holds_def held_def)
  note k = data_invD(6) [OF inv h]
  have kw: "?k < length D + cap r" using data_invD(11) [OF inv] i by simp
  have sq: "seq (g_ring ?r ! (j mod cap r)) = seq (g_ring r ! (j mod cap r))" for j
    using k by (simp add: fill_slot_def on_slot_nth [OF geo])
  have py: "payload ?r j = (if j mod cap r = ?k mod cap r then l else payload r j)" for j
    using k by (simp add: fill_slot_def payload_def Let_def on_slot_nth [OF geo])
  have other: "payload ?r j = payload r j" if "length D \<le> j" "j < length D + cap r" "j \<noteq> ?k" for j
    using py window_other [of "length D" ?k "cap r" j] that k kw by simp
  have free: "payload ?r j = S ! j"
    if "length D \<le> j" "j < length D + cap r" "j < length S" "\<not> is_open P j" for j
    using other [OF that(1,2)] data_invD(9) [OF inv that] that(4) h by (auto simp: is_open_def)
  have written: "payload ?r (ticket (P j)) = message (P j)"
    if j: "j < SC_LOG_MAX_THREADS" "phase (P j) = Written" for j
  proof -
    have hj: "holds P j (ticket (P j))" using j by (simp add: holds_def held_def)
    have "ticket (P j) \<noteq> ?k"
      using data_invD(7) [OF inv, of j "ticket (P j)" i] hj h i j by auto
    then show ?thesis
      using other data_invD(6) [OF inv hj] data_invD(11,12) [OF inv j(1)] j by simp
  qed
  have [simp]: "g_capacity ?r = g_capacity r" "g_tail ?r = g_tail r" "g_head ?r = g_head r" "geometry ?r"
    using geo by (simp_all add: fill_slot_def)
  have "data_inv ?r P S D b"
    using inv free written unfolding data_inv_def by (simp add: sq)
  then show ?thesis using py by simp
qed

lemma holds_publish:
  "holds (P(i := (P i)\<lparr>phase := Published\<rparr>)) j k \<longleftrightarrow> holds P j k \<and> j \<noteq> i"
  by (auto simp: holds_def held_def)

lemma data_inv_publish:
  assumes inv: "data_inv r P S D b" and i: "i < SC_LOG_MAX_THREADS" "phase (P i) = Written"
  shows "data_inv (publish_store (pos (P i)) r) (P(i := (P i)\<lparr>phase := Published\<rparr>)) S D b"
proof -
  let ?k = "ticket (P i)" and ?r = "publish_store (pos (P i)) r"
    and ?P = "P(i := (P i)\<lparr>phase := Published\<rparr>)"
  note geo = data_invD(1) [OF inv]
  have h: "holds P i ?k" using i by (simp add: holds_def held_def)
  note k = data_invD(6) [OF inv h]
  have kw: "?k < length D + cap r" using data_invD(11) [OF inv] i by simp
  have mine: "a = i" if "holds P a ?k" for a using data_invD(7) [OF inv that h] .
  have "j = ?k" if "holds P i j" for j using that by (simp add: holds_def)
  then have op: "is_open ?P j \<longleftrightarrow> is_open P j \<and> j \<noteq> ?k" for j
    unfolding is_open_def holds_publish using mine h by metis
  have sq: "seq (g_ring ?r ! (j mod cap r))
      = (if j mod cap r = ?k mod cap r then of_nat ?k + 1 else seq (g_ring r ! (j mod cap r)))" for j
    using k by (simp add: publish_store_def on_slot_nth [OF geo])
  have py: "payload ?r j = payload r j" for j
    using k by (simp add: publish_store_def payload_def Let_def on_slot_nth [OF geo])
  have seqs: "seq (g_ring ?r ! (j mod cap r)) = of_nat (if j < length S \<and> \<not> is_open ?P j then j + 1 else j)"
    if "length D \<le> j" "j < length D + cap r" for j
  proof (cases "j = ?k")
    case True then show ?thesis using k [THEN conjunct2] by (simp add: sq op)
  next
    case False
    then show ?thesis
      using window_other [of "length D" ?k "cap r" j] that k [THEN conjunct2] kw data_invD(8) [OF inv that]
      by (simp add: sq op)
  qed
  have lines: "payload ?r j = S ! j"
    if "length D \<le> j" "j < length D + cap r" "j < length S" "\<not> is_open ?P j" for j
    using that data_invD(9) [OF inv that(1-3)] data_invD(12) [OF inv i] k [THEN conjunct2]
    by (auto simp: py op)
  have full: "is_open ?P j" if "length D + cap r \<le> j" "j < length S" for j
    using data_invD(10) [OF inv that] that kw by (simp add: op)
  have [simp]: "g_capacity ?r = g_capacity r" "g_tail ?r = g_tail r" "g_head ?r = g_head r" "geometry ?r"
    using geo by (simp_all add: publish_store_def geometry_def on_slot_def)
  show ?thesis
    using inv seqs lines full unfolding data_inv_def
    by (simp add: holds_publish py) (auto simp: op)
qed

lemma data_inv_draw:
  assumes inv: "data_inv r P S D b" and i: "i < SC_LOG_MAX_THREADS" "\<not> held (phase (P i))"
  shows "data_inv (reserve_draw r)
    (P(i := \<lparr>phase = Drawn, pos = g_head r, message = l, ticket = length S\<rparr>)) (S @ [l]) D b"
proof -
  let ?P = "P(i := \<lparr>phase = Drawn, pos = g_head r, message = l, ticket = length S\<rparr>)"
  have h: "holds ?P j k \<longleftrightarrow> holds P j k \<or> (j = i \<and> k = length S)" for j k
    using i by (auto simp: holds_def held_def)
  have old: "k < length S" if "holds P j k" for j k using data_invD(6) [OF inv that] by simp
  have op: "is_open ?P k \<longleftrightarrow> is_open P k \<or> k = length S" for k by (auto simp: is_open_def h)
  have one: "a = j" if "holds ?P a k" "holds ?P j k" for a j k
    using that old [of a k] old [of j k] data_invD(7) [OF inv, of a k j] by (auto simp: h)
  have own: "pos (?P j) = of_nat k \<and> length D \<le> k \<and> k < length (S @ [l]) \<and> message (?P j) = (S @ [l]) ! k"
    if hj: "holds ?P j k" for j k
  proof (cases "j = i")
    case True
    then show ?thesis using hj i data_invD(2,4) [OF inv] by (auto simp: holds_def)
  next
    case False
    then have "holds P j k" using hj by (simp add: h)
    from data_invD(6) [OF inv this] False show ?thesis by (simp add: nth_append)
  qed
  have [simp]: "g_ring (reserve_draw r) = g_ring r" "g_capacity (reserve_draw r) = g_capacity r"
      "g_tail (reserve_draw r) = g_tail r" "g_head (reserve_draw r) = g_head r + 1"
      "geometry (reserve_draw r) = geometry r" "payload (reserve_draw r) = payload r"
    by (simp_all add: reserve_draw_def geometry_def payload_def fun_eq_iff)
  have taken: "(k < length (S @ [l]) \<and> \<not> is_open ?P k) \<longleftrightarrow> (k < length S \<and> \<not> is_open P k)" for k
    by (auto simp: op)
  show ?thesis
    unfolding data_inv_def
  proof (intro conjI)
    show "\<forall>k\<ge>length D. k < length D + cap (reserve_draw r) \<longrightarrow>
        seq (g_ring (reserve_draw r) ! (k mod cap (reserve_draw r)))
          = of_nat (if k < length (S @ [l]) \<and> \<not> is_open ?P k then k + 1 else k)"
      unfolding taken using data_invD(8) [OF inv] by simp
    show "\<forall>k\<ge>length D. k < length D + cap (reserve_draw r) \<longrightarrow> k < length (S @ [l]) \<longrightarrow>
        \<not> is_open ?P k \<longrightarrow> payload (reserve_draw r) k = (S @ [l]) ! k"
      using data_invD(9) [OF inv] by (auto simp: op nth_append)
    show "\<forall>k\<ge>length D + cap (reserve_draw r). k < length (S @ [l]) \<longrightarrow> is_open ?P k"
      using data_invD(10) [OF inv] by (auto simp: op less_Suc_eq)
    show "\<forall>j k. holds ?P j k \<longrightarrow> pos (?P j) = of_nat k \<and> length D \<le> k \<and> k < length (S @ [l])
        \<and> message (?P j) = (S @ [l]) ! k"
      using own by blast
    show "\<forall>a j k. holds ?P a k \<longrightarrow> holds ?P j k \<longrightarrow> a = j" using one by blast
    show "\<forall>j<SC_LOG_MAX_THREADS. phase (?P j) \<in> {Admitted, Writing, Written} \<longrightarrow>
        ticket (?P j) < length D + cap (reserve_draw r)"
      using data_invD(11) [OF inv] by simp
    show "\<forall>j<SC_LOG_MAX_THREADS. phase (?P j) = Written \<longrightarrow>
        payload (reserve_draw r) (ticket (?P j)) = message (?P j)"
      using data_invD(12) [OF inv] by simp
    show "b \<longrightarrow> length D < length (S @ [l]) \<and> \<not> is_open ?P (length D)"
      using data_invD(13) [OF inv] by (auto simp: op)
  qed (use data_invD(1-5) [OF inv] in simp_all)
qed

lemma take_line_payload:
  assumes "data_inv r P S D b"
  shows "take_line r = payload r (length D)"
  using data_invD(1,3) [OF assms] by (simp add: take_line_def payload_def slot_index_of_nat)

lemma done_store_payload:
  assumes inv: "data_inv r P S D b"
  shows "payload (done_store r) k = payload r k"
  using data_invD(3) [OF inv]
  by (simp add: done_store_def payload_def Let_def on_slot_nth [OF data_invD(1) [OF inv]])

lemma data_inv_drain:
  assumes inv: "data_inv r P S D True"
  shows "data_inv (done_store r) P S (D @ [take_line r]) False"
proof -
  let ?r = "done_store r" and ?t = "length D"
  note geo = data_invD(1) [OF inv]
  have t: "?t < length S" "\<not> is_open P ?t" using data_invD(13) [OF inv] by auto
  have c: "8 \<le> cap r" using geometry_cap [OF geo] by simp
  have line: "take_line r = S ! ?t"
    using take_line_payload [OF inv] data_invD(9) [OF inv, of ?t] t c by simp
  have sq: "seq (g_ring ?r ! (j mod cap r))
      = (if j mod cap r = ?t mod cap r then of_nat (?t + cap r) else seq (g_ring r ! (j mod cap r)))" for j
    using data_invD(3) [OF inv] by (simp add: done_store_def on_slot_nth [OF geo])
  have [simp]: "g_capacity ?r = g_capacity r" "g_tail ?r = g_tail r + 1" "g_head ?r = g_head r" "geometry ?r"
    using geo by (simp_all add: done_store_def geometry_def on_slot_def)
  have seqs: "seq (g_ring ?r ! (k mod cap r)) = of_nat (if k < length S \<and> \<not> is_open P k then k + 1 else k)"
    if k: "Suc ?t \<le> k" "k < Suc ?t + cap r" for k
  proof (cases "k = ?t + cap r")
    case True
    then show ?thesis using data_invD(10) [OF inv, of k] by (simp add: sq)
  next
    case False
    then have "k mod cap r \<noteq> ?t mod cap r" using window_other [of ?t ?t "cap r" k] k by simp
    then show ?thesis using data_invD(8) [OF inv, of k] k False by (simp add: sq)
  qed
  have above: "Suc ?t \<le> k" if "holds P i k" for i k
    using data_invD(6) [OF inv that] t(2) that by (auto simp: is_open_def Suc_le_eq le_less)
  show ?thesis
    unfolding data_inv_def
  proof (intro conjI)
    show "\<forall>i k. holds P i k \<longrightarrow> pos (P i) = of_nat k \<and> length (D @ [take_line r]) \<le> k
        \<and> k < length S \<and> message (P i) = S ! k"
      using data_invD(6) [OF inv] above by simp
    show "take (length (D @ [take_line r])) S = D @ [take_line r]"
      using data_invD(5) [OF inv] t(1) by (simp add: take_Suc_conv_app_nth line)
    show "\<forall>k\<ge>length (D @ [take_line r]). k < length (D @ [take_line r]) + cap ?r \<longrightarrow>
        seq (g_ring ?r ! (k mod cap ?r)) = of_nat (if k < length S \<and> \<not> is_open P k then k + 1 else k)"
      using seqs by simp
    show "\<forall>k\<ge>length (D @ [take_line r]). k < length (D @ [take_line r]) + cap ?r \<longrightarrow>
        k < length S \<longrightarrow> \<not> is_open P k \<longrightarrow> payload ?r k = S ! k"
      using data_invD(9,10) [OF inv] by (auto simp: done_store_payload [OF inv] less_Suc_eq)
    show "\<forall>i<SC_LOG_MAX_THREADS. phase (P i) \<in> {Admitted, Writing, Written} \<longrightarrow>
        ticket (P i) < length (D @ [take_line r]) + cap ?r"
      using data_invD(11) [OF inv] by (simp add: less_SucI)
    show "\<forall>i<SC_LOG_MAX_THREADS. phase (P i) = Written \<longrightarrow> payload ?r (ticket (P i)) = message (P i)"
      using data_invD(12) [OF inv] by (simp add: done_store_payload [OF inv])
    show "\<forall>k\<ge>length (D @ [take_line r]) + cap ?r. k < length S \<longrightarrow> is_open P k"
      using data_invD(10) [OF inv] by simp
    show "\<forall>i j k. holds P i k \<longrightarrow> holds P j k \<longrightarrow> i = j" using data_invD(7) [OF inv] by blast
  qed (use data_invD(2,3) [OF inv] t in simp_all)
qed

lemma data_inv_start:
  assumes "geometry r" and "g_ring r = map first_slot [0..<cap r]" and "g_head r = 0" "g_tail r = 0"
    and idle: "\<And>i. phase (P i) = Idle"
  shows "data_inv r P [] [] False"
proof -
  have "\<not> holds P i k" for i k by (simp add: holds_def held_def idle)
  moreover have "seq (g_ring r ! (k mod cap r)) = of_nat k" if "k < cap r" for k
    using that assms(2) by (simp add: first_slot_def)
  ultimately show ?thesis
    using assms(1,3,4) idle by (simp add: data_inv_def is_open_def)
qed

section \<open>The invariant of the wake-ups\<close>

definition waits :: "phase \<Rightarrow> nat" where
  "waits ph = (if ph \<in> {Counted, Asleep, Admitted} then 1 else 0)"

definition n_waiting :: "(nat \<Rightarrow> producer) \<Rightarrow> nat" where
  "n_waiting P = (\<Sum>i<SC_LOG_MAX_THREADS. waits (phase (P i)))"

text \<open>
  A producer sleeps only while its slot is taken, or until the drain thread that has just freed
  it gets to its broadcast; the waiter count is exact; the waiting flag says where the drain
  thread is; and while the drain thread sleeps over a ring that is not empty, some producer is on
  its way to the signal.
\<close>

definition wake_inv :: "ring_state \<Rightarrow> (nat \<Rightarrow> producer) \<Rightarrow> line list \<Rightarrow> line list \<Rightarrow> consumer \<Rightarrow> bool" where
  "wake_inv r P S D c \<longleftrightarrow>
     (\<forall>i < SC_LOG_MAX_THREADS. phase (P i) = Asleep \<longrightarrow>
        length D + cap r \<le> ticket (P i) \<or> c = C_freed \<or> c = C_waking)
     \<and> g_producer_waiters r = of_nat (n_waiting P)
     \<and> (g_consumer_waiting r \<longleftrightarrow> c = C_check \<or> c = C_asleep)
     \<and> (c = C_asleep \<longrightarrow> length D < length S \<longrightarrow>
          (\<exists>i < SC_LOG_MAX_THREADS. phase (P i) \<noteq> Idle \<and> phase (P i) \<noteq> Asleep))
     \<and> (c = C_asleep \<longrightarrow> g_running r) \<and> (c = C_ended \<longrightarrow> \<not> g_running r)"

definition ring_inv :: "system \<Rightarrow> bool" where
  "ring_inv s \<longleftrightarrow>
     data_inv (ring s) (producers s) (said s) (drained s) (consumer s = C_reading)
     \<and> wake_inv (ring s) (producers s) (said s) (drained s) (consumer s)"

lemma sum_upd:
  assumes "i < (n::nat)"
  shows "(\<Sum>j<n. f ((P(i := p)) j)) + (f (P i) :: nat) = (\<Sum>j<n. f (P j)) + f p"
proof -
  have "(\<Sum>j<n. f ((P(i := p)) j)) = f p + (\<Sum>j\<in>{..<n} - {i}. f ((P(i := p)) j))"
    using assms by (subst sum.remove [of _ i]) auto
  also have "(\<Sum>j\<in>{..<n} - {i}. f ((P(i := p)) j)) = (\<Sum>j\<in>{..<n} - {i}. f (P j))"
    by (intro sum.cong) auto
  finally show ?thesis using sum.remove [of "{..<n}" i "\<lambda>j. f (P j)"] assms by simp
qed

lemma n_waiting_upd:
  assumes "i < SC_LOG_MAX_THREADS"
  shows "n_waiting (P(i := p)) + waits (phase (P i)) = n_waiting P + waits (phase p)"
  using sum_upd [OF assms, of "\<lambda>p. waits (phase p)" P p] by (simp add: n_waiting_def)

lemma n_waiting_wake [simp]: "n_waiting (\<lambda>i. wake (P i)) = n_waiting P"
  unfolding n_waiting_def by (intro sum.cong) (auto simp: wake_def waits_def)

lemma waiters_zero:
  assumes "wake_inv r P S D c" and "i < SC_LOG_MAX_THREADS" and "phase (P i) = Asleep"
  shows "g_producer_waiters r \<noteq> 0"
proof -
  have "n_waiting P \<le> (\<Sum>i<SC_LOG_MAX_THREADS. 1)"
    unfolding n_waiting_def by (intro sum_mono) (simp add: waits_def)
  then have small: "n_waiting P \<le> 64" by (simp add: SC_LOG_MAX_THREADS_def)
  have "waits (phase (P i)) \<le> n_waiting P"
    unfolding n_waiting_def by (rule member_le_sum) (use assms in auto)
  then have "1 \<le> n_waiting P" using assms by (simp add: waits_def)
  moreover have "g_producer_waiters r = of_nat (n_waiting P)" using assms(1) by (simp add: wake_inv_def)
  moreover have "unat (of_nat (n_waiting P) :: 32 word) = n_waiting P"
    by (rule unat_of_nat_less) (use small in simp)
  ultimately show ?thesis by (metis not_one_le_zero unsigned_0)
qed

lemmas move_defs = go_def on_producer_def on_ring_def signal_notempty_def broadcast_notfull_def
  reserve_count_def reserve_uncount_def reserve_draw_def fill_slot_def publish_store_def done_store_def
  drain_def draw_def sc_log_ring_stop_def

lemma wake_inv_phase:
  assumes "wake_inv r P S D c" and i: "i < SC_LOG_MAX_THREADS"
    and "waits ph = waits (phase (P i))" and "ph \<noteq> Idle" "ph \<noteq> Asleep"
  shows "wake_inv r (P(i := (P i)\<lparr>phase := ph\<rparr>)) S D c"
proof -
  have "n_waiting (P(i := (P i)\<lparr>phase := ph\<rparr>)) = n_waiting P"
    using n_waiting_upd [OF i, of P "(P i)\<lparr>phase := ph\<rparr>"] assms(3) by simp
  then show ?thesis using assms(1,4,5) i unfolding wake_inv_def by auto
qed

lemma wake_inv_cong:
  assumes "g_capacity r' = g_capacity r" "g_producer_waiters r' = g_producer_waiters r"
    "g_consumer_waiting r' = g_consumer_waiting r" "g_running r' = g_running r"
  shows "wake_inv r' P S D c = wake_inv r P S D c"
  using assms by (simp add: wake_inv_def)

text \<open>A thread that leaves for \<open>Idle\<close> or for its sleep while the drain thread does not sleep.\<close>

lemma wake_inv_leave:
  assumes "wake_inv r P S D c" and i: "i < SC_LOG_MAX_THREADS"
    and "waits ph = waits (phase (P i))" and "c \<noteq> C_asleep"
    and "ph = Asleep \<Longrightarrow> length D + cap r \<le> ticket (P i)"
  shows "wake_inv r (P(i := (P i)\<lparr>phase := ph\<rparr>)) S D c"
proof -
  have "n_waiting (P(i := (P i)\<lparr>phase := ph\<rparr>)) = n_waiting P"
    using n_waiting_upd [OF i, of P "(P i)\<lparr>phase := ph\<rparr>"] assms(3) by simp
  then show ?thesis using assms(1,4,5) unfolding wake_inv_def by auto
qed

lemma wake_inv_signalled:
  assumes "wake_inv r P S D C_asleep"
  shows "wake_inv r P S D C_check"
  using assms by (simp add: wake_inv_def)

lemma signal_notempty_inv: "ring_inv s \<Longrightarrow> ring_inv (signal_notempty s)"
  by (auto simp: ring_inv_def signal_notempty_def intro: wake_inv_signalled)

subsection \<open>Every step keeps both\<close>

lemma ring_invD:
  assumes "ring_inv s"
  shows "data_inv (ring s) (producers s) (said s) (drained s) (consumer s = C_reading)"
    and "wake_inv (ring s) (producers s) (said s) (drained s) (consumer s)"
  using assms by (simp_all add: ring_inv_def)

lemma ready_window:
  assumes "ring_inv s" and "i < SC_LOG_MAX_THREADS" and "held (phase (producers s i))"
  shows "reserve_ready (ring s) (pos (producers s i))
    \<longleftrightarrow> ticket (producers s i) < length (drained s) + cap (ring s)"
  by (rule reserve_ready_iff [OF ring_invD(1) [OF assms(1)] holdsI]) (use assms in auto)

lemma go_inv:
  assumes "ring_inv s" and "i < SC_LOG_MAX_THREADS"
    and "held (phase (producers s i)) = held ph" and "waits ph = waits (phase (producers s i))"
    and "ph \<notin> {Idle, Asleep, Written}"
    and "ph \<in> {Admitted, Writing} \<Longrightarrow>
      ticket (producers s i) < length (drained s) + cap (ring s)"
  shows "ring_inv (go i ph s)"
proof -
  have "data_inv (ring s) ((producers s)(i := (producers s i)\<lparr>phase := ph\<rparr>)) (said s) (drained s)
      (consumer s = C_reading)"
    by (rule data_inv_phase [OF ring_invD(1) [OF assms(1)]]) (use assms(2-6) in auto)
  moreover have "wake_inv (ring s) ((producers s)(i := (producers s i)\<lparr>phase := ph\<rparr>)) (said s)
      (drained s) (consumer s)"
    by (rule wake_inv_phase [OF ring_invD(2) [OF assms(1)]]) (use assms(2-6) in auto)
  ultimately show ?thesis by (simp add: ring_inv_def go_def on_producer_def)
qed

lemma leave_inv:
  assumes "ring_inv s" and "i < SC_LOG_MAX_THREADS" and "consumer s \<noteq> C_asleep"
    and "held (phase (producers s i)) = held ph" and "waits ph = waits (phase (producers s i))"
    and "ph \<in> {Idle, Asleep}"
    and "ph = Asleep \<Longrightarrow> length (drained s) + cap (ring s) \<le> ticket (producers s i)"
  shows "ring_inv (go i ph s)"
proof -
  have "data_inv (ring s) ((producers s)(i := (producers s i)\<lparr>phase := ph\<rparr>)) (said s) (drained s)
      (consumer s = C_reading)"
    by (rule data_inv_phase [OF ring_invD(1) [OF assms(1)]]) (use assms in auto)
  moreover have "wake_inv (ring s) ((producers s)(i := (producers s i)\<lparr>phase := ph\<rparr>)) (said s)
      (drained s) (consumer s)"
    by (rule wake_inv_leave [OF ring_invD(2) [OF assms(1)]]) (use assms in auto)
  ultimately show ?thesis by (simp add: ring_inv_def go_def on_producer_def)
qed

lemma awake_after_signal [simp]: "consumer (signal_notempty s) \<noteq> C_asleep"
  by (simp add: signal_notempty_def)

lemma signal_keeps [simp]:
  "ring (signal_notempty s) = ring s" "producers (signal_notempty s) = producers s"
  "said (signal_notempty s) = said s" "drained (signal_notempty s) = drained s"
  by (simp_all add: signal_notempty_def)

text \<open>The two steps that also move the waiter count.\<close>

lemma count_inv:
  assumes inv: "ring_inv s" and i: "at_phase s i Drawn"
  shows "ring_inv (on_ring reserve_count (go i Counted s))"
proof -
  let ?P = "(producers s)(i := (producers s i)\<lparr>phase := Counted\<rparr>)"
  have "data_inv (ring s) ?P (said s) (drained s) (consumer s = C_reading)"
    by (rule data_inv_phase [OF ring_invD(1) [OF inv]]) (use i in \<open>auto simp: held_def\<close>)
  moreover have "n_waiting ?P = n_waiting (producers s) + 1"
    using n_waiting_upd [of i "producers s" "(producers s i)\<lparr>phase := Counted\<rparr>"] i by (simp add: waits_def)
  ultimately show ?thesis
    using ring_invD(2) [OF inv] i
    by (auto simp: ring_inv_def wake_inv_def go_def on_producer_def on_ring_def reserve_count_def
        data_inv_def geometry_def payload_def)
qed

lemma uncount_inv:
  assumes inv: "ring_inv s" and i: "at_phase s i Admitted"
  shows "ring_inv (on_ring reserve_uncount (go i Writing s))"
proof -
  let ?P = "(producers s)(i := (producers s i)\<lparr>phase := Writing\<rparr>)"
  have "data_inv (ring s) ?P (said s) (drained s) (consumer s = C_reading)"
    using data_invD(11) [OF ring_invD(1) [OF inv]] i
    by (intro data_inv_phase [OF ring_invD(1) [OF inv]]) (auto simp: held_def)
  moreover have "n_waiting (producers s) = n_waiting ?P + 1"
    using n_waiting_upd [of i "producers s" "(producers s i)\<lparr>phase := Writing\<rparr>"] i by (simp add: waits_def)
  ultimately show ?thesis
    using ring_invD(2) [OF inv] i
    by (auto simp: ring_inv_def wake_inv_def go_def on_producer_def on_ring_def reserve_uncount_def
        data_inv_def geometry_def payload_def)
qed

lemma write_inv:
  assumes inv: "ring_inv s" and i: "at_phase s i Writing"
  shows "ring_inv (on_ring (fill_slot (pos (producers s i)) (message (producers s i))) (go i Written s))"
proof -
  let ?r = "fill_slot (pos (producers s i)) (message (producers s i)) (ring s)"
  have f: "data_inv ?r (producers s) (said s) (drained s) (consumer s = C_reading)"
      "payload ?r (ticket (producers s i)) = message (producers s i)"
    using data_inv_fill [OF ring_invD(1) [OF inv]] i by blast+
  have "data_inv ?r ((producers s)(i := (producers s i)\<lparr>phase := Written\<rparr>)) (said s) (drained s)
      (consumer s = C_reading)"
    using data_invD(11) [OF f(1)] f(2) i by (intro data_inv_phase [OF f(1)]) (auto simp: held_def)
  moreover have "wake_inv ?r ((producers s)(i := (producers s i)\<lparr>phase := Written\<rparr>)) (said s) (drained s)
      (consumer s)"
    by (subst wake_inv_cong [of _ "ring s"], simp_all add: fill_slot_def)
      (rule wake_inv_phase [OF ring_invD(2) [OF inv]], use i in \<open>auto simp: waits_def\<close>)
  ultimately show ?thesis by (simp add: ring_inv_def go_def on_producer_def on_ring_def)
qed

lemma publish_inv:
  assumes inv: "ring_inv s" and i: "at_phase s i Written"
  shows "ring_inv (on_ring (publish_store (pos (producers s i))) (go i Published s))"
proof -
  let ?r = "publish_store (pos (producers s i)) (ring s)"
  have "data_inv ?r ((producers s)(i := (producers s i)\<lparr>phase := Published\<rparr>)) (said s) (drained s)
      (consumer s = C_reading)"
    using data_inv_publish [OF ring_invD(1) [OF inv]] i by blast
  moreover have "wake_inv ?r ((producers s)(i := (producers s i)\<lparr>phase := Published\<rparr>)) (said s) (drained s)
      (consumer s)"
    by (subst wake_inv_cong [of _ "ring s"], simp_all add: publish_store_def)
      (rule wake_inv_phase [OF ring_invD(2) [OF inv]], use i in \<open>auto simp: waits_def\<close>)
  ultimately show ?thesis by (simp add: ring_inv_def go_def on_producer_def on_ring_def)
qed

lemma wake_simps [simp]:
  "phase (wake p) = (if phase p = Asleep then Counted else phase p)"
  "ticket (wake p) = ticket p"
  by (simp_all add: wake_def)

lemma broadcast_inv:
  assumes "ring_inv s"
  shows "ring_inv (broadcast_notfull s)"
  using ring_invD [OF assms] data_inv_wake [OF ring_invD(1) [OF assms]]
  by (auto simp: ring_inv_def wake_inv_def broadcast_notfull_def)

lemma drain_inv:
  assumes "ring_inv s" and "consumer s = C_reading"
  shows "ring_inv (drain s)"
  using data_inv_drain [of "ring s"] ring_invD [OF assms(1)] assms(2)
  by (auto simp: ring_inv_def drain_def on_ring_def wake_inv_def done_store_def)

lemma no_sleeper_after_quiet:
  assumes "ring_inv s" and "g_producer_waiters (ring s) = 0" and "i < SC_LOG_MAX_THREADS"
  shows "phase (producers s i) \<noteq> Asleep"
  using waiters_zero [OF ring_invD(2) [OF assms(1)] assms(3)] assms(2) by blast

text \<open>Moves of the drain thread that touch nothing but its place and the two flags.\<close>

lemma consumer_inv:
  assumes inv: "ring_inv s"
    and "c \<in> {C_look, C_idle, C_check, C_asleep, C_reading, C_waking, C_ended}"
    and "c = C_reading \<Longrightarrow> length (drained s) < length (said s) \<and> \<not> is_open (producers s) (length (drained s))"
    and "c \<noteq> C_waking \<Longrightarrow> consumer s = C_freed \<Longrightarrow>
      \<forall>i < SC_LOG_MAX_THREADS. phase (producers s i) \<noteq> Asleep"
    and "consumer s \<noteq> C_waking"
    and "c = C_asleep \<Longrightarrow> length (drained s) = length (said s) \<and> run"
    and "c = C_ended \<Longrightarrow> \<not> run"
  shows "ring_inv (on_ring (\<lambda>r. r\<lparr>g_consumer_waiting := (c = C_check \<or> c = C_asleep), g_running := run\<rparr>)
    (s\<lparr>consumer := c\<rparr>))"
proof -
  have "data_inv (ring s) (producers s) (said s) (drained s) (c = C_reading)"
    using ring_invD(1) [OF inv] assms(3) unfolding data_inv_def by auto
  then have "data_inv ((ring s)\<lparr>g_consumer_waiting := (c = C_check \<or> c = C_asleep), g_running := run\<rparr>)
      (producers s) (said s) (drained s) (c = C_reading)"
    by (subst data_inv_cong [of _ "ring s"]) simp_all
  then show ?thesis
    using ring_invD(2) [OF inv] assms(4-7) by (auto simp: ring_inv_def wake_inv_def on_ring_def)
qed

lemma same_flags: "r\<lparr>g_consumer_waiting := g_consumer_waiting r, g_running := g_running r\<rparr> = r"
  by simp

lemma consumer_move_inv:
  assumes inv: "ring_inv s"
    and "c \<in> {C_look, C_idle, C_asleep, C_reading, C_waking, C_ended}"
    and "c = C_reading \<Longrightarrow> length (drained s) < length (said s) \<and> \<not> is_open (producers s) (length (drained s))"
    and "c \<noteq> C_waking \<Longrightarrow> consumer s = C_freed \<Longrightarrow>
      \<forall>i < SC_LOG_MAX_THREADS. phase (producers s i) \<noteq> Asleep"
    and "consumer s \<noteq> C_waking"
    and "c = C_asleep \<Longrightarrow> length (drained s) = length (said s) \<and> g_running (ring s)"
    and "c = C_ended \<Longrightarrow> \<not> g_running (ring s)"
    and flag: "g_consumer_waiting (ring s) \<longleftrightarrow> c = C_asleep"
  shows "ring_inv (s\<lparr>consumer := c\<rparr>)"
proof -
  have "ring_inv (on_ring (\<lambda>r. r\<lparr>g_consumer_waiting := (c = C_check \<or> c = C_asleep),
      g_running := g_running (ring s)\<rparr>) (s\<lparr>consumer := c\<rparr>))"
    by (rule consumer_inv [OF inv]) (use assms in auto)
  moreover have "(c = C_check \<or> c = C_asleep) = g_consumer_waiting (ring s)" using assms(2) flag by auto
  ultimately show ?thesis by (simp add: on_ring_def same_flags)
qed

lemma wake_step_inv:
  assumes inv: "ring_inv s" and "consumer s = C_waking"
  shows "ring_inv (broadcast_notfull (s\<lparr>consumer := C_look\<rparr>))"
  using ring_invD [OF inv] data_inv_wake [OF ring_invD(1) [OF inv]] assms(2)
  by (auto simp: ring_inv_def wake_inv_def broadcast_notfull_def)

lemmas wake_flag = ring_invD(2) [unfolded wake_inv_def, THEN conjunct2, THEN conjunct2, THEN conjunct1]

lemma producer_work_inv:
  assumes inv: "ring_inv s" and i: "i < SC_LOG_MAX_THREADS"
  shows "phase (producers s i) = Drawn \<Longrightarrow> reserve_ready (ring s) (pos (producers s i)) \<Longrightarrow> ring_inv (go i Writing s)"
    and "phase (producers s i) = Counted \<Longrightarrow> reserve_ready (ring s) (pos (producers s i)) \<Longrightarrow> ring_inv (go i Admitted s)"
    and "phase (producers s i) = Counted \<Longrightarrow> \<not> reserve_ready (ring s) (pos (producers s i)) \<Longrightarrow>
      ring_inv (go i Asleep (signal_notempty s))"
    and "phase (producers s i) = Published \<Longrightarrow> \<not> g_consumer_waiting (ring s) \<Longrightarrow> ring_inv (go i Idle s)"
    and "phase (producers s i) = Published \<Longrightarrow> ring_inv (go i Signalling s)"
    and "phase (producers s i) = Signalling \<Longrightarrow> ring_inv (go i Idle (signal_notempty s))"
    and "phase (producers s i) = Asleep \<Longrightarrow> ring_inv (go i Counted s)"
proof -
  note rw = ready_window [OF inv i]
  show "ring_inv (go i Writing s)" if "phase (producers s i) = Drawn" "reserve_ready (ring s) (pos (producers s i))"
    using that rw by (intro go_inv [OF inv i]) (auto simp: held_def waits_def)
  show "ring_inv (go i Admitted s)" if "phase (producers s i) = Counted" "reserve_ready (ring s) (pos (producers s i))"
    using that rw by (intro go_inv [OF inv i]) (auto simp: held_def waits_def)
  show "ring_inv (go i Asleep (signal_notempty s))"
    if "phase (producers s i) = Counted" "\<not> reserve_ready (ring s) (pos (producers s i))"
    using that rw by (intro leave_inv [OF signal_notempty_inv [OF inv] i]) (auto simp: held_def waits_def)
  show "ring_inv (go i Idle s)" if "phase (producers s i) = Published" "\<not> g_consumer_waiting (ring s)"
    using that wake_flag [OF inv] by (intro leave_inv [OF inv i]) (auto simp: held_def waits_def)
  show "ring_inv (go i Signalling s)" if "phase (producers s i) = Published"
    using that by (intro go_inv [OF inv i]) (auto simp: held_def waits_def)
  show "ring_inv (go i Idle (signal_notempty s))" if "phase (producers s i) = Signalling"
    using that by (intro leave_inv [OF signal_notempty_inv [OF inv] i]) (auto simp: held_def waits_def)
  show "ring_inv (go i Counted s)" if "phase (producers s i) = Asleep"
    using that by (intro go_inv [OF inv i]) (auto simp: held_def waits_def)
qed

lemma consumer_work_inv:
  assumes inv: "ring_inv s"
  shows "consumer s = C_look \<Longrightarrow> take_empty (ring s) \<Longrightarrow> ring_inv (s\<lparr>consumer := C_idle\<rparr>)"
    and "consumer s = C_look \<Longrightarrow> \<not> g_running (ring s) \<Longrightarrow> ring_inv (s\<lparr>consumer := C_ended\<rparr>)"
    and "consumer s = C_idle \<Longrightarrow> ring_inv (s\<lparr>consumer := C_look\<rparr>)"
    and "consumer s = C_check \<Longrightarrow> take_empty (ring s) \<Longrightarrow> g_running (ring s) \<Longrightarrow> ring_inv (s\<lparr>consumer := C_asleep\<rparr>)"
    and "consumer s = C_look \<Longrightarrow> take_ready (ring s) \<Longrightarrow> ring_inv (s\<lparr>consumer := C_reading\<rparr>)"
    and "consumer s = C_freed \<Longrightarrow> g_producer_waiters (ring s) = 0 \<Longrightarrow> ring_inv (s\<lparr>consumer := C_look\<rparr>)"
    and "consumer s = C_freed \<Longrightarrow> ring_inv (s\<lparr>consumer := C_waking\<rparr>)"
  using wake_flag [OF inv] take_empty_iff [OF ring_invD(1) [OF inv]] take_ready_iff [OF ring_invD(1) [OF inv]]
    no_sleeper_after_quiet [OF inv]
  by (auto intro!: consumer_move_inv [OF inv])

lemma flag_inv:
  assumes inv: "ring_inv s"
  shows "consumer s = C_idle \<Longrightarrow>
      ring_inv (on_ring (\<lambda>r. r\<lparr>g_consumer_waiting := True\<rparr>) (s\<lparr>consumer := C_check\<rparr>))"
    and "consumer s = C_check \<Longrightarrow>
      ring_inv (on_ring (\<lambda>r. r\<lparr>g_consumer_waiting := False\<rparr>) (s\<lparr>consumer := C_look\<rparr>))"
  using consumer_inv [OF inv, of C_check "g_running (ring s)"] consumer_inv [OF inv, of C_look "g_running (ring s)"]
  by (simp_all add: on_ring_def)

lemma ring_work_inv:
  assumes "ring_work s t" and "ring_inv s"
  shows "ring_inv t"
  using assms(1)
  by (cases rule: ring_work.cases)
    (auto intro: assms(2) producer_work_inv consumer_work_inv flag_inv count_inv uncount_inv write_inv
      publish_inv drain_inv wake_step_inv)

lemma draw_inv:
  assumes inv: "ring_inv s" and i: "at_phase s i Idle"
  shows "ring_inv (draw i l s)"
proof -
  let ?p = "\<lparr>phase = Drawn, pos = g_head (ring s), message = l, ticket = length (said s)\<rparr>"
  have "data_inv (reserve_draw (ring s)) ((producers s)(i := ?p)) (said s @ [l]) (drained s)
      (consumer s = C_reading)"
    by (rule data_inv_draw [OF ring_invD(1) [OF inv]]) (use i in \<open>auto simp: held_def\<close>)
  moreover have "n_waiting ((producers s)(i := ?p)) = n_waiting (producers s)"
    using n_waiting_upd [of i "producers s" ?p] i by (simp add: waits_def)
  ultimately show ?thesis
    using ring_invD(2) [OF inv] i
    by (auto simp: ring_inv_def wake_inv_def draw_def on_producer_def on_ring_def reserve_draw_def)
qed

lemma stop_inv:
  assumes inv: "ring_inv s"
  shows "ring_inv (sc_log_ring_stop s)"
proof -
  have "ring_inv (signal_notempty (on_ring (\<lambda>r. r\<lparr>g_running := False\<rparr>) s))"
    using signal_notempty_inv [OF inv]
    by (auto simp: ring_inv_def wake_inv_def signal_notempty_def on_ring_def data_inv_def geometry_def
        payload_def split: if_splits)
  then show ?thesis unfolding sc_log_ring_stop_def by (rule broadcast_inv)
qed

lemma ring_step_inv:
  assumes inv: "ring_inv s" and "ring_step s t"
  shows "ring_inv t"
  using assms(2)
  by (cases rule: ring_step.cases)
    (auto intro: ring_work_inv draw_inv [OF inv] stop_inv [OF inv] signal_notempty_inv [OF inv]
      producer_work_inv [OF inv] inv)

lemma ring_start_inv:
  assumes "ring_start s"
  shows "ring_inv s"
proof -
  obtain p requested r where r: "sc_log_ring_init p requested r = Some (0, ring s)"
      "g_producer_waiters r = 0" "\<not> g_consumer_waiting r"
    using assms by (auto simp: ring_start_def)
  note g = ring_init_geometry [OF r(1)]
  have idle: "\<And>i. phase (producers s i) = Idle" using assms by (simp add: ring_start_def)
  have "data_inv (ring s) (producers s) [] [] False"
    by (rule data_inv_start) (use g idle in auto)
  moreover have "n_waiting (producers s) = 0" using idle by (simp add: n_waiting_def waits_def)
  ultimately show ?thesis
    using assms g r idle by (simp add: ring_inv_def wake_inv_def ring_start_def)
qed

interpretation rg: invariant_system ring_start ring_step ring_inv
  by unfold_locales (auto intro: ring_start_inv ring_step_inv)

section \<open>The work that is left\<close>

primrec phase_work :: "phase \<Rightarrow> nat" where
  "phase_work Idle = 0"
| "phase_work Signalling = 5"
| "phase_work Published = 6"
| "phase_work Written = 7"
| "phase_work Writing = 8"
| "phase_work Admitted = 9"
| "phase_work Asleep = 10"
| "phase_work Counted = 15"
| "phase_work Drawn = 16"

definition thread_work :: "(nat \<Rightarrow> producer) \<Rightarrow> nat" where
  "thread_work P = (\<Sum>i<SC_LOG_MAX_THREADS. phase_work (phase (P i)))"

text \<open>The drain thread, by whether the ring is empty and the logger running.\<close>

definition drain_work :: "bool \<Rightarrow> bool \<Rightarrow> consumer \<Rightarrow> nat" where
  "drain_work none running c =
     (case c of
        C_look \<Rightarrow> if none \<and> \<not> running then 2 else 3
      | C_idle \<Rightarrow> if none \<and> running then 2 else 4
      | C_check \<Rightarrow> if \<not> none then 4 else if running then 1 else 3
      | C_asleep \<Rightarrow> 0
      | C_reading \<Rightarrow> 2
      | C_freed \<Rightarrow> 330
      | C_waking \<Rightarrow> 329
      | C_ended \<Rightarrow> 0)"

definition work_left :: "system \<Rightarrow> nat" where
  "work_left s = 400 * (length (said s) - length (drained s)) + thread_work (producers s)
     + drain_work (length (drained s) = length (said s)) (g_running (ring s)) (consumer s)"

lemma thread_work_upd:
  assumes "i < SC_LOG_MAX_THREADS"
  shows "thread_work (P(i := p)) + phase_work (phase (P i)) = thread_work P + phase_work (phase p)"
  using sum_upd [OF assms, of "\<lambda>p. phase_work (phase p)" P p] by (simp add: thread_work_def)

lemma thread_work_wake: "thread_work (\<lambda>i. wake (P i)) \<le> thread_work P + 320"
proof -
  have "thread_work (\<lambda>i. wake (P i)) \<le> (\<Sum>i<SC_LOG_MAX_THREADS. phase_work (phase (P i)) + 5)"
    unfolding thread_work_def by (intro sum_mono) simp
  then show ?thesis by (simp add: thread_work_def sum.distrib SC_LOG_MAX_THREADS_def)
qed

lemma go_keeps [simp]:
  "ring (go i ph s) = ring s" "consumer (go i ph s) = consumer s" "said (go i ph s) = said s"
  "drained (go i ph s) = drained s" "ring (on_ring f s) = f (ring s)" "consumer (on_ring f s) = consumer s"
  "said (on_ring f s) = said s" "drained (on_ring f s) = drained s" "producers (on_ring f s) = producers s"
  "ring (broadcast_notfull s) = ring s" "consumer (broadcast_notfull s) = consumer s"
  "said (broadcast_notfull s) = said s" "drained (broadcast_notfull s) = drained s"
  by (simp_all add: go_def on_producer_def on_ring_def broadcast_notfull_def)

lemma running_keeps [simp]:
  "g_running (reserve_count r) = g_running r" "g_running (reserve_uncount r) = g_running r"
  "g_running (fill_slot p l r) = g_running r" "g_running (publish_store p r) = g_running r"
  "g_running (done_store r) = g_running r"
  by (simp_all add: reserve_count_def reserve_uncount_def fill_slot_def publish_store_def done_store_def)

lemma thread_work_go:
  assumes "i < SC_LOG_MAX_THREADS" and "phase_work ph + n \<le> phase_work (phase (producers s i))"
  shows "thread_work (producers (go i ph s)) + n \<le> thread_work (producers s)"
  using thread_work_upd [OF assms(1), of "producers s" "(producers s i)\<lparr>phase := ph\<rparr>"] assms(2)
  by (simp add: go_def on_producer_def)

text \<open>A step of one thread, which may have woken the drain thread.\<close>

lemma work_left_go:
  assumes "i < SC_LOG_MAX_THREADS" and "phase_work ph < phase_work (phase (producers s i))"
  shows "work_left (go i ph s) < work_left s"
  using thread_work_go [of i ph 1 s] assms by (simp add: work_left_def)

lemma work_left_go_signal:
  assumes "i < SC_LOG_MAX_THREADS" and "phase_work ph + 5 \<le> phase_work (phase (producers s i))"
  shows "work_left (go i ph (signal_notempty s)) < work_left s"
  using thread_work_go [of i ph 5 "signal_notempty s"] assms
  by (auto simp: work_left_def signal_notempty_def drain_work_def split: if_splits)

lemma work_left_on_ring:
  assumes "\<And>r. g_running (f r) = g_running r"
  shows "work_left (on_ring f s) = work_left s"
  using assms by (simp add: work_left_def)

lemma work_left_drain:
  assumes "ring_inv s" and "consumer s = C_reading"
  shows "work_left (drain s) < work_left s"
proof -
  have lt: "length (drained s) < length (said s)"
    using data_invD(13) [OF ring_invD(1) [OF assms(1)]] assms(2) by simp
  then have "400 * (length (said s) - length (drained s))
      = 400 * (length (said s) - Suc (length (drained s))) + 400" by simp
  with lt show ?thesis
    using assms(2) by (simp add: work_left_def drain_def on_ring_def drain_work_def)
qed

lemma work_left_wake:
  assumes "consumer s = C_waking"
  shows "work_left (broadcast_notfull (s\<lparr>consumer := C_look\<rparr>)) < work_left s"
  using thread_work_wake [of "producers s"] assms
  by (simp add: work_left_def broadcast_notfull_def drain_work_def)

lemma ring_work_less:
  assumes work: "ring_work s t" and inv: "ring_inv s"
  shows "work_left t < work_left s"
proof -
  note empty = take_empty_iff [OF ring_invD(1) [OF inv]]
  show ?thesis
    using work
  proof (cases rule: ring_work.cases)
    case (w_sleep i) then show ?thesis by (simp add: work_left_go_signal)
  next
    case (w_signal i) then show ?thesis by (simp add: work_left_go_signal)
  next
    case c_done then show ?thesis using work_left_drain [OF inv] by simp
  next
    case c_wake then show ?thesis using work_left_wake by simp
  qed ((simp add: work_left_on_ring work_left_go; fail)
      | (use empty in \<open>auto simp: work_left_def drain_work_def\<close>; fail))+
qed


text \<open>A thread with a step to make, whatever the others do.\<close>

lemma producer_moves:
  assumes "i < SC_LOG_MAX_THREADS" and "phase (producers s i) \<noteq> Idle" "phase (producers s i) \<noteq> Asleep"
  shows "\<exists>t. ring_work s t"
  using assms by (cases "phase (producers s i)") (blast intro: ring_work.intros)+

lemma stuck_drained:
  assumes inv: "ring_inv s" and stuck: "\<nexists>t. ring_work s t"
    and ended: "consumer s = C_ended \<Longrightarrow> length (drained s) = length (said s)"
  shows "drained s = said s \<and> (\<forall>i < SC_LOG_MAX_THREADS. phase (producers s i) = Idle)
    \<and> consumer s = (if g_running (ring s) then C_asleep else C_ended)"
proof -
  note d = ring_invD(1) [OF inv] and w = ring_invD(2) [OF inv]
  note empty = take_empty_iff [OF d]
  have calm: "phase (producers s i) \<in> {Idle, Asleep}" if "i < SC_LOG_MAX_THREADS" for i
    using producer_moves [OF that] stuck by blast
  have place: "consumer s = C_asleep \<or> consumer s = C_ended"
  proof (cases "consumer s")
    case C_look
    have "\<not> take_empty (ring s)" using C_look stuck c_idle c_end by blast
    moreover have "\<not> take_ready (ring s)" using C_look stuck c_take calculation by blast
    ultimately have "is_open (producers s) (length (drained s))"
      using take_ready_iff [OF d] empty data_invD(4) [OF d] by auto
    then obtain i where i: "holds (producers s) i (length (drained s))" by (auto simp: is_open_def)
    then have "phase (producers s i) = Asleep" using calm [of i] by (auto simp: holds_def held_def)
    then have "length (drained s) + cap (ring s) \<le> length (drained s)"
      using w i C_look by (auto simp: wake_inv_def holds_def)
    then show ?thesis using geometry_cap(1) [OF data_invD(1) [OF d]] by simp
  qed (use stuck in \<open>blast intro: c_again c_flag c_sleep c_stay c_done c_quiet c_loud c_wake\<close>)+
  have all: "length (drained s) = length (said s)"
  proof (cases "consumer s = C_asleep")
    case True
    then have "\<not> length (drained s) < length (said s)" using w calm by (auto simp: wake_inv_def)
    then show ?thesis using data_invD(4) [OF d] by simp
  qed (use place ended in blast)
  then have "drained s = said s" using data_invD(5) [OF d] by simp
  moreover have "phase (producers s i) = Idle" if i: "i < SC_LOG_MAX_THREADS" for i
    using calm [OF i] data_invD(6) [OF d holdsI [OF i]] all by (auto simp: held_def)
  moreover have "consumer s = (if g_running (ring s) then C_asleep else C_ended)"
    using w place by (auto simp: wake_inv_def)
  ultimately show ?thesis by blast
qed

section \<open>What the ring promises\<close>

text \<open>
  The specification: a queue of lines and the lines read from it. A line is said at one end and
  read at the other.
\<close>

inductive fifo_step :: "line list \<times> line list \<Rightarrow> line list \<times> line list \<Rightarrow> bool" where
  say_line: "fifo_step (q, out) (q @ [l], out)"
| read_line: "fifo_step (l # q, out) (q, out @ [l])"

inductive_simps fifo_step_simps: "fifo_step (q, out) (q', out')"

definition ring_abs :: "system \<Rightarrow> line list \<times> line list" where
  "ring_abs s = (drop (length (drained s)) (said s), drained s)"

lemma ring_abs_keep:
  "said t = said s \<Longrightarrow> drained t = drained s \<Longrightarrow> ring_abs t = ring_abs s"
  by (simp add: ring_abs_def)

lemma ring_abs_draw:
  assumes "ring_inv s"
  shows "fifo_step (ring_abs s) (ring_abs (draw i l s))"
  using data_invD(4) [OF ring_invD(1) [OF assms]]
  by (simp add: ring_abs_def draw_def on_producer_def say_line)

lemma ring_abs_drain:
  assumes inv: "ring_inv s" and "consumer s = C_reading"
  shows "fifo_step (ring_abs s) (ring_abs (drain s))"
proof -
  note d = ring_invD(1) [OF inv]
  have t: "length (drained s) < length (said s)" "\<not> is_open (producers s) (length (drained s))"
    using data_invD(13) [OF d] assms(2) by auto
  have "take_line (ring s) = said s ! length (drained s)"
    using take_line_payload [OF d] data_invD(9) [OF d, of "length (drained s)"] t
      geometry_cap(1) [OF data_invD(1) [OF d]] by simp
  then have "drop (length (drained s)) (said s)
      = take_line (ring s) # drop (Suc (length (drained s))) (said s)"
    using t(1) by (simp add: Cons_nth_drop_Suc)
  then show ?thesis by (simp add: ring_abs_def drain_def read_line)
qed

lemma ring_work_abs:
  assumes "ring_work s t" and "ring_inv s"
  shows "ring_abs t = ring_abs s \<or> fifo_step (ring_abs s) (ring_abs t)"
  using assms(1)
proof (cases rule: ring_work.cases)
  case c_done
  then show ?thesis using ring_abs_drain [OF assms(2)] by simp
qed (simp_all add: ring_abs_def)

lemma ring_step_abs:
  assumes "ring_step s t" and "ring_inv s"
  shows "ring_abs t = ring_abs s \<or> fifo_step (ring_abs s) (ring_abs t)"
  using assms(1)
proof (cases rule: ring_step.cases)
  case s_work
  then show ?thesis using ring_work_abs assms(2) by blast
next
  case (s_call i l)
  then show ?thesis using ring_abs_draw [OF assms(2)] by simp
qed (simp_all add: ring_abs_def sc_log_ring_stop_def)

text \<open>
  C2. The ring of the log is a first-in first-out queue, whatever the interleaving of the
  submitting threads and the drain thread: every step of every reachable state either leaves the
  queue alone, or appends one line (the moment a thread draws its ticket), or hands the oldest
  line over to the drain thread (the moment it frees the slot). In every reachable state what has
  been read, followed by what is queued, is what has been submitted: no line is lost, doubled,
  changed or overtaken, although the ring has room for a few slots only and its counters wrap.
\<close>

theorem ring_refines_fifo:
  assumes "reach ring_start ring_step s"
  shows "(ring_step s t \<longrightarrow> ring_abs t = ring_abs s \<or> fifo_step (ring_abs s) (ring_abs t))
    \<and> snd (ring_abs s) @ fst (ring_abs s) = said s \<and> snd (ring_abs s) = drained s"
proof -
  have inv: "ring_inv s" by (rule rg.reach_inv [OF assms])
  then have "drained s @ drop (length (drained s)) (said s) = said s"
    using data_invD(5) [OF ring_invD(1)] by (metis append_take_drop_id)
  then show ?thesis using ring_step_abs [OF _ inv] by (simp add: ring_abs_def)
qed

text \<open>
  A slot belongs to one thread at a time: two submitting threads that have been admitted to
  their slots (between the end of \<^verbatim>\<open>sc_log_ring_reserve\<close> and the sequence store of
  \<^verbatim>\<open>sc_log_ring_publish\<close>) have different slots, and the slot the drain thread reads is none of
  theirs.
\<close>

theorem ring_exclusive:
  assumes "reach ring_start ring_step s" and "i < SC_LOG_MAX_THREADS"
    and "phase (producers s i) \<in> {Admitted, Writing, Written}"
  shows "(consumer s = C_reading \<longrightarrow>
        slot_index (ring s) (pos (producers s i)) \<noteq> slot_index (ring s) (g_tail (ring s)))
    \<and> (j < SC_LOG_MAX_THREADS \<longrightarrow> phase (producers s j) \<in> {Admitted, Writing, Written} \<longrightarrow> j \<noteq> i \<longrightarrow>
        slot_index (ring s) (pos (producers s i)) \<noteq> slot_index (ring s) (pos (producers s j)))"
proof -
  note d = ring_invD(1) [OF rg.reach_inv [OF assms(1)]]
  let ?t = "length (drained s)" and ?c = "cap (ring s)"
  have own: "holds (producers s) a (ticket (producers s a)) \<and> ticket (producers s a) < ?t + ?c
      \<and> ?t \<le> ticket (producers s a)
      \<and> slot_index (ring s) (pos (producers s a)) = ticket (producers s a) mod ?c"
    if a: "a < SC_LOG_MAX_THREADS" "phase (producers s a) \<in> {Admitted, Writing, Written}" for a
  proof -
    have h: "holds (producers s) a (ticket (producers s a))" by (rule holdsI) (use a in \<open>auto simp: held_def\<close>)
    then show ?thesis
      using data_invD(6) [OF d h] data_invD(11) [OF d a] slot_index_of_nat [OF data_invD(1) [OF d]] by simp
  qed
  note i = own [OF assms(2,3)]
  show ?thesis
  proof (intro conjI impI)
    assume "consumer s = C_reading"
    then have "ticket (producers s i) \<noteq> ?t" using data_invD(13) [OF d] i by (auto simp: is_open_def)
    then have "ticket (producers s i) mod ?c \<noteq> ?t mod ?c"
      using window_other [of ?t ?t ?c "ticket (producers s i)"] i by simp
    then show "slot_index (ring s) (pos (producers s i)) \<noteq> slot_index (ring s) (g_tail (ring s))"
      using i data_invD(3) [OF d] slot_index_of_nat [OF data_invD(1) [OF d]] by simp
  next
    assume j: "j < SC_LOG_MAX_THREADS" "phase (producers s j) \<in> {Admitted, Writing, Written}" "j \<noteq> i"
    note oj = own [OF j(1,2)]
    have "ticket (producers s i) \<noteq> ticket (producers s j)"
      using data_invD(7) [OF d, of i "ticket (producers s i)" j] i oj j(3) by auto
    then show "slot_index (ring s) (pos (producers s i)) \<noteq> slot_index (ring s) (pos (producers s j))"
      using window_other [of ?t "ticket (producers s j)" ?c "ticket (producers s i)"] i oj by simp
  qed
qed

lemma ended_drained:
  assumes "ring_work\<^sup>*\<^sup>* s t" and "ring_inv s" and "consumer s \<noteq> C_ended"
  shows "ring_inv t \<and> said t = said s \<and> g_running (ring t) = g_running (ring s)
    \<and> (consumer t = C_ended \<longrightarrow> length (drained t) = length (said t))"
  using assms(1)
proof (induction rule: rtranclp_induct)
  case base
  then show ?case using assms by simp
next
  case (step t u)
  then have inv: "ring_inv t" by blast
  have "ring_inv u" by (rule ring_work_inv [OF step.hyps(2) inv])
  moreover have "said u = said t \<and> g_running (ring u) = g_running (ring t)
      \<and> (consumer u = C_ended \<longrightarrow> length (drained u) = length (said u))"
    using step.hyps(2) step.IH take_empty_iff [OF ring_invD(1) [OF inv]]
    by (cases rule: ring_work.cases) (auto simp: drain_def signal_notempty_def split: if_splits)
  ultimately show ?case using step.IH by simp
qed

text \<open>
  No wake-up is lost and no line is stranded: from every reachable state in which the drain
  thread has not ended, and as long as no further line is submitted, the threads cannot run
  forever, and they stop only when every line submitted has been drained, every submitting thread
  is back from its call, and the drain thread sleeps on an empty ring, or has ended if the logger
  was told to stop.
\<close>

theorem ring_drains:
  assumes "reach ring_start ring_step s" and "consumer s \<noteq> C_ended"
  shows "(\<nexists>run. run 0 = s \<and> (\<forall>n. ring_work (run n) (run (Suc n))))
    \<and> (ring_work\<^sup>*\<^sup>* s t \<longrightarrow> (\<nexists>u. ring_work t u) \<longrightarrow>
         drained t = said s \<and> (\<forall>i < SC_LOG_MAX_THREADS. phase (producers t i) = Idle)
         \<and> consumer t = (if g_running (ring s) then C_asleep else C_ended))"
proof (intro conjI impI notI)
  have inv: "ring_inv s" by (rule rg.reach_inv [OF assms(1)])
  {
    assume "\<exists>run. run 0 = s \<and> (\<forall>n. ring_work (run n) (run (Suc n)))"
    then obtain run where run: "run 0 = s" "\<And>n. ring_work (run n) (run (Suc n))" by blast
    have ok: "ring_inv (run n)" for n
      by (induction n) (use inv run ring_work_inv in auto)
    have "work_left (run n) + n \<le> work_left s" for n
    proof (induction n)
      case (Suc n)
      then show ?case using ring_work_less [OF run(2) ok, of n] by simp
    qed (simp add: run)
    from this [of "Suc (work_left s)"] show False by simp
  next
    assume go: "ring_work\<^sup>*\<^sup>* s t" and stuck: "\<nexists>u. ring_work t u"
    note t = ended_drained [OF go inv assms(2)]
    have "drained t = said t \<and> (\<forall>i < SC_LOG_MAX_THREADS. phase (producers t i) = Idle)
        \<and> consumer t = (if g_running (ring t) then C_asleep else C_ended)"
      using stuck_drained [of t] t stuck by blast
    then show "drained t = said s" "\<forall>i < SC_LOG_MAX_THREADS. phase (producers t i) = Idle"
        "consumer t = (if g_running (ring s) then C_asleep else C_ended)"
      using t by simp_all
  }
qed

subsection \<open>A concrete run\<close>

definition demo_platform :: platform where
  "demo_platform = \<lparr>mutex_ok = True, notfull_ok = True, notempty_ok = True, calloc_ok = True\<rparr>"

definition demo_blank :: ring_state where
  "demo_blank = \<lparr>g_ring = [], g_capacity = 0, g_mask = 0, g_head = 0, g_tail = 0, g_sync_ready = False,
     g_producer_waiters = 0, g_consumer_waiting = False, g_running = False, n_blocked = 0, n_submitted = 0\<rparr>"

definition demo_ring :: ring_state where
  "demo_ring = demo_blank\<lparr>g_ring := map first_slot [0..<8], g_capacity := 8, g_mask := 7,
     g_sync_ready := True, g_running := True\<rparr>"

definition demo_start :: system where
  "demo_start = \<lparr>ring = demo_ring,
     producers = (\<lambda>i. \<lparr>phase = Idle, pos = 0, message = (0, 0, 0), ticket = 0\<rparr>),
     consumer = C_look, said = [], drained = []\<rparr>"

lemma demo_init: "sc_log_ring_init demo_platform 5 demo_blank = Some (0, demo_ring)"
  by code_simp

lemma demo_starts: "ring_start demo_start"
proof -
  have "g_producer_waiters demo_blank = 0" "\<not> g_consumer_waiting demo_blank" by (simp_all add: demo_blank_def)
  with demo_init show ?thesis unfolding ring_start_def by (auto simp: demo_start_def)
qed

lemma demo_start_reach: "reach ring_start ring_step demo_start"
  by (rule reach_init) (rule demo_starts)

lemma reach_call:
  "reach ring_start ring_step s \<Longrightarrow> at_phase s i Idle \<Longrightarrow> reach ring_start ring_step (draw i l s)"
  by (erule reach_step) (rule s_call)

lemma reach_ready:
  "reach ring_start ring_step s \<Longrightarrow> at_phase s i Drawn \<Longrightarrow> reserve_ready (ring s) (pos (producers s i)) \<Longrightarrow>
    reach ring_start ring_step (go i Writing s)"
  by (erule reach_step) (rule s_work, rule w_ready)

definition demo_two :: system where
  "demo_two = draw 1 (3, 4, 1) (draw 0 (1, 2, 0) demo_start)"

definition demo_writing :: system where
  "demo_writing = go 1 Writing (go 0 Writing demo_two)"

lemma demo_two_reach: "reach ring_start ring_step demo_two"
  unfolding demo_two_def
  by (rule reach_call [OF reach_call [OF demo_start_reach]])
    (simp_all add: demo_start_def draw_def on_producer_def on_ring_def SC_LOG_MAX_THREADS_def)

lemma demo_writing_reach: "reach ring_start ring_step demo_writing"
  unfolding demo_writing_def
  by (rule reach_ready [OF reach_ready [OF demo_two_reach]]; code_simp)

text \<open>One line on its way through the ring, to the drain thread's sleep.\<close>

definition demo_one :: system where
  "demo_one = draw 0 (1, 2, 0) demo_start"

definition demo_written :: system where
  "demo_written = on_ring (fill_slot 0 (1, 2, 0)) (go 0 Written (go 0 Writing demo_one))"

definition demo_published :: system where
  "demo_published = go 0 Idle (on_ring (publish_store 0) (go 0 Published demo_written))"

definition demo_drained :: system where
  "demo_drained = (drain (demo_published\<lparr>consumer := C_reading\<rparr>))\<lparr>consumer := C_look\<rparr>"

definition demo_asleep :: system where
  "demo_asleep =
     (on_ring (\<lambda>r. r\<lparr>g_consumer_waiting := True\<rparr>)
       (demo_drained\<lparr>consumer := C_idle\<rparr>\<lparr>consumer := C_check\<rparr>))\<lparr>consumer := C_asleep\<rparr>"

lemma demo_to_written: "ring_work\<^sup>*\<^sup>* demo_one demo_written"
proof -
  have "ring_work demo_one (go 0 Writing demo_one)" by (rule w_ready) code_simp+
  moreover have "ring_work (go 0 Writing demo_one)
      (on_ring (fill_slot (pos (producers (go 0 Writing demo_one) 0)) (message (producers (go 0 Writing demo_one) 0)))
        (go 0 Written (go 0 Writing demo_one)))"
    by (rule w_write) code_simp
  moreover have "pos (producers (go 0 Writing demo_one) 0) = 0" "message (producers (go 0 Writing demo_one) 0) = (1, 2, 0)"
    by code_simp+
  ultimately show ?thesis unfolding demo_written_def by auto
qed

lemma demo_to_published: "ring_work\<^sup>*\<^sup>* demo_written demo_published"
proof -
  let ?p = "on_ring (publish_store 0) (go 0 Published demo_written)"
  have "ring_work demo_written (on_ring (publish_store (pos (producers demo_written 0))) (go 0 Published demo_written))"
    by (rule w_publish) code_simp
  moreover have "pos (producers demo_written 0) = 0" by code_simp
  moreover have "ring_work ?p (go 0 Idle ?p)" by (rule w_quiet) code_simp+
  ultimately show ?thesis unfolding demo_published_def by auto
qed

lemma demo_to_drained: "ring_work\<^sup>*\<^sup>* demo_published demo_drained"
proof -
  let ?a = "demo_published\<lparr>consumer := C_reading\<rparr>"
  have "ring_work demo_published ?a" by (rule c_take) code_simp+
  moreover have "ring_work ?a (drain ?a)" by (rule c_done) code_simp
  moreover have "ring_work (drain ?a) ((drain ?a)\<lparr>consumer := C_look\<rparr>)" by (rule c_quiet) code_simp+
  ultimately show ?thesis unfolding demo_drained_def by auto
qed

lemma demo_to_asleep: "ring_work\<^sup>*\<^sup>* demo_drained demo_asleep"
proof -
  let ?a = "demo_drained\<lparr>consumer := C_idle\<rparr>"
    and ?b = "on_ring (\<lambda>r. r\<lparr>g_consumer_waiting := True\<rparr>) (demo_drained\<lparr>consumer := C_idle\<rparr>\<lparr>consumer := C_check\<rparr>)"
  have a: "ring_work demo_drained ?a" by (rule c_idle) code_simp+
  have b: "ring_work ?a ?b" by (rule c_flag) code_simp+
  have c: "ring_work ?b (?b\<lparr>consumer := C_asleep\<rparr>)" by (rule c_sleep) code_simp+
  show ?thesis
    unfolding demo_asleep_def
    by (rule converse_rtranclp_into_rtranclp, rule a, rule converse_rtranclp_into_rtranclp, rule b,
        rule r_into_rtranclp, rule c)
qed

lemma demo_asleep_idle: "phase (producers demo_asleep i) = Idle"
  by (simp add: demo_asleep_def demo_drained_def demo_published_def demo_written_def demo_one_def
      drain_def go_def on_producer_def on_ring_def draw_def demo_start_def)

lemma demo_stuck: "\<not> ring_work demo_asleep u"
proof
  assume "ring_work demo_asleep u"
  moreover have "consumer demo_asleep = C_asleep" by (simp add: demo_asleep_def)
  ultimately show False by (cases rule: ring_work.cases) (auto simp: demo_asleep_idle)
qed

lemma demo_one_reach: "reach ring_start ring_step demo_one"
  unfolding demo_one_def
  by (rule reach_call [OF demo_start_reach]) (simp add: demo_start_def SC_LOG_MAX_THREADS_def)

theorem ring_refines_fifo_witness:
  "fifo_step (ring_abs demo_start) (ring_abs demo_one) \<and> ring_abs demo_one = ([(1, 2, 0)], [])"
proof -
  have step: "ring_step demo_start demo_one"
    unfolding demo_one_def by (rule s_call) (simp add: demo_start_def SC_LOG_MAX_THREADS_def)
  have "ring_abs demo_one = ([(1, 2, 0)], [])" and "ring_abs demo_start = ([], [])"
    by (simp_all add: ring_abs_def demo_one_def demo_start_def draw_def on_producer_def)
  then show ?thesis
    using ring_refines_fifo [OF demo_start_reach, of demo_one] step by auto
qed

theorem ring_exclusive_witness:
  "slot_index (ring demo_writing) (pos (producers demo_writing 0))
    \<noteq> slot_index (ring demo_writing) (pos (producers demo_writing 1))"
proof -
  have p: "phase (producers demo_writing 0) = Writing" "phase (producers demo_writing 1) = Writing"
    by (simp_all add: demo_writing_def go_def on_producer_def)
  show ?thesis
    using ring_exclusive [OF demo_writing_reach, of 0 1] p by (simp add: SC_LOG_MAX_THREADS_def)
qed

theorem ring_drains_witness:
  "drained demo_asleep = said demo_one \<and> consumer demo_asleep = C_asleep \<and> said demo_one = [(1, 2, 0)]"
proof -
  have "ring_work\<^sup>*\<^sup>* demo_one demo_asleep"
    using demo_to_written demo_to_published demo_to_drained demo_to_asleep by (meson rtranclp_trans)
  moreover have "consumer demo_one = C_look" "g_running (ring demo_one)" "said demo_one = [(1, 2, 0)]"
    by (simp_all add: demo_one_def draw_def on_producer_def on_ring_def demo_start_def reserve_draw_def
        demo_ring_def)
  ultimately show ?thesis
    using ring_drains [OF demo_one_reach, of demo_asleep] demo_stuck by simp
qed

end
