(* ===== verification/LogOwner.thy ===== *)
theory LogOwner
  imports LogRing
begin

text \<open>
  The owners of \<^verbatim>\<open>service-core/src/log/ring.c\<close>: one arena pool and one return queue per
  submitting thread. The drain thread writes spent arenas at the head of the queue, the owner
  frees them at the tail; neither checks for room.

  The arena pools are the \<^verbatim>\<open>arnm\<close> library's and not part of the sources: a parameter, the record
  \<open>arnm_api\<close>. The composed system of the last section puts the queues beside the ring the way
  \<^verbatim>\<open>submit\<close> and \<^verbatim>\<open>logger_main\<close> use them, and shows that the unchecked writes never run over: every
  arena comes back to the thread it belongs to, once and in order.
\<close>

unbundle bit_operations_syntax

section \<open>Owners\<close>

record 'p sc_log_owner =
  pool :: 'p
  ret :: "nat list"
  ret_mask :: "32 word"
  ret_head :: "64 word"
  ret_tail :: "64 word"
  in_use :: bool
  host_allocs :: "64 word"

definition SC_LOG_GRADE_COUNT :: nat where
  "SC_LOG_GRADE_COUNT = 6"

text \<open>
  What the code calls of the pools: making one of a given ceiling (or failing), stocking a grade,
  giving an arena back, the number of arenas of a grade that are out (none for a grade that does
  not exist), and dissolving the pool.
\<close>

record 'p arnm_api =
  pool_init :: "32 word \<Rightarrow> 'p option"
  pool_reserve :: "nat \<Rightarrow> 32 word \<Rightarrow> 'p \<Rightarrow> 'p"
  pool_free :: "nat \<Rightarrow> 'p \<Rightarrow> 'p"
  acquired :: "'p \<Rightarrow> nat \<Rightarrow> nat option"
  pool_release :: "'p \<Rightarrow> 'p"

definition sc_log_owner_return :: "nat \<Rightarrow> 'p sc_log_owner \<Rightarrow> 'p sc_log_owner" where
  "sc_log_owner_return a o' =
     (let h = ret_head o'
      in o'\<lparr>ret := (ret o')[unat (h AND ucast (ret_mask o')) := a], ret_head := h + 1\<rparr>)"

lemma walk_measure: "t \<noteq> h \<Longrightarrow> unat (h - (t + 1)) < unat (h - t :: 64 word)"
proof -
  assume "t \<noteq> h"
  then have "h - t \<noteq> 0" by simp
  then have "unat (h - t - 1) < unat (h - t)" by (simp add: unat_minus_one unat_gt_0)
  then show ?thesis by (simp add: algebra_simps)
qed

text \<open>The loop of \<^verbatim>\<open>sc_log_owner_reclaim\<close>: the arenas it frees, in order.\<close>

function reclaim_walk :: "nat list \<Rightarrow> 32 word \<Rightarrow> 64 word \<Rightarrow> 64 word \<Rightarrow> nat list" where
  "reclaim_walk q m t h = (if t = h then [] else q ! unat (t AND ucast m) # reclaim_walk q m (t + 1) h)"
  by pat_completeness auto
termination
  by (relation "measure (\<lambda>(q, m, t, h). unat (h - t))") (simp_all add: walk_measure)

declare reclaim_walk.simps [simp del]

definition sc_log_owner_reclaim :: "'p arnm_api \<Rightarrow> 'p sc_log_owner \<Rightarrow> 'p sc_log_owner \<times> nat list" where
  "sc_log_owner_reclaim api o' =
     (let back = reclaim_walk (ret o') (ret_mask o') (ret_tail o') (ret_head o')
      in (o'\<lparr>pool := fold (pool_free api) back (pool o'), ret_tail := ret_head o'\<rparr>, back))"

definition sc_log_owner_host_allocs_total :: "'p sc_log_owner list \<Rightarrow> 64 word" where
  "sc_log_owner_host_allocs_total os = foldl (\<lambda>total o'. total + host_allocs o') 0 os"

text \<open>
  \<^verbatim>\<open>sc_log_owner_join\<close>. The table, the thread's own index (-1 before it has one), the capacity of
  the ring, the configured stock, and whether \<^verbatim>\<open>calloc\<close> has room. The compare-and-swap loop takes
  the first slot that is not in use.
\<close>

fun claim_slot :: "'p sc_log_owner list \<Rightarrow> nat option" where
  "claim_slot [] = None"
| "claim_slot (o' # os) = (if \<not> in_use o' then Some 0 else map_option Suc (claim_slot os))"

definition fresh_owner :: "64 word \<Rightarrow> 'p sc_log_owner \<Rightarrow> 'p sc_log_owner" where
  "fresh_owner capacity o' =
     o'\<lparr>in_use := True, ret := replicate (unat (capacity * 2)) 0, ret_mask := ucast (capacity * 2 - 1),
        ret_head := 0, ret_tail := 0, host_allocs := 0\<rparr>"

definition stock :: "'p arnm_api \<Rightarrow> 32 word \<Rightarrow> 'p \<Rightarrow> 'p" where
  "stock api spare p = fold (\<lambda>g. pool_reserve api g spare) [0..<SC_LOG_GRADE_COUNT] p"

definition sc_log_owner_join ::
  "'p arnm_api \<Rightarrow> bool \<Rightarrow> 64 word \<Rightarrow> 32 word \<Rightarrow> int \<Rightarrow> 'p sc_log_owner list \<Rightarrow> int \<times> 'p sc_log_owner list" where
  "sc_log_owner_join api room capacity spare t_owner os =
     (if 0 \<le> t_owner then (t_owner, os)
      else case claim_slot os of
        None \<Rightarrow> (- 1, os)
      | Some i \<Rightarrow>
          if \<not> room then (- 1, os[i := (os ! i)\<lparr>ret := [], in_use := False\<rparr>])
          else (case pool_init api (ucast capacity) of
                  None \<Rightarrow> (- 1, os[i := (fresh_owner capacity (os ! i))\<lparr>ret := [], in_use := False\<rparr>])
                | Some p \<Rightarrow>
                    (int i, os[i := (fresh_owner capacity (os ! i))\<lparr>pool := stock api spare p\<rparr>])))"

text \<open>
  One turn of the loop of \<^verbatim>\<open>sc_log_owner_leave\<close>: collect what has come back and look whether an
  arena is still out. \<open>Inr\<close>: sleep and look again; \<open>Inl\<close>: everything is back and the slot is free.
\<close>

definition outstanding :: "'p arnm_api \<Rightarrow> 'p \<Rightarrow> bool" where
  "outstanding api p \<longleftrightarrow>
     list_ex (\<lambda>g. case acquired api p g of None \<Rightarrow> False | Some n \<Rightarrow> n \<noteq> 0) [0..<SC_LOG_GRADE_COUNT]"

definition leave_turn :: "'p arnm_api \<Rightarrow> 'p sc_log_owner \<Rightarrow> 'p sc_log_owner + 'p sc_log_owner" where
  "leave_turn api o' =
     (let o1 = fst (sc_log_owner_reclaim api o')
      in if outstanding api (pool o1) then Inr o1
         else Inl (o1\<lparr>pool := pool_release api (pool o1), ret := [], in_use := False\<rparr>))"

section \<open>The return queue\<close>

text \<open>
  \<open>back\<close>: the arenas handed back so far; \<open>freed\<close>: those the owner has freed. The queue holds what
  is between the two.
\<close>

definition queue_ok :: "nat \<Rightarrow> 'p sc_log_owner \<Rightarrow> nat list \<Rightarrow> nat list \<Rightarrow> bool" where
  "queue_ok e o' back freed \<longleftrightarrow>
     e \<le> 32 \<and> ret_mask o' = 2 ^ e - 1 \<and> length (ret o') = 2 ^ e
     \<and> ret_head o' = of_nat (length back) \<and> ret_tail o' = of_nat (length freed)
     \<and> length freed \<le> length back \<and> length back \<le> length freed + 2 ^ e
     \<and> take (length freed) back = freed
     \<and> (\<forall>k. length freed \<le> k \<longrightarrow> k < length back \<longrightarrow> ret o' ! (k mod 2 ^ e) = back ! k)"

lemma wide_mask:
  assumes "e \<le> 32"
  shows "ucast (2 ^ e - 1 :: 32 word) = (2 ^ e - 1 :: 64 word)"
proof -
  have "(2 ^ e - 1 :: 32 word) = mask e" by (simp add: mask_eq_exp_minus_1)
  moreover have "ucast (mask e :: 32 word) = (mask (min 32 e) :: 64 word)"
    by (rule bit_eqI) (auto simp: bit_ucast_iff bit_mask_iff)
  ultimately show ?thesis using assms by (simp add: mask_eq_exp_minus_1 min_def)
qed

lemma queue_index:
  assumes "queue_ok e o' back freed"
  shows "unat (of_nat k AND ucast (ret_mask o') :: 64 word) = k mod 2 ^ e"
  using assms masked_index [of e k] by (simp add: queue_ok_def wide_mask)

lemma return_ok:
  assumes q: "queue_ok e o' back freed" and room: "length back < length freed + 2 ^ e"
  shows "queue_ok e (sc_log_owner_return a o') (back @ [a]) freed"
proof -
  let ?n = "length back"
  have ret: "ret (sc_log_owner_return a o') = (ret o')[?n mod 2 ^ e := a]"
    using q queue_index [OF q, of ?n] by (simp add: sc_log_owner_return_def queue_ok_def Let_def)
  have "ret (sc_log_owner_return a o') ! (k mod 2 ^ e) = (back @ [a]) ! k"
    if k: "length freed \<le> k" "k < Suc ?n" for k
  proof (cases "k = ?n")
    case True
    then show ?thesis using q by (simp add: ret queue_ok_def)
  next
    case False
    then have "k mod 2 ^ e \<noteq> ?n mod 2 ^ e"
      using window_other [of "length freed" ?n "2 ^ e" k] q room k by (simp add: queue_ok_def)
    then show ?thesis using q k False by (simp add: ret queue_ok_def nth_append)
  qed
  then show ?thesis
    using q room by (auto simp: queue_ok_def sc_log_owner_return_def Let_def)
qed

lemma walk_back:
  assumes "queue_ok e o' back freed" and "length freed \<le> n" "n \<le> length back"
  shows "reclaim_walk (ret o') (ret_mask o') (of_nat n) (ret_head o') = drop n back"
  using assms(2,3)
proof (induction "length back - n" arbitrary: n)
  case 0
  then show ?case using assms(1) by (simp add: queue_ok_def reclaim_walk.simps)
next
  case (Suc x)
  have lt: "n < length back" using Suc.hyps(2) by simp
  have "of_nat n \<noteq> (of_nat (length back) :: 64 word)"
  proof
    assume eq: "of_nat n = (of_nat (length back) :: 64 word)"
    have "(2::nat) ^ e \<le> 2 ^ 32" using assms(1) by (intro power_increasing) (auto simp: queue_ok_def)
    then have "length back < n + 2 ^ 64" using assms(1) Suc.prems by (simp add: queue_ok_def)
    with of_nat_window [OF eq] lt show False by simp
  qed
  moreover have "reclaim_walk (ret o') (ret_mask o') (of_nat n + 1) (ret_head o') = drop (Suc n) back"
    using Suc.hyps(1) [of "Suc n"] Suc.hyps(2) Suc.prems by (simp add: add.commute)
  moreover have "ret o' ! (n mod 2 ^ e) = back ! n" using assms(1) Suc.prems lt by (simp add: queue_ok_def)
  ultimately show ?case
    using assms(1) queue_index [OF assms(1), of n] lt
    by (subst reclaim_walk.simps) (simp add: queue_ok_def Cons_nth_drop_Suc)
qed

lemma reclaim_ok:
  assumes "queue_ok e o' back freed"
  shows "snd (sc_log_owner_reclaim api o') = drop (length freed) back"
    and "queue_ok e (fst (sc_log_owner_reclaim api o')) back back"
    and "pool (fst (sc_log_owner_reclaim api o')) = fold (pool_free api) (drop (length freed) back) (pool o')"
  using walk_back [OF assms, of "length freed"] assms
  by (simp_all add: sc_log_owner_reclaim_def queue_ok_def Let_def)

text \<open>A thread that joins gets a queue of twice the ring's capacity.\<close>

lemma double_capacity:
  assumes "e < 32"
  shows "unat ((2 ^ e :: 64 word) * 2) = 2 ^ Suc e" and "ucast ((2 ^ e :: 64 word) * 2 - 1) = (2 ^ Suc e - 1 :: 32 word)"
proof -
  have two: "(2 ^ e :: 64 word) * 2 = 2 ^ Suc e" by simp
  show "unat ((2 ^ e :: 64 word) * 2) = 2 ^ Suc e" unfolding two by (rule unat_exp) (use assms in simp)
  have "ucast (mask (Suc e) :: 64 word) = (mask (Suc e) :: 32 word)"
    by (rule bit_eqI) (use assms in \<open>auto simp: bit_ucast_iff bit_mask_iff\<close>)
  then show "ucast ((2 ^ e :: 64 word) * 2 - 1) = (2 ^ Suc e - 1 :: 32 word)"
    unfolding two by (simp add: mask_eq_exp_minus_1)
qed

lemma fresh_owner_ok:
  assumes "e < 32"
  shows "queue_ok (Suc e) (fresh_owner (2 ^ e) o') [] []"
  using double_capacity [OF assms] assms by (simp add: queue_ok_def fresh_owner_def)

section \<open>The queues beside the ring\<close>

text \<open>
  The ring, the owners' queues, whether the drain thread has handed the arena of the line it is
  reading back already, and as history what each owner has freed. \<^verbatim>\<open>submit\<close> reclaims before it
  reserves, \<^verbatim>\<open>logger_main\<close> returns the arena before \<^verbatim>\<open>sc_log_ring_done\<close>.
\<close>

record 'p log_system =
  sys :: system
  owners :: "nat \<Rightarrow> 'p sc_log_owner"
  returned :: bool
  freed :: "nat \<Rightarrow> nat list"

definition reclaim_of :: "'p arnm_api \<Rightarrow> nat \<Rightarrow> 'p log_system \<Rightarrow> 'p log_system" where
  "reclaim_of api i s =
     (let (o', back) = sc_log_owner_reclaim api (owners s i)
      in s\<lparr>owners := (owners s)(i := o'), freed := (freed s)(i := freed s i @ back)\<rparr>)"

definition return_line :: "'p log_system \<Rightarrow> 'p log_system" where
  "return_line s =
     (let l = take_line (ring (sys s)); o' = unat (snd (snd l))
      in s\<lparr>owners := (owners s)(o' := sc_log_owner_return (fst l) (owners s o')), returned := True\<rparr>)"

inductive log_step :: "'p arnm_api \<Rightarrow> 'p log_system \<Rightarrow> 'p log_system \<Rightarrow> bool"
  for api :: "'p arnm_api" where
  l_ring: "ring_step (sys s) t \<Longrightarrow> said t = said (sys s) \<Longrightarrow> drained t = drained (sys s)
    \<Longrightarrow> log_step api s (s\<lparr>sys := t\<rparr>)"
| l_call: "at_phase (sys s) i Idle \<Longrightarrow> snd (snd l) = of_nat i
    \<Longrightarrow> log_step api s ((reclaim_of api i s)\<lparr>sys := draw i l (sys s)\<rparr>)"
| l_return: "consumer (sys s) = C_reading \<Longrightarrow> \<not> returned s \<Longrightarrow> log_step api s (return_line s)"
| l_done: "consumer (sys s) = C_reading \<Longrightarrow> returned s
    \<Longrightarrow> log_step api s (s\<lparr>sys := drain (sys s), returned := False\<rparr>)"

text \<open>Every thread has joined, and nothing has been said yet.\<close>

definition log_start :: "'p log_system \<Rightarrow> bool" where
  "log_start s \<longleftrightarrow>
     ring_start (sys s) \<and> g_capacity (ring (sys s)) \<le> 2 ^ 31 \<and> \<not> returned s
     \<and> (\<forall>i. freed s i = [])
     \<and> (\<forall>i < SC_LOG_MAX_THREADS. \<exists>o' p. owners s i = (fresh_owner (g_capacity (ring (sys s))) o')\<lparr>pool := p\<rparr>)"

definition own :: "nat \<Rightarrow> line \<Rightarrow> bool" where
  "own i l \<longleftrightarrow> snd (snd l) = of_nat i"

definition n_back :: "'p log_system \<Rightarrow> nat" where
  "n_back s = length (drained (sys s)) + (if returned s then 1 else 0)"

definition back_of :: "'p log_system \<Rightarrow> nat \<Rightarrow> nat list" where
  "back_of s i = map fst (filter (own i) (take (n_back s) (said (sys s))))"

definition due :: "'p log_system \<Rightarrow> nat \<Rightarrow> nat" where
  "due s i = length (filter (own i) (drop (n_back s) (said (sys s))))"

definition owned :: "system \<Rightarrow> bool" where
  "owned s \<longleftrightarrow> (\<forall>i k. holds (producers s) i k \<longrightarrow> own i (said s ! k))"

definition log_inv :: "'p log_system \<Rightarrow> bool" where
  "log_inv s \<longleftrightarrow>
     ring_inv (sys s) \<and> owned (sys s) \<and> (\<forall>l \<in> set (said (sys s)). \<exists>i < SC_LOG_MAX_THREADS. own i l)
     \<and> (returned s \<longrightarrow> consumer (sys s) = C_reading)
     \<and> (\<exists>e < 32. g_capacity (ring (sys s)) = 2 ^ e
          \<and> (\<forall>i < SC_LOG_MAX_THREADS. queue_ok (Suc e) (owners s i) (back_of s i) (freed s i)))
     \<and> (\<forall>i < SC_LOG_MAX_THREADS.
          length (back_of s i) + due s i \<le> length (freed s i) + cap (ring (sys s)) + 1)"

lemma own_inj: "own i l \<Longrightarrow> own j l \<Longrightarrow> i < SC_LOG_MAX_THREADS \<Longrightarrow> j < SC_LOG_MAX_THREADS \<Longrightarrow> i = j"
proof -
  assume a: "own i l" "own j l" "i < SC_LOG_MAX_THREADS" "j < SC_LOG_MAX_THREADS"
  then have "(of_nat i :: 32 word) = of_nat j" by (simp add: own_def)
  moreover have "unat (of_nat n :: 32 word) = n" if "n < SC_LOG_MAX_THREADS" for n
    by (rule unat_of_nat_less) (use that in \<open>simp add: SC_LOG_MAX_THREADS_def\<close>)
  ultimately show "i = j" using a by metis
qed

lemma ring_step_holds:
  assumes "ring_step s t" and "said t = said s"
  shows "holds (producers t) i k \<Longrightarrow> holds (producers s) i k"
    and "g_capacity (ring t) = g_capacity (ring s)"
    and "drained t = drained s \<Longrightarrow> consumer s = C_reading \<Longrightarrow> consumer t = C_reading"
proof -
  have "(holds (producers t) i k \<longrightarrow> holds (producers s) i k) \<and> g_capacity (ring t) = g_capacity (ring s)
      \<and> (drained t = drained s \<longrightarrow> consumer s = C_reading \<longrightarrow> consumer t = C_reading)"
    using assms(1)
  proof (cases rule: ring_step.cases)
    case s_work
    then show ?thesis
      by (cases rule: ring_work.cases)
        (auto simp: holds_def held_def move_defs split: if_splits)
  qed (use assms(2) in \<open>auto simp: holds_def held_def move_defs split: if_splits\<close>)
  then show "holds (producers t) i k \<Longrightarrow> holds (producers s) i k"
    and "g_capacity (ring t) = g_capacity (ring s)"
    and "drained t = drained s \<Longrightarrow> consumer s = C_reading \<Longrightarrow> consumer t = C_reading" by blast+
qed

text \<open>A thread between two calls has at most a ring full of lines under way.\<close>

lemma idle_due:
  assumes inv: "ring_inv s" and o': "owned s" and i: "i < SC_LOG_MAX_THREADS" "\<not> held (phase (producers s i))"
  shows "length (filter (own i) (drop (length (drained s)) (said s))) \<le> cap (ring s)"
proof -
  note d = ring_invD(1) [OF inv]
  let ?q = "drop (length (drained s)) (said s)"
  have far: "\<not> own i (?q ! k)" if "cap (ring s) \<le> k" "k < length ?q" for k
  proof
    assume mine: "own i (?q ! k)"
    have "is_open (producers s) (length (drained s) + k)"
      using data_invD(10) [OF d, of "length (drained s) + k"] that by simp
    then obtain j where j: "holds (producers s) j (length (drained s) + k)" by (auto simp: is_open_def)
    then have "own j (?q ! k)" using o' data_invD(4) [OF d] by (auto simp: owned_def)
    then have "j = i" using own_inj mine i j by (auto simp: holds_def)
    then show False using j i by (simp add: holds_def)
  qed
  have "\<not> own i x" if "x \<in> set (drop (cap (ring s)) ?q)" for x
  proof -
    note mem = that
    obtain m where m: "m < length (drop (cap (ring s)) ?q)" "x = drop (cap (ring s)) ?q ! m"
      using mem unfolding in_set_conv_nth by blast
    then have "x = ?q ! (cap (ring s) + m)" by (subst (asm) nth_drop) auto
    then show ?thesis using far [of "cap (ring s) + m"] m(1) by simp
  qed
  then have "filter (own i) (drop (cap (ring s)) ?q) = []" by (simp add: filter_empty_conv)
  then have "filter (own i) ?q = filter (own i) (take (cap (ring s)) ?q)"
    by (metis append_Nil2 append_take_drop_id filter_append)
  then show ?thesis using length_filter_le [of "own i" "take (cap (ring s)) ?q"] by simp
qed

lemma idle_due_back:
  assumes "log_inv s" and "at_phase (sys s) i Idle"
  shows "due s i \<le> cap (ring (sys s))"
proof -
  have "due s i \<le> length (filter (own i) (drop (length (drained (sys s))) (said (sys s))))"
    unfolding due_def n_back_def
    by (cases "drop (length (drained (sys s))) (said (sys s))") (auto simp: drop_Suc drop_tl)
  also have "\<dots> \<le> cap (ring (sys s))"
    by (rule idle_due) (use assms in \<open>auto simp: log_inv_def held_def\<close>)
  finally show ?thesis .
qed


lemma queue_split: "queue_ok e o' back gone \<Longrightarrow> gone @ drop (length gone) back = back"
  by (metis append_take_drop_id queue_ok_def)

lemma log_invD:
  assumes "log_inv s"
  shows "ring_inv (sys s)" and "owned (sys s)" and "l \<in> set (said (sys s)) \<Longrightarrow> \<exists>i < SC_LOG_MAX_THREADS. own i l"
    and "returned s \<Longrightarrow> consumer (sys s) = C_reading"
    and "\<exists>e < 32. g_capacity (ring (sys s)) = 2 ^ e \<and> cap (ring (sys s)) = 2 ^ e
      \<and> (\<forall>i < SC_LOG_MAX_THREADS. queue_ok (Suc e) (owners s i) (back_of s i) (freed s i))"
    and "i < SC_LOG_MAX_THREADS \<Longrightarrow>
      length (back_of s i) + due s i \<le> length (freed s i) + cap (ring (sys s)) + 1"
  using assms unfolding log_inv_def by (blast, blast, blast, blast, auto simp: unat_exp)

lemma log_invI:
  assumes "ring_inv (sys s)" "owned (sys s)" "\<forall>l \<in> set (said (sys s)). \<exists>i < SC_LOG_MAX_THREADS. own i l"
    and "returned s \<longrightarrow> consumer (sys s) = C_reading"
    and "e < 32" "g_capacity (ring (sys s)) = 2 ^ e"
    and "\<And>i. i < SC_LOG_MAX_THREADS \<Longrightarrow> queue_ok (Suc e) (owners s i) (back_of s i) (freed s i)"
    and "\<And>i. i < SC_LOG_MAX_THREADS \<Longrightarrow>
      length (back_of s i) + due s i \<le> length (freed s i) + cap (ring (sys s)) + 1"
  shows "log_inv s"
  using assms unfolding log_inv_def by blast

lemma log_inv_ring:
  assumes inv: "log_inv s" and t: "ring_step (sys s) t" "said t = said (sys s)" "drained t = drained (sys s)"
  shows "log_inv (s\<lparr>sys := t\<rparr>)"
proof -
  note rs = ring_step_holds [OF t(1,2)]
  have "ring_inv t" by (rule ring_step_inv [OF log_invD(1) [OF inv] t(1)])
  moreover have "owned t" using log_invD(2) [OF inv] rs(1) t(2) by (auto simp: owned_def)
  moreover have "returned s \<longrightarrow> consumer t = C_reading" using rs(3) t(3) log_invD(4) [OF inv] by blast
  ultimately show ?thesis
    using inv unfolding log_inv_def by (simp add: rs(2) t back_of_def due_def n_back_def)
qed

lemma log_inv_done:
  assumes inv: "log_inv s" and c: "consumer (sys s) = C_reading" "returned s"
  shows "log_inv (s\<lparr>sys := drain (sys s), returned := False\<rparr>)"
proof -
  have "ring_inv (drain (sys s))" by (rule drain_inv [OF log_invD(1) [OF inv] c(1)])
  then show ?thesis
    using inv c unfolding log_inv_def
    by (simp add: drain_def on_ring_def owned_def back_of_def due_def n_back_def done_store_def)
qed

lemma log_inv_return:
  assumes inv: "log_inv s" and c: "consumer (sys s) = C_reading" "\<not> returned s"
  shows "log_inv (return_line s)"
proof -
  note d = ring_invD(1) [OF log_invD(1) [OF inv]]
  let ?t = "length (drained (sys s))" and ?S = "said (sys s)"
  have t: "?t < length ?S" "\<not> is_open (producers (sys s)) ?t" using data_invD(13) [OF d] c by auto
  have line: "take_line (ring (sys s)) = ?S ! ?t"
    using take_line_payload [OF d] data_invD(9) [OF d, of ?t] t geometry_cap(1) [OF data_invD(1) [OF d]] by simp
  obtain j where j: "j < SC_LOG_MAX_THREADS" "own j (?S ! ?t)" using log_invD(3) [OF inv nth_mem [OF t(1)]] by blast
  have "unat (of_nat j :: 32 word) = j"
    by (rule unat_of_nat_less) (use j in \<open>simp add: SC_LOG_MAX_THREADS_def\<close>)
  with j have idx: "unat (snd (snd (?S ! ?t))) = j" by (simp add: own_def)
  have mine: "own i (?S ! ?t) \<longleftrightarrow> i = j" if "i < SC_LOG_MAX_THREADS" for i
    using own_inj [OF _ j(2) that j(1)] j(2) by blast
  have backs: "back_of (return_line s) i = (if i = j then back_of s i @ [fst (?S ! ?t)] else back_of s i)"
    if "i < SC_LOG_MAX_THREADS" for i
    using mine [OF that] c t
    by (simp add: back_of_def n_back_def return_line_def Let_def take_Suc_conv_app_nth)
  have dues: "due s i = due (return_line s) i + (if i = j then 1 else 0)" if "i < SC_LOG_MAX_THREADS" for i
    using mine [OF that] c
    by (simp add: due_def n_back_def return_line_def Let_def Cons_nth_drop_Suc [OF t(1), symmetric])
  have keep: "sys (return_line s) = sys s" "freed (return_line s) = freed s" "returned (return_line s)"
      "owners (return_line s) = (owners s)(j := sc_log_owner_return (fst (?S ! ?t)) (owners s j))"
    by (simp_all add: return_line_def Let_def line idx)
  obtain e where e: "e < 32" "g_capacity (ring (sys s)) = 2 ^ e" "cap (ring (sys s)) = 2 ^ e"
      "\<And>i. i < SC_LOG_MAX_THREADS \<Longrightarrow> queue_ok (Suc e) (owners s i) (back_of s i) (freed s i)"
    using log_invD(5) [OF inv] by blast
  have "length (back_of s j) < length (freed s j) + 2 ^ Suc e"
    using log_invD(6) [OF inv j(1)] dues [OF j(1)] geometry_cap(1) [OF data_invD(1) [OF d]] e(3) by simp
  from return_ok [OF e(4) [OF j(1)] this]
  have "queue_ok (Suc e) (owners (return_line s) i) (back_of (return_line s) i) (freed (return_line s) i)"
    if "i < SC_LOG_MAX_THREADS" for i
    using that e(4) backs by (simp add: keep)
  moreover have "length (back_of (return_line s) i) + due (return_line s) i
      \<le> length (freed (return_line s) i) + cap (ring (sys (return_line s))) + 1"
    if "i < SC_LOG_MAX_THREADS" for i
    using log_invD(6) [OF inv that] backs [OF that] dues [OF that] by (simp add: keep split: if_splits)
  moreover have "\<forall>l \<in> set (said (sys s)). \<exists>i < SC_LOG_MAX_THREADS. own i l" using log_invD(3) [OF inv] by blast
  ultimately show ?thesis
    using log_invD(1,2) [OF inv] c(1) e(1,2) by (intro log_invI [of _ e]) (simp_all add: keep)
qed

lemma owned_draw:
  assumes "ring_inv s" and "owned s" and "own i l"
  shows "owned (draw i l s)"
  unfolding owned_def
proof (intro allI impI)
  fix j k
  assume h: "holds (producers (draw i l s)) j k"
  have said: "said (draw i l s) = said s @ [l]" by (simp add: draw_def on_producer_def on_ring_def)
  show "own j (said (draw i l s) ! k)"
  proof (cases "j = i")
    case True
    then show ?thesis using h assms(3) by (auto simp: said holds_def draw_def on_producer_def on_ring_def)
  next
    case False
    then have "holds (producers s) j k" using h by (simp add: holds_def draw_def on_producer_def on_ring_def)
    then show ?thesis
      using assms(2) data_invD(6) [OF ring_invD(1) [OF assms(1)]] by (auto simp: said owned_def nth_append)
  qed
qed

lemma log_inv_call:
  assumes inv: "log_inv s" and i: "at_phase (sys s) i Idle" and l: "snd (snd l) = of_nat i"
  shows "log_inv ((reclaim_of api i s)\<lparr>sys := draw i l (sys s)\<rparr>)"
proof -
  let ?s = "(reclaim_of api i s)\<lparr>sys := draw i l (sys s)\<rparr>"
  note d = ring_invD(1) [OF log_invD(1) [OF inv]]
  obtain e where e: "e < 32" "g_capacity (ring (sys s)) = 2 ^ e" "cap (ring (sys s)) = 2 ^ e"
      "\<And>i. i < SC_LOG_MAX_THREADS \<Longrightarrow> queue_ok (Suc e) (owners s i) (back_of s i) (freed s i)"
    using log_invD(5) [OF inv] by blast
  have nb: "n_back s \<le> length (said (sys s))"
    using data_invD(4,13) [OF d] log_invD(4) [OF inv] by (auto simp: n_back_def)
  have ring: "ring_inv (draw i l (sys s))" by (rule draw_inv [OF log_invD(1) [OF inv] i])
  have own_l: "own i l" using l by (simp add: own_def)
  have keep: "said (draw i l (sys s)) = said (sys s) @ [l]" "drained (draw i l (sys s)) = drained (sys s)"
      "consumer (draw i l (sys s)) = consumer (sys s)"
      "g_capacity (ring (draw i l (sys s))) = g_capacity (ring (sys s))"
    by (simp_all add: draw_def on_producer_def on_ring_def reserve_draw_def)
  have owned: "owned (draw i l (sys s))" by (rule owned_draw) (use inv l in \<open>auto simp: log_inv_def own_def\<close>)
  have rest: "freed ?s = (freed s)(i := back_of s i)"
      "owners ?s = (owners s)(i := fst (sc_log_owner_reclaim api (owners s i)))" "returned ?s = returned s"
    using reclaim_ok(1) [OF e(4), of i api] queue_split [OF e(4), of i] i
    by (simp_all add: reclaim_of_def split_beta)
  have backs: "back_of ?s j = back_of s j" for j
    using nb by (simp add: back_of_def n_back_def keep rest)
  have dues: "due ?s j \<le> due s j + (if j = i then 1 else 0)" if "j < SC_LOG_MAX_THREADS" for j
  proof -
    have "own j l \<longleftrightarrow> j = i" using own_inj [OF _ own_l that] own_l i by blast
    then show ?thesis using nb by (simp add: due_def n_back_def keep rest)
  qed
  show ?thesis
  proof (rule log_invI [of _ e])
    show "queue_ok (Suc e) (owners ?s j) (back_of ?s j) (freed ?s j)" if "j < SC_LOG_MAX_THREADS" for j
      unfolding backs rest using that e(4) reclaim_ok(2) [OF e(4), of i api] by simp
    show "length (back_of ?s j) + due ?s j \<le> length (freed ?s j) + cap (ring (sys ?s)) + 1"
      if "j < SC_LOG_MAX_THREADS" for j
      using log_invD(6) [OF inv that] idle_due_back [OF inv i] dues [OF that] by (auto simp: backs rest keep)
    show "\<forall>x \<in> set (said (sys ?s)). \<exists>i < SC_LOG_MAX_THREADS. own i x"
      using log_invD(3) [OF inv] own_l i by (auto simp: keep)
    show "returned ?s \<longrightarrow> consumer (sys ?s) = C_reading" using log_invD(4) [OF inv] by (simp add: keep rest)
  qed (use ring owned e keep in simp_all)
qed


lemma log_inv_start:
  assumes st: "log_start s"
  shows "log_inv s"
proof -
  have r: "ring_inv (sys s)" using st by (simp add: log_start_def ring_start_inv)
  obtain e where e: "3 \<le> e" "e \<le> 32" "g_capacity (ring (sys s)) = 2 ^ e"
    using data_invD(1) [OF ring_invD(1) [OF r]] by (auto simp: geometry_def)
  have "e < 32"
  proof (rule ccontr)
    assume "\<not> e < 32"
    with e(2) have "e = 32" by simp
    with e(3) st show False by (simp add: log_start_def)
  qed
  have empty: "said (sys s) = []" "drained (sys s) = []" "\<And>i. phase (producers (sys s) i) = Idle" "\<not> returned s"
    using st by (simp_all add: log_start_def ring_start_def)
  have queues: "queue_ok (Suc e) (owners s i) [] []" if "i < SC_LOG_MAX_THREADS" for i
  proof -
    obtain o' p where "owners s i = (fresh_owner (2 ^ e) o')\<lparr>pool := p\<rparr>"
      using st e(3) \<open>i < SC_LOG_MAX_THREADS\<close> by (auto simp: log_start_def)
    with fresh_owner_ok [OF \<open>e < 32\<close>, of o'] show ?thesis by (simp add: queue_ok_def)
  qed
  show ?thesis
  proof (rule log_invI [OF r _ _ _ \<open>e < 32\<close> e(3)])
    show "owned (sys s)" by (simp add: owned_def holds_def held_def empty)
  qed (use st queues in \<open>simp_all add: log_start_def back_of_def due_def n_back_def empty\<close>)
qed

lemma log_step_inv:
  assumes "log_inv s" and "log_step api s t"
  shows "log_inv t"
  using assms(2)
  by (cases rule: log_step.cases)
    (auto intro: log_inv_ring log_inv_call log_inv_return log_inv_done assms(1))

interpretation lg: invariant_system log_start "log_step api" log_inv for api
  by unfold_locales (auto intro: log_inv_start log_step_inv)

text \<open>
  C22. The drain thread writes spent arenas into the owners' return queues without looking for room,
  and there always is room: in every reachable state of the ring with its queues, what a thread has
  freed so far, followed by what its queue holds (what the next \<^verbatim>\<open>sc_log_owner_reclaim\<close> will free),
  is exactly the arenas of its own lines that have been read, in order and each once; and the queue
  never holds more than the ring's capacity plus one, which is less than its length.
\<close>

theorem arenas_come_back:
  assumes "reach log_start (log_step api) s" and "i < SC_LOG_MAX_THREADS"
  shows "freed s i @ snd (sc_log_owner_reclaim api (owners s i))
      = map fst (filter (own i) (take (n_back s) (said (sys s))))
    \<and> length (snd (sc_log_owner_reclaim api (owners s i))) \<le> cap (ring (sys s)) + 1
    \<and> cap (ring (sys s)) + 1 < length (ret (owners s i))"
proof -
  have inv: "log_inv s" by (rule lg.reach_inv [OF assms(1)])
  obtain e where e: "cap (ring (sys s)) = 2 ^ e" "queue_ok (Suc e) (owners s i) (back_of s i) (freed s i)"
    using log_invD(5) [OF inv] assms(2) by blast
  have backs: "snd (sc_log_owner_reclaim api (owners s i)) = drop (length (freed s i)) (back_of s i)"
    by (rule reclaim_ok(1) [OF e(2)])
  have "length (drop (length (freed s i)) (back_of s i)) \<le> cap (ring (sys s)) + 1"
    using log_invD(6) [OF inv assms(2)] by simp
  moreover have "cap (ring (sys s)) + 1 < length (ret (owners s i))"
    using e geometry_cap(1) [OF data_invD(1) [OF ring_invD(1) [OF log_invD(1) [OF inv]]]]
    by (simp add: queue_ok_def)
  ultimately show ?thesis using queue_split [OF e(2)] backs by (simp add: back_of_def)
qed


text \<open>The line of the concrete run of the ring, with its arena on the way back.\<close>

definition demo_api :: "nat list arnm_api" where
  "demo_api = \<lparr>pool_init = (\<lambda>_. Some []), pool_reserve = (\<lambda>_ _ p. p), pool_free = (\<lambda>a p. p @ [a]),
     acquired = (\<lambda>_ _. Some 0), pool_release = (\<lambda>p. p)\<rparr>"

definition demo_owner :: "nat list sc_log_owner" where
  "demo_owner = \<lparr>pool = [], ret = [], ret_mask = 0, ret_head = 0, ret_tail = 0, in_use = False, host_allocs = 0\<rparr>"

definition demo_log :: "nat list log_system" where
  "demo_log = \<lparr>sys = demo_start, owners = (\<lambda>_. fresh_owner 8 demo_owner), returned = False, freed = (\<lambda>_. [])\<rparr>"

lemma ring_work_grows:
  assumes "ring_work s t"
  shows "said t = said s \<and> length (drained s) \<le> length (drained t)
    \<and> (length (drained t) = length (drained s) \<longrightarrow> drained t = drained s)"
  using assms by (cases rule: ring_work.cases) (simp_all add: drain_def)

lemma ring_run_grows:
  "ring_work\<^sup>*\<^sup>* s t \<Longrightarrow> length (drained s) \<le> length (drained t)"
  by (induction rule: rtranclp_induct) (auto dest: ring_work_grows)

lemma log_run:
  assumes "ring_work\<^sup>*\<^sup>* a b" and "drained b = drained a"
    and "reach log_start (log_step api) (s\<lparr>sys := a\<rparr>)"
  shows "reach log_start (log_step api) (s\<lparr>sys := b\<rparr>)"
  using assms
proof (induction rule: converse_rtranclp_induct)
  case (step x y)
  note g = ring_work_grows [OF step.hyps(1)]
  have same: "drained y = drained x" using g ring_run_grows [OF step.hyps(2)] step.prems(1) by simp
  have "log_step api (s\<lparr>sys := x\<rparr>) (s\<lparr>sys := x, sys := y\<rparr>)"
    by (rule l_ring) (use step.hyps(1) g same in \<open>auto intro: s_work\<close>)
  then have "reach log_start (log_step api) (s\<lparr>sys := y\<rparr>)"
    using reach_step [of log_start "log_step api", OF step.prems(2)] by simp
  then show ?case using step.IH step.prems(1) same by simp
qed

definition demo_called :: "nat list log_system" where
  "demo_called = (reclaim_of demo_api 0 demo_log)\<lparr>sys := demo_one\<rparr>"

definition demo_back :: "nat list log_system" where
  "demo_back = return_line (demo_called\<lparr>sys := demo_published\<lparr>consumer := C_reading\<rparr>\<rparr>)"

lemma demo_log_start: "log_start demo_log"
proof -
  have "\<exists>o' p. fresh_owner 8 demo_owner = (fresh_owner 8 o')\<lparr>pool := p\<rparr>"
    by (rule exI [of _ demo_owner], rule exI [of _ "[]"]) (simp add: fresh_owner_def demo_owner_def)
  moreover have "g_capacity (ring demo_start) = 8" by (simp add: demo_start_def demo_ring_def)
  ultimately show ?thesis using demo_starts by (simp add: log_start_def demo_log_def)
qed

lemma demo_called_reach: "reach log_start (log_step demo_api) demo_called"
proof -
  have "log_step demo_api demo_log ((reclaim_of demo_api 0 demo_log)\<lparr>sys := draw 0 (1, 2, 0) (sys demo_log)\<rparr>)"
    by (rule l_call) (simp_all add: demo_log_def demo_start_def SC_LOG_MAX_THREADS_def)
  then have "log_step demo_api demo_log demo_called"
    by (simp add: demo_called_def demo_one_def demo_log_def)
  then show ?thesis using reach_step [of log_start "log_step demo_api", OF reach_init [of log_start, OF demo_log_start]]
    by blast
qed

lemma demo_back_reach: "reach log_start (log_step demo_api) demo_back"
proof -
  let ?r = "demo_published\<lparr>consumer := C_reading\<rparr>"
  have "ring_work demo_published ?r" by (rule c_take) code_simp+
  then have run: "ring_work\<^sup>*\<^sup>* demo_one ?r"
    using demo_to_written demo_to_published by (meson rtranclp.rtrancl_into_rtrancl rtranclp_trans)
  have "drained ?r = drained demo_one" by code_simp
  from log_run [OF run this, of demo_api demo_called]
  have "reach log_start (log_step demo_api) (demo_called\<lparr>sys := ?r\<rparr>)"
    using demo_called_reach by (simp add: demo_called_def)
  moreover have "log_step demo_api (demo_called\<lparr>sys := ?r\<rparr>) demo_back"
    unfolding demo_back_def
    by (rule l_return) (simp_all add: demo_called_def reclaim_of_def demo_log_def split_beta)
  ultimately show ?thesis using reach_step [of log_start "log_step demo_api"] by blast
qed

theorem arenas_come_back_witness:
  "freed demo_back 0 @ snd (sc_log_owner_reclaim demo_api (owners demo_back 0)) = [1]"
proof -
  have "map fst (filter (own 0) (take (n_back demo_back) (said (sys demo_back)))) = [1]" by code_simp
  then show ?thesis
    using arenas_come_back [OF demo_back_reach, of 0] by (simp add: SC_LOG_MAX_THREADS_def)
qed

end
