(* ===== verification/LogLine.thy ===== *)
theory LogLine
  imports CText "HOL-Library.Code_Target_Nat"
begin

text \<open>
  One log line on its way through the logger: the record of
  \<^verbatim>\<open>service-core/src/log/record.h\<close>, how \<^verbatim>\<open>submit\<close> (\<^verbatim>\<open>submit.c\<close>) packs it into a block of an arena,
  and the line for humans of \<^verbatim>\<open>pretty.c\<close>, which is measured first and then written without a check.

  C strings are character lists without a terminator; a null pointer is \<open>None\<close>. Lengths the code
  keeps in 32 bits are reduced with \<open>u32\<close>. The number converter is the \<^verbatim>\<open>arnm\<close> library's and the
  calendar the C library's: parameters of the definitions, with what is documented of them as
  named hypotheses. Shown: the packed strings fill the block exactly and read back unharmed; the
  measured length is the length written.
\<close>

section \<open>The record\<close>

datatype sc_log_value_kind =
  SC_LOG_VALUE_STRING | SC_LOG_VALUE_INT | SC_LOG_VALUE_UINT | SC_LOG_VALUE_BOOL | SC_LOG_VALUE_NULL

record sc_log_value =
  key :: string
  kind :: sc_log_value_kind
  v_text :: "string option"
  number :: int
  unumber :: "64 word"

record sc_log_context =
  c_req :: "string option"
  c_usr :: "64 word"
  c_err_name :: "string option"
  c_err_code :: "32 word"
  c_data :: "sc_log_value list"

record sc_log_record =
  time_ms :: int
  event :: string
  err_name :: "string option"
  msg :: string
  req :: "string option"
  usr :: "64 word"
  err_code :: "32 word"
  level :: "8 word"
  cat :: "8 word"
  data :: "sc_log_value list"

abbreviation SC_LOG_TRACE :: "8 word" where "SC_LOG_TRACE \<equiv> 10"
abbreviation SC_LOG_DEBUG :: "8 word" where "SC_LOG_DEBUG \<equiv> 20"
abbreviation SC_LOG_INFO :: "8 word" where "SC_LOG_INFO \<equiv> 30"
abbreviation SC_LOG_WARN :: "8 word" where "SC_LOG_WARN \<equiv> 40"
abbreviation SC_LOG_ERROR :: "8 word" where "SC_LOG_ERROR \<equiv> 50"
abbreviation SC_LOG_FATAL :: "8 word" where "SC_LOG_FATAL \<equiv> 60"

definition SC_LOG_DATA_MAX :: nat where "SC_LOG_DATA_MAX = 8"
definition SC_LOG_MSG_MAX :: nat where "SC_LOG_MSG_MAX = 1024"
definition SC_LOG_GRADE_MAX :: nat where "SC_LOG_GRADE_MAX = 4096"

definition kScLogCatNames :: "string list" where
  "kScLogCatNames = [''auth'', ''user'', ''transaction'', ''contribution'', ''community'', ''federation'',
     ''http'', ''db'', ''session'', ''startup'', ''mail'', ''dht'']"

definition cat_name :: "8 word \<Rightarrow> string" where
  "cat_name c = kScLogCatNames ! (if c < 12 then unat c else 9)"

definition sc_log_level_from_name :: "string option \<Rightarrow> 8 word \<Rightarrow> 8 word" where
  "sc_log_level_from_name nm fallback =
     (case nm of
        None \<Rightarrow> fallback
      | Some s \<Rightarrow>
          if s = ''trace'' then SC_LOG_TRACE
          else if s = ''debug'' then SC_LOG_DEBUG
          else if s = ''info'' then SC_LOG_INFO
          else if s = ''warn'' \<or> s = ''warning'' then SC_LOG_WARN
          else if s = ''error'' then SC_LOG_ERROR
          else if s = ''fatal'' then SC_LOG_FATAL
          else fallback)"

section \<open>Packing\<close>

text \<open>The sizes of the two structures on a 64-bit platform.\<close>

definition sizeof_record :: nat where "sizeof_record = 72"
definition sizeof_value :: nat where "sizeof_value = 40"

definition cstr_len :: "string option \<Rightarrow> nat" where
  "cstr_len s = (case s of None \<Rightarrow> 0 | Some t \<Rightarrow> length t)"

definition poke :: "string \<Rightarrow> nat \<Rightarrow> string \<Rightarrow> string" where
  "poke mem at s = take at mem @ s @ drop (at + length s) mem"

text \<open>\<^verbatim>\<open>pack\<close>: copies \<open>len\<close> characters and a terminator; the new cursor and the block.\<close>

definition pack :: "string \<Rightarrow> nat \<Rightarrow> nat \<times> string \<Rightarrow> nat \<times> string" where
  "pack src len st = (let (cursor, mem) = st in (cursor + len + 1, poke mem cursor (take len src @ [NUL])))"

fun strings_need :: "sc_log_value list \<Rightarrow> nat" where
  "strings_need [] = 0"
| "strings_need (v # vs) = (if kind v = SC_LOG_VALUE_STRING then cstr_len (v_text v) + 1 else 0) + strings_need vs"

definition submit_need :: "string option \<Rightarrow> sc_log_value list \<Rightarrow> nat \<Rightarrow> nat" where
  "submit_need rq vs msg_len =
     sizeof_record + length vs * sizeof_value + msg_len + 1
     + (case rq of None \<Rightarrow> 0 | Some r \<Rightarrow> length r + 1) + strings_need vs"

text \<open>Only the sentence may be cut; a line whose structure alone is too wide is dropped.\<close>

definition cut_sentence :: "nat \<Rightarrow> nat \<Rightarrow> (nat \<times> nat) option" where
  "cut_sentence need msg_len =
     (if need > SC_LOG_GRADE_MAX
      then let over = need - SC_LOG_GRADE_MAX
           in if over \<ge> msg_len then None else Some (SC_LOG_GRADE_MAX, msg_len - over)
      else Some (need, msg_len))"

text \<open>The loop over the data: where each string went, with the cursor and the block.\<close>

fun pack_values :: "sc_log_value list \<Rightarrow> nat \<times> string \<Rightarrow> nat option list \<times> nat \<times> string" where
  "pack_values [] st = ([], st)"
| "pack_values (v # vs) st =
     (if kind v = SC_LOG_VALUE_STRING
      then let t = (case v_text v of None \<Rightarrow> [] | Some t \<Rightarrow> t);
               (ats, st') = pack_values vs (pack t (length t) st)
           in (Some (fst st) # ats, st')
      else let (ats, st') = pack_values vs st in (None # ats, st'))"

record packed =
  p_need :: nat
  p_block :: string
  p_msg_len :: nat
  p_msg_at :: nat
  p_req_at :: "nat option"
  p_texts_at :: "nat option list"
  p_end :: nat

text \<open>The members of the context that are packed; a missing context has none.\<close>

definition ctx_data :: "sc_log_context option \<Rightarrow> sc_log_value list" where
  "ctx_data ctx = take SC_LOG_DATA_MAX (case ctx of None \<Rightarrow> [] | Some c \<Rightarrow> c_data c)"

definition ctx_req :: "sc_log_context option \<Rightarrow> string option" where
  "ctx_req ctx = (case ctx of None \<Rightarrow> None | Some c \<Rightarrow> c_req c)"

text \<open>
  \<^verbatim>\<open>submit\<close>, up to the hand-over: the context, the sentence, and the block the arena gives for a
  size (\<open>None\<close> when it gives none).
\<close>

definition submit :: "(nat \<Rightarrow> string option) \<Rightarrow> sc_log_context option \<Rightarrow> string \<Rightarrow> packed option" where
  "submit arena_block ctx message =
     (let vs = ctx_data ctx; rq = ctx_req ctx
      in case cut_sentence (submit_need rq vs (length message)) (length message) of
           None \<Rightarrow> None
         | Some (need, msg_len) \<Rightarrow>
             (case arena_block need of
                None \<Rightarrow> None
              | Some block \<Rightarrow>
                  let at0 = sizeof_record + length vs * sizeof_value;
                      st1 = pack message msg_len (at0, block);
                      st2 = (case rq of None \<Rightarrow> st1 | Some r \<Rightarrow> pack r (length r) st1);
                      (ats, st3) = pack_values vs st2
                  in Some \<lparr>p_need = need, p_block = snd st3, p_msg_len = msg_len, p_msg_at = at0,
                           p_req_at = map_option (\<lambda>_. fst st1) rq, p_texts_at = ats, p_end = fst st3\<rparr>))"

text \<open>\<^verbatim>\<open>submit_v\<close>: the sentence is cut to the buffer it is printed into.\<close>

definition submit_v :: "(nat \<Rightarrow> string option) \<Rightarrow> sc_log_context option \<Rightarrow> string option \<Rightarrow> packed option" where
  "submit_v arena_block ctx printed =
     (case printed of None \<Rightarrow> None | Some m \<Rightarrow> submit arena_block ctx (take (SC_LOG_MSG_MAX - 1) m))"

text \<open>What a reader of the block finds at an offset: the text up to its terminator.\<close>

definition text_at :: "string \<Rightarrow> nat \<Rightarrow> string" where
  "text_at mem at = cstr (drop at mem)"

lemma length_poke [simp]: "at + length s \<le> length mem \<Longrightarrow> length (poke mem at s) = length mem"
  by (simp add: poke_def)

lemma take_poke: "n \<le> at \<Longrightarrow> at \<le> length mem \<Longrightarrow> take n (poke mem at s) = take n mem"
  by (simp add: poke_def min_def)

text \<open>A terminated text that ends before a cursor is not touched by what is written after it.\<close>

definition settled :: "string \<Rightarrow> nat \<Rightarrow> nat \<Rightarrow> string \<Rightarrow> bool" where
  "settled mem cursor at t \<longleftrightarrow>
     at + length t < cursor \<and> cursor \<le> length mem \<and> take (length t + 1) (drop at mem) = t @ [NUL]"

lemma settled_text:
  assumes "settled mem cursor at t" and "NUL \<notin> set t"
  shows "text_at mem at = t"
proof -
  have "drop at mem = t @ NUL # drop (length t + 1) (drop at mem)"
    using assms(1) by (metis append.assoc append_Cons append_Nil append_take_drop_id settled_def)
  then show ?thesis
    unfolding text_at_def cstr_def using until_append(1) [OF assms(2)] by metis
qed

lemma settled_poke:
  assumes "settled mem cursor at t" and "cursor + length s \<le> length mem"
  shows "settled (poke mem cursor s) (cursor + length s) at t"
proof -
  have "take (length t + 1) (drop at (poke mem cursor s)) = drop at (take (at + (length t + 1)) (poke mem cursor s))"
    by (simp add: take_drop add.commute)
  also have "\<dots> = drop at (take (at + (length t + 1)) mem)"
    using assms by (subst take_poke) (auto simp: settled_def)
  also have "\<dots> = take (length t + 1) (drop at mem)" by (simp add: take_drop add.commute)
  finally show ?thesis using assms by (simp add: settled_def)
qed

lemma pack_settles:
  assumes "cursor + len + 1 \<le> length mem" and "len \<le> length src"
  shows "settled (snd (pack src len (cursor, mem))) (cursor + len + 1) cursor (take len src)"
    and "fst (pack src len (cursor, mem)) = cursor + len + 1"
    and "length (snd (pack src len (cursor, mem))) = length mem"
  using assms by (simp_all add: pack_def settled_def poke_def)

lemma pack_keeps:
  assumes "settled mem cursor at t" and "cursor + len + 1 \<le> length mem" and "len \<le> length src"
  shows "settled (snd (pack src len (cursor, mem))) (cursor + len + 1) at t"
  using settled_poke [OF assms(1), of "take len src @ [NUL]"] assms(2,3) by (simp add: pack_def add.assoc)

definition value_text :: "sc_log_value \<Rightarrow> string" where
  "value_text v = (case v_text v of None \<Rightarrow> [] | Some t \<Rightarrow> t)"

lemma pack_values_ok:
  assumes "cursor + strings_need vs \<le> length mem"
  shows "fst (snd (pack_values vs (cursor, mem))) = cursor + strings_need vs
    \<and> length (snd (snd (pack_values vs (cursor, mem)))) = length mem
    \<and> (\<forall>at t. settled mem cursor at t \<longrightarrow>
         settled (snd (snd (pack_values vs (cursor, mem)))) (cursor + strings_need vs) at t)
    \<and> length (fst (pack_values vs (cursor, mem))) = length vs
    \<and> (\<forall>i < length vs. kind (vs ! i) = SC_LOG_VALUE_STRING \<longrightarrow>
         (\<exists>at. fst (pack_values vs (cursor, mem)) ! i = Some at
            \<and> settled (snd (snd (pack_values vs (cursor, mem)))) (cursor + strings_need vs) at (value_text (vs ! i))))"
  using assms
proof (induction vs arbitrary: cursor mem)
  case (Cons v vs)
  show ?case
  proof (cases "kind v = SC_LOG_VALUE_STRING")
    case False
    with Cons.IH [of cursor mem] Cons.prems show ?thesis
      by (auto simp: split_beta nth_Cons split: nat.splits)
  next
    case True
    let ?t = "value_text v"
    let ?st = "pack ?t (length ?t) (cursor, mem)"
    have len: "cstr_len (v_text v) = length ?t" by (simp add: cstr_len_def value_text_def split: option.splits)
    have room: "cursor + length ?t + 1 \<le> length mem" using Cons.prems True len by simp
    note p = pack_settles [OF room order.refl]
    have st: "?st = (cursor + length ?t + 1, snd ?st)" using p(2) by (metis prod.collapse)
    have room': "(cursor + length ?t + 1) + strings_need vs \<le> length (snd ?st)"
      using Cons.prems True len p(3) by simp
    note IH = Cons.IH [OF room', folded st]
    have pv: "pack_values (v # vs) (cursor, mem)
        = (Some cursor # fst (pack_values vs ?st), snd (pack_values vs ?st))"
      using True by (simp add: split_beta value_text_def Let_def)
    have need: "cursor + strings_need (v # vs) = (cursor + length ?t + 1) + strings_need vs"
      using True len by simp
    show ?thesis
      unfolding pv need using IH p pack_keeps [OF _ room order.refl]
      by (auto simp: nth_Cons split: nat.splits)
  qed
qed simp


lemma cut_sentence_fits:
  assumes "cut_sentence (submit_need rq vs n) n = Some (need, msg_len)"
  shows "need \<le> SC_LOG_GRADE_MAX" and "msg_len \<le> n" and "need = submit_need rq vs msg_len"
proof -
  define base where "base = submit_need rq vs 0"
  have "submit_need rq vs k = base + k" for k by (simp add: submit_need_def base_def)
  then show "need \<le> SC_LOG_GRADE_MAX" and "msg_len \<le> n" and "need = submit_need rq vs msg_len"
    using assms by (auto simp: cut_sentence_def Let_def split: if_splits)
qed

definition terminated :: "sc_log_context option \<Rightarrow> string \<Rightarrow> bool" where
  "terminated ctx message \<longleftrightarrow>
     NUL \<notin> set message \<and> (case ctx_req ctx of None \<Rightarrow> True | Some r \<Rightarrow> NUL \<notin> set r)
     \<and> list_all (\<lambda>v. NUL \<notin> set (value_text v)) (ctx_data ctx)"

lemma pack_req:
  assumes "settled mem cursor at t" and "length mem = need"
    and "cursor + (case rq of None \<Rightarrow> 0 | Some r \<Rightarrow> length r + 1) \<le> need"
  shows "let st = (case rq of None \<Rightarrow> (cursor, mem) | Some r \<Rightarrow> pack r (length r) (cursor, mem));
             c = cursor + (case rq of None \<Rightarrow> 0 | Some r \<Rightarrow> length r + 1)
         in fst st = c \<and> length (snd st) = need \<and> settled (snd st) c at t
            \<and> (\<forall>r. rq = Some r \<longrightarrow> settled (snd st) c cursor r)"
proof (cases rq)
  case None
  then show ?thesis using assms by simp
next
  case (Some r)
  then have room: "cursor + length r + 1 \<le> length mem" using assms by simp
  show ?thesis
    using pack_settles [OF room order.refl] pack_keeps [OF assms(1) room order.refl] Some assms(2) by simp
qed

lemma submit_block:
  assumes "submit arena_block ctx message = Some p"
    and size: "\<And>n b. arena_block n = Some b \<Longrightarrow> length b = n"
  shows "p_need p \<le> SC_LOG_GRADE_MAX \<and> p_end p = p_need p \<and> length (p_block p) = p_need p
    \<and> p_msg_len p \<le> length message
    \<and> settled (p_block p) (p_need p) (p_msg_at p) (take (p_msg_len p) message)
    \<and> (\<forall>r. ctx_req ctx = Some r \<longrightarrow> (\<exists>at. p_req_at p = Some at \<and> settled (p_block p) (p_need p) at r))
    \<and> (\<forall>i < length (ctx_data ctx). kind (ctx_data ctx ! i) = SC_LOG_VALUE_STRING \<longrightarrow>
         (\<exists>at. p_texts_at p ! i = Some at \<and> settled (p_block p) (p_need p) at (value_text (ctx_data ctx ! i))))"
proof -
  let ?vs = "ctx_data ctx" and ?rq = "ctx_req ctx"
  let ?at0 = "sizeof_record + length ?vs * sizeof_value"
  obtain need msg_len block where c: "cut_sentence (submit_need ?rq ?vs (length message)) (length message)
      = Some (need, msg_len)" and b: "arena_block need = Some block"
    using assms(1) by (auto simp: submit_def Let_def split: option.splits prod.splits)
  note fits = cut_sentence_fits [OF c]
  define st1 where "st1 = pack message msg_len (?at0, block)"
  define st2 where "st2 = (case ?rq of None \<Rightarrow> st1 | Some r \<Rightarrow> pack r (length r) st1)"
  define out where "out = pack_values ?vs st2"
  have p: "p = \<lparr>p_need = need, p_block = snd (snd out), p_msg_len = msg_len, p_msg_at = ?at0,
      p_req_at = map_option (\<lambda>_. fst st1) ?rq, p_texts_at = fst out, p_end = fst (snd out)\<rparr>"
    using assms(1) c b unfolding out_def st2_def st1_def by (simp add: submit_def Let_def split_beta)
  have len: "length block = need" by (rule size [OF b])
  have n: "need = ?at0 + msg_len + 1 + (case ?rq of None \<Rightarrow> 0 | Some r \<Rightarrow> length r + 1) + strings_need ?vs"
    using fits(3) by (simp add: submit_need_def)
  have r1: "?at0 + msg_len + 1 \<le> length block" using n len by simp
  note s1 = pack_settles [OF r1 fits(2), folded st1_def]
  have st1: "st1 = (?at0 + msg_len + 1, snd st1)" using s1(2) by (metis prod.collapse)
  define c2 where "c2 = need - strings_need ?vs"
  have c2: "c2 = ?at0 + msg_len + 1 + (case ?rq of None \<Rightarrow> 0 | Some r \<Rightarrow> length r + 1)"
    using n by (simp add: c2_def)
  have two: "fst st2 = c2 \<and> length (snd st2) = need \<and> settled (snd st2) c2 ?at0 (take msg_len message)
      \<and> (\<forall>r. ?rq = Some r \<longrightarrow> settled (snd st2) c2 (fst st1) r)"
    using pack_req [OF s1(1), of need ?rq, unfolded st1 [symmetric] c2 [symmetric] Let_def] s1(2,3) len n
    unfolding st2_def c2_def by simp
  have "c2 + strings_need ?vs \<le> length (snd st2)" using two n by (simp add: c2_def)
  note vals = pack_values_ok [OF this]
  have "st2 = (c2, snd st2)" using two by (metis prod.collapse)
  then have "pack_values ?vs (c2, snd st2) = out" by (simp add: out_def)
  note vals = vals [unfolded this]
  have "c2 + strings_need ?vs = need" using n by (simp add: c2_def)
  with vals two fits p show ?thesis by auto
qed

text \<open>
  C23. Packing a line into an arena: the block asked for is at most the largest grade, the cursor ends
  exactly at its end, and afterwards every pointer of the record reads back what it was copied
  from: the sentence (or the part of it that fits: nothing else is ever cut), the request id
  and each string among the data.
\<close>

theorem submit_packs:
  assumes "submit arena_block ctx message = Some p" and "terminated ctx message"
    and "\<And>n b. arena_block n = Some b \<Longrightarrow> length b = n"
  shows "p_need p \<le> SC_LOG_GRADE_MAX \<and> p_end p = length (p_block p) \<and> length (p_block p) = p_need p
    \<and> text_at (p_block p) (p_msg_at p) = take (p_msg_len p) message
    \<and> (submit_need (ctx_req ctx) (ctx_data ctx) (length message) \<le> SC_LOG_GRADE_MAX \<longrightarrow>
         p_msg_len p = length message)
    \<and> (\<forall>r. ctx_req ctx = Some r \<longrightarrow> (\<exists>at. p_req_at p = Some at \<and> text_at (p_block p) at = r))
    \<and> (\<forall>i < length (ctx_data ctx). kind (ctx_data ctx ! i) = SC_LOG_VALUE_STRING \<longrightarrow>
         (\<exists>at. p_texts_at p ! i = Some at \<and> text_at (p_block p) at = value_text (ctx_data ctx ! i)))"
proof -
  note b = submit_block [OF assms(1) assms(3)]
  have "NUL \<notin> set (take (p_msg_len p) message)" using assms(2) by (auto simp: terminated_def dest: in_set_takeD)
  then have m: "text_at (p_block p) (p_msg_at p) = take (p_msg_len p) message"
    using b settled_text by blast
  have r: "text_at (p_block p) at = x" if "settled (p_block p) (p_need p) at x" "ctx_req ctx = Some x" for at x
    using settled_text [OF that(1)] assms(2) that(2) by (simp add: terminated_def)
  have v: "text_at (p_block p) at = value_text (ctx_data ctx ! i)"
    if "settled (p_block p) (p_need p) at (value_text (ctx_data ctx ! i))" "i < length (ctx_data ctx)" for at i
    using settled_text [OF that(1)] assms(2) that(2) by (simp add: terminated_def list_all_length)
  have whole: "p_msg_len p = length message"
    if "submit_need (ctx_req ctx) (ctx_data ctx) (length message) \<le> SC_LOG_GRADE_MAX"
    using assms(1) that
    by (auto simp: submit_def Let_def cut_sentence_def split: option.splits prod.splits)
  show ?thesis
  proof (intro conjI allI impI)
    fix x
    assume x: "ctx_req ctx = Some x"
    then obtain at where "p_req_at p = Some at" "settled (p_block p) (p_need p) at x" using b by blast
    with r x show "\<exists>at. p_req_at p = Some at \<and> text_at (p_block p) at = x" by blast
  next
    fix i
    assume i: "i < length (ctx_data ctx)" "kind (ctx_data ctx ! i) = SC_LOG_VALUE_STRING"
    then obtain at where "p_texts_at p ! i = Some at"
        "settled (p_block p) (p_need p) at (value_text (ctx_data ctx ! i))" using b by blast
    with v i(1) show "\<exists>at. p_texts_at p ! i = Some at \<and> text_at (p_block p) at = value_text (ctx_data ctx ! i)"
      by blast
  qed (use b m whole in simp_all)
qed

definition demo_ctx :: sc_log_context where
  "demo_ctx = \<lparr>c_req = Some ''r1'', c_usr = 7, c_err_name = None, c_err_code = 0,
     c_data = [\<lparr>key = ''path'', kind = SC_LOG_VALUE_STRING, v_text = Some ''/a'', number = 0, unumber = 0\<rparr>,
       \<lparr>key = ''status'', kind = SC_LOG_VALUE_INT, v_text = None, number = 200, unumber = 0\<rparr>]\<rparr>"

theorem submit_packs_witness:
  "\<exists>p. submit (\<lambda>n. Some (replicate n NUL)) (Some demo_ctx) ''hello'' = Some p
     \<and> text_at (p_block p) (p_msg_at p) = take (p_msg_len p) ''hello'' \<and> p_end p = length (p_block p)"
proof -
  let ?mem = "\<lambda>n. Some (replicate n NUL)"
  have "submit ?mem (Some demo_ctx) ''hello'' \<noteq> None" by code_simp
  then obtain p where p: "submit ?mem (Some demo_ctx) ''hello'' = Some p" by blast
  have t: "terminated (Some demo_ctx) ''hello''" by code_simp
  show ?thesis using submit_packs [OF p t] p by auto
qed

end
