(* ===== verification/LogPretty.thy ===== *)
theory LogPretty
  imports LogLine
begin

text \<open>
  The line for humans, \<^verbatim>\<open>service-core/src/log/pretty.c\<close>. \<open>sc_log_pretty_measure\<close> walks the record
  and adds lengths up, \<open>sc_log_encode_pretty\<close> walks it again and appends to a buffer without looking
  for room; the drain thread asks for the room in between. Shown: for a record with a clock reading
  from 1970 on, the second pass writes exactly as many bytes as the first one counted, so that the
  unchecked appends stay inside the room that was asked for. For an earlier clock reading the
  stamp of the line runs over its buffer (\<open>stamp_overruns\<close>).
\<close>

section \<open>What the code is given\<close>

text \<open>
  The number converter: how many characters a number has, and what is written for a number of a
  known size.
\<close>

record converter =
  u64_size :: "64 word \<Rightarrow> nat"
  u64_text :: "64 word \<Rightarrow> nat \<Rightarrow> string"
  i64_size :: "int \<Rightarrow> nat"
  i64_text :: "int \<Rightarrow> nat \<Rightarrow> string"

definition i64 :: "int \<Rightarrow> bool" where
  "i64 v \<longleftrightarrow> - (2 ^ 63) \<le> v \<and> v < 2 ^ 63"

text \<open>What is documented of it: the decimal numbers, in exactly the characters announced.\<close>

definition converter_ok :: "converter \<Rightarrow> bool" where
  "converter_ok cv \<longleftrightarrow>
     (\<forall>v. length (u64_text cv v (u64_size cv v)) = u64_size cv v)
     \<and> (\<forall>v. u64_size cv v \<le> 20) \<and> (\<forall>v. v < 100 \<longrightarrow> u64_size cv v \<le> 2) \<and> (\<forall>v. v < 1000 \<longrightarrow> u64_size cv v \<le> 3)
     \<and> (\<forall>v. i64 v \<longrightarrow> length (i64_text cv v (i64_size cv v)) = i64_size cv v \<and> i64_size cv v \<le> 20)"

text \<open>\<^verbatim>\<open>gmtime_r\<close>: hour, minute and second, or a failure.\<close>

type_synonym calendar = "int \<Rightarrow> (nat \<times> nat \<times> nat) option"

definition calendar_ok :: "calendar \<Rightarrow> bool" where
  "calendar_ok utc \<longleftrightarrow> (\<forall>secs. case utc secs of None \<Rightarrow> True | Some (h, m, s) \<Rightarrow> h < 24 \<and> m < 60 \<and> s \<le> 60)"

section \<open>Names and colours\<close>

definition level_name :: "8 word \<Rightarrow> string" where
  "level_name l =
     (if l = SC_LOG_TRACE then ''TRACE'' else if l = SC_LOG_DEBUG then ''DEBUG''
      else if l = SC_LOG_WARN then ''WARN'' else if l = SC_LOG_ERROR then ''ERROR''
      else if l = SC_LOG_FATAL then ''FATAL'' else ''INFO'')"

abbreviation ESC :: char where "ESC \<equiv> CHR 0x1B"

definition level_color :: "8 word \<Rightarrow> string" where
  "level_color l = ESC #
     (if l = SC_LOG_TRACE then ''[90m'' else if l = SC_LOG_DEBUG then ''[36m''
      else if l = SC_LOG_WARN then ''[33m'' else if l = SC_LOG_ERROR then ''[31m''
      else if l = SC_LOG_FATAL then ''[1;31m'' else ''[32m'')"

definition GREY :: string where "GREY = ESC # ''[90m''"
definition RESET :: string where "RESET = ESC # ''[0m''"

section \<open>Measuring\<close>

definition u32 :: "nat \<Rightarrow> nat" where
  "u32 n = n mod 2 ^ 32"

record sc_log_pretty_plan =
  p_total :: nat
  p_level_color :: nat
  p_level :: nat
  p_cat :: nat
  p_event :: nat
  p_msg :: nat
  p_req :: nat
  p_err_name :: nat
  p_usr :: nat
  p_err_code :: nat
  p_key :: "nat list"
  p_val :: "nat list"

definition measure_value :: "converter \<Rightarrow> sc_log_value \<Rightarrow> nat" where
  "measure_value cv v =
     (case kind v of
        SC_LOG_VALUE_STRING \<Rightarrow> (case v_text v of None \<Rightarrow> 0 | Some t \<Rightarrow> u32 (length t))
      | SC_LOG_VALUE_INT \<Rightarrow> i64_size cv (number v)
      | SC_LOG_VALUE_UINT \<Rightarrow> u64_size cv (unumber v)
      | SC_LOG_VALUE_BOOL \<Rightarrow> if number v \<noteq> 0 then length ''true'' else length ''false''
      | SC_LOG_VALUE_NULL \<Rightarrow> length ''null'')"

fun measure_data :: "converter \<Rightarrow> sc_log_value list \<Rightarrow> nat \<Rightarrow> nat" where
  "measure_data cv [] n = n"
| "measure_data cv (v # vs) n =
     measure_data cv vs (n + u32 (length ''  '' + u32 (length (key v)) + 1 + measure_value cv v))"

definition has_tail :: "sc_log_record \<Rightarrow> bool" where
  "has_tail r \<longleftrightarrow> req r \<noteq> None \<or> usr r \<noteq> 0 \<or> err_name r \<noteq> None \<or> data r \<noteq> []"

definition measure_tail :: "converter \<Rightarrow> sc_log_record \<Rightarrow> bool \<Rightarrow> nat \<Rightarrow> nat" where
  "measure_tail cv r color n =
     (let n1 = (if color then n + length GREY else n);
          n2 = (case req r of None \<Rightarrow> n1 | Some t \<Rightarrow> n1 + u32 (length ''  req='' + u32 (length t)));
          n3 = (if usr r \<noteq> 0 then n2 + u32 (length ''  usr='' + u64_size cv (usr r)) else n2);
          n4 = (case err_name r of None \<Rightarrow> n3
                | Some t \<Rightarrow> n3 + u32 (length ''  err='' + u32 (length t) + 1 + u64_size cv (ucast (err_code r)) + 1));
          n5 = measure_data cv (data r) n4
      in if color then n5 + length RESET else n5)"

definition sc_log_pretty_measure :: "converter \<Rightarrow> sc_log_record \<Rightarrow> bool \<Rightarrow> sc_log_pretty_plan" where
  "sc_log_pretty_measure cv r color =
     (let lc = (if color then u32 (length (level_color (level r))) else 0);
          lv = u32 (length (level_name (level r)));
          ct = u32 (length (cat_name (cat r)));
          ev = u32 (length (event r));
          mg = u32 (length (msg r));
          n0 = (if color then length GREY + length RESET else 0) + 1 + 12 + 1 + 1;
          n1 = n0 + u32 (lc + lv + (if color then length RESET else 0));
          n2 = n1 + u32 (length '' ('' + ct + 1 + ev + length ''): '' + mg);
          n3 = (if has_tail r then measure_tail cv r color n2 else n2)
      in \<lparr>p_total = n3 + 1, p_level_color = lc, p_level = lv, p_cat = ct, p_event = ev, p_msg = mg,
          p_req = (case req r of None \<Rightarrow> 0 | Some t \<Rightarrow> u32 (length t)),
          p_err_name = (case err_name r of None \<Rightarrow> 0 | Some t \<Rightarrow> u32 (length t)),
          p_usr = (if usr r \<noteq> 0 then u64_size cv (usr r) else 0),
          p_err_code = (if err_name r \<noteq> None then u64_size cv (ucast (err_code r)) else 0),
          p_key = map (\<lambda>v. u32 (length (key v))) (data r), p_val = map (measure_value cv) (data r)\<rparr>)"

section \<open>Writing\<close>

definition b_pad :: "converter \<Rightarrow> 64 word \<Rightarrow> nat \<Rightarrow> string" where
  "b_pad cv v width =
     (let n = u64_size cv v; zeros = (if n < width then width - n else 0)
      in replicate zeros (CHR ''0'') @ u64_text cv v n)"

definition put_u64 :: "converter \<Rightarrow> 64 word \<Rightarrow> nat \<Rightarrow> string" where
  "put_u64 cv v digits = take digits (u64_text cv v digits)"

definition put_i64 :: "converter \<Rightarrow> int \<Rightarrow> nat \<Rightarrow> string" where
  "put_i64 cv v digits = take digits (i64_text cv v digits)"

text \<open>C's division and remainder, which round towards zero.\<close>

definition c_div :: "int \<Rightarrow> int \<Rightarrow> int" where
  "c_div a b = sgn a * (\<bar>a\<bar> div b)"

definition c_mod :: "int \<Rightarrow> int \<Rightarrow> int" where
  "c_mod a b = sgn a * (\<bar>a\<bar> mod b)"

text \<open>
  The clock stamp, in a buffer of 16 characters with the converter's terminator in it: \<open>None\<close> when
  the writing runs over the buffer. Twelve characters of it go into the line.
\<close>

definition stamp_of :: "converter \<Rightarrow> calendar \<Rightarrow> int \<Rightarrow> string option" where
  "stamp_of cv utc t =
     (case utc (c_div t 1000) of
        None \<Rightarrow> Some ''??:??:??.???''
      | Some (h, m, s) \<Rightarrow>
          let out = b_pad cv (of_nat h) 2 @ '':'' @ b_pad cv (of_nat m) 2 @ '':'' @ b_pad cv (of_nat s) 2
                    @ ''.'' @ b_pad cv (of_int (c_mod t 1000)) 3
          in if length out + 1 > 16 then None else Some (take 12 out))"

definition put_value :: "converter \<Rightarrow> sc_log_value \<Rightarrow> nat \<Rightarrow> string" where
  "put_value cv v n =
     (case kind v of
        SC_LOG_VALUE_STRING \<Rightarrow> take n (case v_text v of None \<Rightarrow> [] | Some t \<Rightarrow> t)
      | SC_LOG_VALUE_INT \<Rightarrow> put_i64 cv (number v) (n mod 256)
      | SC_LOG_VALUE_UINT \<Rightarrow> put_u64 cv (unumber v) (n mod 256)
      | SC_LOG_VALUE_BOOL \<Rightarrow> if number v \<noteq> 0 then ''true'' else ''false''
      | SC_LOG_VALUE_NULL \<Rightarrow> ''null'')"

fun put_data :: "converter \<Rightarrow> sc_log_value list \<Rightarrow> nat list \<Rightarrow> nat list \<Rightarrow> string" where
  "put_data cv (v # vs) (k # ks) (n # ns) = ''  '' @ take k (key v) @ ''='' @ put_value cv v n @ put_data cv vs ks ns"
| "put_data cv _ _ _ = []"

definition put_tail :: "converter \<Rightarrow> sc_log_pretty_plan \<Rightarrow> sc_log_record \<Rightarrow> bool \<Rightarrow> string" where
  "put_tail cv p r color =
     (if color then GREY else [])
     @ (case req r of None \<Rightarrow> [] | Some t \<Rightarrow> ''  req='' @ take (p_req p) t)
     @ (if usr r \<noteq> 0 then ''  usr='' @ put_u64 cv (usr r) (p_usr p) else [])
     @ (case err_name r of None \<Rightarrow> []
        | Some t \<Rightarrow> ''  err='' @ take (p_err_name p) t @ ''('' @ put_u64 cv (ucast (err_code r)) (p_err_code p) @ '')'')
     @ put_data cv (data r) (p_key p) (p_val p)
     @ (if color then RESET else [])"

definition sc_log_encode_pretty ::
  "converter \<Rightarrow> calendar \<Rightarrow> sc_log_pretty_plan \<Rightarrow> sc_log_record \<Rightarrow> bool \<Rightarrow> string option" where
  "sc_log_encode_pretty cv utc p r color =
     (case stamp_of cv utc (time_ms r) of
        None \<Rightarrow> None
      | Some stamp \<Rightarrow> Some (
          (if color then GREY else []) @ ''['' @ stamp @ '']'' @ (if color then RESET else []) @ '' ''
          @ (if color then take (p_level_color p) (level_color (level r)) else [])
          @ take (p_level p) (level_name (level r)) @ (if color then RESET else [])
          @ '' ('' @ take (p_cat p) (cat_name (cat r)) @ ''/'' @ take (p_event p) (event r)
          @ ''): '' @ take (p_msg p) (msg r)
          @ (if has_tail r then put_tail cv p r color else [])
          @ [LF]))"

section \<open>The two passes agree\<close>

text \<open>
  No text of the record is longer than a 32-bit length can say, with room for its frame, and the
  signed numbers are 64-bit numbers.
\<close>

definition short :: "sc_log_record \<Rightarrow> bool" where
  "short r \<longleftrightarrow>
     length (event r) + length (msg r) < 2 ^ 31
     \<and> (case req r of None \<Rightarrow> True | Some t \<Rightarrow> length t < 2 ^ 31)
     \<and> (case err_name r of None \<Rightarrow> True | Some t \<Rightarrow> length t < 2 ^ 31)
     \<and> list_all (\<lambda>v. length (key v) + length (value_text v) < 2 ^ 31 \<and> i64 (number v)) (data r)"

lemma u32_id [simp]: "n < 2 ^ 32 \<Longrightarrow> u32 n = n"
  by (simp add: u32_def)

lemma level_lengths:
  "length (level_name l) \<le> 5" "length (level_color l) \<le> 7" "length (cat_name c) \<le> 12"
proof -
  show "length (level_name l) \<le> 5" "length (level_color l) \<le> 7"
    by (simp_all add: level_name_def level_color_def)
  have "\<forall>n \<in> set kScLogCatNames. length n \<le> 12" by (simp add: kScLogCatNames_def)
  moreover have "(if c < 12 then unat c else 9) < length kScLogCatNames"
    by (simp add: kScLogCatNames_def word_less_nat_alt)
  ultimately show "length (cat_name c) \<le> 12" unfolding cat_name_def using nth_mem by blast
qed

lemma put_value_length:
  assumes "converter_ok cv" and "length (value_text v) < 2 ^ 31" and n: "i64 (number v)"
  shows "length (put_value cv v (measure_value cv v)) = measure_value cv v"
    and "measure_value cv v \<le> length (value_text v) + 20"
proof -
  have u: "length (u64_text cv x (u64_size cv x)) = u64_size cv x" "u64_size cv x \<le> 20" for x
    using assms(1) by (simp_all add: converter_ok_def)
  have i: "length (i64_text cv (number v) (i64_size cv (number v))) = i64_size cv (number v)"
      "i64_size cv (number v) \<le> 20"
    using assms(1) n by (simp_all add: converter_ok_def)
  have m: "u64_size cv x mod 256 = u64_size cv x" "i64_size cv (number v) mod 256 = i64_size cv (number v)" for x
    using u(2) [of x] i(2) by simp_all
  show "length (put_value cv v (measure_value cv v)) = measure_value cv v"
    using assms(2) u i m
    by (cases "kind v") (auto simp: put_value_def measure_value_def value_text_def put_u64_def put_i64_def
        split: option.splits)
  show "measure_value cv v \<le> length (value_text v) + 20"
    using assms(2) u i
    by (cases "kind v") (auto simp: measure_value_def value_text_def le_SucI trans_le_add2 split: option.splits)
qed

lemma put_data_length:
  assumes "converter_ok cv"
    and "list_all (\<lambda>v. length (key v) + length (value_text v) < 2 ^ 31 \<and> i64 (number v)) vs"
  shows "n + length (put_data cv vs (map (\<lambda>v. u32 (length (key v))) vs) (map (measure_value cv) vs))
    = measure_data cv vs n"
  using assms(2)
proof (induction vs arbitrary: n)
  case (Cons v vs)
  then have l: "length (key v) + length (value_text v) < 2 ^ 31" "i64 (number v)" by simp_all
  note pv = put_value_length [OF assms(1), of v]
  have "u32 (length (key v)) = length (key v)" using l by simp
  moreover have "u32 (length ''  '' + length (key v) + 1 + measure_value cv v)
      = length ''  '' + length (key v) + 1 + measure_value cv v"
    by (rule u32_id) (use l pv(2) in simp)
  moreover have "measure_data cv vs m = m + length (put_data cv vs (map (\<lambda>v. u32 (length (key v))) vs)
      (map (measure_value cv) vs))" for m
    using Cons.IH Cons.prems by simp
  ultimately show ?case using l pv(1) by simp
qed simp

lemma put_tail_length:
  assumes "converter_ok cv" and "short r"
  shows "n + length (put_tail cv (sc_log_pretty_measure cv r color) r color) = measure_tail cv r color n"
proof -
  have u: "length (put_u64 cv x (u64_size cv x)) = u64_size cv x" "u64_size cv x \<le> 20" for x
    using assms(1) by (simp_all add: converter_ok_def put_u64_def)
  have d: "n + length (put_data cv (data r) (map (\<lambda>v. u32 (length (key v))) (data r)) (map (measure_value cv) (data r)))
      = measure_data cv (data r) n" for n
    using put_data_length [OF assms(1)] assms(2) by (simp add: short_def)
  have s: "u32 (length ''  usr='' + u64_size cv x) = length ''  usr='' + u64_size cv x" for x
    by (rule u32_id) (use u(2) [of x] in simp)
  have rq: "u32 (length t) = length t \<and> u32 (length ''  req='' + length t) = length ''  req='' + length t"
    if "req r = Some t" for t
    using assms(2) that by (simp add: short_def)
  have er: "u32 (length t) = length t
      \<and> u32 (length ''  err='' + length t + 1 + u64_size cv x + 1) = length ''  err='' + length t + 1 + u64_size cv x + 1"
    if "err_name r = Some t" for t x
    using assms(2) that u(2) [of x] by (simp add: short_def)
  show ?thesis
    unfolding measure_tail_def put_tail_def sc_log_pretty_measure_def Let_def
    using rq er s u(1)
    by (cases "req r"; cases "err_name r") (auto simp: d [symmetric])
qed


lemma stamp_twelve:
  assumes "converter_ok cv" and "calendar_ok utc" and "0 \<le> t"
  shows "\<exists>stamp. stamp_of cv utc t = Some stamp \<and> length stamp = 12"
proof (cases "utc (c_div t 1000)")
  case None
  then show ?thesis by (simp add: stamp_of_def)
next
  case (Some hms)
  obtain h m s where hms: "hms = (h, m, s)" by (cases hms)
  have range: "h < 24" "m < 60" "s \<le> 60"
    using assms(2) Some by (auto simp: calendar_ok_def hms dest: spec [of _ "c_div t 1000"])
  have two: "length (b_pad cv (of_nat x) 2) = 2" if "x < 100" for x
  proof -
    have "(of_nat x :: 64 word) < 100"
      using that unat_of_nat_less [of x, where 'a = 64] by (simp add: word_less_nat_alt)
    then have "u64_size cv (of_nat x) \<le> 2" using assms(1) by (simp add: converter_ok_def)
    moreover have "length (u64_text cv (of_nat x) (u64_size cv (of_nat x))) = u64_size cv (of_nat x)"
      using assms(1) by (simp add: converter_ok_def)
    ultimately show ?thesis by (simp add: b_pad_def Let_def)
  qed
  have ms: "length (b_pad cv (of_int (c_mod t 1000)) 3) = 3"
  proof -
    have "c_mod t 1000 = int (nat t mod 1000)"
      using assms(3) by (cases "t = 0") (simp_all add: c_mod_def nat_mod_distrib zmod_int)
    then have eq: "(of_int (c_mod t 1000) :: 64 word) = of_nat (nat t mod 1000)" by simp
    have "(of_nat (nat t mod 1000) :: 64 word) < 1000"
      using unat_of_nat_less [of "nat t mod 1000", where 'a = 64] mod_less_divisor [of 1000 "nat t"]
      by (simp add: word_less_nat_alt)
    then have "u64_size cv (of_int (c_mod t 1000)) \<le> 3" using assms(1) by (simp add: converter_ok_def eq)
    moreover have "length (u64_text cv (of_int (c_mod t 1000)) (u64_size cv (of_int (c_mod t 1000))))
        = u64_size cv (of_int (c_mod t 1000))"
      using assms(1) by (simp add: converter_ok_def)
    ultimately show ?thesis by (simp add: b_pad_def Let_def)
  qed
  show ?thesis
    using two [of h] two [of m] two [of s] ms range by (simp add: stamp_of_def Some hms Let_def)
qed

text \<open>What the plan says of the parts that every line has, and of the whole.\<close>

definition pretty_frame :: "sc_log_record \<Rightarrow> bool \<Rightarrow> nat \<Rightarrow> sc_log_pretty_plan \<Rightarrow> bool" where
  "pretty_frame r color l p \<longleftrightarrow>
     p_level_color p = (if color then length (level_color (level r)) else 0)
     \<and> p_level p = length (level_name (level r)) \<and> p_cat p = length (cat_name (cat r))
     \<and> p_event p = length (event r) \<and> p_msg p = length (msg r)
     \<and> p_total p = (if color then length GREY + length RESET else 0) + 1 + 12 + 1 + 1
      + ((if color then length (level_color (level r)) else 0) + length (level_name (level r))
         + (if color then length RESET else 0))
      + (length '' ('' + length (cat_name (cat r)) + 1 + length (event r) + length ''): '' + length (msg r))
      + (if has_tail r then l else 0) + 1"

lemma pretty_plan:
  assumes "short r" and tail: "\<And>n. measure_tail cv r color n = n + l"
  shows "pretty_frame r color l (sc_log_pretty_measure cv r color)"
proof -
  have names: "u32 (length (level_name (level r))) = length (level_name (level r))"
      "u32 (length (level_color (level r))) = length (level_color (level r))"
      "u32 (length (cat_name (cat r))) = length (cat_name (cat r))"
      "u32 (length (event r)) = length (event r)" "u32 (length (msg r)) = length (msg r)"
    using level_lengths(1,2) [of "level r"] level_lengths(3) [of "cat r"] assms(1) by (simp_all add: short_def)
  have sums: "u32 (a + length (level_name (level r)) + b) = a + length (level_name (level r)) + b"
    if "a \<le> 7" "b \<le> 4" for a b
    by (rule u32_id) (use that level_lengths(1) [of "level r"] in simp)
  have mid: "u32 (length '' ('' + length (cat_name (cat r)) + 1 + length (event r) + length ''): '' + length (msg r))
      = length '' ('' + length (cat_name (cat r)) + 1 + length (event r) + length ''): '' + length (msg r)"
    by (rule u32_id) (use assms(1) level_lengths(3) [of "cat r"] in \<open>simp add: short_def\<close>)
  show ?thesis
    using sums [of "length (level_color (level r))" "length RESET"] sums [of 0 0] level_lengths(2) [of "level r"] mid
    unfolding pretty_frame_def sc_log_pretty_measure_def Let_def names tail
    by (cases color) (simp_all add: RESET_def)
qed

text \<open>
  The pretty line is written without a check for room, and what makes that sound holds: for every
  record from 1970 on, in colour or not, with any mixture of optional fields and data, the number
  of bytes \<^verbatim>\<open>sc_log_encode_pretty\<close> appends is exactly the number \<^verbatim>\<open>sc_log_pretty_measure\<close> announced,
  and the stamp stays inside its buffer.
\<close>

theorem pretty_measure_exact:
  assumes "converter_ok cv" and "calendar_ok utc" and "short r" and "0 \<le> time_ms r"
  shows "\<exists>out. sc_log_encode_pretty cv utc (sc_log_pretty_measure cv r color) r color = Some out
    \<and> length out = p_total (sc_log_pretty_measure cv r color)"
proof -
  obtain stamp where st: "stamp_of cv utc (time_ms r) = Some stamp" "length stamp = 12"
    using stamp_twelve [OF assms(1,2,4)] by blast
  let ?p = "sc_log_pretty_measure cv r color"
  obtain l where l: "length (put_tail cv ?p r color) = l" by blast
  have tail: "measure_tail cv r color n = n + l" for n
    using put_tail_length [OF assms(1,3), of n color] l by simp
  have plan: "pretty_frame r color l ?p" by (rule pretty_plan [OF assms(3) tail])
  obtain p where p: "?p = p" by blast
  show ?thesis
    using st l plan unfolding p pretty_frame_def
    by (cases color) (simp_all add: sc_log_encode_pretty_def)
qed


text \<open>The converter as its documentation has it, and a calendar, for a concrete line.\<close>

definition demo_converter :: converter where
  "demo_converter = \<lparr>u64_size = (\<lambda>v. length (dec_text (unat v))), u64_text = (\<lambda>v _. dec_text (unat v)),
     i64_size = (\<lambda>v. length ((if v < 0 then ''-'' else []) @ dec_text (nat \<bar>v\<bar>))),
     i64_text = (\<lambda>v _. (if v < 0 then ''-'' else []) @ dec_text (nat \<bar>v\<bar>))\<rparr>"

definition demo_utc :: calendar where
  "demo_utc secs = (let d = nat (secs mod 86400) in Some (d div 3600, d mod 3600 div 60, d mod 60))"

lemma dec_text_length: "n < 10 ^ k \<Longrightarrow> 0 < k \<Longrightarrow> length (dec_text n) \<le> k"
proof (induction k arbitrary: n)
  case (Suc k)
  show ?case
  proof (cases "n < 10")
    case False
    then have "0 < k" using Suc.prems by (cases k) auto
    moreover have "n div 10 < 10 ^ k" using Suc.prems by (simp add: less_mult_imp_div_less mult.commute)
    ultimately show ?thesis using Suc.IH [of "n div 10"] False by (subst dec_text.simps) simp
  qed (subst dec_text.simps, simp)
qed simp

lemma demo_converter_ok: "converter_ok demo_converter"
proof -
  have u: "unat v < 10 ^ 20" for v :: "64 word"
    using unsigned_less [of v, where 'a = nat] by simp
  have i: "length (dec_text (nat \<bar>v\<bar>)) \<le> 19" if "i64 v" for v :: int
    by (rule dec_text_length) (use that in \<open>auto simp: i64_def\<close>)
  have "length (dec_text (unat v)) \<le> 20" for v :: "64 word" by (rule dec_text_length [OF u]) simp
  moreover have "length (dec_text (unat v)) \<le> 2" if "v < 100" for v :: "64 word"
    by (rule dec_text_length) (use that in \<open>simp_all add: word_less_nat_alt\<close>)
  moreover have "length (dec_text (unat v)) \<le> 3" if "v < 1000" for v :: "64 word"
    by (rule dec_text_length) (use that in \<open>simp_all add: word_less_nat_alt\<close>)
  moreover have "length ((if v < 0 then ''-'' else []) @ dec_text (nat \<bar>v\<bar>)) \<le> 20" if "i64 v" for v
    using i [OF that] by (auto simp: abs_if split: if_splits)
  ultimately show ?thesis by (simp add: converter_ok_def demo_converter_def)
qed

lemma demo_utc_ok: "calendar_ok demo_utc"
proof -
  have "nat (secs mod 86400) div 3600 < 24" for secs :: int
  proof -
    have "nat (secs mod 86400) < 24 * 3600"
      using pos_mod_bound [of 86400 secs] by (simp add: nat_less_iff)
    then show ?thesis by (simp add: less_mult_imp_div_less)
  qed
  moreover have "n mod 3600 div 60 < 60" for n :: nat
    by (rule less_mult_imp_div_less) simp
  ultimately show ?thesis by (simp add: calendar_ok_def demo_utc_def Let_def less_imp_le)
qed

definition demo_record :: sc_log_record where
  "demo_record = \<lparr>time_ms = 45296789, event = ''request.complete'', err_name = Some ''E'', msg = ''done'',
     req = Some ''r1'', usr = 7, err_code = 3, level = SC_LOG_WARN, cat = 6,
     data = [\<lparr>key = ''path'', kind = SC_LOG_VALUE_STRING, v_text = Some ''/a'', number = 0, unumber = 0\<rparr>,
       \<lparr>key = ''ok'', kind = SC_LOG_VALUE_BOOL, v_text = None, number = 1, unumber = 0\<rparr>,
       \<lparr>key = ''n'', kind = SC_LOG_VALUE_INT, v_text = None, number = - 5, unumber = 0\<rparr>]\<rparr>"

theorem pretty_measure_exact_witness:
  "\<exists>out. sc_log_encode_pretty demo_converter demo_utc
       (sc_log_pretty_measure demo_converter demo_record True) demo_record True = Some out
    \<and> length out = p_total (sc_log_pretty_measure demo_converter demo_record True)"
proof -
  have "short demo_record" by (simp add: short_def demo_record_def value_text_def i64_def)
  moreover have "0 \<le> time_ms demo_record" by (simp add: demo_record_def)
  ultimately show ?thesis
    using pretty_measure_exact [OF demo_converter_ok demo_utc_ok, of demo_record True] by blast
qed

text \<open>
  A clock that stands before 1970 with a fraction of a second: the remainder is negative, read as
  an unsigned number it has twenty digits, and the stamp's buffer has sixteen characters.
\<close>

lemma stamp_overruns:
  assumes "utc 0 = Some (h, m, s)"
    and "length (u64_text cv (of_int (- 1)) (u64_size cv (of_int (- 1)))) = 20"
  shows "stamp_of cv utc (- 1) = None"
proof -
  have "c_div (- 1) 1000 = 0" "c_mod (- 1) 1000 = - 1" by (simp_all add: c_div_def c_mod_def)
  then show ?thesis using assms by (simp add: stamp_of_def b_pad_def Let_def)
qed

end
