(* ===== verification/MailCodec.thy ===== *)
theory MailCodec
  imports CText "HOL-Library.Code_Target_Nat"
begin

text \<open>
  The encodings of a mail, \<^verbatim>\<open>service-core/src/email/message.c\<close>: base64, the RFC 2047 words of a
  subject, the display name of a sender, and quoted-printable bodies, as functions on character
  lists (bytes). The three byte groups of base64 are kept as a number: shifting is multiplication,
  and combining bytes that do not overlap is addition.

  The decoders are the reference definitions of the RFCs and have no counterpart in the sources:
  they are what the encoders are measured against. Shown: a subject is refused exactly for a
  control character or its length, and otherwise decodes back from words that are whole and
  short; a body decodes back from lines that are plain 7-bit ASCII and bounded.
\<close>

section \<open>Base64\<close>

definition k_b64 :: string where
  "k_b64 = ''ABCDEFGHIJKLMNOPQRSTUVWXYZabcdefghijklmnopqrstuvwxyz0123456789+/''"

definition sextet :: "nat \<Rightarrow> char" where
  "sextet v = k_b64 ! (v mod 64)"

fun b64_encode :: "string \<Rightarrow> string" where
  "b64_encode (a # b # c # rest) =
     (let v = code_of a * 2 ^ 16 + code_of b * 2 ^ 8 + code_of c
      in sextet (v div 2 ^ 18) # sextet (v div 2 ^ 12) # sextet (v div 2 ^ 6) # sextet v # b64_encode rest)"
| "b64_encode [a, b] =
     (let v = code_of a * 2 ^ 16 + code_of b * 2 ^ 8
      in [sextet (v div 2 ^ 18), sextet (v div 2 ^ 12), sextet (v div 2 ^ 6), CHR ''=''])"
| "b64_encode [a] =
     (let v = code_of a * 2 ^ 16 in [sextet (v div 2 ^ 18), sextet (v div 2 ^ 12), CHR ''='', CHR ''=''])"
| "b64_encode [] = []"

text \<open>The reference decoder of RFC 4648.\<close>

fun position :: "char \<Rightarrow> string \<Rightarrow> nat option" where
  "position c [] = None"
| "position c (x # xs) = (if x = c then Some 0 else map_option Suc (position c xs))"

definition b64_val :: "char \<Rightarrow> nat option" where
  "b64_val c = position c k_b64"

fun b64_decode :: "string \<Rightarrow> string option" where
  "b64_decode (a # b # c # d # rest) =
     (case (b64_val a, b64_val b) of
        (Some i, Some j) \<Rightarrow>
          if c = CHR ''='' \<and> d = CHR ''='' then (if rest = [] then Some [char_of ((i * 64 + j) div 16)] else None)
          else (case b64_val c of
                  None \<Rightarrow> None
                | Some k \<Rightarrow>
                    if d = CHR ''=''
                    then (if rest = [] then Some [char_of ((i * 4096 + j * 64 + k) div 1024),
                                                  char_of ((i * 4096 + j * 64 + k) div 4 mod 256)] else None)
                    else (case b64_val d of
                            None \<Rightarrow> None
                          | Some l \<Rightarrow>
                              let v = i * 262144 + j * 4096 + k * 64 + l
                              in map_option (\<lambda>t. char_of (v div 65536) # char_of (v div 256 mod 256)
                                                   # char_of (v mod 256) # t)
                                   (b64_decode rest)))
      | _ \<Rightarrow> None)"
| "b64_decode [] = Some []"
| "b64_decode _ = None"

lemma b64_table: "list_all (\<lambda>i. b64_val (k_b64 ! i) = Some i \<and> k_b64 ! i \<noteq> CHR ''='') [0..<64]"
  by code_simp

lemma b64_val_sextet [simp]: "b64_val (sextet v) = Some (v mod 64)" "sextet v \<noteq> CHR ''=''"
proof -
  have "v mod 64 \<in> set [0..<64]" by simp
  then show "b64_val (sextet v) = Some (v mod 64)" "sextet v \<noteq> CHR ''=''"
    using b64_table unfolding list_all_iff sextet_def by blast+
qed

lemma four_sextets:
  fixes v :: nat
  assumes "v < 2 ^ 24"
  shows "v div 262144 mod 64 * 262144 + v div 4096 mod 64 * 4096 + v div 64 mod 64 * 64 + v mod 64 = v"
proof -
  have a: "v div 4096 = v div 64 div 64" "v div 262144 = v div 4096 div 64" by (simp_all add: div_mult2_eq [symmetric])
  have "v div 262144 < 64" using assms by (simp add: less_mult_imp_div_less)
  then have "v div 262144 mod 64 = v div 262144" by simp
  moreover have "v div 262144 * 64 + v div 4096 mod 64 = v div 4096" using a by (metis div_mult_mod_eq)
  moreover have "v div 4096 * 64 + v div 64 mod 64 = v div 64" using a by (metis div_mult_mod_eq)
  moreover have "v div 64 * 64 + v mod 64 = v" by simp
  ultimately show ?thesis by linarith
qed

lemma three_bytes:
  assumes "a < 256" "b < 256" "c < (256::nat)"
  shows "(a * 65536 + b * 256 + c) div 65536 = a" and "(a * 65536 + b * 256 + c) div 256 mod 256 = b"
    and "(a * 65536 + b * 256 + c) mod 256 = c" and "a * 65536 + b * 256 + c < 2 ^ 24"
proof -
  have low: "b * 256 + c < 65536" using assms by linarith
  show "(a * 65536 + b * 256 + c) div 65536 = a"
  proof -
    have "a * 65536 + b * 256 + c = (b * 256 + c) + a * 65536" by simp
    also have "\<dots> div 65536 = a + (b * 256 + c) div 65536" by (rule div_mult_self1) simp
    finally show ?thesis using low by simp
  qed
  have "(a * 65536 + b * 256 + c) = (a * 256 + b) * 256 + c" by simp
  then have "(a * 65536 + b * 256 + c) div 256 = a * 256 + b" using assms(3) by simp
  then show "(a * 65536 + b * 256 + c) div 256 mod 256 = b" using assms(2) by simp
  have "(a * 65536 + b * 256 + c) = c + (a * 256 + b) * 256" by simp
  then show "(a * 65536 + b * 256 + c) mod 256 = c" using assms(3) by (metis mod_less mod_mult_self1)
  have "(2::nat) ^ 24 = 16777216" by simp
  then show "a * 65536 + b * 256 + c < 2 ^ 24" using assms by linarith
qed

lemma char_of_code [simp]: "char_of (code_of c) = c"
  by (simp add: code_of_def)

lemma char_of_eqI: "n mod 256 = code_of c \<Longrightarrow> char_of n = c"
  by (metis char_of_code char_of_mod_256)

lemma decode_quad:
  "b64_decode (sextet w # sextet x # sextet y # sextet z # rest) =
     (let v = w mod 64 * 262144 + x mod 64 * 4096 + y mod 64 * 64 + z mod 64
      in map_option (\<lambda>t. char_of (v div 65536) # char_of (v div 256 mod 256) # char_of (v mod 256) # t)
           (b64_decode rest))"
  by (simp only: b64_decode.simps b64_val_sextet prod.case option.case if_False simp_thms)

lemma decode_three:
  "b64_decode [sextet w, sextet x, sextet y, CHR ''=''] =
     (let u = w mod 64 * 4096 + x mod 64 * 64 + y mod 64
      in Some [char_of (u div 1024), char_of (u div 4 mod 256)])"
  by (simp only: b64_decode.simps b64_val_sextet prod.case option.case if_False if_True simp_thms Let_def)

lemma decode_two:
  "b64_decode [sextet w, sextet x, CHR ''='', CHR ''=''] = Some [char_of ((w mod 64 * 64 + x mod 64) div 16)]"
  by (simp only: b64_decode.simps b64_val_sextet prod.case option.case if_True simp_thms)

lemma b64_roundtrip: "b64_decode (b64_encode s) = Some s"
proof (induction s rule: b64_encode.induct)
  case (1 a b c rest)
  obtain v where v: "v = code_of a * 65536 + code_of b * 256 + code_of c" by blast
  note t = three_bytes [of "code_of a" "code_of b" "code_of c", OF code_of_less code_of_less code_of_less, folded v]
  have "b64_encode (a # b # c # rest)
      = sextet (v div 262144) # sextet (v div 4096) # sextet (v div 64) # sextet v # b64_encode rest"
    by (simp add: v Let_def)
  then show ?case using 1 four_sextets [OF t(4)] t(1-3) by (simp only: decode_quad Let_def option.map char_of_code)
next
  case (2 a b)
  obtain v where v: "v = code_of a * 65536 + code_of b * 256 + 0" by blast
  note t = three_bytes [of "code_of a" "code_of b" 0, OF code_of_less code_of_less, folded v]
  have e: "b64_encode [a, b] = [sextet (v div 262144), sextet (v div 4096), sextet (v div 64), CHR ''='']"
    by (simp add: v Let_def)
  have four: "v div 262144 mod 64 * 4096 + v div 4096 mod 64 * 64 + v div 64 mod 64 = v div 64"
    using four_sextets [OF t(4)] by linarith
  have "v div 64 div 1024 = code_of a" "v div 64 div 4 mod 256 = code_of b"
    using t(1,2) by (simp_all add: div_mult2_eq [symmetric])
  then show ?case unfolding e by (simp only: decode_three four Let_def char_of_code)
next
  case (3 a)
  obtain v where v: "v = code_of a * 65536 + 0 * 256 + 0" by blast
  note t = three_bytes [of "code_of a" 0 0, OF code_of_less, folded v]
  have e: "b64_encode [a] = [sextet (v div 262144), sextet (v div 4096), CHR ''='', CHR ''='']"
    by (simp add: v Let_def)
  have four: "v div 262144 mod 64 * 64 + v div 4096 mod 64 = v div 4096"
    using four_sextets [of v] t(4) by linarith
  have "v div 4096 div 16 = code_of a" using t(1) by (simp add: div_mult2_eq [symmetric])
  then show ?case unfolding e by (simp only: decode_two four char_of_code)
qed simp

interpretation base64: codec b64_encode b64_decode "\<lambda>_. True"
  by unfold_locales (rule b64_roundtrip)

lemma b64_length: "length (b64_encode s) = 4 * ((length s + 2) div 3)"
proof (induction s rule: b64_encode.induct)
  case (1 a b c rest)
  have "(length rest + 3 + 2) div 3 = Suc ((length rest + 2) div 3)" by presburger
  with 1 show ?case by (simp add: Let_def)
qed (simp_all add: Let_def)

definition is_b64 :: "char \<Rightarrow> bool" where
  "is_b64 c \<longleftrightarrow> c = CHR ''='' \<or> c \<in> set k_b64"

lemma b64_alphabet: "list_all is_b64 (b64_encode s)"
proof -
  have "length k_b64 = 64" by (simp add: k_b64_def)
  then have "is_b64 (sextet v)" for v
    unfolding is_b64_def sextet_def using nth_mem [of "v mod 64" k_b64] by simp
  moreover have "is_b64 (CHR ''='')" by (simp add: is_b64_def)
  ultimately show ?thesis by (induction s rule: b64_encode.induct) (simp_all add: Let_def)
qed

section \<open>The subject\<close>

definition SC_MAIL_SUBJECT_MAX :: nat where "SC_MAIL_SUBJECT_MAX = 256"
definition SC_MAIL_EW_CHUNK :: nat where "SC_MAIL_EW_CHUNK = 42"
definition SC_MAIL_EW_WORDS :: nat where
  "SC_MAIL_EW_WORDS = (SC_MAIL_SUBJECT_MAX - 1) div (SC_MAIL_EW_CHUNK - 3) + 1"
definition SC_MAIL_EW_COST :: nat where
  "SC_MAIL_EW_COST = 10 + 4 * ((SC_MAIL_EW_CHUNK + 2) div 3) + 2 + 3"
definition SC_MAIL_SUBJECT_ENCODED_MAX :: nat where
  "SC_MAIL_SUBJECT_ENCODED_MAX = SC_MAIL_EW_WORDS * SC_MAIL_EW_COST + 1"

text \<open>A continuation byte of UTF-8: \<^verbatim>\<open>(c & 0xC0) == 0x80\<close>.\<close>

definition is_cont :: "char \<Rightarrow> bool" where
  "is_cont c \<longleftrightarrow> code_of c div 64 = 2"

primrec walk_back :: "nat \<Rightarrow> string \<Rightarrow> nat \<Rightarrow> nat" where
  "walk_back 0 p n = n"
| "walk_back (Suc k) p n = (if is_cont (p ! n) then walk_back k p (n - 1) else n)"

definition chunk_len :: "string \<Rightarrow> nat" where
  "chunk_len p = (if length p \<le> SC_MAIL_EW_CHUNK then length p else walk_back 3 p SC_MAIL_EW_CHUNK)"

lemma walk_back_range: "n \<le> walk_back k p n + k \<and> walk_back k p n \<le> n"
proof (induction k arbitrary: n)
  case (Suc k)
  have "n - 1 \<le> walk_back k p (n - 1) + k \<and> walk_back k p (n - 1) \<le> n - 1" by (rule Suc)
  then show ?case by auto
qed simp

lemma chunk_len_range:
  shows "chunk_len p \<le> length p" and "chunk_len p \<le> 42" and "length p \<le> 42 \<Longrightarrow> chunk_len p = length p"
    and "42 < length p \<Longrightarrow> 39 \<le> chunk_len p"
  using walk_back_range [of 42 3 p] by (auto simp: chunk_len_def SC_MAIL_EW_CHUNK_def)

lemma chunk_len_pos: "p \<noteq> [] \<Longrightarrow> 0 < chunk_len p"
  using chunk_len_range(3,4) [of p] by (cases "length p \<le> 42") auto

lemma chunk_shrinks: "p \<noteq> [] \<Longrightarrow> length p - chunk_len p < length p"
  using chunk_len_pos by (simp add: diff_less)

definition is_control :: "char \<Rightarrow> bool" where
  "is_control c \<longleftrightarrow> (code_of c < 32 \<and> c \<noteq> TAB) \<or> code_of c = 127"

definition is_high :: "char \<Rightarrow> bool" where
  "is_high c \<longleftrightarrow> 128 \<le> code_of c"

definition fold_break :: string where "fold_break = [CR, LF, SPACE]"

definition ew_word :: "string \<Rightarrow> string" where
  "ew_word chunk = ''=?UTF-8?B?'' @ b64_encode chunk @ ''?=''"

text \<open>The loop over the subject: what has been written, what is left. \<open>None\<close>: it does not fit.\<close>

function encode_words :: "nat \<Rightarrow> string \<Rightarrow> string \<Rightarrow> string option" where
  "encode_words cap out s =
     (if s = [] then Some out
      else let n = chunk_len s;
               need = (if out \<noteq> [] then 3 else 0) + 10 + 4 * ((n + 2) div 3) + 2 + 1
           in if length out + need > cap then None
              else encode_words cap (out @ (if out \<noteq> [] then fold_break else []) @ ew_word (take n s)) (drop n s))"
  by pat_completeness auto
termination
  by (relation "measure (\<lambda>(_, _, s). length s)") (auto simp: chunk_shrinks)

declare encode_words.simps [simp del]

definition sc_mail_encode_subject :: "nat \<Rightarrow> string option \<Rightarrow> sc_status + string" where
  "sc_mail_encode_subject cap subject =
     (case subject of
        None \<Rightarrow> Inl SC_ERR_INVALID_ARGUMENT
      | Some s \<Rightarrow>
          if cap = 0 then Inl SC_ERR_INVALID_ARGUMENT
          else if list_ex is_control s then Inl SC_ERR_MALFORMED
          else if length s \<ge> SC_MAIL_SUBJECT_MAX then Inl SC_ERR_TOO_LONG
          else if \<not> list_ex is_high s
          then (if length s + 1 > cap then Inl SC_ERR_TOO_LONG else Inr s)
          else (case encode_words cap [] s of None \<Rightarrow> Inl SC_ERR_TOO_LONG | Some out \<Rightarrow> Inr out))"

text \<open>The chunks of a subject, and what its encoded form is.\<close>

function chunks :: "string \<Rightarrow> string list" where
  "chunks s = (if s = [] then [] else take (chunk_len s) s # chunks (drop (chunk_len s) s))"
  by pat_completeness auto
termination
  by (relation "measure length") (auto simp: chunk_shrinks)

declare chunks.simps [simp del]

fun join_words :: "string list \<Rightarrow> string" where
  "join_words [] = []"
| "join_words [w] = ew_word w"
| "join_words (w # ws) = ew_word w @ fold_break @ join_words ws"

lemma concat_chunks: "concat (chunks s) = s"
  by (induction s rule: chunks.induct) (subst chunks.simps, simp)

lemma chunks_nonempty: "[] \<notin> set (chunks s)"
proof (induction s rule: chunks.induct)
  case (1 s)
  then show ?case using chunk_len_pos [of s] by (subst chunks.simps) auto
qed

lemma length_chunks: "39 * length (chunks s) \<le> length s + 38"
proof (induction s rule: chunks.induct)
  case (1 s)
  show ?case
  proof (cases "length s \<le> 42")
    case True
    then have "chunks s = (if s = [] then [] else [s])"
      using chunk_len_range(3) [of s] by (subst chunks.simps) (simp add: chunks.simps [of "[]"])
    then show ?thesis by (cases s) auto
  next
    case False
    then have "s \<noteq> []" "39 \<le> chunk_len s" "chunk_len s \<le> length s"
      using chunk_len_range(1,4) [of s] by auto
    then show ?thesis using 1 by (subst chunks.simps) simp
  qed
qed

lemma ew_word_length: "length (ew_word c) = 12 + 4 * ((length c + 2) div 3)"
  by (simp add: ew_word_def b64_length)

lemma ew_word_nonempty [simp]: "ew_word c \<noteq> []"
  by (simp add: ew_word_def)

lemma ew_word_short: "c \<in> set (chunks s) \<Longrightarrow> length (ew_word c) \<le> 68 \<and> length c \<le> 42"
proof (induction s rule: chunks.induct)
  case (1 s)
  have "length (ew_word (take (chunk_len s) s)) \<le> 68"
  proof -
    have "(length (take (chunk_len s) s) + 2) div 3 \<le> 44 div 3"
      by (rule div_le_mono) (use chunk_len_range(2) [of s] in auto)
    then show ?thesis by (simp add: ew_word_length)
  qed
  then show ?case
    using 1 chunk_len_range(2) [of s] by (subst (asm) (2) chunks.simps) (auto split: if_splits)
qed

lemma join_words_length: "\<forall>c \<in> set cs. length (ew_word c) \<le> 68 \<Longrightarrow> length (join_words cs) \<le> 71 * length cs"
  by (induction cs rule: join_words.induct) (auto simp: fold_break_def)

lemma join_words_Cons:
  "join_words (c # cs) = ew_word c @ (if cs = [] then [] else fold_break @ join_words cs)"
  by (cases cs) auto

lemma encode_words_join:
  assumes "length out + (if out \<noteq> [] \<and> s \<noteq> [] then 3 else 0) + length (join_words (chunks s)) < cap"
  shows "encode_words cap out s
    = Some (out @ (if out \<noteq> [] \<and> s \<noteq> [] then fold_break else []) @ join_words (chunks s))"
  using assms
proof (induction s arbitrary: out rule: chunks.induct)
  case (1 s out)
  show ?case
  proof (cases "s = []")
    case True
    then show ?thesis by (simp add: encode_words.simps chunks.simps)
  next
    case False
    let ?n = "chunk_len s"
    let ?c = "take ?n s" and ?r = "drop ?n s"
    let ?out = "out @ (if out \<noteq> [] then fold_break else []) @ ew_word ?c"
    have n: "0 < ?n" "?n \<le> length s" using False chunk_len_pos chunk_len_range by auto
    have cs: "chunks s = ?c # chunks ?r" using False by (subst chunks.simps) simp
    have e: "(chunks ?r = []) = (?r = [])" by (subst chunks.simps) simp
    have len: "length (join_words (chunks s))
        = 12 + 4 * ((?n + 2) div 3) + (if ?r = [] then 0 else 3 + length (join_words (chunks ?r)))"
      using n by (simp add: cs join_words_Cons ew_word_length fold_break_def e min_def)
    have "length out + ((if out \<noteq> [] then 3 else 0) + 10 + 4 * ((?n + 2) div 3) + 2 + 1) \<le> cap"
      using 1(2) False len by (simp split: if_splits)
    then have step: "encode_words cap out s = encode_words cap ?out ?r"
      using False by (subst encode_words.simps) (simp add: Let_def)
    have empty: "length (join_words (chunks [])) = 0" by (simp add: chunks.simps)
    have out: "?out \<noteq> []" by (simp add: ew_word_def)
    have l: "length ?out = length out + (if out \<noteq> [] then 3 else 0) + 12 + 4 * ((?n + 2) div 3)"
      using n by (simp add: ew_word_length fold_break_def min_def)
    have fits: "length ?out + (if ?out \<noteq> [] \<and> ?r \<noteq> [] then 3 else 0) + length (join_words (chunks ?r)) < cap"
    proof (cases "?r = []")
      case True
      then show ?thesis using 1(2) False len empty l by simp
    next
      case r: False
      then show ?thesis using 1(2) False len out l by simp
    qed
    show ?thesis using 1(1) [OF False fits] out False 
      by (simp add: step cs join_words_Cons e chunks.simps [of "[]"])
  qed
qed


text \<open>The reference decoder of RFC 2047, for the words this encoder makes.\<close>

function ew_decode :: "string \<Rightarrow> string option" where
  "ew_decode s =
     (if \<not> starts_with ''=?UTF-8?B?'' s then None
      else let w = takeWhile (\<lambda>c. c \<noteq> CHR ''?'') (drop 10 s); rest = drop (10 + length w) s
           in if \<not> starts_with ''?='' rest then None
              else case b64_decode w of
                     None \<Rightarrow> None
                   | Some c \<Rightarrow>
                       if drop 2 rest = [] then Some c
                       else if starts_with fold_break (drop 2 rest)
                       then map_option (\<lambda>t. c @ t) (ew_decode (drop 5 rest)) else None)"
  by pat_completeness auto
termination
  by (relation "measure length") (auto simp: starts_with_iff)

declare ew_decode.simps [simp del]

text \<open>
  A header value that cannot end its header: plain 7-bit characters and folds, a fold being a line
  break followed by a space.
\<close>

definition is_plain :: "char \<Rightarrow> bool" where
  "is_plain c \<longleftrightarrow> \<not> is_control c \<and> \<not> is_high c"

function header_value :: "string \<Rightarrow> bool" where
  "header_value [] = True"
| "header_value (c # cs) = (if starts_with fold_break (c # cs) then header_value (drop 2 cs)
                            else is_plain c \<and> header_value cs)"
  by pat_completeness auto
termination
  by (relation "measure length") auto

lemma header_value_plain: "list_all is_plain a \<Longrightarrow> header_value (a @ b) = header_value b"
proof (induction a)
  case (Cons c a)
  then have "c \<noteq> CR" by (auto simp: is_plain_def is_control_def code_of_def)
  with Cons show ?case by (simp add: fold_break_def)
qed simp

lemma header_value_fold: "header_value (fold_break @ b) = header_value b"
  by (simp add: fold_break_def)

lemma b64_plain: "list_all is_plain (b64_encode s)"
proof -
  have "list_all is_plain (CHR ''='' # k_b64)" by code_simp
  then have "is_b64 c \<Longrightarrow> is_plain c" for c by (auto simp: is_b64_def list_all_iff)
  then show ?thesis using b64_alphabet [of s] by (auto simp: list_all_iff)
qed

lemma b64_no_question: "CHR ''?'' \<notin> set (b64_encode s)"
proof -
  have "\<not> is_b64 (CHR ''?'')" by code_simp
  then show ?thesis using b64_alphabet [of s] by (auto simp: list_all_iff)
qed

lemma ew_word_plain: "list_all is_plain (ew_word c)"
proof -
  have "list_all is_plain ''=?UTF-8?B?''" "list_all is_plain ''?=''" by code_simp+
  then show ?thesis using b64_plain by (simp add: ew_word_def)
qed

lemma join_words_value: "header_value (join_words cs)"
proof (induction cs rule: join_words.induct)
  case (2 w)
  then show ?case using header_value_plain [OF ew_word_plain, of w "[]"] by simp
next
  case (3 w v va)
  then show ?case by (simp add: header_value_plain [OF ew_word_plain] header_value_fold del: header_value.simps)
qed simp

lemma ew_decode_word:
  "ew_decode (ew_word c @ (if rest = [] then [] else fold_break @ rest))
    = (if rest = [] then Some c else map_option (\<lambda>t. c @ t) (ew_decode rest))"
proof -
  let ?tail = "if rest = [] then [] else fold_break @ rest"
  have s: "ew_word c @ ?tail = ''=?UTF-8?B?'' @ b64_encode c @ ''?='' @ ?tail" by (simp add: ew_word_def)
  have t: "takeWhile (\<lambda>x. x \<noteq> CHR ''?'') (b64_encode c @ ''?='' @ ?tail) = b64_encode c"
    using until_append(1) [OF b64_no_question, of c] by simp
  have d: "drop 10 (ew_word c @ ?tail) = b64_encode c @ ''?='' @ ?tail" unfolding s by simp
  have "drop (10 + length (b64_encode c)) (ew_word c @ ?tail)
      = drop (length (b64_encode c)) (drop 10 (ew_word c @ ?tail))"
    by (simp only: drop_drop add.commute)
  also have "\<dots> = ''?='' @ ?tail" unfolding d by simp
  finally have d2: "drop (10 + length (b64_encode c)) (ew_word c @ ?tail) = ''?='' @ ?tail" .
  have st: "starts_with ''=?UTF-8?B?'' (ew_word c @ ?tail)" unfolding s by (rule starts_with_append)
  obtain x where x: "ew_word c @ ?tail = x" by blast
  show ?thesis
    using st d d2 t unfolding x
    by (subst ew_decode.simps) (simp add: b64_roundtrip Let_def fold_break_def)
qed

lemma ew_decode_join: "cs \<noteq> [] \<Longrightarrow> ew_decode (join_words cs) = Some (concat cs)"
proof (induction cs)
  case (Cons c cs)
  have "join_words cs \<noteq> []" if "cs \<noteq> []" using that by (cases cs) (auto simp: join_words_Cons ew_word_def)
  then have "join_words (c # cs) = ew_word c @ (if join_words cs = [] then [] else fold_break @ join_words cs)"
    by (cases cs) (simp_all add: join_words_Cons)
  then show ?case using Cons ew_decode_word [of c "join_words cs"] by (cases cs) (auto simp: join_words_Cons)
qed simp

text \<open>The room the code sets aside for an encoded subject is enough for every subject it accepts.\<close>

lemma encoded_fits:
  assumes "length s < SC_MAIL_SUBJECT_MAX"
  shows "length (join_words (chunks s)) < SC_MAIL_SUBJECT_ENCODED_MAX"
proof -
  have "39 * length (chunks s) \<le> 293"
    using length_chunks [of s] assms by (simp add: SC_MAIL_SUBJECT_MAX_def)
  then have "length (chunks s) \<le> 7" by simp
  moreover have "length (join_words (chunks s)) \<le> 71 * length (chunks s)"
    by (rule join_words_length) (use ew_word_short in blast)
  moreover have "SC_MAIL_SUBJECT_ENCODED_MAX = 498"
    by (simp add: SC_MAIL_SUBJECT_ENCODED_MAX_def SC_MAIL_EW_WORDS_def SC_MAIL_EW_COST_def
        SC_MAIL_SUBJECT_MAX_def SC_MAIL_EW_CHUNK_def)
  ultimately show ?thesis by linarith
qed

text \<open>
  C25. The subject of a mail, with the room the caller sets aside for it: it is refused exactly when it
  carries a control character (so that no line break can smuggle in a header) or is too long, and
  otherwise always fits. What goes into the header is plain 7-bit text and folds only; a pure ASCII
  subject is itself, and any other decodes back to itself, from words of at most 68 characters.
\<close>

theorem subject_encoding:
  assumes "SC_MAIL_SUBJECT_ENCODED_MAX \<le> cap"
  shows "case sc_mail_encode_subject cap (Some s) of
      Inl e \<Rightarrow> (e = SC_ERR_MALFORMED \<and> list_ex is_control s)
        \<or> (e = SC_ERR_TOO_LONG \<and> SC_MAIL_SUBJECT_MAX \<le> length s)
    | Inr out \<Rightarrow> list_all (\<lambda>c. \<not> is_control c) s \<and> length s < SC_MAIL_SUBJECT_MAX \<and> length out < cap
        \<and> header_value out
        \<and> (if list_ex is_high s
            then ew_decode out = Some s \<and> out = join_words (chunks s)
              \<and> list_all (\<lambda>c. length (ew_word c) \<le> 68) (chunks s)
            else out = s)"
proof -
  have cap: "498 \<le> cap"
    using assms by (simp add: SC_MAIL_SUBJECT_ENCODED_MAX_def SC_MAIL_EW_WORDS_def SC_MAIL_EW_COST_def
        SC_MAIL_SUBJECT_MAX_def SC_MAIL_EW_CHUNK_def)
  consider "list_ex is_control s" | "SC_MAIL_SUBJECT_MAX \<le> length s" "\<not> list_ex is_control s"
    | "\<not> list_ex is_control s" "length s < SC_MAIL_SUBJECT_MAX" "\<not> list_ex is_high s"
    | "\<not> list_ex is_control s" "length s < SC_MAIL_SUBJECT_MAX" "list_ex is_high s" by linarith
  then show ?thesis
  proof cases
    case 3
    then have "list_all is_plain s" by (auto simp: is_plain_def list_ex_iff list_all_iff)
    then have "header_value s" using header_value_plain [of s "[]"] by simp
    then show ?thesis
      using 3 cap by (auto simp: sc_mail_encode_subject_def SC_MAIL_SUBJECT_MAX_def list_ex_iff list_all_iff)
  next
    case 4
    then have ne: "chunks s \<noteq> []" by (subst chunks.simps) auto
    have fit: "length (join_words (chunks s)) < cap" using encoded_fits [OF 4(2)] assms by simp
    then have "encode_words cap [] s = Some (join_words (chunks s))"
      using encode_words_join [of "[]" s cap] by simp
    then have "sc_mail_encode_subject cap (Some s) = Inr (join_words (chunks s))"
      using 4 cap by (simp add: sc_mail_encode_subject_def)
    then show ?thesis
      using 4 fit ew_decode_join [OF ne] join_words_value ew_word_short
      by (auto simp: concat_chunks list_ex_iff list_all_iff)
  qed (use cap in \<open>auto simp: sc_mail_encode_subject_def\<close>)
qed

theorem subject_encoding_witness:
  "case sc_mail_encode_subject SC_MAIL_SUBJECT_ENCODED_MAX (Some (''Gr'' @ [CHR 0xC3, CHR 0xBC] @ ''n'')) of
      Inl e \<Rightarrow> False
    | Inr out \<Rightarrow> header_value out \<and> ew_decode out = Some (''Gr'' @ [CHR 0xC3, CHR 0xBC] @ ''n'')"
proof -
  let ?s = "''Gr'' @ [CHR 0xC3, CHR 0xBC] @ ''n''"
  have f: "\<not> list_ex is_control ?s" "length ?s < SC_MAIL_SUBJECT_MAX" "list_ex is_high ?s" by code_simp+
  show ?thesis
    using subject_encoding [of SC_MAIL_SUBJECT_ENCODED_MAX ?s] f by (auto split: sum.splits)
qed

section \<open>Addresses and display names\<close>

definition check_address :: "string \<Rightarrow> sc_status" where
  "check_address s = (if list_ex (\<lambda>c. code_of c < 32 \<or> code_of c = 127) s then SC_ERR_MALFORMED else SC_OK)"

text \<open>What the loop of \<^verbatim>\<open>format_display_name\<close> finds first, or whether the name needs quotes.\<close>

datatype name_scan = Name_high | Name_bad | Name_ascii bool

definition is_special :: "char \<Rightarrow> bool" where
  "is_special c \<longleftrightarrow> c \<in> set (''()<>[]:;@,.'' @ [BACKSLASH, QUOTE])"

fun scan_name :: "string \<Rightarrow> bool \<Rightarrow> name_scan" where
  "scan_name [] q = Name_ascii q"
| "scan_name (c # cs) q =
     (if 128 \<le> code_of c then Name_high
      else if code_of c < 32 \<or> code_of c = 127 then Name_bad
      else scan_name cs (q \<or> is_special c))"

fun escape_quotes :: "string \<Rightarrow> string" where
  "escape_quotes [] = []"
| "escape_quotes (c # cs) = (if c = QUOTE \<or> c = BACKSLASH then [BACKSLASH, c] else [c]) @ escape_quotes cs"

definition format_display_name :: "nat \<Rightarrow> string option \<Rightarrow> sc_status + string" where
  "format_display_name cap nm =
     (case nm of
        None \<Rightarrow> Inr []
      | Some s \<Rightarrow>
          if s = [] then Inr []
          else case scan_name s False of
                 Name_high \<Rightarrow> sc_mail_encode_subject cap (Some s)
               | Name_bad \<Rightarrow> Inl SC_ERR_MALFORMED
               | Name_ascii False \<Rightarrow> if length s + 1 > cap then Inl SC_ERR_TOO_LONG else Inr s
               | Name_ascii True \<Rightarrow>
                   if 2 * length s + 3 > cap then Inl SC_ERR_TOO_LONG
                   else Inr (QUOTE # escape_quotes s @ [QUOTE]))"

lemma scan_name_ascii: "scan_name s q = Name_ascii r \<Longrightarrow> list_all is_plain s"
  by (induction s q rule: scan_name.induct)
    (auto simp: is_plain_def is_control_def is_high_def split: if_splits)

lemma escape_quotes_plain: "list_all is_plain s \<Longrightarrow> list_all is_plain (escape_quotes s)"
  by (induction s) (auto simp: is_plain_def is_control_def is_high_def code_of_def)

lemma escape_quotes_length: "length (escape_quotes s) \<le> 2 * length s"
  by (induction s) auto

text \<open>What an encoded subject or name always is: the value of one header.\<close>

lemma encoded_value:
  assumes "SC_MAIL_SUBJECT_ENCODED_MAX \<le> cap" and "sc_mail_encode_subject cap (Some s) = Inr out"
  shows "header_value out"
proof (cases "list_ex is_high s")
  case True
  then have "\<exists>o'. encode_words cap [] s = Some o' \<and> out = o'" and len: "length s < SC_MAIL_SUBJECT_MAX"
    using assms(2) by (auto simp: sc_mail_encode_subject_def split: if_splits option.splits)
  moreover have "encode_words cap [] s = Some (join_words (chunks s))"
    using encode_words_join [of "[]" s cap] encoded_fits [OF len] assms(1) by simp
  ultimately show ?thesis using join_words_value by simp
next
  case False
  then have "list_all is_plain s" "out = s"
    using assms(2) by (auto simp: sc_mail_encode_subject_def is_plain_def list_ex_iff list_all_iff split: if_splits)
  then show ?thesis using header_value_plain [of s "[]"] by simp
qed

lemma display_name_value:
  assumes "SC_MAIL_SUBJECT_ENCODED_MAX \<le> cap" and "format_display_name cap nm = Inr out"
  shows "header_value out"
proof -
  have plain: "header_value x" if "list_all is_plain x" for x using header_value_plain [OF that, of "[]"] by simp
  show ?thesis
  proof (cases nm)
    case (Some s)
    show ?thesis
    proof (cases "scan_name s False")
      case Name_high
      then show ?thesis using assms Some encoded_value by (auto simp: format_display_name_def split: if_splits)
    next
      case (Name_ascii q)
      note p = scan_name_ascii [OF this]
      have "is_plain QUOTE" by code_simp
      then show ?thesis
        using assms Some Name_ascii plain [OF p] plain [of "QUOTE # escape_quotes s @ [QUOTE]"] escape_quotes_plain [OF p]
        by (cases q) (auto simp: format_display_name_def split: if_splits)
    qed (use assms Some in \<open>auto simp: format_display_name_def split: if_splits\<close>)
  qed (use assms in \<open>simp add: format_display_name_def\<close>)
qed

lemma address_plain:
  assumes "check_address s = SC_OK"
  shows "list_all (\<lambda>c. \<not> is_control c \<and> c \<noteq> CR \<and> c \<noteq> LF) s"
  using assms by (auto simp: check_address_def is_control_def list_all_iff list_ex_iff code_of_def split: if_splits)

section \<open>Quoted-printable\<close>

definition SC_MAIL_QP_LINE :: nat where "SC_MAIL_QP_LINE = 75"

definition qp_literal :: "char \<Rightarrow> bool" where
  "qp_literal c \<longleftrightarrow> (33 \<le> code_of c \<and> code_of c \<le> 126 \<and> c \<noteq> CHR ''='') \<or> c = SPACE \<or> c = TAB"

definition k_hex :: string where "k_hex = ''0123456789ABCDEF''"

definition qp_escape :: "char \<Rightarrow> string" where
  "qp_escape c = [CHR ''='', k_hex ! (code_of c div 16), k_hex ! (code_of c mod 16)]"

abbreviation CRLF :: string where "CRLF \<equiv> [CR, LF]"

text \<open>
  What \<^verbatim>\<open>w_qp\<close> writes when there is room for it: the column, what has been written, what is left.
\<close>

definition hard_break :: "nat \<Rightarrow> string \<Rightarrow> string" where
  "hard_break column out =
     (if 0 < column \<and> out \<noteq> [] \<and> is_blank (last out) then butlast out @ qp_escape (last out) else out) @ CRLF"

definition after_break :: "char \<Rightarrow> string \<Rightarrow> string" where
  "after_break c cs = (if c = CR \<and> cs \<noteq> [] \<and> hd cs = LF then tl cs else cs)"

lemma after_break_le: "length (after_break c cs) \<le> length cs"
  by (simp add: after_break_def)

function qp_loop :: "nat \<Rightarrow> string \<Rightarrow> string \<Rightarrow> string" where
  "qp_loop column out [] = (if 0 < column then out @ CRLF else out)"
| "qp_loop column out (c # cs) =
     (if c = CR \<or> c = LF then qp_loop 0 (hard_break column out) (after_break c cs)
      else let need = (if qp_literal c then 1 else 3);
               soft = (column + need > SC_MAIL_QP_LINE);
               out1 = (if soft then out @ ''='' @ CRLF else out)
           in qp_loop ((if soft then 0 else column) + need)
                (out1 @ (if qp_literal c then [c] else qp_escape c)) cs)"
  by pat_completeness auto
termination
  by (relation "measure (\<lambda>(_, _, s). length s)") (auto simp: le_imp_less_Suc after_break_le)

definition qp_encode :: "string \<Rightarrow> string" where
  "qp_encode s = qp_loop 0 [] s"

text \<open>
  The reference decoder of RFC 2045: soft breaks vanish, escapes become their byte, and blanks at
  the end of a line are deleted.
\<close>

definition hex_of :: "char \<Rightarrow> nat option" where
  "hex_of c = position c k_hex"

function qp_decode :: "string \<Rightarrow> string" where
  "qp_decode [] = []"
| "qp_decode (c # cs) =
     (if c = CHR ''=''
      then if starts_with CRLF cs then qp_decode (drop 2 cs)
           else (case cs of
                   a # b # r \<Rightarrow>
                     (case (hex_of a, hex_of b) of
                        (Some i, Some j) \<Rightarrow> char_of (16 * i + j) # qp_decode (drop 2 cs)
                      | _ \<Rightarrow> c # qp_decode cs)
                 | _ \<Rightarrow> c # qp_decode cs)
      else if is_blank c \<and> (let r = dropWhile is_blank cs in r = [] \<or> starts_with CRLF r) then qp_decode cs
      else c # qp_decode cs)"
  by pat_completeness auto
termination
  by (relation "measure length") auto

text \<open>The line endings of a text made those of a mail, and its last line ended.\<close>

function crlf :: "string \<Rightarrow> string" where
  "crlf [] = []"
| "crlf (c # cs) = (if c = CR \<or> c = LF then CRLF @ crlf (after_break c cs) else c # crlf cs)"
  by pat_completeness auto
termination
  by (relation "measure length") (auto simp: le_imp_less_Suc after_break_le)

definition open_line :: "string \<Rightarrow> bool" where
  "open_line s \<longleftrightarrow> s \<noteq> [] \<and> last s \<noteq> CR \<and> last s \<noteq> LF"

subsection \<open>The output as tokens\<close>

datatype qp_token = Lit char | Esc char | Soft | Hard

primrec render :: "qp_token \<Rightarrow> string" where
  "render (Lit c) = [c]"
| "render (Esc c) = qp_escape c"
| "render Soft = ''='' @ CRLF"
| "render Hard = CRLF"

primrec meaning :: "qp_token \<Rightarrow> string" where
  "meaning (Lit c) = [c]"
| "meaning (Esc c) = [c]"
| "meaning Soft = []"
| "meaning Hard = CRLF"

definition renders :: "qp_token list \<Rightarrow> string" where
  "renders ts = concat (map render ts)"

definition means :: "qp_token list \<Rightarrow> string" where
  "means ts = concat (map meaning ts)"

lemmas token_defs = renders_def means_def

definition blank_tok :: "qp_token \<Rightarrow> bool" where
  "blank_tok t \<longleftrightarrow> (case t of Lit c \<Rightarrow> is_blank c | _ \<Rightarrow> False)"

definition lit_ok :: "qp_token \<Rightarrow> bool" where
  "lit_ok t \<longleftrightarrow> (case t of Lit c \<Rightarrow> qp_literal c | _ \<Rightarrow> True)"

text \<open>No blank stands literally before a hard break.\<close>

fun calm :: "qp_token list \<Rightarrow> bool" where
  "calm (a # b # ts) = (\<not> (blank_tok a \<and> b = Hard) \<and> calm (b # ts))"
| "calm _ = True"

lemma calm_snoc: "calm (ts @ [t]) \<longleftrightarrow> calm ts \<and> \<not> (ts \<noteq> [] \<and> blank_tok (last ts) \<and> t = Hard)"
  by (induction ts rule: calm.induct) auto

lemma calm_butlast: "calm ts \<Longrightarrow> calm (butlast ts)"
  by (cases ts rule: rev_cases) (auto simp: calm_snoc)

lemma hex_table: "list_all (\<lambda>i. hex_of (k_hex ! i) = Some i \<and> k_hex ! i \<noteq> CR \<and> is_plain (k_hex ! i)
    \<and> \<not> is_blank (k_hex ! i) \<and> k_hex ! i \<noteq> LF) [0..<16]"
  by code_simp

lemma hex_digits:
  assumes "i < 16"
  shows "hex_of (k_hex ! i) = Some i" "k_hex ! i \<noteq> CR" "is_plain (k_hex ! i)" "\<not> is_blank (k_hex ! i)" "k_hex ! i \<noteq> LF"
proof -
  have "i \<in> set [0..<16]" using assms by simp
  then show "hex_of (k_hex ! i) = Some i" "k_hex ! i \<noteq> CR" "is_plain (k_hex ! i)" "\<not> is_blank (k_hex ! i)" "k_hex ! i \<noteq> LF"
    using hex_table unfolding list_all_iff by blast+
qed

lemma code_nibbles: "code_of c div 16 < 16" "code_of c mod 16 < 16"
  using code_of_less [of c] by (simp_all add: less_mult_imp_div_less)

lemma decode_escape: "qp_decode (qp_escape c @ rest) = c # qp_decode rest"
proof -
  have "char_of (16 * (code_of c div 16) + code_of c mod 16) = c" by simp
  then show ?thesis
    using hex_digits [OF code_nibbles(1) [of c]] hex_digits [OF code_nibbles(2) [of c]] by (simp add: qp_escape_def)
qed

lemma lit_not_crlf: "qp_literal c \<Longrightarrow> c \<noteq> CR \<and> c \<noteq> LF \<and> c \<noteq> CHR ''=''"
  by (auto simp: qp_literal_def code_of_def)

text \<open>After a blank, a run of blanks ends in something that is not the end of a line.\<close>

lemma calm_blanks:
  assumes "calm (a # ts)" and "blank_tok a" and "last (a # ts) = Hard" and "list_all lit_ok ts"
  shows "let r = dropWhile is_blank (renders ts) in r \<noteq> [] \<and> \<not> starts_with CRLF r"
  using assms
proof (induction ts arbitrary: a)
  case (Cons b ts)
  show ?case
  proof (cases "blank_tok b")
    case True
    then obtain c where b: "b = Lit c" "is_blank c" by (auto simp: blank_tok_def split: qp_token.splits)
    have "renders (b # ts) = c # renders ts" using b by (simp add: renders_def)
    moreover have "let r = dropWhile is_blank (renders ts) in r \<noteq> [] \<and> \<not> starts_with CRLF r"
      using Cons.IH [of b] Cons.prems True b by (auto split: if_splits)
    ultimately show ?thesis using b by simp
  next
    case False
    have nb: "\<not> is_blank (CHR ''='')" by code_simp
    show ?thesis
    proof (cases b)
      case (Lit c)
      then have "\<not> is_blank c" "qp_literal c" using False Cons.prems by (auto simp: blank_tok_def lit_ok_def)
      then show ?thesis using Lit lit_not_crlf [of c] by (auto simp: renders_def)
    qed (use Cons.prems nb in \<open>auto simp: renders_def qp_escape_def\<close>)
  qed
qed (auto simp: blank_tok_def)

lemma decode_tokens:
  assumes "calm ts" and "ts = [] \<or> last ts = Hard" and "list_all lit_ok ts"
  shows "qp_decode (renders ts) = means ts"
  using assms
proof (induction ts)
  case (Cons t ts)
  have IH: "qp_decode (renders ts) = means ts"
    using Cons by (cases ts) (auto split: if_splits)
  show ?case
  proof (cases t)
    case (Lit c)
    then have l: "qp_literal c" using Cons.prems by (simp add: lit_ok_def)
    show ?thesis
    proof (cases "is_blank c")
      case True
      then have "let r = dropWhile is_blank (renders ts) in r \<noteq> [] \<and> \<not> starts_with CRLF r"
        using calm_blanks [of t ts] Cons.prems Lit by (simp add: blank_tok_def)
      then show ?thesis using IH Lit lit_not_crlf [OF l] by (simp add: token_defs Let_def)
    next
      case False
      then show ?thesis using IH Lit lit_not_crlf [OF l] by (simp add: token_defs)
    qed
  next
    case (Esc c)
    then show ?thesis using IH decode_escape by (simp add: token_defs)
  next
    case Hard
    have "\<not> is_blank CR" "\<not> is_blank LF" by code_simp+
    then show ?thesis using IH Hard by (simp add: token_defs)
  qed (use IH in \<open>simp add: token_defs\<close>)
qed (simp add: token_defs)


subsection \<open>The encoder\<close>

lemma renders_snoc [simp]: "renders (ts @ [t]) = renders ts @ render t" "renders [] = []"
  by (simp_all add: renders_def)

lemma means_snoc [simp]: "means (ts @ [t]) = means ts @ meaning t" "means [] = []"
  by (simp_all add: means_def)

lemma render_last: "render t \<noteq> [] \<and> is_blank (last (render t)) = blank_tok t"
proof -
  have "\<not> is_blank LF" by code_simp
  then show ?thesis
    using hex_digits(4) [OF code_nibbles(2)] by (cases t) (auto simp: blank_tok_def qp_escape_def)
qed

lemma renders_last:
  assumes "ts \<noteq> []"
  shows "renders ts \<noteq> []" and "is_blank (last (renders ts)) = blank_tok (last ts)"
  using assms render_last [of "last ts"] by (cases ts rule: rev_cases; simp)+

text \<open>A hard break, on tokens: the blank before it is escaped.\<close>

definition break_tokens :: "nat \<Rightarrow> qp_token list \<Rightarrow> qp_token list" where
  "break_tokens column ts =
     (if 0 < column \<and> ts \<noteq> [] \<and> blank_tok (last ts) then butlast ts @ [Esc (last (renders ts))] else ts) @ [Hard]"

lemma break_tokens_ok:
  assumes "calm ts" and "list_all lit_ok ts" and "column = 0 \<longrightarrow> ts = [] \<or> last ts = Hard"
  shows "renders (break_tokens column ts) = hard_break column (renders ts)"
    and "calm (break_tokens column ts)" and "list_all lit_ok (break_tokens column ts)"
    and "means (break_tokens column ts) = means ts @ CRLF" and "last (break_tokens column ts) = Hard"
proof -
  have "\<not> blank_tok Hard" "\<not> blank_tok (Esc c)" for c by (simp_all add: blank_tok_def)
  note nb = this
  have lit: "\<exists>us c. ts = us @ [Lit c] \<and> is_blank c" if "0 < column" "ts \<noteq> []" "blank_tok (last ts)"
    using that by (cases ts rule: rev_cases) (auto simp: blank_tok_def split: qp_token.splits)
  show "renders (break_tokens column ts) = hard_break column (renders ts)"
  proof (cases "0 < column \<and> ts \<noteq> [] \<and> blank_tok (last ts)")
    case True
    then obtain us c where "ts = us @ [Lit c]" "is_blank c" using lit by blast
    then show ?thesis using True by (simp add: break_tokens_def hard_break_def renders_def)
  next
    case False
    have "\<not> (0 < column \<and> renders ts \<noteq> [] \<and> is_blank (last (renders ts)))"
      using False renders_last [of ts] by (cases "ts = []") auto
    then have "hard_break column (renders ts) = renders ts @ CRLF" by (auto simp: hard_break_def)
    moreover have "break_tokens column ts = ts @ [Hard]" using False by (auto simp: break_tokens_def)
    ultimately show ?thesis by simp
  qed
  show "calm (break_tokens column ts)"
    using assms(1,3) calm_butlast [OF assms(1)] nb by (auto simp: break_tokens_def calm_snoc)
  show "list_all lit_ok (break_tokens column ts)"
    using assms(2) by (auto simp: break_tokens_def lit_ok_def list_all_iff dest: in_set_butlastD)
  show "means (break_tokens column ts) = means ts @ CRLF"
    using lit by (auto simp: break_tokens_def)
  show "last (break_tokens column ts) = Hard" by (simp add: break_tokens_def)
qed

text \<open>What is known of the tokens written so far when the loop is at a column.\<close>

definition qp_state :: "nat \<Rightarrow> qp_token list \<Rightarrow> bool" where
  "qp_state column ts \<longleftrightarrow> calm ts \<and> list_all lit_ok ts \<and> (column = 0 \<longrightarrow> ts = [] \<or> last ts = Hard)"

definition char_tokens :: "nat \<Rightarrow> char \<Rightarrow> qp_token list" where
  "char_tokens column c =
     (let need = (if qp_literal c then 1 else 3)
      in (if column + need > SC_MAIL_QP_LINE then [Soft] else []) @ [if qp_literal c then Lit c else Esc c])"

lemma char_tokens_ok:
  assumes "qp_state column ts" and "0 < n"
  shows "qp_state n (ts @ char_tokens column c)" and "means (ts @ char_tokens column c) = means ts @ [c]"
    and "blank_tok (last (ts @ char_tokens column c)) \<Longrightarrow> is_blank c"
proof -
  have s: "ts @ [Soft, t] = (ts @ [Soft]) @ [t]" for t by simp
  have "calm (ts @ char_tokens column c)" and "list_all lit_ok (ts @ char_tokens column c)"
    using assms by (auto simp: qp_state_def char_tokens_def Let_def calm_snoc s lit_ok_def simp del: append_assoc)
  then show "qp_state n (ts @ char_tokens column c)" using assms(2) by (simp add: qp_state_def)
  show "means (ts @ char_tokens column c) = means ts @ [c]"
    by (auto simp: char_tokens_def Let_def means_def)
  show "blank_tok (last (ts @ char_tokens column c)) \<Longrightarrow> is_blank c"
    by (auto simp: char_tokens_def Let_def blank_tok_def split: if_splits)
qed

definition next_column :: "nat \<Rightarrow> char \<Rightarrow> nat" where
  "next_column column c =
     (let need = (if qp_literal c then 1 else 3) in (if column + need > SC_MAIL_QP_LINE then 0 else column) + need)"

lemma qp_loop_char:
  assumes "c \<noteq> CR" "c \<noteq> LF"
  shows "0 < next_column column c"
    and "qp_loop column (renders ts) (c # cs) = qp_loop (next_column column c) (renders (ts @ char_tokens column c)) cs"
  using assms by (simp_all add: char_tokens_def next_column_def Let_def renders_def)

lemma last_after_break:
  assumes "c = CR \<or> c = LF" and "after_break c cs \<noteq> []"
  shows "last (c # cs) = last (after_break c cs)" and "cs \<noteq> []"
  using assms by (cases cs; auto simp: after_break_def split: if_splits)+

lemma open_line_break:
  assumes "c = CR \<or> c = LF"
  shows "open_line (c # cs) = open_line (after_break c cs)"
proof (cases "after_break c cs = []")
  case True
  then have "cs = [] \<or> cs = [LF]" using assms by (cases cs) (auto simp: after_break_def split: if_splits)
  then show ?thesis using True assms by (auto simp: open_line_def)
next
  case False
  then show ?thesis using last_after_break [OF assms False] by (auto simp: open_line_def)
qed

lemma qp_loop_tokens:
  assumes "qp_state column ts" and "s = [] \<longrightarrow> 0 < column \<longrightarrow> ts \<noteq> [] \<and> \<not> blank_tok (last ts)"
    and "s \<noteq> [] \<longrightarrow> \<not> is_blank (last s)"
  shows "\<exists>us. qp_loop column (renders ts) s = renders us \<and> calm us \<and> (us = [] \<or> last us = Hard) \<and> list_all lit_ok us
    \<and> means us = means ts @ crlf s @ (if s = [] \<and> 0 < column \<or> open_line s then CRLF else [])"
  using assms
proof (induction "length s" arbitrary: column ts s rule: less_induct)
  case less
  show ?case
  proof (cases s)
    case Nil
    show ?thesis
    proof (cases "0 < column")
      case True
      then have "calm (ts @ [Hard])" "list_all lit_ok (ts @ [Hard])"
        using less.prems Nil by (auto simp: qp_state_def calm_snoc lit_ok_def)
      then show ?thesis
        using True Nil by (intro exI [of _ "ts @ [Hard]"]) simp
    next
      case False
      then show ?thesis
        using less.prems Nil by (intro exI [of _ ts]) (simp add: qp_state_def open_line_def)
    qed
  next
    case (Cons c cs)
    show ?thesis
    proof (cases "c = CR \<or> c = LF")
      case True
      let ?r = "after_break c cs" and ?ts = "break_tokens column ts"
      note b = break_tokens_ok [of ts column]
      have q: "qp_state 0 ?ts" using b less.prems(1) by (auto simp: qp_state_def)
      have "?r \<noteq> [] \<longrightarrow> \<not> is_blank (last ?r)" using last_after_break [OF True] less.prems(3) Cons by auto
      with less.hyps [of ?r 0 ?ts] q after_break_le [of c cs] Cons
      obtain us where us: "qp_loop 0 (renders ?ts) ?r = renders us" "calm us" "us = [] \<or> last us = Hard"
          "list_all lit_ok us" "means us = means ?ts @ crlf ?r @ (if open_line ?r then CRLF else [])"
        by auto
      then show ?thesis
        using b less.prems(1) True open_line_break [OF True, of cs] Cons
        by (intro exI [of _ us]) (simp add: qp_state_def)
    next
      case False
      then obtain n where n: "0 < n"
          "qp_loop column (renders ts) (c # cs) = qp_loop n (renders (ts @ char_tokens column c)) cs"
        using qp_loop_char [of c column] by blast
      note t = char_tokens_ok [OF less.prems(1) n(1), of c]
      have "cs = [] \<longrightarrow> \<not> blank_tok (last (ts @ char_tokens column c))" using t(3) less.prems(3) Cons by auto
      moreover have "ts @ char_tokens column c \<noteq> []" by (simp add: char_tokens_def Let_def)
      moreover have "cs \<noteq> [] \<longrightarrow> \<not> is_blank (last cs)" using less.prems(3) Cons by auto
      ultimately obtain us where us: "qp_loop n (renders (ts @ char_tokens column c)) cs = renders us" "calm us"
          "us = [] \<or> last us = Hard" "list_all lit_ok us"
          "means us = means (ts @ char_tokens column c) @ crlf cs
            @ (if cs = [] \<and> 0 < n \<or> open_line cs then CRLF else [])"
        using less.hyps [of cs n "ts @ char_tokens column c"] t(1) Cons by auto
      have "(cs = [] \<and> 0 < n \<or> open_line cs) = open_line (c # cs)"
        using n(1) False by (auto simp: open_line_def)
      then show ?thesis
        using us n(2) t(2) False Cons by (intro exI [of _ us]) simp
    qed
  qed
qed


subsection \<open>The lines\<close>

text \<open>
  A walk over a text with the column it is at: no line has more than \<open>m\<close> characters before its line
  feed (the carriage return counted).
\<close>

fun fits :: "nat \<Rightarrow> nat \<Rightarrow> string \<Rightarrow> bool" where
  "fits m col [] = True"
| "fits m col (c # cs) = (if c = LF then fits m 0 cs else col + 1 \<le> m \<and> fits m (col + 1) cs)"

fun end_col :: "nat \<Rightarrow> string \<Rightarrow> nat" where
  "end_col col [] = col"
| "end_col col (c # cs) = end_col (if c = LF then 0 else col + 1) cs"

lemma fits_append: "fits m col (a @ b) \<longleftrightarrow> fits m col a \<and> fits m (end_col col a) b"
  by (induction a arbitrary: col) auto

lemma end_col_append: "end_col col (a @ b) = end_col (end_col col a) b"
  by (induction a arbitrary: col) auto

definition seven_bit :: "string \<Rightarrow> bool" where
  "seven_bit s \<longleftrightarrow> list_all (\<lambda>c. is_plain c \<or> c = CR \<or> c = LF) s"

lemma escape_line:
  "col + 3 \<le> m \<Longrightarrow> fits m col (qp_escape c)" "end_col col (qp_escape c) = col + 3" "seven_bit (qp_escape c)"
proof -
  have "is_plain (CHR ''='')" by code_simp
  then show "col + 3 \<le> m \<Longrightarrow> fits m col (qp_escape c)" "end_col col (qp_escape c) = col + 3" "seven_bit (qp_escape c)"
    using hex_digits(3,5) [OF code_nibbles(1) [of c]] hex_digits(3,5) [OF code_nibbles(2) [of c]]
    by (simp_all add: qp_escape_def seven_bit_def)
qed

lemma literal_plain: "qp_literal c \<Longrightarrow> is_plain c \<and> c \<noteq> LF"
  by (auto simp: qp_literal_def is_plain_def is_control_def is_high_def code_of_def)

definition line_state :: "nat \<Rightarrow> string \<Rightarrow> bool" where
  "line_state column out \<longleftrightarrow> fits 78 0 out \<and> end_col 0 out = column \<and> column \<le> 75 \<and> seven_bit out"

lemma hard_break_line:
  assumes "line_state column out"
  shows "line_state 0 (hard_break column out)"
proof (cases "0 < column \<and> out \<noteq> [] \<and> is_blank (last out)")
  case True
  then obtain us c where out: "out = us @ [c]" and c: "is_blank c" by (cases out rule: rev_cases) auto
  have "c \<noteq> LF" using c by (auto simp: is_blank_def)
  then have col: "end_col 0 us + 1 = column" "fits 78 0 us" "seven_bit us" "column \<le> 75"
    using assms by (auto simp: line_state_def out end_col_append fits_append seven_bit_def)
  have "hard_break column out = us @ qp_escape c @ CRLF" using True by (simp add: hard_break_def out)
  then show ?thesis
    using col escape_line(1) [of "end_col 0 us" 78 c] escape_line(2,3)
    by (simp add: line_state_def fits_append end_col_append seven_bit_def)
next
  case False
  then have "hard_break column out = out @ CRLF" by (auto simp: hard_break_def)
  then show ?thesis using assms by (simp add: line_state_def fits_append end_col_append seven_bit_def)
qed

lemma char_line:
  assumes "line_state column out" and "c \<noteq> LF"
  shows "line_state (next_column column c)
    ((if column + (if qp_literal c then 1 else 3) > SC_MAIL_QP_LINE then out @ ''='' @ CRLF else out)
      @ (if qp_literal c then [c] else qp_escape c))"
proof -
  have eq: "is_plain (CHR ''='')" by code_simp
  have "line_state 0 (out @ ''='' @ CRLF)"
    using assms(1) eq by (simp add: line_state_def fits_append end_col_append seven_bit_def)
  then show ?thesis
    using assms escape_line(1) [of column 78 c] escape_line(1) [of 0 78 c] escape_line(2,3) literal_plain [of c]
    by (auto simp: line_state_def next_column_def Let_def SC_MAIL_QP_LINE_def fits_append end_col_append seven_bit_def)
qed

lemma qp_loop_line: "line_state column out \<Longrightarrow> fits 78 0 (qp_loop column out s) \<and> seven_bit (qp_loop column out s)"
proof (induction column out s rule: qp_loop.induct)
  case (1 column out)
  then show ?case by (simp add: line_state_def fits_append end_col_append seven_bit_def)
next
  case (2 column out c cs)
  show ?case
  proof (cases "c = CR \<or> c = LF")
    case True
    then show ?thesis using 2(1) [OF True hard_break_line [OF 2(3)]] by simp
  next
    case False
    then have "c \<noteq> LF" by simp
    note l = char_line [OF 2(3) this]
    show ?thesis
      using 2(2) [OF False refl refl refl] l False by (simp add: next_column_def Let_def)
  qed
qed

text \<open>
  A body in quoted-printable: whatever bytes a text has, it goes out as 7-bit text with no line of
  more than 77 characters, and decoding it as RFC 2045 says gives the text back, with its line endings
  made CRLF and its last line ended; for a text that does not end in a blank.
\<close>

theorem qp_roundtrip:
  assumes "s = [] \<or> \<not> is_blank (last s)"
  shows "qp_decode (qp_encode s) = crlf s @ (if open_line s then CRLF else [])
    \<and> fits 78 0 (qp_encode s) \<and> seven_bit (qp_encode s)"
proof -
  have "qp_state 0 []" by (simp add: qp_state_def)
  from qp_loop_tokens [OF this, of s] assms
  obtain us where us: "qp_loop 0 [] s = renders us" "calm us" "us = [] \<or> last us = Hard" "list_all lit_ok us"
      "means us = crlf s @ (if open_line s then CRLF else [])" by auto
  have "qp_decode (qp_encode s) = means us"
    using decode_tokens [OF us(2,3,4)] us(1) by (simp add: qp_encode_def)
  moreover have "line_state 0 []" by (simp add: line_state_def seven_bit_def)
  ultimately show ?thesis using us(5) qp_loop_line [of 0 "[]" s] by (simp add: qp_encode_def)
qed

theorem qp_roundtrip_witness:
  "qp_decode (qp_encode (''a=b '' @ [LF] @ [CHR 0xC3, CHR 0xA9]))
    = crlf (''a=b '' @ [LF] @ [CHR 0xC3, CHR 0xA9]) @ CRLF"
proof -
  let ?s = "''a=b '' @ [LF] @ [CHR 0xC3, CHR 0xA9]"
  have "\<not> is_blank (last ?s)" "open_line ?s" by code_simp+
  then show ?thesis using qp_roundtrip [of ?s] by simp
qed

text \<open>A blank before a hard break at the last column makes a line of 77 characters.\<close>

lemma line_of_77: "\<not> fits 77 0 (qp_encode (replicate 74 (CHR ''x'') @ [SPACE, LF]))"
  by code_simp

text \<open>A blank at the very end of a text is not escaped, and is lost.\<close>

lemma trailing_blank_lost: "qp_decode (qp_encode ''a '') = ''a'' @ CRLF"
  by code_simp

end
