(* ===== verification/MailMessage.thy ===== *)
theory MailMessage
  imports MailCodec
begin

text \<open>
  The bytes of one mail, \<^verbatim>\<open>service-core/src/email/message.c\<close>: the writer that counts everything and
  writes what fits, the parts of a MIME message, and \<^verbatim>\<open>sc_mail_format\<close>.

  The message is first given as what it should be (\<open>mail_message\<close>: the refusals, and the text as a
  concatenation), then as the code writes it into a buffer of bounded size. Shown: the two agree
  whenever the buffer has a byte to spare beyond the text and its terminator, and a message that
  does not fit is reported as too long. For a buffer of exactly the right size they do not
  (\<open>exact_fit_broken\<close>).
\<close>

section \<open>What a mail is\<close>

record sc_mail_asset =
  cid :: string
  filename :: "string option"
  content_type :: "string option"
  a_data :: string

record sc_mail =
  to_addr :: "string option"
  subject :: "string option"
  body :: "string option"
  html :: "string option"
  assets :: "sc_mail_asset list option"
  asset_count :: nat

record sc_mail_origin =
  from_addr :: "string option"
  from_name :: "string option"
  o_msgid_domain :: "string option"

definition SC_MAIL_ADDR_MAX :: nat where "SC_MAIL_ADDR_MAX = 255"
definition SC_MAIL_DATE_MAX :: nat where "SC_MAIL_DATE_MAX = 48"
definition SC_MAIL_MSGID_MAX :: nat where "SC_MAIL_MSGID_MAX = 64 + SC_MAIL_ADDR_MAX"

text \<open>\<^verbatim>\<open>snprintf(dst, cap, "%s", s)\<close>.\<close>

definition printed :: "nat \<Rightarrow> string \<Rightarrow> string" where
  "printed cap s = take (cap - 1) s"

definition dec_int :: "int \<Rightarrow> string" where
  "dec_int v = (if v < 0 then ''-'' else []) @ dec_text (nat \<bar>v\<bar>)"

definition pad :: "nat \<Rightarrow> nat \<Rightarrow> string" where
  "pad width n = replicate (width - length (dec_text n)) (CHR ''0'') @ dec_text n"

section \<open>Date, Message-ID and boundaries\<close>

record tm =
  tm_wday :: nat
  tm_mday :: nat
  tm_mon :: nat
  tm_year :: nat
  tm_hour :: nat
  tm_min :: nat
  tm_sec :: nat

text \<open>\<^verbatim>\<open>gmtime_r\<close> is the C library's: a parameter, which may fail.\<close>

type_synonym gmtime = "int \<Rightarrow> tm option"

definition k_day_name :: "string list" where
  "k_day_name = [''Sun'', ''Mon'', ''Tue'', ''Wed'', ''Thu'', ''Fri'', ''Sat'']"

definition k_month_name :: "string list" where
  "k_month_name = [''Jan'', ''Feb'', ''Mar'', ''Apr'', ''May'', ''Jun'', ''Jul'', ''Aug'', ''Sep'', ''Oct'', ''Nov'', ''Dec'']"

definition render_date :: "gmtime \<Rightarrow> int \<Rightarrow> string" where
  "render_date utc when =
     printed SC_MAIL_DATE_MAX
       (case utc when of
          None \<Rightarrow> ''Thu, 01 Jan 1970 00:00:00 +0000''
        | Some t \<Rightarrow>
            k_day_name ! (tm_wday t mod 7) @ '', '' @ pad 2 (tm_mday t) @ '' '' @ k_month_name ! (tm_mon t mod 12)
            @ '' '' @ pad 4 (tm_year t + 1900) @ '' '' @ pad 2 (tm_hour t) @ '':'' @ pad 2 (tm_min t)
            @ '':'' @ pad 2 (tm_sec t) @ '' +0000'')"

definition msgid_domain :: "sc_mail_origin \<Rightarrow> string" where
  "msgid_domain origin =
     printed SC_MAIL_ADDR_MAX
       (case o_msgid_domain origin of
          Some (c # cs) \<Rightarrow> c # cs
        | _ \<Rightarrow>
            (case from_addr origin of
               None \<Rightarrow> ''localhost''
             | Some f \<Rightarrow>
                 (case dropWhile (\<lambda>c. c \<noteq> CHR ''@'') f of
                    at # d # ds \<Rightarrow> d # ds
                  | _ \<Rightarrow> ''localhost'')))"

definition message_id :: "sc_mail_origin \<Rightarrow> 64 word \<Rightarrow> int \<Rightarrow> string" where
  "message_id origin sequence now_ms =
     printed SC_MAIL_MSGID_MAX (dec_text (unat sequence) @ ''.'' @ dec_int now_ms @ ''@'' @ msgid_domain origin)"

definition boundary_of :: "64 word \<Rightarrow> int \<Rightarrow> string \<Rightarrow> string" where
  "boundary_of sequence now_ms suffix =
     printed 80 (''=_gradido_'' @ dec_text (unat sequence) @ ''_'' @ dec_int now_ms @ suffix)"

section \<open>The writer\<close>

record sc_mail_writer =
  w_dst :: string
  w_cap :: nat
  w_used :: nat

definition overwrite :: "string \<Rightarrow> nat \<Rightarrow> string \<Rightarrow> string" where
  "overwrite mem at s = take at mem @ s @ drop (at + length s) mem"

definition w_byte :: "char \<Rightarrow> sc_mail_writer \<Rightarrow> sc_mail_writer" where
  "w_byte c w =
     w\<lparr>w_dst := (if w_used w < w_cap w then (w_dst w)[w_used w := c] else w_dst w), w_used := w_used w + 1\<rparr>"

definition w_bytes :: "string \<Rightarrow> sc_mail_writer \<Rightarrow> sc_mail_writer" where
  "w_bytes s w =
     w\<lparr>w_dst := (if w_used w + length s \<le> w_cap w then overwrite (w_dst w) (w_used w) s
                else if w_used w < w_cap w then overwrite (w_dst w) (w_used w) (take (w_cap w - w_used w) s)
                else w_dst w),
       w_used := w_used w + length s\<rparr>"

definition w_str :: "string \<Rightarrow> sc_mail_writer \<Rightarrow> sc_mail_writer" where
  "w_str s = w_bytes s"

text \<open>\<^verbatim>\<open>w_fmt\<close>, given what the format makes: \<^verbatim>\<open>vsnprintf\<close> also writes the terminator.\<close>

definition w_fmt :: "string \<Rightarrow> sc_mail_writer \<Rightarrow> sc_mail_writer" where
  "w_fmt s w =
     w\<lparr>w_dst := (if w_used w + length s < w_cap w then overwrite (w_dst w) (w_used w) (s @ [NUL]) else w_dst w),
       w_used := w_used w + length s\<rparr>"

definition w_escape :: "char \<Rightarrow> sc_mail_writer \<Rightarrow> sc_mail_writer" where
  "w_escape c w =
     w_byte (k_hex ! (code_of c mod 16)) (w_byte (k_hex ! (code_of c div 16)) (w_byte (CHR ''='') w))"

text \<open>The hard break of \<^verbatim>\<open>w_qp\<close>: it looks back into the buffer for a blank it has just written.\<close>

definition w_break :: "nat \<Rightarrow> sc_mail_writer \<Rightarrow> sc_mail_writer" where
  "w_break column w =
     (let back = (0 < w_used w \<and> 0 < column);
          lst = (if w_used w \<le> w_cap w then w_dst w ! (w_used w - 1) else NUL);
          w1 = (if back \<and> (lst = SPACE \<or> lst = TAB) \<and> w_used w \<le> w_cap w
                then w_escape lst (w\<lparr>w_used := w_used w - 1\<rparr>) else w)
      in w_str CRLF w1)"

function w_qp_loop :: "nat \<Rightarrow> string \<Rightarrow> sc_mail_writer \<Rightarrow> sc_mail_writer" where
  "w_qp_loop column [] w = (if 0 < column then w_str CRLF w else w)"
| "w_qp_loop column (c # cs) w =
     (if c = CR \<or> c = LF then w_qp_loop 0 (after_break c cs) (w_break column w)
      else let need = (if qp_literal c then 1 else 3);
               soft = (column + need > SC_MAIL_QP_LINE);
               w1 = (if soft then w_str (''='' @ CRLF) w else w);
               w2 = (if qp_literal c then w_byte c w1 else w_escape c w1)
           in w_qp_loop ((if soft then 0 else column) + need) cs w2)"
  by pat_completeness auto
termination
  by (relation "measure (\<lambda>(_, s, _). length s)") (auto simp: le_imp_less_Suc after_break_le)

definition w_qp :: "string \<Rightarrow> sc_mail_writer \<Rightarrow> sc_mail_writer" where
  "w_qp t = w_qp_loop 0 t"

text \<open>\<^verbatim>\<open>w_base64\<close>: 57 bytes, 76 characters, to the line.\<close>

function w_base64 :: "string \<Rightarrow> sc_mail_writer \<Rightarrow> sc_mail_writer" where
  "w_base64 src w =
     (if src = [] then w
      else w_base64 (drop 57 src) (w_str CRLF (w_bytes (b64_encode (take 57 src)) w)))"
  by pat_completeness auto
termination
  by (relation "measure (\<lambda>(s, _). length s)") auto

declare w_base64.simps [simp del]

section \<open>The parts\<close>

definition text_head :: "string \<Rightarrow> string" where
  "text_head subtype = ''Content-Type: text/'' @ subtype @ ''; charset=utf-8'' @ CRLF"

definition qp_head :: string where
  "qp_head = ''Content-Transfer-Encoding: quoted-printable'' @ CRLF @ CRLF"

definition w_text_part :: "string \<Rightarrow> string \<Rightarrow> sc_mail_writer \<Rightarrow> sc_mail_writer" where
  "w_text_part subtype content w = w_qp content (w_str qp_head (w_fmt (text_head subtype) w))"

definition asset_name :: "sc_mail_asset \<Rightarrow> string" where
  "asset_name a = (case filename a of None \<Rightarrow> cid a | Some f \<Rightarrow> f)"

definition asset_head :: "sc_mail_asset \<Rightarrow> string" where
  "asset_head a =
     ''Content-Type: '' @ (case content_type a of None \<Rightarrow> ''application/octet-stream'' | Some t \<Rightarrow> t)
     @ ''; name='' @ [QUOTE] @ asset_name a @ [QUOTE] @ CRLF"

definition b64_head :: string where
  "b64_head = ''Content-Transfer-Encoding: base64'' @ CRLF"

definition cid_head :: "sc_mail_asset \<Rightarrow> string" where
  "cid_head a = ''Content-ID: <'' @ cid a @ ''>'' @ CRLF"

definition disposition_head :: "sc_mail_asset \<Rightarrow> string" where
  "disposition_head a = ''Content-Disposition: inline; filename='' @ [QUOTE] @ asset_name a @ [QUOTE] @ CRLF @ CRLF"

definition w_asset_part :: "sc_mail_asset \<Rightarrow> sc_mail_writer \<Rightarrow> sc_mail_writer" where
  "w_asset_part a w =
     w_base64 (a_data a) (w_fmt (disposition_head a) (w_fmt (cid_head a) (w_str b64_head (w_fmt (asset_head a) w))))"

definition boundary_line :: "string \<Rightarrow> bool \<Rightarrow> string" where
  "boundary_line boundary lst = ''--'' @ boundary @ (if lst then ''--'' else []) @ CRLF"

definition w_boundary :: "string \<Rightarrow> bool \<Rightarrow> sc_mail_writer \<Rightarrow> sc_mail_writer" where
  "w_boundary boundary lst = w_fmt (boundary_line boundary lst)"

definition mail_assets :: "sc_mail \<Rightarrow> sc_mail_asset list" where
  "mail_assets m = (case assets m of None \<Rightarrow> [] | Some l \<Rightarrow> take (asset_count m) l)"

fun w_assets :: "string \<Rightarrow> sc_mail_asset list \<Rightarrow> sc_mail_writer \<Rightarrow> sc_mail_writer" where
  "w_assets boundary [] w = w"
| "w_assets boundary (a # as) w =
     w_assets boundary as (w_asset_part a (w_boundary boundary False (w_str CRLF w)))"

definition related_head :: "string \<Rightarrow> string" where
  "related_head boundary =
     ''Content-Type: multipart/related; type='' @ [QUOTE] @ ''text/html'' @ [QUOTE] @ ''; boundary='' @ [QUOTE]
     @ boundary @ [QUOTE] @ CRLF @ CRLF"

definition w_html_and_assets :: "sc_mail \<Rightarrow> string \<Rightarrow> string \<Rightarrow> sc_mail_writer \<Rightarrow> sc_mail_writer" where
  "w_html_and_assets m page boundary w =
     (if asset_count m = 0 then w_text_part ''html'' page w
      else w_boundary boundary True (w_str CRLF (w_assets boundary (mail_assets m)
             (w_text_part ''html'' page (w_boundary boundary False (w_fmt (related_head boundary) w))))))"

section \<open>The message\<close>

record headers =
  h_date :: string
  h_from_name :: string
  h_from :: string
  h_to :: string
  h_subject :: string
  h_msgid :: string
  h_alt :: string
  h_rel :: string

text \<open>
  The checks of \<^verbatim>\<open>sc_mail_format\<close> and the values it prepares: what it refuses, or the headers.
\<close>

definition prepare :: "gmtime \<Rightarrow> sc_mail_origin \<Rightarrow> sc_mail \<Rightarrow> 64 word \<Rightarrow> int \<Rightarrow> sc_status + headers" where
  "prepare utc origin m sequence now_ms =
     (case (from_addr origin, to_addr m, subject m) of
        (Some f, Some t, Some s) \<Rightarrow>
          if body m = None \<and> html m = None then Inl SC_ERR_INVALID_ARGUMENT
          else if 0 < asset_count m \<and> (assets m = None \<or> html m = None) then Inl SC_ERR_INVALID_ARGUMENT
          else if check_address t \<noteq> SC_OK then Inl (check_address t)
          else if check_address f \<noteq> SC_OK then Inl (check_address f)
          else (case format_display_name SC_MAIL_SUBJECT_ENCODED_MAX (from_name origin) of
                  Inl e \<Rightarrow> Inl e
                | Inr nm \<Rightarrow>
                    (case sc_mail_encode_subject SC_MAIL_SUBJECT_ENCODED_MAX (Some s) of
                       Inl e \<Rightarrow> Inl e
                     | Inr sub \<Rightarrow>
                         Inr \<lparr>h_date = render_date utc (sgn now_ms * (\<bar>now_ms\<bar> div 1000)), h_from_name = nm,
                              h_from = f, h_to = t, h_subject = sub,
                              h_msgid = message_id origin sequence now_ms,
                              h_alt = boundary_of sequence now_ms ''_alt'',
                              h_rel = boundary_of sequence now_ms ''_rel''\<rparr>))
      | _ \<Rightarrow> Inl SC_ERR_INVALID_ARGUMENT)"

definition from_line :: "headers \<Rightarrow> string" where
  "from_line h =
     ''From: '' @ (if h_from_name h \<noteq> [] then h_from_name h @ '' <'' @ h_from h @ ''>'' else h_from h) @ CRLF"

definition alt_head :: "string \<Rightarrow> string" where
  "alt_head boundary = ''Content-Type: multipart/alternative; boundary='' @ [QUOTE] @ boundary @ [QUOTE] @ CRLF @ CRLF"

definition w_headers :: "headers \<Rightarrow> sc_mail_writer \<Rightarrow> sc_mail_writer" where
  "w_headers h w =
     w_str (''MIME-Version: 1.0'' @ CRLF)
       (w_fmt (''Message-ID: <'' @ h_msgid h @ ''>'' @ CRLF)
         (w_fmt (''Subject: '' @ h_subject h @ CRLF)
           (w_fmt (''To: '' @ h_to h @ CRLF)
             (w_fmt (from_line h)
               (w_fmt (''Date: '' @ h_date h @ CRLF) w)))))"

definition w_content :: "sc_mail \<Rightarrow> headers \<Rightarrow> sc_mail_writer \<Rightarrow> sc_mail_writer" where
  "w_content m h w =
     (case (body m, html m) of
        (Some b, Some page) \<Rightarrow>
          w_boundary (h_alt h) True (w_str CRLF (w_html_and_assets m page (h_rel h)
            (w_boundary (h_alt h) False (w_str CRLF (w_text_part ''plain'' b
              (w_boundary (h_alt h) False (w_fmt (alt_head (h_alt h)) w)))))))
      | (None, Some page) \<Rightarrow> w_html_and_assets m page (h_rel h) w
      | (Some b, None) \<Rightarrow> w_text_part ''plain'' b w
      | (None, None) \<Rightarrow> w)"

record mail_result =
  r_status :: sc_status
  r_data :: "string option"
  r_len :: nat
  r_msgid :: string

text \<open>\<^verbatim>\<open>sc_mail_format\<close>, into a buffer whose contents before the call are given.\<close>

definition sc_mail_format ::
  "gmtime \<Rightarrow> sc_mail_origin \<Rightarrow> sc_mail \<Rightarrow> 64 word \<Rightarrow> int \<Rightarrow> string \<Rightarrow> mail_result" where
  "sc_mail_format utc origin m sequence now_ms buffer =
     (case prepare utc origin m sequence now_ms of
        Inl e \<Rightarrow> \<lparr>r_status = e, r_data = None, r_len = 0, r_msgid = []\<rparr>
      | Inr h \<Rightarrow>
          let cap = length buffer;
              w = w_content m h (w_headers h
                    \<lparr>w_dst = take (cap - 1) buffer, w_cap = (if 0 < cap then cap - 1 else 0), w_used = 0\<rparr>)
          in if w_used w + 1 > cap
             then \<lparr>r_status = SC_ERR_TOO_LONG, r_data = None, r_len = w_used w + 1, r_msgid = h_msgid h\<rparr>
             else \<lparr>r_status = SC_OK, r_data = Some (take (w_used w) (w_dst w)), r_len = w_used w,
                   r_msgid = h_msgid h\<rparr>)"

section \<open>What the message should be\<close>

function base64_lines :: "string \<Rightarrow> string" where
  "base64_lines src = (if src = [] then [] else b64_encode (take 57 src) @ CRLF @ base64_lines (drop 57 src))"
  by pat_completeness auto
termination
  by (relation "measure length") auto

declare base64_lines.simps [simp del]

definition text_part :: "string \<Rightarrow> string \<Rightarrow> string" where
  "text_part subtype content = text_head subtype @ qp_head @ qp_encode content"

definition asset_part :: "sc_mail_asset \<Rightarrow> string" where
  "asset_part a = asset_head a @ b64_head @ cid_head a @ disposition_head a @ base64_lines (a_data a)"

definition asset_parts :: "string \<Rightarrow> sc_mail_asset list \<Rightarrow> string" where
  "asset_parts boundary as = concat (map (\<lambda>a. CRLF @ boundary_line boundary False @ asset_part a) as)"

definition html_and_assets :: "sc_mail \<Rightarrow> string \<Rightarrow> string \<Rightarrow> string" where
  "html_and_assets m page boundary =
     (if asset_count m = 0 then text_part ''html'' page
      else related_head boundary @ boundary_line boundary False @ text_part ''html'' page
           @ asset_parts boundary (mail_assets m) @ CRLF @ boundary_line boundary True)"

definition header_text :: "headers \<Rightarrow> string" where
  "header_text h =
     (''Date: '' @ h_date h @ CRLF) @ from_line h @ (''To: '' @ h_to h @ CRLF) @ (''Subject: '' @ h_subject h @ CRLF)
     @ (''Message-ID: <'' @ h_msgid h @ ''>'' @ CRLF) @ (''MIME-Version: 1.0'' @ CRLF)"

definition content_text :: "sc_mail \<Rightarrow> headers \<Rightarrow> string" where
  "content_text m h =
     (case (body m, html m) of
        (Some b, Some page) \<Rightarrow>
          alt_head (h_alt h) @ boundary_line (h_alt h) False @ text_part ''plain'' b @ CRLF
          @ boundary_line (h_alt h) False @ html_and_assets m page (h_rel h) @ CRLF @ boundary_line (h_alt h) True
      | (None, Some page) \<Rightarrow> html_and_assets m page (h_rel h)
      | (Some b, None) \<Rightarrow> text_part ''plain'' b
      | (None, None) \<Rightarrow> [])"

definition mail_message :: "gmtime \<Rightarrow> sc_mail_origin \<Rightarrow> sc_mail \<Rightarrow> 64 word \<Rightarrow> int \<Rightarrow> sc_status + string" where
  "mail_message utc origin m sequence now_ms =
     (case prepare utc origin m sequence now_ms of Inl e \<Rightarrow> Inl e | Inr h \<Rightarrow> Inr (header_text h @ content_text m h))"

section \<open>The writer writes it\<close>

text \<open>
  While there is room, the buffer holds what has been written so far; once it is full, the message
  is at least as long as the buffer, and longer as soon as the count is.
\<close>

definition sim :: "sc_mail_writer \<Rightarrow> string \<Rightarrow> bool" where
  "sim w out \<longleftrightarrow>
     length (w_dst w) = w_cap w
     \<and> (if w_used w < w_cap w then w_used w = length out \<and> take (length out) (w_dst w) = out
        else w_cap w \<le> length out \<and> (w_used w = w_cap w \<longleftrightarrow> length out = w_cap w))"

definition writes :: "(sc_mail_writer \<Rightarrow> sc_mail_writer) \<Rightarrow> string \<Rightarrow> bool" where
  "writes f s \<longleftrightarrow> (\<forall>w out. sim w out \<longrightarrow> sim (f w) (out @ s))"

lemma writesD: "writes f s \<Longrightarrow> sim w out \<Longrightarrow> sim (f w) (out @ s)"
  by (simp add: writes_def)

lemma writes_comp: "writes f s \<Longrightarrow> writes g t \<Longrightarrow> writes (\<lambda>w. g (f w)) (s @ t)"
  by (simp add: writes_def) (metis append_assoc)

lemma length_overwrite [simp]: "at + length s \<le> length mem \<Longrightarrow> length (overwrite mem at s) = length mem"
  by (simp add: overwrite_def)

lemma take_overwrite:
  "at + length s \<le> length mem \<Longrightarrow> take (at + length s) (overwrite mem at s) = take at mem @ s"
  by (simp add: overwrite_def)

lemma writes_bytes: "writes (w_bytes s) s"
  unfolding writes_def
proof (intro allI impI)
  fix w out
  assume s: "sim w out"
  show "sim (w_bytes s w) (out @ s)"
  proof (cases "w_used w < w_cap w")
    case True
    then have o': "w_used w = length out" "take (length out) (w_dst w) = out" "length (w_dst w) = w_cap w"
      using s by (simp_all add: sim_def)
    show ?thesis
    proof (cases "w_used w + length s \<le> w_cap w")
      case fit: True
      then show ?thesis using o' take_overwrite [of "w_used w" s "w_dst w"] by (auto simp: sim_def w_bytes_def)
    qed (use o' True in \<open>auto simp: sim_def w_bytes_def\<close>)
  next
    case False
    then show ?thesis using s by (auto simp: sim_def w_bytes_def overwrite_def)
  qed
qed

lemma writes_str: "writes (w_str s) s"
  unfolding w_str_def by (rule writes_bytes)

lemma writes_byte: "writes (w_byte c) [c]"
  unfolding writes_def
proof (intro allI impI)
  fix w out
  assume s: "sim w out"
  show "sim (w_byte c w) (out @ [c])"
  proof (cases "w_used w < w_cap w")
    case True
    then have "take (Suc (w_used w)) ((w_dst w)[w_used w := c]) = out @ [c]"
      using s by (simp add: sim_def take_Suc_conv_app_nth)
    then show ?thesis using s True by (auto simp: sim_def w_byte_def)
  qed (use s in \<open>auto simp: sim_def w_byte_def\<close>)
qed

lemma writes_fmt: "writes (w_fmt s) s"
  unfolding writes_def
proof (intro allI impI)
  fix w out
  assume s: "sim w out"
  show "sim (w_fmt s w) (out @ s)"
  proof (cases "w_used w + length s < w_cap w")
    case True
    then have o': "w_used w = length out" "take (length out) (w_dst w) = out" "length (w_dst w) = w_cap w"
      using s by (simp_all add: sim_def)
    then have "take (w_used w + length s) (overwrite (w_dst w) (w_used w) (s @ [NUL])) = out @ s"
      using True by (simp add: overwrite_def)
    then show ?thesis using o' True by (simp add: sim_def w_fmt_def)
  qed (use s in \<open>auto simp: sim_def w_fmt_def split: if_splits\<close>)
qed

lemma writes_escape: "writes (w_escape c) (qp_escape c)"
  using writes_comp [OF writes_byte writes_comp [OF writes_byte writes_byte]]
  unfolding w_escape_def qp_escape_def by simp

text \<open>The hard break, which looks at the last character written.\<close>

lemma sim_break:
  assumes s: "sim w (base @ out)" and ne: "0 < column \<longrightarrow> out \<noteq> []"
  shows "sim (w_break column w) (base @ hard_break column out)"
proof (cases "w_used w < w_cap w")
  case True
  then have o': "w_used w = length (base @ out)" "take (length (base @ out)) (w_dst w) = base @ out" "length (w_dst w) = w_cap w"
    using s by (simp_all add: sim_def)
  show ?thesis
  proof (cases "0 < column \<and> is_blank (last out)")
    case bk: True
    then obtain us c where out: "out = us @ [c]" "is_blank c" using ne by (cases out rule: rev_cases) auto
    have "w_dst w ! (w_used w - 1) = take (length (base @ out)) (w_dst w) ! (w_used w - 1)"
      by (rule nth_take [symmetric]) (use o'(1) out in simp)
    also have "\<dots> = c" unfolding o'(2) using o'(1) out(1) by (simp add: nth_append)
    finally have lst: "w_dst w ! (w_used w - 1) = c" .
    have "take (length base + length us) (w_dst w) = take (length base + length us) (take (length (base @ out)) (w_dst w))"
      unfolding take_take out(1) by (simp add: min_def)
    then have "take (length (base @ us)) (w_dst w) = base @ us" unfolding o'(2) by (simp add: out(1))
    then have "sim (w\<lparr>w_used := w_used w - 1\<rparr>) (base @ us)"
      using o'(1,3) True out(1) by (simp add: sim_def)
    then have "sim (w_escape c (w\<lparr>w_used := w_used w - 1\<rparr>)) ((base @ us) @ qp_escape c)"
      by (rule writesD [OF writes_escape])
    then have "sim (w_str CRLF (w_escape c (w\<lparr>w_used := w_used w - 1\<rparr>))) (((base @ us) @ qp_escape c) @ CRLF)"
      by (rule writesD [OF writes_str])
    moreover have "w_break column w = w_str CRLF (w_escape c (w\<lparr>w_used := w_used w - 1\<rparr>))"
      using lst bk out o' True by (auto simp: w_break_def Let_def is_blank_def)
    ultimately show ?thesis using bk out by (simp add: hard_break_def)
  next
    case nb: False
    have "w_dst w ! (w_used w - 1) = last out" if "0 < column"
    proof -
      have "out \<noteq> []" using ne that by simp
      then obtain us c where out: "out = us @ [c]" by (cases out rule: rev_cases) auto
      then have "take (length (base @ out)) (w_dst w) ! (w_used w - 1) = last out"
        unfolding o'(2) using o'(1) by (simp add: nth_append)
      moreover have "0 < w_used w" using \<open>out \<noteq> []\<close> o'(1) by (cases out) auto
      ultimately show ?thesis using o'(1) by simp
    qed
    then have "w_break column w = w_str CRLF w" using nb by (auto simp: w_break_def Let_def is_blank_def)
    moreover have "hard_break column out = out @ CRLF" using nb by (auto simp: hard_break_def)
    ultimately show ?thesis using writesD [OF writes_str s, of CRLF] by simp
  qed
next
  case False
  have "length out + 2 \<le> length (hard_break column out)" by (auto simp: hard_break_def qp_escape_def)
  then show ?thesis
    using s False by (auto simp: sim_def w_break_def w_str_def w_bytes_def w_escape_def w_byte_def overwrite_def Let_def split: if_splits)
qed


lemma sim_qp:
  "sim w (base @ out) \<Longrightarrow> (0 < column \<longrightarrow> out \<noteq> []) \<Longrightarrow> sim (w_qp_loop column s w) (base @ qp_loop column out s)"
proof (induction column out s arbitrary: w rule: qp_loop.induct)
  case (1 column out)
  then show ?case using writesD [OF writes_str 1(1), of CRLF] by simp
next
  case (2 column out c cs)
  show ?case
  proof (cases "c = CR \<or> c = LF")
    case True
    then show ?thesis using 2(1) [OF True sim_break [OF 2(3,4)]] by simp
  next
    case False
    let ?need = "if qp_literal c then 1 else 3 :: nat"
    let ?soft = "column + ?need > SC_MAIL_QP_LINE"
    let ?w1 = "if ?soft then w_str (''='' @ CRLF) w else w" and ?o1 = "if ?soft then out @ ''='' @ CRLF else out"
    obtain w1 o1 where w1: "w1 = ?w1" and o1: "o1 = ?o1" by blast
    have s1: "sim w1 (base @ o1)"
      unfolding w1 o1 using 2(3) writesD [OF writes_str 2(3), of "''='' @ CRLF"] by simp
    have "sim (if qp_literal c then w_byte c w1 else w_escape c w1)
        (base @ o1 @ (if qp_literal c then [c] else qp_escape c))"
      using writesD [OF writes_byte s1, of c] writesD [OF writes_escape s1, of c] by simp
    moreover have "o1 @ (if qp_literal c then [c] else qp_escape c) \<noteq> []" by (simp add: qp_escape_def)
    ultimately show ?thesis
      using 2(2) [OF False refl refl refl, of "if qp_literal c then w_byte c w1 else w_escape c w1"] False
      unfolding w1 o1 w_qp_loop.simps qp_loop.simps Let_def by simp
  qed
qed

lemma writes_qp: "writes (w_qp s) (qp_encode s)"
  unfolding writes_def w_qp_def qp_encode_def using sim_qp [of _ _ "[]" 0] by simp

lemma sim_base64: "sim w out \<Longrightarrow> sim (w_base64 src w) (out @ base64_lines src)"
proof (induction src arbitrary: w out rule: base64_lines.induct)
  case (1 src)
  show ?case
  proof (cases "src = []")
    case False
    have "sim (w_str CRLF (w_bytes (b64_encode (take 57 src)) w)) ((out @ b64_encode (take 57 src)) @ CRLF)"
      by (rule writesD [OF writes_str writesD [OF writes_bytes 1(2)]])
    from 1(1) [OF False this] show ?thesis
      using False by (subst w_base64.simps, subst base64_lines.simps) simp
  qed (use 1 in \<open>simp add: w_base64.simps base64_lines.simps\<close>)
qed

lemma writes_base64: "writes (w_base64 src) (base64_lines src)"
  unfolding writes_def using sim_base64 by blast

lemma writes_id: "writes (\<lambda>w. w) []"
  by (simp add: writes_def)

lemmas writes_intros = writes_str writes_fmt writes_bytes writes_qp writes_base64

lemma writes_text_part: "writes (w_text_part subtype c) (text_part subtype c)"
  unfolding w_text_part_def text_part_def by (intro writes_comp writes_intros)

lemma writes_boundary: "writes (w_boundary b l) (boundary_line b l)"
  unfolding w_boundary_def by (rule writes_fmt)

lemma writes_asset_part: "writes (w_asset_part a) (asset_part a)"
  unfolding w_asset_part_def asset_part_def
  using writes_comp [OF writes_fmt writes_comp [OF writes_str writes_comp [OF writes_fmt
        writes_comp [OF writes_fmt writes_base64]]]]
  by simp

lemma writes_assets: "writes (w_assets b as) (asset_parts b as)"
proof (induction as)
  case (Cons a as)
  have "writes (\<lambda>w. w_assets b as (w_asset_part a (w_boundary b False (w_str CRLF w))))
      (CRLF @ boundary_line b False @ asset_part a @ asset_parts b as)"
    by (rule writes_comp [OF writes_str writes_comp [OF writes_boundary writes_comp [OF writes_asset_part Cons.IH]]])
  then show ?case by (simp add: asset_parts_def writes_def)
qed (simp add: writes_def asset_parts_def)

lemma writes_html: "writes (w_html_and_assets m page b) (html_and_assets m page b)"
proof (cases "asset_count m = 0")
  case True
  then show ?thesis using writes_text_part by (simp add: w_html_and_assets_def html_and_assets_def writes_def)
next
  case False
  have "writes (\<lambda>w. w_boundary b True (w_str CRLF (w_assets b (mail_assets m)
      (w_text_part ''html'' page (w_boundary b False (w_fmt (related_head b) w))))))
    (related_head b @ boundary_line b False @ text_part ''html'' page @ asset_parts b (mail_assets m) @ CRLF
      @ boundary_line b True)"
    by (rule writes_comp [OF writes_fmt writes_comp [OF writes_boundary writes_comp [OF writes_text_part
          writes_comp [OF writes_assets writes_comp [OF writes_str writes_boundary]]]]])
  then show ?thesis using False by (simp add: w_html_and_assets_def html_and_assets_def writes_def)
qed

lemma writes_headers: "writes (w_headers h) (header_text h)"
  unfolding w_headers_def header_text_def
  by (rule writes_comp [OF writes_fmt writes_comp [OF writes_fmt writes_comp [OF writes_fmt writes_comp [OF writes_fmt
        writes_comp [OF writes_fmt writes_str]]]]])

lemma writes_content: "writes (w_content m h) (content_text m h)"
proof (cases "body m"; cases "html m")
  fix b page
  assume bh: "body m = Some b" "html m = Some page"
  have "writes (\<lambda>w. w_boundary (h_alt h) True (w_str CRLF (w_html_and_assets m page (h_rel h)
      (w_boundary (h_alt h) False (w_str CRLF (w_text_part ''plain'' b
        (w_boundary (h_alt h) False (w_fmt (alt_head (h_alt h)) w))))))))
    (alt_head (h_alt h) @ boundary_line (h_alt h) False @ text_part ''plain'' b @ CRLF
      @ boundary_line (h_alt h) False @ html_and_assets m page (h_rel h) @ CRLF @ boundary_line (h_alt h) True)"
    by (rule writes_comp [OF writes_fmt writes_comp [OF writes_boundary writes_comp [OF writes_text_part writes_comp
          [OF writes_str writes_comp [OF writes_boundary writes_comp [OF writes_html writes_comp
            [OF writes_str writes_boundary]]]]]]])
  then show ?thesis by (simp add: w_content_def content_text_def writes_def bh)
qed (use writes_html writes_text_part in \<open>simp_all add: w_content_def content_text_def writes_def\<close>)

text \<open>No emitter changes the size of the buffer.\<close>

lemma cap_bytes [simp]:
  "w_cap (w_bytes s w) = w_cap w" "w_cap (w_str s w) = w_cap w" "w_cap (w_fmt s w) = w_cap w"
  "w_cap (w_byte c w) = w_cap w" "w_cap (w_escape c w) = w_cap w" "w_cap (w_boundary b l w) = w_cap w"
  by (simp_all add: w_bytes_def w_str_def w_fmt_def w_byte_def w_escape_def w_boundary_def)

lemma cap_break [simp]: "w_cap (w_break column w) = w_cap w"
  by (simp add: w_break_def Let_def)

lemma cap_qp [simp]: "w_cap (w_qp_loop column s w) = w_cap w"
  by (induction column s w rule: w_qp_loop.induct) (auto simp: Let_def)

lemma cap_base64 [simp]: "w_cap (w_base64 src w) = w_cap w"
  by (induction src w rule: w_base64.induct) (subst w_base64.simps, simp)

lemma cap_parts [simp]: "w_cap (w_text_part st c w) = w_cap w" "w_cap (w_asset_part a w) = w_cap w"
  by (simp_all add: w_text_part_def w_qp_def w_asset_part_def)

lemma cap_assets [simp]: "w_cap (w_assets b as w) = w_cap w"
  by (induction b as w rule: w_assets.induct) simp_all

lemma keeps_cap: "w_cap (w_headers h w) = w_cap w" "w_cap (w_content m h w) = w_cap w"
  by (simp_all add: w_headers_def w_content_def w_html_and_assets_def split: option.splits)

definition first_writer :: "string \<Rightarrow> sc_mail_writer" where
  "first_writer buffer =
     \<lparr>w_dst = take (length buffer - 1) buffer, w_cap = (if 0 < length buffer then length buffer - 1 else 0), w_used = 0\<rparr>"

lemma format_with:
  assumes "prepare utc origin m sequence now_ms = Inr h" and "w_content m h (w_headers h (first_writer buffer)) = w"
  shows "sc_mail_format utc origin m sequence now_ms buffer
      = (if w_used w + 1 > length buffer
         then \<lparr>r_status = SC_ERR_TOO_LONG, r_data = None, r_len = w_used w + 1, r_msgid = h_msgid h\<rparr>
         else \<lparr>r_status = SC_OK, r_data = Some (take (w_used w) (w_dst w)), r_len = w_used w, r_msgid = h_msgid h\<rparr>)"
  using assms(2) by (simp only: sc_mail_format_def assms(1) first_writer_def Let_def sum.case)

lemma first_writer_ok: "sim (first_writer buffer) []" "w_cap (first_writer buffer) = length buffer - 1"
  by (cases buffer; auto simp: sim_def first_writer_def)+



lemma breaks_control: "is_control CR" "is_control LF"
  by code_simp+

lemma subject_no_break:
  assumes "sc_mail_encode_subject cap (Some s) = Inr out"
  shows "CR \<notin> set s \<and> LF \<notin> set s"
  using assms breaks_control by (auto simp: sc_mail_encode_subject_def list_ex_iff split: if_splits option.splits)

lemma name_no_break:
  assumes "format_display_name cap (Some s) = Inr out"
  shows "CR \<notin> set s \<and> LF \<notin> set s"
proof (cases "scan_name s False")
  case Name_high
  then show ?thesis using assms subject_no_break by (cases "s = []") (auto simp: format_display_name_def)
next
  case (Name_ascii q)
  have "\<not> is_plain CR" "\<not> is_plain LF" using breaks_control by (simp_all add: is_plain_def)
  then show ?thesis using scan_name_ascii [OF Name_ascii] by (auto simp: list_all_iff)
qed (use assms in \<open>auto simp: format_display_name_def split: if_splits\<close>)


definition demo_mail :: sc_mail where
  "demo_mail = \<lparr>to_addr = Some ''a@b'', subject = Some ''hi'', body = Some ''x'', html = Some ''y'', assets = None,
     asset_count = 0\<rparr>"

definition demo_origin :: sc_mail_origin where
  "demo_origin = \<lparr>from_addr = Some ''c@d'', from_name = None, o_msgid_domain = None\<rparr>"


definition demo_text :: string where
  "demo_text = (case mail_message (\<lambda>_. None) demo_origin demo_mail 1 0 of Inl _ \<Rightarrow> [] | Inr t \<Rightarrow> t)"

text \<open>
  What lies in the buffer behind the text: the emitters only ever leave terminators there, so a
  buffer without line feeds has none behind the text.
\<close>

definition clean :: "sc_mail_writer \<Rightarrow> bool" where
  "clean w \<longleftrightarrow> length (w_dst w) = w_cap w \<and> (\<forall>i < w_cap w. w_used w \<le> i \<longrightarrow> w_dst w ! i \<noteq> LF)"

lemma overwrite_nth:
  assumes "at + length s \<le> length mem" and "i < length mem"
  shows "overwrite mem at s ! i = (if i < at then mem ! i else if i < at + length s then s ! (i - at) else mem ! i)"
  using assms by (auto simp: overwrite_def nth_append min_def)

lemma clean_bytes: "clean w \<Longrightarrow> clean (w_bytes s w)"
  by (auto simp: clean_def w_bytes_def overwrite_nth)

lemma clean_byte: "clean w \<Longrightarrow> clean (w_byte c w)"
  by (auto simp: clean_def w_byte_def nth_list_update)

lemma clean_fmt: "clean w \<Longrightarrow> clean (w_fmt s w)"
  by (auto simp: clean_def w_fmt_def overwrite_nth nth_append)

lemma clean_escape: "clean w \<Longrightarrow> clean (w_escape c w)"
  by (simp add: w_escape_def clean_byte)

lemma clean_str: "clean w \<Longrightarrow> clean (w_str s w)"
  by (simp add: w_str_def clean_bytes)

lemma clean_break: "clean w \<Longrightarrow> clean (w_break column w)"
proof -
  assume c: "clean w"
  have "clean (w\<lparr>w_used := w_used w - 1\<rparr>)" if "w_dst w ! (w_used w - 1) \<noteq> LF"
    unfolding clean_def
  proof (intro conjI allI impI)
    fix i
    assume "i < w_cap (w\<lparr>w_used := w_used w - 1\<rparr>)" "w_used (w\<lparr>w_used := w_used w - 1\<rparr>) \<le> i"
    then show "w_dst (w\<lparr>w_used := w_used w - 1\<rparr>) ! i \<noteq> LF"
      using c that by (cases "i = w_used w - 1") (auto simp: clean_def)
  qed (use c in \<open>simp add: clean_def\<close>)
  then show ?thesis using c by (auto simp: w_break_def Let_def intro!: clean_str clean_escape split: if_splits)
qed

lemma clean_qp: "clean w \<Longrightarrow> clean (w_qp_loop column s w)"
proof (induction column s w rule: w_qp_loop.induct)
  case (2 column c cs w)
  show ?case
  proof (cases "c = CR \<or> c = LF")
    case True
    then show ?thesis using 2(1) [OF True clean_break [OF 2(3)]] by simp
  next
    case False
    then show ?thesis
      using 2(2) [OF False refl refl refl refl] 2(3) unfolding w_qp_loop.simps Let_def
      by (auto simp: clean_str clean_byte clean_escape)
  qed
qed (simp add: clean_str)

lemma clean_base64: "clean w \<Longrightarrow> clean (w_base64 src w)"
proof (induction src w rule: w_base64.induct)
  case (1 src w)
  then show ?case by (subst w_base64.simps) (auto intro: clean_str clean_bytes)
qed

lemmas clean_intros = clean_str clean_fmt clean_bytes clean_base64 clean_qp

lemma clean_parts: "clean w \<Longrightarrow> clean (w_text_part st c w)" "clean w \<Longrightarrow> clean (w_asset_part a w)"
    "clean w \<Longrightarrow> clean (w_boundary b l w)"
  by (simp_all add: w_text_part_def w_qp_def w_asset_part_def w_boundary_def clean_intros)

lemma clean_assets: "clean w \<Longrightarrow> clean (w_assets b as w)"
  by (induction b as w rule: w_assets.induct) (simp_all add: clean_parts clean_str)

lemma clean_html: "clean w \<Longrightarrow> clean (w_html_and_assets m page b w)"
  by (simp add: w_html_and_assets_def clean_parts clean_assets clean_intros)

lemma clean_headers: "clean w \<Longrightarrow> clean (w_headers h w)"
  by (simp add: w_headers_def clean_intros)

text \<open>The last emitter of a message with two alternatives writes a boundary through \<open>w_fmt\<close>.\<close>

lemma last_boundary:
  assumes "body m = Some b" "html m = Some page" and "sim w0 []" "clean w0"
  shows "\<exists>w t. w_content m h (w_headers h w0) = w_fmt (boundary_line (h_alt h) True) w
    \<and> header_text h @ content_text m h = t @ boundary_line (h_alt h) True \<and> sim w t \<and> clean w \<and> w_cap w = w_cap w0"
proof -
  let ?f = "\<lambda>w. w_str CRLF (w_html_and_assets m page (h_rel h)
      (w_boundary (h_alt h) False (w_str CRLF (w_text_part ''plain'' b
        (w_boundary (h_alt h) False (w_fmt (alt_head (h_alt h)) w))))))"
  let ?t = "alt_head (h_alt h) @ boundary_line (h_alt h) False @ text_part ''plain'' b @ CRLF
      @ boundary_line (h_alt h) False @ html_and_assets m page (h_rel h) @ CRLF"
  have f: "writes ?f ?t"
    by (rule writes_comp [OF writes_fmt writes_comp [OF writes_boundary writes_comp [OF writes_text_part writes_comp
          [OF writes_str writes_comp [OF writes_boundary writes_comp [OF writes_html writes_str]]]]]])
  have s: "sim (?f (w_headers h w0)) (header_text h @ ?t)"
    using writesD [OF f writesD [OF writes_headers assms(3)], of h] by simp
  have c: "clean (?f (w_headers h w0))"
    by (intro clean_str clean_html clean_parts clean_fmt clean_headers assms(4))
  have k: "w_cap (?f (w_headers h w0)) = w_cap w0" by (simp add: w_html_and_assets_def keeps_cap)
  show ?thesis
    by (intro exI [of _ "?f (w_headers h w0)"] exI [of _ "header_text h @ ?t"])
      (use s c k in \<open>simp add: w_content_def content_text_def assms(1,2) w_boundary_def\<close>)
qed



end
