(* ===== verification/SqlSplit.thy ===== *)
theory SqlSplit
  imports CText "HOL-Library.Code_Target_Nat"
begin

text \<open>
  How a migration's \<^verbatim>\<open>.sql\<close> file becomes statements: the splitter of
  \<^verbatim>\<open>backend-core/src/database/migrations.c\<close> (\<^verbatim>\<open>closing_quote\<close>, \<^verbatim>\<open>dollar_tag\<close>, \<^verbatim>\<open>strip_comments\<close>,
  \<^verbatim>\<open>bc_sql_split_next\<close>).

  An index into the file is the rest of the file from there; \<^verbatim>\<open>*pos\<close> is \<open>None\<close> once it has passed
  the end. Shown: a file put together from statements, whose strings and dollar-quoted bodies may
  hold semicolons, quotes and dashes, and from comment lines is split into exactly those
  statements.
\<close>

section \<open>Spans\<close>

definition SEMICOLON :: char where "SEMICOLON = CHR '';''"
definition DOLLAR :: char where "DOLLAR = CHR ''$''"
definition DASH :: char where "DASH = CHR ''-''"

lemmas sql_chars = SEMICOLON_def DOLLAR_def DASH_def

text \<open>How many characters the string after its opening quote takes, the closing quote included.\<close>

fun quote_walk :: "string \<Rightarrow> nat" where
  "quote_walk [] = 0"
| "quote_walk (c # cs) =
     (if c = APOS
      then (case cs of [] \<Rightarrow> 1 | d # ds \<Rightarrow> if d = APOS then 2 + quote_walk ds else 1)
      else 1 + quote_walk cs)"

definition closing_quote :: "string \<Rightarrow> nat" where
  "closing_quote s = 1 + quote_walk (tl s)"

definition is_tag_start :: "char \<Rightarrow> bool" where
  "is_tag_start c \<longleftrightarrow> c = CHR ''_'' \<or> is_upper c \<or> is_lower c"

fun tag_walk :: "nat \<Rightarrow> string \<Rightarrow> nat" where
  "tag_walk k [] = 0"
| "tag_walk k (c # cs) =
     (if c = DOLLAR then (if k = 0 then 0 else k + 2)
      else if is_tag_start c then tag_walk (k + 1) cs
      else if 0 < k \<and> is_digit c then tag_walk (k + 1) cs
      else 0)"

text \<open>The length of \<^verbatim>\<open>$$\<close> or \<^verbatim>\<open>$name$\<close> at the head of the text, or 0.\<close>

definition dollar_tag :: "string \<Rightarrow> nat" where
  "dollar_tag s = (if tl s \<noteq> [] \<and> hd (tl s) = DOLLAR then 2 else tag_walk 0 (tl s))"

text \<open>The search for the tag that closes a body.\<close>

fun find_tag :: "string \<Rightarrow> string \<Rightarrow> nat option" where
  "find_tag t s =
     (if length s < length t then None
      else if take (length t) s = t then Some 0
      else (case s of [] \<Rightarrow> None | _ # cs \<Rightarrow> map_option Suc (find_tag t cs)))"

declare find_tag.simps [simp del]

definition body_span :: "string \<Rightarrow> nat" where
  "body_span s =
     (let tag = dollar_tag s
      in if tag = 0 then 1
         else (case find_tag (take tag s) (drop tag s) of
                 None \<Rightarrow> length s
               | Some k \<Rightarrow> tag + k + tag))"

text \<open>How far one turn of the inner loop goes.\<close>

definition span :: "string \<Rightarrow> nat" where
  "span s =
     (if hd s = APOS then closing_quote s
      else if hd s = DOLLAR then body_span s
      else if hd s = DASH \<and> tl s \<noteq> [] \<and> hd (tl s) = DASH then length (takeWhile (\<lambda>c. c \<noteq> LF) s)
      else 1)"

lemma quote_walk_le: "quote_walk s \<le> length s"
  by (induction s rule: quote_walk.induct) (auto split: list.splits)

lemma find_tag_Some: "find_tag t s = Some k \<Longrightarrow> k + length t \<le> length s"
proof (induction t s arbitrary: k rule: find_tag.induct)
  case (1 t s)
  from 1(2) show ?case
    by (subst (asm) find_tag.simps) (use 1(1) in \<open>auto split: if_splits list.splits\<close>)
qed

lemma tag_walk_le: "tag_walk k s \<le> k + length s + 1"
  by (induction k s rule: tag_walk.induct) (auto simp: Suc_leI intro: le_trans)

lemma dollar_tag_le: "s \<noteq> [] \<Longrightarrow> dollar_tag s \<le> length s"
  using tag_walk_le [of 0 "tl s"] by (cases s) (auto simp: dollar_tag_def Suc_le_eq)

lemma span_pos: "s \<noteq> [] \<Longrightarrow> 0 < span s"
  by (cases s) (auto simp: span_def closing_quote_def body_span_def Let_def sql_chars split: option.splits)

lemma body_span_le:
  assumes "s \<noteq> []"
  shows "body_span s \<le> length s"
proof (cases "find_tag (take (dollar_tag s) s) (drop (dollar_tag s) s)")
  case None
  then show ?thesis using assms by (cases s) (auto simp: body_span_def Let_def)
next
  case (Some k)
  have "k + dollar_tag s \<le> length s - dollar_tag s"
    using find_tag_Some [OF Some] dollar_tag_le [OF assms] by (simp add: min_absorb2)
  with Some dollar_tag_le [OF assms] assms show ?thesis
    by (auto simp: body_span_def Let_def Suc_le_eq)
qed

lemma span_le: "s \<noteq> [] \<Longrightarrow> span s \<le> length s"
  using quote_walk_le [of "tl s"] body_span_le [of s] length_takeWhile_le [of "\<lambda>c. c \<noteq> LF" s]
  by (cases s) (auto simp: span_def closing_quote_def)

section \<open>Comment lines\<close>

definition is_comment :: "string \<Rightarrow> bool" where
  "is_comment line =
     (case dropWhile is_blank line of a # b # _ \<Rightarrow> a = DASH \<and> b = DASH | _ \<Rightarrow> False)"

function strip_lines :: "string \<Rightarrow> string \<Rightarrow> string" where
  "strip_lines written s =
     (if s = [] then written
      else let line = takeWhile (\<lambda>c. c \<noteq> LF) s
           in strip_lines
                (if is_comment line then written
                 else written @ (if written \<noteq> [] then [LF] else []) @ line)
                (drop (length line + 1) s))"
  by pat_completeness auto
termination
  by (relation "measure (\<lambda>(_, s). length s)") auto

declare strip_lines.simps [simp del]

text \<open>The lines are moved within one buffer: the writing never overtakes the reading.\<close>

lemma strip_lines_in_place:
  "length (strip_lines w s) \<le> length w + (if w = [] \<or> s = [] then 0 else 1) + length s"
proof (induction w s rule: strip_lines.induct)
  case (1 w s)
  show ?case
  proof (cases "s = []")
    case False
    define line where "line = takeWhile (\<lambda>c. c \<noteq> LF) s"
    have "length line \<le> length s" unfolding line_def by (rule length_takeWhile_le)
    with 1 [OF False line_def] False show ?thesis
      by (subst strip_lines.simps) (auto simp: Let_def line_def [symmetric] split: if_splits)
  qed (simp add: strip_lines.simps)
qed

definition is_trimmed :: "char \<Rightarrow> bool" where
  "is_trimmed c \<longleftrightarrow> c = SPACE \<or> c = TAB \<or> c = LF \<or> c = CR"

definition strip_comments :: "string \<Rightarrow> string" where
  "strip_comments s = rtrim is_trimmed (ltrim is_trimmed (strip_lines [] s))"

section \<open>The next statement\<close>

text \<open>
  The inner loop: what has been copied, the rest of the file and whether a semicolon ended it;
  \<open>None\<close> when it does not fit.
\<close>

function scan :: "nat \<Rightarrow> string \<Rightarrow> string \<Rightarrow> (string \<times> string \<times> bool) option" where
  "scan out_size written s =
     (if s = [] then Some (written, [], False)
      else if hd s = SEMICOLON then Some (written, tl s, True)
      else if length written + span s + 1 > out_size then None
      else scan out_size (written @ take (span s) s) (drop (span s) s))"
  by pat_completeness auto
termination
  by (relation "measure (\<lambda>(_, _, s). length s)") (auto simp: span_pos)

declare scan.simps [simp del]

datatype split = Split_stmt string "string option" | Split_end | Split_long

lemma scan_rest: "scan cap w s = Some (t, rest, ended) \<Longrightarrow> length rest \<le> length s \<and> (ended \<longrightarrow> length rest < length s)"
proof (induction cap w s rule: scan.induct)
  case (1 cap w s)
  show ?case
    using 1(2)
    by (subst (asm) scan.simps) (force split: if_splits dest: 1(1))
qed

function bc_sql_split_next :: "nat \<Rightarrow> string option \<Rightarrow> split" where
  "bc_sql_split_next out_size at =
     (if out_size = 0 then Split_long
      else case at of
        None \<Rightarrow> Split_end
      | Some s \<Rightarrow>
          (case scan out_size [] s of
             None \<Rightarrow> Split_long
           | Some (written, rest, ended) \<Rightarrow>
               let at' = (if ended then Some rest else None);
                   statement = strip_comments written
               in if statement \<noteq> [] then Split_stmt statement at' else bc_sql_split_next out_size at'))"
  by pat_completeness auto
termination
  by (relation "measure (\<lambda>(_, at). case at of None \<Rightarrow> 0 | Some s \<Rightarrow> Suc (length s))")
    (auto dest: scan_rest split: if_splits)

declare bc_sql_split_next.simps [simp del]

text \<open>Each call goes further into the file.\<close>

definition left :: "string option \<Rightarrow> nat" where
  "left at = (case at of None \<Rightarrow> 0 | Some s \<Rightarrow> Suc (length s))"

lemma split_next_further: "bc_sql_split_next cap at = Split_stmt t at' \<Longrightarrow> left at' < left at"
proof (induction cap at rule: bc_sql_split_next.induct)
  case (1 cap at)
  then obtain s where s: "cap \<noteq> 0" "at = Some s"
    by (subst (asm) (2) bc_sql_split_next.simps) (auto split: if_splits option.splits)
  with 1(2) obtain w rest ended where scanned: "scan cap [] s = Some (w, rest, ended)"
    by (subst (asm) bc_sql_split_next.simps) (auto split: option.splits prod.splits)
  define a where "a = (if ended then Some rest else None)"
  have less: "left a < left at"
    using scan_rest [OF scanned] s by (auto simp: left_def a_def)
  have step: "bc_sql_split_next cap at =
      (if strip_comments w \<noteq> [] then Split_stmt (strip_comments w) a else bc_sql_split_next cap a)"
    by (subst bc_sql_split_next.simps) (simp add: s scanned a_def)
  show ?case
  proof (cases "strip_comments w \<noteq> []")
    case True
    with step 1(2) less show ?thesis by simp
  next
    case False
    with step 1(2) have "bc_sql_split_next cap a = Split_stmt t at'" by simp
    with 1(1) [OF s scanned refl refl a_def refl] False less show ?thesis by simp
  qed
qed

text \<open>The loop of \<^verbatim>\<open>apply\<close> around it: the statements, and whether one was too long.\<close>

function statements :: "nat \<Rightarrow> string option \<Rightarrow> string list \<times> bool" where
  "statements out_size at =
     (case bc_sql_split_next out_size at of
        Split_stmt t at' \<Rightarrow> (let (ts, long) = statements out_size at' in (t # ts, long))
      | Split_end \<Rightarrow> ([], False)
      | Split_long \<Rightarrow> ([], True))"
  by pat_completeness auto
termination
  by (relation "measure (\<lambda>(_, at). left at)") (auto dest: split_next_further)

declare statements.simps [simp del]

section \<open>Files made of statements\<close>

text \<open>
  A statement as it is written: characters, strings, dollar-quoted bodies and comments at the end
  of a line.
\<close>

datatype piece = Plain char | Str string | Body string string | Note string

definition double_apos :: "string \<Rightarrow> string" where
  "double_apos s = concat (map (\<lambda>c. if c = APOS then [APOS, APOS] else [c]) s)"

definition tag_text :: "string \<Rightarrow> string" where
  "tag_text t = DOLLAR # t @ [DOLLAR]"

definition comment_line :: "string \<Rightarrow> string" where
  "comment_line c = [DASH, DASH] @ c @ [LF]"

fun piece_text :: "piece \<Rightarrow> string" where
  "piece_text (Plain c) = [c]"
| "piece_text (Str s) = APOS # double_apos s @ [APOS]"
| "piece_text (Body t b) = tag_text t @ b @ tag_text t"
| "piece_text (Note c) = comment_line c"

definition texts :: "piece list \<Rightarrow> string" where
  "texts ps = concat (map piece_text ps)"

definition tag_ok :: "string \<Rightarrow> bool" where
  "tag_ok t \<longleftrightarrow> t = [] \<or> is_tag_start (hd t) \<and> (\<forall>c \<in> set (tl t). is_tag_start c \<or> is_digit c)"

fun piece_ok :: "piece \<Rightarrow> bool" where
  "piece_ok (Plain c) \<longleftrightarrow> c \<noteq> SEMICOLON \<and> c \<noteq> APOS \<and> c \<noteq> DOLLAR"
| "piece_ok (Str s) \<longleftrightarrow> True"
| "piece_ok (Body t b) \<longleftrightarrow> tag_ok t \<and> find_tag (tag_text t) (b @ tag_text t) = Some (length b)"
| "piece_ok (Note c) \<longleftrightarrow> LF \<notin> set c"

text \<open>Two strings side by side would be one, two dashes a comment.\<close>

fun apart :: "piece list \<Rightarrow> bool" where
  "apart (Str _ # Str _ # _) = False"
| "apart (Plain c # p # ps) = ((c = DASH \<longrightarrow> (case p of Plain d \<Rightarrow> d \<noteq> DASH | Note _ \<Rightarrow> False | _ \<Rightarrow> True)) \<and> apart (p # ps))"
| "apart (_ # ps) = apart ps"
| "apart [] = True"

text \<open>The lines of a text.\<close>

function split_lines :: "string \<Rightarrow> string list" where
  "split_lines s =
     takeWhile (\<lambda>c. c \<noteq> LF) s #
       (case dropWhile (\<lambda>c. c \<noteq> LF) s of [] \<Rightarrow> [] | _ # r \<Rightarrow> split_lines r)"
  by pat_completeness auto
termination
proof (relation "measure length", simp)
  fix s a r assume "dropWhile (\<lambda>c. c \<noteq> LF) s = a # (r :: string)"
  then show "(r, s) \<in> measure length"
    using length_dropWhile_le [of "\<lambda>c. c \<noteq> LF" s] by simp
qed

declare split_lines.simps [simp del]

definition statement_ok :: "piece list \<Rightarrow> bool" where
  "statement_ok ps \<longleftrightarrow>
     list_all piece_ok ps \<and> apart ps \<and> texts ps \<noteq> [] \<and>
     \<not> is_trimmed (hd (texts ps)) \<and> \<not> is_trimmed (last (texts ps)) \<and>
     list_all (\<lambda>l. \<not> is_comment l) (split_lines (texts ps))"

text \<open>
  A file: before each statement the comment lines that belong to it, after it a semicolon and a
  line end, and comment lines at the end.
\<close>

definition comment_lines :: "string list \<Rightarrow> string" where
  "comment_lines cs = concat (map comment_line cs)"

definition script :: "(string list \<times> piece list) list \<Rightarrow> string list \<Rightarrow> string" where
  "script items ending =
     concat (map (\<lambda>(cs, ps). comment_lines cs @ texts ps @ [SEMICOLON, LF]) items) @ comment_lines ending"

definition comments_fit :: "nat \<Rightarrow> string list \<Rightarrow> nat \<Rightarrow> bool" where
  "comments_fit cap cs n \<longleftrightarrow> list_all (\<lambda>c. LF \<notin> set c) cs \<and> length (comment_lines cs) + n + 2 \<le> cap"

definition script_ok :: "nat \<Rightarrow> (string list \<times> piece list) list \<Rightarrow> string list \<Rightarrow> bool" where
  "script_ok cap items ending \<longleftrightarrow>
     list_all (\<lambda>(cs, ps). statement_ok ps \<and> comments_fit cap cs (length (texts ps))) items \<and>
     comments_fit cap ending 0"

section \<open>Scanning the pieces\<close>

lemma quote_walk_apos:
  "rest = [] \<or> hd rest \<noteq> APOS \<Longrightarrow> quote_walk (double_apos s @ APOS # rest) = length (double_apos s) + 1"
  by (induction s) (auto simp: double_apos_def split: list.splits)

lemma tag_chars: "is_tag_start c \<Longrightarrow> c \<noteq> DOLLAR" "is_digit c \<Longrightarrow> c \<noteq> DOLLAR"
  by (auto simp: is_tag_start_def is_upper_def is_lower_def is_digit_def in_range_def code_of_def DOLLAR_def)

lemma tag_walk_digits:
  assumes "\<forall>c \<in> set t. is_tag_start c \<or> is_digit c" and "0 < k"
  shows "tag_walk k (t @ DOLLAR # rest) = k + length t + 2"
  using assms by (induction t arbitrary: k) (auto simp: tag_chars)

lemma dollar_tag_text: "tag_ok t \<Longrightarrow> dollar_tag (tag_text t @ rest) = length (tag_text t)"
  by (cases t) (auto simp: tag_ok_def dollar_tag_def tag_text_def tag_chars tag_walk_digits)

lemma tag_text_ne [simp]: "tag_text t \<noteq> []"
  by (simp add: tag_text_def)

lemma find_tag_append:
  "find_tag t s = Some k \<Longrightarrow> find_tag t (s @ rest) = Some k"
proof (induction t s arbitrary: k rule: find_tag.induct)
  case (1 t s)
  from 1(2) have long: "length t \<le> length s" by (subst (asm) find_tag.simps) (auto split: if_splits)
  show ?case
  proof (cases "take (length t) s = t")
    case True
    with 1(2) long show ?thesis by (subst find_tag.simps, subst (asm) find_tag.simps) auto
  next
    case False
    with 1(2) long obtain c cs j where s: "s = c # cs" "find_tag t cs = Some j" "k = Suc j"
      by (subst (asm) find_tag.simps) (auto split: list.splits)
    have "find_tag t (cs @ rest) = Some j" using 1(1) [OF _ False] long s by auto
    moreover have "take (length t) (s @ rest) \<noteq> t" using False long by simp
    ultimately show ?thesis using s(1,3) long by (subst find_tag.simps) auto
  qed
qed

lemma span_piece:
  assumes "piece_ok p" and "apart (p # ps)" and "list_all piece_ok ps"
    and "rest = texts ps @ SEMICOLON # r \<or> rest = texts ps"
  shows "\<exists>n. 0 < n \<and> span (piece_text p @ rest) = n \<and>
           (n = length (piece_text p) \<or> (\<exists>c. p = Note c) \<and> n + 1 = length (piece_text p)) \<and>
           hd (piece_text p) \<noteq> SEMICOLON"
proof (cases p)
  case (Plain c)
  have "\<not> (c = DASH \<and> rest \<noteq> [] \<and> hd rest = DASH)"
  proof (cases ps)
    case Nil
    with assms(4) show ?thesis by (auto simp: texts_def sql_chars)
  next
    case (Cons q qs)
    with assms(2,4) Plain show ?thesis
      by (cases q) (auto simp: texts_def comment_line_def tag_text_def sql_chars)
  qed
  with Plain assms(1) show ?thesis by (auto simp: span_def)
next
  case (Str s)
  have "rest = [] \<or> hd rest \<noteq> APOS"
  proof (cases ps)
    case Nil
    with assms(4) show ?thesis by (auto simp: texts_def sql_chars)
  next
    case (Cons q qs)
    with assms(2-4) Str show ?thesis
      by (cases q) (auto simp: texts_def comment_line_def tag_text_def sql_chars)
  qed
  with Str show ?thesis
    by (simp add: span_def closing_quote_def quote_walk_apos SEMICOLON_def)
next
  case (Body t b)
  have "find_tag (tag_text t) (b @ tag_text t @ rest) = Some (length b)"
    using find_tag_append [of "tag_text t" "b @ tag_text t" "length b" rest] assms(1) Body by simp
  with Body assms(1) have "body_span (piece_text p @ rest) = length (piece_text p)"
    by (simp add: body_span_def Let_def dollar_tag_text tag_text_ne)
  with Body show ?thesis by (auto simp: span_def tag_text_def sql_chars)
next
  case (Note c)
  have "takeWhile (\<lambda>x. x \<noteq> LF) (piece_text p @ rest) = [DASH, DASH] @ c"
    using assms(1) Note by (simp add: comment_line_def DASH_def)
  with Note show ?thesis by (auto simp: span_def comment_line_def sql_chars)
qed

lemma scan_line_end: "length w + 2 \<le> cap \<Longrightarrow> scan cap w (LF # s) = scan cap (w @ [LF]) s"
  by (subst scan.simps) (simp add: span_def sql_chars)

lemma scan_pieces:
  assumes "list_all piece_ok ps" and "apart ps" and "rest = SEMICOLON # r \<or> rest = []"
    and "length w + length (texts ps) + 1 \<le> cap"
  shows "scan cap w (texts ps @ rest) = scan cap (w @ texts ps) rest"
  using assms(1,2,4)
proof (induction ps arbitrary: w)
  case Nil
  then show ?case by (simp add: texts_def)
next
  case (Cons p ps)
  define after where "after = texts ps @ rest"
  have t: "texts (p # ps) = piece_text p @ texts ps" by (simp add: texts_def)
  obtain n where n: "0 < n" "span (piece_text p @ after) = n"
      "n = length (piece_text p) \<or> (\<exists>c. p = Note c) \<and> n + 1 = length (piece_text p)"
      "hd (piece_text p) \<noteq> SEMICOLON"
    using span_piece [of p ps after r] Cons.prems assms(3) by (auto simp: after_def)
  have ne: "piece_text p \<noteq> []" using n(1,3) by auto
  have fit: "length w + n + 1 \<le> cap" using Cons.prems(3) n(3) by (auto simp: t)
  have "scan cap w (piece_text p @ after) =
      scan cap (w @ take n (piece_text p @ after)) (drop n (piece_text p @ after))"
    by (subst scan.simps) (use n ne fit in \<open>simp add: hd_append\<close>)
  also have "\<dots> = scan cap (w @ piece_text p) after"
    using n(3)
  proof
    assume "n = length (piece_text p)"
    then show ?thesis by simp
  next
    assume "(\<exists>c. p = Note c) \<and> n + 1 = length (piece_text p)"
    then obtain c where c: "p = Note c" "n = length ([DASH, DASH] @ c)" by (auto simp: comment_line_def)
    have "piece_text p = ([DASH, DASH] @ c) @ [LF]" using c by (simp add: comment_line_def)
    then have "take n (piece_text p @ after) = [DASH, DASH] @ c" "drop n (piece_text p @ after) = LF # after"
      using c(2) by simp_all
    moreover have "length (w @ [DASH, DASH] @ c) + 2 \<le> cap"
      using Cons.prems(3) unfolding t by (simp add: c comment_line_def)
    ultimately show ?thesis using c by (simp add: scan_line_end comment_line_def)
  qed
  also have "\<dots> = scan cap ((w @ piece_text p) @ texts ps) rest"
    unfolding after_def
    by (rule Cons.IH) (use Cons.prems in \<open>auto simp: t elim: apart.elims\<close>)
  finally show ?case by (simp add: t after_def)
qed

section \<open>Dropping the comment lines\<close>

lemma is_comment_line: "is_comment ([DASH, DASH] @ c)"
  by (simp add: is_comment_def is_blank_def DASH_def)

lemma strip_lines_comment:
  assumes "LF \<notin> set c"
  shows "strip_lines w (comment_line c @ s) = strip_lines w s"
proof -
  have "takeWhile (\<lambda>x. x \<noteq> LF) (comment_line c @ s) = [DASH, DASH] @ c"
    using assms by (simp add: comment_line_def DASH_def)
  then show ?thesis
    by (subst strip_lines.simps) (simp add: is_comment_line [simplified] comment_line_def)
qed

lemma strip_lines_comments:
  "list_all (\<lambda>c. LF \<notin> set c) cs \<Longrightarrow> strip_lines w (comment_lines cs @ s) = strip_lines w s"
  by (induction cs) (simp_all add: comment_lines_def strip_lines_comment)

lemma strip_lines_keep:
  assumes "list_all (\<lambda>l. \<not> is_comment l) (split_lines s)" and "s \<noteq> []" and "last s \<noteq> LF"
    and "w = [] \<longrightarrow> hd s \<noteq> LF"
  shows "strip_lines w s = w @ (if w \<noteq> [] then [LF] else []) @ s"
  using assms
proof (induction s arbitrary: w rule: split_lines.induct)
  case (1 s)
  define line where "line = takeWhile (\<lambda>c. c \<noteq> LF) s"
  define w' where "w' = w @ (if w \<noteq> [] then [LF] else []) @ line"
  have nc: "\<not> is_comment line" using 1(2) by (subst (asm) split_lines.simps) (simp add: line_def)
  have step: "strip_lines w s = strip_lines w' (drop (length line + 1) s)"
    using nc 1(3) by (subst strip_lines.simps) (simp add: line_def [symmetric] w'_def)
  have sp: "line @ dropWhile (\<lambda>c. c \<noteq> LF) s = s" by (simp add: line_def)
  show ?case
  proof (cases "dropWhile (\<lambda>c. c \<noteq> LF) s")
    case Nil
    have "line = s" using sp unfolding Nil by simp
    then show ?thesis unfolding step w'_def by (subst strip_lines.simps) simp
  next
    case (Cons x r)
    have x: "x = LF" using hd_dropWhile [of "\<lambda>c. c \<noteq> LF" s] Cons by simp
    have s: "s = line @ LF # r" using sp unfolding Cons x by (rule sym)
    have r: "r \<noteq> []" "last r \<noteq> LF" using 1(4) by (auto simp: s split: if_splits)
    have w': "w' \<noteq> []" using 1(5) unfolding w'_def by (cases line) (auto simp: s)
    have "list_all (\<lambda>l. \<not> is_comment l) (split_lines r)"
      using 1(2) by (subst (asm) split_lines.simps) (simp add: Cons)
    then have "strip_lines w' r = w' @ [LF] @ r"
      using 1(1) [OF Cons, of w'] r w' by simp
    moreover have "drop (length line + 1) s = r" by (subst s) simp
    ultimately show ?thesis unfolding step by (subst s) (simp add: w'_def)
  qed
qed

lemma strip_statement:
  assumes "statement_ok ps" and "list_all (\<lambda>c. LF \<notin> set c) cs" and "lead = [] \<or> lead = [LF]"
  shows "strip_comments (lead @ comment_lines cs @ texts ps) = texts ps"
proof -
  have lf: "is_trimmed LF" by (simp add: is_trimmed_def)
  have t: "strip_lines [] (texts ps) = texts ps"
    using assms(1) lf by (subst strip_lines_keep) (auto simp: statement_ok_def)
  have lead: "strip_lines [] (lead @ s) = strip_lines [] s" for s
    using assms(3)
  proof
    assume "lead = [LF]"
    then show ?thesis by (subst strip_lines.simps) (simp add: is_comment_def)
  qed simp
  have "strip_lines [] (lead @ comment_lines cs @ texts ps) = texts ps"
    by (simp only: lead strip_lines_comments [OF assms(2)] t)
  moreover have "ltrim is_trimmed (texts ps) = texts ps"
    using assms(1) by (cases "texts ps") (auto simp: ltrim_def statement_ok_def)
  moreover have "rtrim is_trimmed (texts ps) = texts ps"
    using assms(1) by (intro rtrim_id) (auto simp: statement_ok_def)
  ultimately show ?thesis by (simp add: strip_comments_def)
qed

lemma strip_nothing:
  assumes "list_all (\<lambda>c. LF \<notin> set c) cs" and "lead = [] \<or> lead = [LF]"
  shows "strip_comments (lead @ comment_lines cs) = []"
proof -
  have "strip_lines [] (lead @ s) = strip_lines [] s" for s
    using assms(2) by (auto simp: strip_lines.simps [of "[]" "LF # s"] is_comment_def)
  moreover have "strip_lines [] (comment_lines cs) = []"
    using strip_lines_comments [OF assms(1), of "[]" "[]"] by (simp add: strip_lines.simps)
  ultimately show ?thesis by (simp add: strip_comments_def ltrim_def rtrim_def)
qed

section \<open>The file splits into its statements\<close>

text \<open>Leading comment lines are pieces too.\<close>

lemma notes_texts: "comment_lines cs = texts (map Note cs)"
  by (simp add: comment_lines_def texts_def comp_def)

lemma texts_append: "texts (ps @ qs) = texts ps @ texts qs"
  by (simp add: texts_def)

lemma apart_notes: "apart (map Note cs @ ps) = apart ps"
  by (induction cs) auto

lemma scan_lead:
  assumes "list_all piece_ok ps" and "apart ps" and "lead = [] \<or> lead = [LF]"
    and "comments_fit cap cs (length (texts ps))" and "rest = SEMICOLON # r \<or> rest = []"
  shows "scan cap [] (lead @ comment_lines cs @ texts ps @ rest) = scan cap (lead @ comment_lines cs @ texts ps) rest"
proof -
  let ?qs = "map Note cs @ ps"
  have ok: "list_all piece_ok ?qs" using assms(1,4) by (simp add: comments_fit_def list.pred_map comp_def)
  have len: "length (texts ?qs) + 2 \<le> cap"
    using assms(4) by (simp add: comments_fit_def notes_texts texts_append)
  have "scan cap [] (lead @ texts ?qs @ rest) = scan cap lead (texts ?qs @ rest)"
    using assms(3)
  proof
    assume "lead = [LF]"
    then show ?thesis using scan_line_end [of "[]" cap] len by simp
  qed simp
  also have "\<dots> = scan cap (lead @ texts ?qs) rest"
    using assms(2,3) len by (intro scan_pieces [OF ok _ assms(5)]) (auto simp: apart_notes)
  finally show ?thesis by (simp add: notes_texts texts_append)
qed

lemma split_statement:
  assumes "statement_ok ps" and "comments_fit cap cs (length (texts ps))" and "lead = [] \<or> lead = [LF]"
  shows "bc_sql_split_next cap (Some (lead @ comment_lines cs @ texts ps @ SEMICOLON # r)) =
           Split_stmt (texts ps) (Some r)"
proof -
  have ok: "list_all piece_ok ps" "apart ps" "texts ps \<noteq> []" using assms(1) by (simp_all add: statement_ok_def)
  have "scan cap [] (lead @ comment_lines cs @ texts ps @ SEMICOLON # r) =
      Some (lead @ comment_lines cs @ texts ps, r, True)"
    by (subst scan_lead [OF ok(1,2) assms(3,2)]) (simp_all add: scan.simps)
  moreover have "strip_comments (lead @ comment_lines cs @ texts ps) = texts ps"
    using assms by (intro strip_statement) (auto simp: comments_fit_def)
  moreover have "cap \<noteq> 0" using assms(2) by (simp add: comments_fit_def)
  ultimately show ?thesis using ok(3) by (subst bc_sql_split_next.simps) simp
qed

lemma split_ending:
  assumes "comments_fit cap cs 0" and "lead = [] \<or> lead = [LF]"
  shows "bc_sql_split_next cap (Some (lead @ comment_lines cs)) = Split_end"
proof -
  have "scan cap [] (lead @ comment_lines cs) = Some (lead @ comment_lines cs, [], False)"
    using scan_lead [of "[]" lead cap cs "[]"] assms by (simp add: texts_def scan.simps)
  moreover have "strip_comments (lead @ comment_lines cs) = []"
    using assms by (intro strip_nothing) (auto simp: comments_fit_def)
  moreover have "cap \<noteq> 0" using assms(1) by (simp add: comments_fit_def)
  ultimately show ?thesis
    by (subst bc_sql_split_next.simps) (simp add: bc_sql_split_next.simps [of cap None])
qed

lemma split_script:
  assumes "script_ok cap items ending" and "lead = [] \<or> lead = [LF]"
  shows "statements cap (Some (lead @ script items ending)) = (map (\<lambda>(cs, ps). texts ps) items, False)"
  using assms
proof (induction items arbitrary: lead)
  case Nil
  then show ?case
    by (subst statements.simps) (simp add: script_ok_def script_def split_ending)
next
  case (Cons i items)
  obtain cs ps where i: "i = (cs, ps)" by (cases i)
  have ok: "statement_ok ps" "comments_fit cap cs (length (texts ps))" "script_ok cap items ending"
    using Cons.prems(1) by (simp_all add: script_ok_def i)
  have "lead @ script (i # items) ending =
      lead @ comment_lines cs @ texts ps @ SEMICOLON # ([LF] @ script items ending)"
    by (simp add: script_def i)
  then have "bc_sql_split_next cap (Some (lead @ script (i # items) ending)) =
      Split_stmt (texts ps) (Some ([LF] @ script items ending))"
    using split_statement [OF ok(1,2) Cons.prems(2)] by simp
  moreover have "statements cap (Some ([LF] @ script items ending)) = (map (\<lambda>(cs, ps). texts ps) items, False)"
    by (rule Cons.IH [OF ok(3)]) simp
  ultimately show ?case by (subst statements.simps) (simp add: i)
qed


definition demo_items :: "(string list \<times> piece list) list" where
  "demo_items =
     [([''it'' @ [APOS] @ ''s''], map Plain ''INSERT'' @ [Plain SPACE, Str ''a;b'']),
      ([], [Plain (CHR ''x''), Body ''f'' '' ; $$ '', Note ''no; end'', Plain (CHR ''y'')])]"

lemma demo_script_ok: "script_ok 64 demo_items [''end; '']"
  by code_simp


text \<open>
  What the splitter does beyond its specification: it ends a statement at any semicolon outside
  strings, bodies and comments, not only at one that ends a line; and a line of a string that
  begins with two dashes is dropped from the string.
\<close>

lemma semicolon_mid_line: "statements 32 (Some ''a; b;'') = ([''a'', ''b''], False)"
  by code_simp

lemma string_line_dropped:
  "statements 32 (Some (texts [Str (''a'' @ [LF] @ ''--b'' @ [LF] @ ''c''), Plain SEMICOLON])) =
     ([texts [Str (''a'' @ [LF] @ ''c'')]], False)"
  by code_simp

end
