(* ===== verification/BcSql.thy ===== *)
theory BcSql
  imports Sql
begin

text \<open>
  What the backend puts on top of the statements, \<^verbatim>\<open>backend-core/src/database/sql.c\<close>: a text without
  parameters, the one-line error, the end of a read. The reads that take one number from one row
  (\<open>query_int\<close>) are written out in several places of the sources and named here once.
\<close>

section \<open>Operations\<close>

definition bc_sql_set_error :: "nat \<Rightarrow> string option \<Rightarrow> string" where
  "bc_sql_set_error error_size msg =
     (case msg of
        Some (c # cs) \<Rightarrow>
          rtrim (\<lambda>c. c = SPACE) (map (\<lambda>c. if c = LF \<or> c = CR then SPACE else c) (take (error_size - 1) (c # cs)))
      | _ \<Rightarrow> take (error_size - 1) ''the driver gave no message'')"

definition no_failure :: sc_sql_error where
  "no_failure = \<lparr>error_kind = SC_SQL_ERROR_NONE, constraint = [], message = []\<rparr>"

definition bc_sql_finish :: "'h sc_sql_rows \<Rightarrow> sc_status \<Rightarrow> sc_status" where
  "bc_sql_finish rows status =
     (let (closed, rows') = sc_sql_close rows in if status \<noteq> SC_OK \<or> closed = SC_OK then status else closed)"

definition bc_sql_exec :: "('c, 'h) drivers \<Rightarrow> 'c sc_db \<Rightarrow> string \<Rightarrow> sc_status \<times> 'c sc_db" where
  "bc_sql_exec drv db sql = (let (status, failure, db') = sc_sql_simple drv db sql in (status, db'))"

text \<open>
  A query, the first row's first column as a number if there is a row, and the end of the read:
  the refusal on the left, the number and the verdict of the cursor on the right.
\<close>

definition query_int ::
  "('c, 'h) drivers \<Rightarrow> sql_state \<Rightarrow> 'c sc_db \<Rightarrow> sc_sql_statement \<Rightarrow> sc_sql_param list \<Rightarrow>
   (sc_status \<times> sc_sql_error + int option \<times> sc_status) \<times> 'c sc_db \<times> sql_state" where
  "query_int drv st db statement params =
     (let (status, rows, failure, db', st') = sc_sql_query drv st db statement params no_failure
      in if status \<noteq> SC_OK then (Inl (status, failure), db', st')
         else let (more, rows') = sc_sql_next drv rows
              in (Inr (if more then Some (sc_sql_col_int drv rows' 0) else None, bc_sql_finish rows' SC_OK), db', st'))"

lemma query_int_refused: "query_int drv st db s ps = (Inl (status, failure), db', st') \<Longrightarrow> status \<noteq> SC_OK"
  by (auto simp: query_int_def Let_def split: prod.splits if_splits)

text \<open>The line kept is one line, is trimmed and fits.\<close>

lemma bc_sql_set_error_line:
  assumes "0 < error_size"
  shows "length (bc_sql_set_error error_size msg) < error_size"
    and "LF \<notin> set (bc_sql_set_error error_size msg)" and "CR \<notin> set (bc_sql_set_error error_size msg)"
proof -
  have sub: "length (rtrim P s) \<le> length s" "set (rtrim P s) \<subseteq> set s" for P and s :: string
    using rtrim_prefix [of s P] by (auto dest: arg_cong [of _ _ length] arg_cong [of _ _ set])
  have "set (take n ''the driver gave no message'') \<subseteq> set ''the driver gave no message''" for n by (rule set_take_subset)
  then have const: "LF \<notin> set (take n ''the driver gave no message'')" "CR \<notin> set (take n ''the driver gave no message'')" for n
    by (auto dest: subsetD)
  show "length (bc_sql_set_error error_size msg) < error_size"
    using assms le_less_trans [OF sub(1)]
    by (auto simp: bc_sql_set_error_def split: option.splits list.splits)
  show "LF \<notin> set (bc_sql_set_error error_size msg)" "CR \<notin> set (bc_sql_set_error error_size msg)"
    using const by (auto simp: bc_sql_set_error_def split: option.splits list.splits dest!: subsetD [OF sub(2)] in_set_takeD)
qed

end
