(* ===== verification/Migrations.thy ===== *)
theory Migrations
  imports BcSql SqlSplit "HOL-Library.Sublist"
begin

text \<open>
  Building the schema: \<^verbatim>\<open>backend-core/src/database/migrations.c\<close>. Reading the contract
  (\<^verbatim>\<open>bc_migrations_load\<close>), what the database says has been applied, the comparison of the two, one
  migration as one transaction (\<^verbatim>\<open>apply\<close>), and \<^verbatim>\<open>bc_migrations_run\<close> and \<^verbatim>\<open>bc_migrations_down\<close>.

  The two drivers, the JSON reader and the table of embedded files are parameters, gathered in the
  record \<open>mig_env\<close>. The sentences of errors and log lines are not modelled; the refusals of the
  contract are a datatype with one constructor per sentence.

  Shown: what the loader accepts is well formed; a migration is applied wholly or not at all;
  whatever happens during a run, the applied migrations stay a beginning of the ones this build
  carries, and a run that succeeds has applied them all; a down run undoes the last one only.
\<close>

section \<open>Data\<close>

definition BC_MIGRATION_NAME_MAX :: nat where "BC_MIGRATION_NAME_MAX = 64"
definition BC_MIGRATIONS_MAX :: nat where "BC_MIGRATIONS_MAX = 64"
definition BC_SQL_STATEMENT_MAX :: nat where "BC_SQL_STATEMENT_MAX = 8192"
definition BC_MIGRATE_DOWN_EMPTY_TARGET :: string where "BC_MIGRATE_DOWN_EMPTY_TARGET = ''0''"

record bc_migration =
  m_version :: "32 word"
  m_name :: string
  m_up :: string
  m_down :: "string option"

type_synonym bc_applied_migration = "32 word \<times> string"

definition kMigrationsTablePostgresql :: string where
  "kMigrationsTablePostgresql =
     ''CREATE TABLE IF NOT EXISTS migrations (version integer NOT NULL PRIMARY KEY,'' @
     ''file_name varchar(256),date timestamptz(3) NOT NULL DEFAULT now())''"

definition kMigrationsTableSqlite :: string where
  "kMigrationsTableSqlite =
     ''CREATE TABLE IF NOT EXISTS migrations (version INTEGER NOT NULL PRIMARY KEY,'' @
     ''file_name TEXT,date INTEGER NOT NULL)''"

text \<open>The statements; their numbers stand for the objects themselves.\<close>

definition kSelectApplied :: sc_sql_statement where
  "kSelectApplied = \<lparr>statement_id = 1,
     postgresql = ''SELECT version, file_name FROM migrations ORDER BY version ASC'',
     sqlite = ''SELECT version, file_name FROM migrations ORDER BY version ASC''\<rparr>"

definition kRecordApplied :: sc_sql_statement where
  "kRecordApplied = \<lparr>statement_id = 2,
     postgresql = ''INSERT INTO migrations (version, file_name, date) VALUES ($1, $2, $3)'',
     sqlite = ''INSERT INTO migrations (version, file_name, date) VALUES (?1, ?2, ?3)''\<rparr>"

definition kForgetApplied :: sc_sql_statement where
  "kForgetApplied = \<lparr>statement_id = 3,
     postgresql = ''DELETE FROM migrations WHERE version = $1'',
     sqlite = ''DELETE FROM migrations WHERE version = ?1''\<rparr>"

text \<open>
  What the loader asks the JSON reader: to parse a text, for a member of an object as a value, a
  string or a truth value, and for the elements of an array of bounded length.
\<close>

record 'j json_reader =
  reader_init :: bool
  json_parse :: "string \<Rightarrow> 'j option"
  json_value :: "'j \<Rightarrow> string \<Rightarrow> 'j option"
  json_string :: "'j \<Rightarrow> string \<Rightarrow> string option"
  json_bool :: "'j \<Rightarrow> string \<Rightarrow> bool option"
  json_array :: "'j \<Rightarrow> nat \<Rightarrow> 'j list option"

record ('c, 'h, 'j) mig_env =
  mig_drivers :: "('c, 'h) drivers"
  mig_reader :: "'j json_reader"
  bc_migration_files :: "(string \<times> string) list"
  sc_now_ms :: int

section \<open>The contract\<close>

fun bc_contract_file_find :: "(string \<times> string) list \<Rightarrow> string \<Rightarrow> string option" where
  "bc_contract_file_find [] path = None"
| "bc_contract_file_find ((p, bytes) # fs) path = (if p = path then Some bytes else bc_contract_file_find fs path)"

definition sc_db_kind_name :: "sc_db_kind \<Rightarrow> string" where
  "sc_db_kind_name k = (case k of SC_DB_POSTGRESQL \<Rightarrow> ''postgresql'' | SC_DB_SQLITE \<Rightarrow> ''sqlite'')"

definition block_to_buffer :: "nat \<Rightarrow> string \<Rightarrow> string option" where
  "block_to_buffer out_size block = (if length block + 1 > out_size then None else Some (cstr block))"

definition block_to_version :: "string \<Rightarrow> 32 word" where
  "block_to_version block =
     (if length block + 1 > 16 then 0
      else let t = cstr block; (parsed, rest) = strtoul t
           in if rest = t \<or> rest \<noteq> [] \<or> parsed > 0xffffffff then 0 else of_nat parsed)"

datatype load_error =
    Index_missing | No_memory | Index_unreadable | No_members | No_up_down | No_up_file | No_down_file
  | Too_many | Entry_incomplete | No_version | No_sql | Up_not_embedded | Down_not_embedded

definition load_status :: "load_error \<Rightarrow> sc_status" where
  "load_status e = (if e = No_memory then SC_ERR_NO_MEMORY else SC_ERR_MALFORMED)"

definition file_names ::
  "'j json_reader \<Rightarrow> sc_db_kind \<Rightarrow> 'j \<Rightarrow> load_error + string \<times> string" where
  "file_names rd k files =
     (case (json_value rd files ''up'', json_value rd files ''down'') of
        (Some up_value, Some down_value) \<Rightarrow>
          (case Option.bind (json_string rd up_value (sc_db_kind_name k)) (block_to_buffer 64) of
             None \<Rightarrow> Inl No_up_file
           | Some up_file \<Rightarrow>
               (case Option.bind (json_string rd down_value (sc_db_kind_name k)) (block_to_buffer 64) of
                  None \<Rightarrow> Inl No_down_file
                | Some down_file \<Rightarrow> Inr (up_file, down_file)))
      | _ \<Rightarrow> Inl No_up_down)"

definition migration_path :: "string \<Rightarrow> string \<Rightarrow> string" where
  "migration_path nm file = take (BC_MIGRATION_NAME_MAX + 64 - 1) (nm @ ''/'' @ file)"

text \<open>One turn of the loop over the entries.\<close>

definition load_entry ::
  "'j json_reader \<Rightarrow> (string \<times> string) list \<Rightarrow> string \<Rightarrow> string \<Rightarrow> 'j \<Rightarrow> load_error + bc_migration" where
  "load_entry rd files up_file down_file entry =
     (case (json_string rd entry ''version'', Option.bind (json_string rd entry ''name'') (block_to_buffer BC_MIGRATION_NAME_MAX)) of
        (Some version, Some nm) \<Rightarrow>
          if block_to_version version = 0 then Inl No_version
          else if json_bool rd entry ''sql'' = Some False then Inl No_sql
          else (case bc_contract_file_find files (migration_path nm up_file) of
                  None \<Rightarrow> Inl Up_not_embedded
                | Some up \<Rightarrow>
                    let m = \<lparr>m_version = block_to_version version, m_name = nm, m_up = up, m_down = None\<rparr>
                    in if json_bool rd entry ''down'' = Some False then Inr m
                       else (case bc_contract_file_find files (migration_path nm down_file) of
                               None \<Rightarrow> Inl Down_not_embedded
                             | Some down \<Rightarrow> Inr (m\<lparr>m_down := Some down\<rparr>)))
      | _ \<Rightarrow> Inl Entry_incomplete)"

fun load_entries ::
  "'j json_reader \<Rightarrow> (string \<times> string) list \<Rightarrow> string \<Rightarrow> string \<Rightarrow> 'j list \<Rightarrow> load_error + bc_migration list" where
  "load_entries rd files up_file down_file [] = Inr []"
| "load_entries rd files up_file down_file (e # es) =
     (case load_entry rd files up_file down_file e of
        Inl err \<Rightarrow> Inl err
      | Inr m \<Rightarrow> (case load_entries rd files up_file down_file es of Inl err \<Rightarrow> Inl err | Inr ms \<Rightarrow> Inr (m # ms)))"

definition bc_migrations_load ::
  "'j json_reader \<Rightarrow> (string \<times> string) list \<Rightarrow> sc_db_kind \<Rightarrow> load_error + bc_migration list" where
  "bc_migrations_load rd files k =
     (case bc_contract_file_find files ''index.json'' of
        None \<Rightarrow> Inl Index_missing
      | Some index \<Rightarrow>
          if \<not> reader_init rd then Inl No_memory
          else (case json_parse rd index of
                  None \<Rightarrow> Inl Index_unreadable
                | Some root \<Rightarrow>
                    (case (json_value rd root ''files'', json_value rd root ''migrations'') of
                       (Some files_value, Some migrations_value) \<Rightarrow>
                         (case file_names rd k files_value of
                            Inl err \<Rightarrow> Inl err
                          | Inr (up_file, down_file) \<Rightarrow>
                              (case json_array rd migrations_value BC_MIGRATIONS_MAX of
                                 None \<Rightarrow> Inl Too_many
                               | Some entries \<Rightarrow> load_entries rd files up_file down_file entries))
                     | _ \<Rightarrow> Inl No_members)))"

definition bc_migrations_schema_version :: "bc_migration list \<Rightarrow> 32 word" where
  "bc_migrations_schema_version carried =
     foldl (\<lambda>highest m. if m_version m > highest then m_version m else highest) 0 carried"

section \<open>What the database says has been applied\<close>

text \<open>\<open>items\<close> is what has been read so far; the bound on it ends the loop.\<close>

function read_applied ::
  "('c, 'h) drivers \<Rightarrow> bc_applied_migration list \<Rightarrow> 'h sc_sql_rows \<Rightarrow> sc_status \<times> bc_applied_migration list" where
  "read_applied drv items rows =
     (let (more, rows') = sc_sql_next drv rows
      in if \<not> more then (bc_sql_finish rows' SC_OK, items)
         else if length items \<ge> BC_MIGRATIONS_MAX then (bc_sql_finish rows' SC_ERR_TOO_LONG, items)
         else read_applied drv
                (items @ [(word_of_int (sc_sql_col_int drv rows' 0),
                           case sc_sql_col_copy drv rows' 1 BC_MIGRATION_NAME_MAX of None \<Rightarrow> [] | Some n \<Rightarrow> n)])
                rows')"
  by pat_completeness auto
termination
  by (relation "measure (\<lambda>(_, items, _). BC_MIGRATIONS_MAX - length items)") auto

declare read_applied.simps [simp del]

definition applied_migrations ::
  "('c, 'h) drivers \<Rightarrow> sql_state \<Rightarrow> 'c sc_db \<Rightarrow>
   (sc_status \<times> bc_applied_migration list) \<times> 'c sc_db \<times> sql_state" where
  "applied_migrations drv st db =
     (let (status, rows, failure, db', st') = sc_sql_query drv st db kSelectApplied [] no_failure
      in if status \<noteq> SC_OK then ((status, []), db', st')
         else (read_applied drv [] rows, db', st'))"

definition m_key :: "bc_migration \<Rightarrow> bc_applied_migration" where
  "m_key m = (m_version m, m_name m)"

text \<open>Where the two lists stop telling the same story.\<close>

fun divergence_from :: "nat \<Rightarrow> bc_applied_migration list \<Rightarrow> bc_migration list \<Rightarrow> nat option" where
  "divergence_from i [] carried = None"
| "divergence_from i (a # as) carried =
     (case carried of
        m # ms \<Rightarrow> if m_version m = fst a \<and> m_name m = snd a then divergence_from (i + 1) as ms else Some i
      | [] \<Rightarrow> Some i)"

definition find_divergence :: "bc_applied_migration list \<Rightarrow> bc_migration list \<Rightarrow> nat option" where
  "find_divergence applied carried = divergence_from 0 applied carried"

section \<open>Applying one step\<close>

definition record_applied ::
  "('c, 'h) drivers \<Rightarrow> int \<Rightarrow> sql_state \<Rightarrow> 'c sc_db \<Rightarrow> bc_migration \<Rightarrow> sc_status \<times> 'c sc_db \<times> sql_state" where
  "record_applied drv now st db m =
     (let (status, changes, failure, db', st') =
            sc_sql_exec drv st db kRecordApplied
              [sc_sql_int (uint (m_version m)), sc_sql_text (Some (m_name m)), sc_sql_time now] no_failure
      in (status, db', st'))"

definition forget_applied ::
  "('c, 'h) drivers \<Rightarrow> sql_state \<Rightarrow> 'c sc_db \<Rightarrow> 32 word \<Rightarrow> sc_status \<times> 'c sc_db \<times> sql_state" where
  "forget_applied drv st db version =
     (let (status, changes, failure, db', st') =
            sc_sql_exec drv st db kForgetApplied [sc_sql_int (uint version)] no_failure
      in (status, db', st'))"

function apply_statements ::
  "('c, 'h) drivers \<Rightarrow> string option \<Rightarrow> 'c sc_db \<Rightarrow> sc_status \<times> 'c sc_db" where
  "apply_statements drv at db =
     (case bc_sql_split_next BC_SQL_STATEMENT_MAX at of
        Split_end \<Rightarrow> (SC_OK, db)
      | Split_long \<Rightarrow> (SC_ERR_TOO_LONG, db)
      | Split_stmt statement at' \<Rightarrow>
          (let (status, db') = bc_sql_exec drv db statement
           in if status \<noteq> SC_OK then (status, db') else apply_statements drv at' db'))"
  by pat_completeness auto
termination
  by (relation "measure (\<lambda>(_, at, _). left at)") (auto dest: split_next_further)

declare apply_statements.simps [simp del]

definition mig_rollback :: "('c, 'h) drivers \<Rightarrow> sc_status \<Rightarrow> 'c sc_db \<Rightarrow> sql_state \<Rightarrow> sc_status \<times> 'c sc_db \<times> sql_state" where
  "mig_rollback drv status db st = (let (ignored, db') = bc_sql_exec drv db ''ROLLBACK'' in (status, db', st))"

definition apply_migration ::
  "('c, 'h) drivers \<Rightarrow> int \<Rightarrow> sql_state \<Rightarrow> 'c sc_db \<Rightarrow> bc_migration \<Rightarrow> string \<Rightarrow> bool \<Rightarrow>
   sc_status \<times> 'c sc_db \<times> sql_state" where
  "apply_migration drv now st db m sql undo =
     (let (began, db0) = bc_sql_exec drv db ''BEGIN''
      in if began \<noteq> SC_OK then (began, db0, st)
         else
           let (ran, db1) = apply_statements drv (Some sql) db0
           in if ran \<noteq> SC_OK then mig_rollback drv ran db1 st
              else
                let (noted, db2, st2) = (if undo then forget_applied drv st db1 (m_version m)
                                         else record_applied drv now st db1 m)
                in if noted \<noteq> SC_OK then mig_rollback drv noted db2 st2
                   else
                     let (committed, db3) = bc_sql_exec drv db2 ''COMMIT''
                     in if committed \<noteq> SC_OK then mig_rollback drv committed db3 st2 else (SC_OK, db3, st2))"

section \<open>Up and down\<close>

definition mig_prepare ::
  "('c, 'h, 'j) mig_env \<Rightarrow> sql_state \<Rightarrow> 'c sc_db \<Rightarrow>
   (sc_status + bc_migration list \<times> bc_applied_migration list) \<times> 'c sc_db \<times> sql_state" where
  "mig_prepare env st db =
     (let (status, db1) =
            bc_sql_exec (mig_drivers env) db
              (if kind db = SC_DB_SQLITE then kMigrationsTableSqlite else kMigrationsTablePostgresql)
      in if status \<noteq> SC_OK then (Inl status, db1, st)
         else (case bc_migrations_load (mig_reader env) (bc_migration_files env) (kind db) of
                 Inl e \<Rightarrow> (Inl (load_status e), db1, st)
               | Inr carried \<Rightarrow>
                   let ((status2, applied), db2, st2) = applied_migrations (mig_drivers env) st db1
                   in (if status2 \<noteq> SC_OK then Inl status2 else Inr (carried, applied), db2, st2)))"

fun apply_from ::
  "('c, 'h) drivers \<Rightarrow> int \<Rightarrow> 32 word \<Rightarrow> bc_migration list \<Rightarrow> sql_state \<Rightarrow> 'c sc_db \<Rightarrow>
   sc_status \<times> 'c sc_db \<times> sql_state" where
  "apply_from drv now from [] st db = (SC_OK, db, st)"
| "apply_from drv now from (m # ms) st db =
     (if m_version m \<le> from then apply_from drv now from ms st db
      else let (status, db', st') = apply_migration drv now st db m (m_up m) False
           in if status \<noteq> SC_OK then (status, db', st') else apply_from drv now from ms st' db')"

definition applied_version :: "bc_applied_migration list \<Rightarrow> 32 word" where
  "applied_version applied = (if applied = [] then 0 else fst (last applied))"

text \<open>The status, and the version the database was at once that is known.\<close>

definition bc_migrations_run ::
  "('c, 'h, 'j) mig_env \<Rightarrow> sql_state \<Rightarrow> 'c sc_db \<Rightarrow> sc_status \<times> 32 word option \<times> 'c sc_db \<times> sql_state" where
  "bc_migrations_run env st db =
     (case mig_prepare env st db of
        (Inl status, db1, st1) \<Rightarrow> (status, None, db1, st1)
      | (Inr (carried, applied), db1, st1) \<Rightarrow>
          if find_divergence applied carried \<noteq> None then (SC_ERR_MALFORMED, None, db1, st1)
          else let from = applied_version applied;
                   (status, db2, st2) = apply_from (mig_drivers env) (sc_now_ms env) from carried st1 db1
               in (status, Some from, db2, st2))"

definition bc_migrations_down ::
  "('c, 'h, 'j) mig_env \<Rightarrow> sql_state \<Rightarrow> 'c sc_db \<Rightarrow> string option \<Rightarrow> sc_status \<times> 'c sc_db \<times> sql_state" where
  "bc_migrations_down env st db target =
     (case mig_prepare env st db of
        (Inl status, db1, st1) \<Rightarrow> (status, db1, st1)
      | (Inr (carried, applied), db1, st1) \<Rightarrow>
          if find_divergence applied carried \<noteq> None then (SC_ERR_MALFORMED, db1, st1)
          else if applied = [] then (SC_ERR_INVALID_ARGUMENT, db1, st1)
          else
            let head = carried ! (length applied - 1);
                reached = (if 2 \<le> length applied then m_name (carried ! (length applied - 2))
                           else BC_MIGRATE_DOWN_EMPTY_TARGET)
            in if target \<noteq> None \<and> target \<noteq> Some reached then (SC_ERR_INVALID_ARGUMENT, db1, st1)
               else (case m_down head of
                       None \<Rightarrow> (SC_ERR_INVALID_ARGUMENT, db1, st1)
                     | Some sql \<Rightarrow> apply_migration (mig_drivers env) (sc_now_ms env) st1 db1 head sql True))"

section \<open>What a database promises\<close>

text \<open>
  A database as far as migrating is concerned: what is durable and what an open transaction has
  made of it, each a schema with the rows of the \<open>migrations\<close> table in the order of their version;
  which texts are statements a migration may hold, and what they do to the schema; and the rows a
  cursor still has to give.
\<close>

record ('c, 'h, 'd) store =
  durable :: "'c sc_db \<Rightarrow> 'd \<times> bc_applied_migration list"
  pending :: "'c sc_db \<Rightarrow> ('d \<times> bc_applied_migration list) option"
  ddl :: "string \<Rightarrow> bool"
  effect :: "string \<Rightarrow> 'd \<Rightarrow> 'd"
  rest :: "'h sc_sql_rows \<Rightarrow> bc_applied_migration list"

text \<open>
  What a statement may do: \<open>ok p\<close> is the content of the transaction when it succeeds; what is
  durable stays in any case.
\<close>

definition inside :: "('c, 'h, 'd) store \<Rightarrow> 'c sc_db \<Rightarrow> sc_status \<Rightarrow> 'c sc_db \<Rightarrow> 'd \<times> bc_applied_migration list \<Rightarrow> bool" where
  "inside S db status db' p \<longleftrightarrow>
     durable S db' = durable S db \<and> (status = SC_OK \<longrightarrow> pending S db' = Some p)"

definition transaction_laws :: "('c, 'h) drivers \<Rightarrow> ('c, 'h, 'd) store \<Rightarrow> bool" where
  "transaction_laws drv S \<longleftrightarrow>
     (\<forall>db status db'. bc_sql_exec drv db ''BEGIN'' = (status, db') \<and> pending S db = None \<longrightarrow>
        inside S db status db' (durable S db) \<and> (status \<noteq> SC_OK \<longrightarrow> pending S db' = None)) \<and>
     (\<forall>db status db' p. bc_sql_exec drv db ''COMMIT'' = (status, db') \<and> pending S db = Some p \<longrightarrow>
        (if status = SC_OK then durable S db' = p \<and> pending S db' = None
         else durable S db' = durable S db \<or> status = SC_ERR_NETWORK \<and> durable S db' = p)) \<and>
     (\<forall>db status db'. bc_sql_exec drv db ''ROLLBACK'' = (status, db') \<longrightarrow>
        durable S db' = durable S db \<and> (status = SC_OK \<longrightarrow> pending S db' = None))"

definition statement_laws :: "('c, 'h) drivers \<Rightarrow> ('c, 'h, 'd) store \<Rightarrow> bool" where
  "statement_laws drv S \<longleftrightarrow>
     (\<forall>db t status db' d r. ddl S t \<and> bc_sql_exec drv db t = (status, db') \<and> pending S db = Some (d, r) \<longrightarrow>
        inside S db status db' (effect S t d, r)) \<and>
     (\<forall>db st st' now m status db' d r. record_applied drv now st db m = (status, db', st') \<and>
        pending S db = Some (d, r) \<and> (\<forall>x \<in> set r. fst x < m_version m) \<longrightarrow>
        inside S db status db' (d, r @ [m_key m])) \<and>
     (\<forall>db st st' v status db' d r. forget_applied drv st db v = (status, db', st') \<and> pending S db = Some (d, r) \<longrightarrow>
        inside S db status db' (d, filter (\<lambda>x. fst x \<noteq> v) r))"

definition outside_laws :: "('c, 'h) drivers \<Rightarrow> ('c, 'h, 'd) store \<Rightarrow> bool" where
  "outside_laws drv S \<longleftrightarrow>
     (\<forall>db t status db'. (t = kMigrationsTableSqlite \<or> t = kMigrationsTablePostgresql) \<and>
        bc_sql_exec drv db t = (status, db') \<and> pending S db = None \<longrightarrow>
        durable S db' = durable S db \<and> pending S db' = None) \<and>
     (\<forall>db st st' e e' status db' R. sc_sql_query drv st db kSelectApplied [] e = (status, R, e', db', st') \<and> pending S db = None \<longrightarrow>
        durable S db' = durable S db \<and> pending S db' = None \<and> (status = SC_OK \<longrightarrow> rest S R = snd (durable S db))) \<and>
     (\<forall>R R'. sc_sql_next drv R = (True, R') \<longrightarrow>
        (\<exists>v n xs. rest S R = (v, n) # xs \<and> rest S R' = xs \<and> sc_sql_col_int drv R' 0 = uint v \<and> sc_sql_col_text drv R' 1 = n)) \<and>
     (\<forall>R R'. sc_sql_next drv R = (False, R') \<longrightarrow> rest S R = [] \<or> rows_status R' \<noteq> SC_OK)"

definition migration_store :: "('c, 'h) drivers \<Rightarrow> ('c, 'h, 'd) store \<Rightarrow> bool" where
  "migration_store drv S \<longleftrightarrow> transaction_laws drv S \<and> statement_laws drv S \<and> outside_laws drv S"

section \<open>The contract is well formed\<close>

lemma block_to_buffer_ok:
  assumes "block_to_buffer n block = Some t"
  shows "length t < n \<and> NUL \<notin> set t"
  using assms length_takeWhile_le [of "\<lambda>c. c \<noteq> NUL" block]
  by (auto simp: block_to_buffer_def cstr_def split: if_splits dest: set_takeWhileD)

lemma load_entry_ok:
  assumes "load_entry rd files u dn e = Inr m"
  shows "m_version m \<noteq> 0 \<and> length (m_name m) < BC_MIGRATION_NAME_MAX \<and> NUL \<notin> set (m_name m) \<and>
         bc_contract_file_find files (migration_path (m_name m) u) = Some (m_up m)"
  using assms
  by (auto simp: load_entry_def Let_def bind_eq_Some_conv split: option.splits if_splits dest!: block_to_buffer_ok)

lemma load_entries_ok:
  "load_entries rd files u dn es = Inr ms \<Longrightarrow>
     length ms = length es \<and>
     list_all (\<lambda>m. m_version m \<noteq> 0 \<and> length (m_name m) < BC_MIGRATION_NAME_MAX \<and> NUL \<notin> set (m_name m) \<and>
        bc_contract_file_find files (migration_path (m_name m) u) = Some (m_up m)) ms"
  by (induction es arbitrary: ms) (auto split: sum.splits dest!: load_entry_ok)

lemma schema_version_max: "bc_migrations_schema_version ms = Max (insert 0 (m_version ` set ms))"
proof -
  have "foldl (\<lambda>highest m. if m_version m > highest then m_version m else highest) h ms =
      Max (insert h (m_version ` set ms))" for h
  proof (induction ms arbitrary: h)
    case (Cons m ms)
    have step: "(if m_version m > h then m_version m else h) = max h (m_version m)" by (auto simp: max_def)
    have "Max (insert (max h (m_version m)) A) = Max (insert h (insert (m_version m) A))" if "finite A" for A
      using that by (cases "A = {}") (simp_all add: max.assoc)
    then show ?case by (simp add: step Cons.IH)
  qed simp
  then show ?thesis by (simp add: bc_migrations_schema_version_def)
qed

text \<open>
  C26. What \<open>bc_migrations_load\<close> accepts is well formed: at most \<open>BC_MIGRATIONS_MAX\<close> migrations, none
  with version 0, every name a C string that fits its buffer, every up file the embedded file of
  that migration's directory; and the version of the schema is the highest one carried. The JSON
  reader is assumed to give no more elements of an array than it was offered room for.
\<close>

theorem migrations_load_wf:
  assumes "bc_migrations_load rd files k = Inr carried"
    and "\<And>j n es. json_array rd j n = Some es \<Longrightarrow> length es \<le> n"
  shows "length carried \<le> BC_MIGRATIONS_MAX \<and>
     list_all (\<lambda>m. m_version m \<noteq> 0 \<and> length (m_name m) < BC_MIGRATION_NAME_MAX \<and> NUL \<notin> set (m_name m)) carried \<and>
     (\<exists>u. list_all (\<lambda>m. bc_contract_file_find files (migration_path (m_name m) u) = Some (m_up m)) carried) \<and>
     bc_migrations_schema_version carried = Max (insert 0 (m_version ` set carried))"
proof -
  obtain u dn es j where "load_entries rd files u dn es = Inr carried" "json_array rd j BC_MIGRATIONS_MAX = Some es"
    using assms(1) by (auto simp: bc_migrations_load_def split: option.splits if_splits sum.splits)
  with load_entries_ok [of rd files u dn es carried] assms(2) schema_version_max show ?thesis
    by (auto simp: list_all_iff)
qed

section \<open>The comparison\<close>

lemma divergence_prefix: "divergence_from i applied carried = None \<longleftrightarrow> prefix applied (map m_key carried)"
  by (induction i applied carried rule: divergence_from.induct) (auto simp: m_key_def split: list.splits)

lemma find_divergence_prefix: "find_divergence applied carried = None \<longleftrightarrow> prefix applied (map m_key carried)"
  by (simp add: find_divergence_def divergence_prefix)

text \<open>A name too long for its buffer is read as the empty name.\<close>

definition clip :: "bc_applied_migration \<Rightarrow> bc_applied_migration" where
  "clip x = (fst x, if length (snd x) + 1 > BC_MIGRATION_NAME_MAX then [] else snd x)"

lemma clip_prefix:
  assumes "prefix (map clip rows) (map m_key carried)" and "list_all (\<lambda>m. m_name m \<noteq> []) carried"
  shows "map clip rows = rows"
  using assms
proof (induction rows arbitrary: carried)
  case (Cons r rows)
  then obtain m ms where c: "carried = m # ms" "clip r = m_key m" "prefix (map clip rows) (map m_key ms)"
    by (cases carried) auto
  have "snd (clip r) \<noteq> []" using c Cons.prems(2) by (simp add: m_key_def)
  then have "clip r = r" by (cases r) (auto simp: clip_def split: if_splits)
  with Cons.IH [OF c(3)] Cons.prems(2) c(1) show ?case by simp
qed simp

lemma clip_prefix_iff:
  assumes "list_all (\<lambda>m. m_name m \<noteq> [] \<and> length (m_name m) < BC_MIGRATION_NAME_MAX) carried"
  shows "prefix (map clip rows) (map m_key carried) \<longleftrightarrow> prefix rows (map m_key carried)"
proof
  assume "prefix (map clip rows) (map m_key carried)"
  moreover have "list_all (\<lambda>m. m_name m \<noteq> []) carried" using assms by (simp add: list_all_iff)
  ultimately show "prefix rows (map m_key carried)" using clip_prefix by metis
next
  assume p: "prefix rows (map m_key carried)"
  then have "set rows \<subseteq> m_key ` set carried" by (auto simp: prefix_def) (metis UnI1 imageI image_set set_append)
  then have "clip r = r" if mem: "r \<in> set rows" for r
  proof -
    obtain m where "m \<in> set carried" "r = m_key m" using mem \<open>set rows \<subseteq> m_key ` set carried\<close> by auto
    then show ?thesis using assms by (auto simp: clip_def m_key_def list_all_iff)
  qed
  with p show "prefix (map clip rows) (map m_key carried)" by (simp add: map_idI)
qed

section \<open>One migration\<close>

lemma lawsD:
  assumes "migration_store drv S"
  shows law_begin: "bc_sql_exec drv db ''BEGIN'' = (status, db') \<Longrightarrow> pending S db = None \<Longrightarrow>
          inside S db status db' (durable S db) \<and> (status \<noteq> SC_OK \<longrightarrow> pending S db' = None)"
    and law_commit: "bc_sql_exec drv db ''COMMIT'' = (status, db') \<Longrightarrow> pending S db = Some p \<Longrightarrow>
          if status = SC_OK then durable S db' = p \<and> pending S db' = None
          else durable S db' = durable S db \<or> status = SC_ERR_NETWORK \<and> durable S db' = p"
    and law_rollback: "bc_sql_exec drv db ''ROLLBACK'' = (status, db') \<Longrightarrow> durable S db' = durable S db"
    and law_ddl: "ddl S t \<Longrightarrow> bc_sql_exec drv db t = (status, db') \<Longrightarrow> pending S db = Some (d, r) \<Longrightarrow>
          inside S db status db' (effect S t d, r)"
    and law_record: "record_applied drv now st db m = (status, db', st') \<Longrightarrow> pending S db = Some (d, r) \<Longrightarrow>
          \<forall>x \<in> set r. fst x < m_version m \<Longrightarrow> inside S db status db' (d, r @ [m_key m])"
    and law_forget: "forget_applied drv st db v = (status, db', st') \<Longrightarrow> pending S db = Some (d, r) \<Longrightarrow>
          inside S db status db' (d, filter (\<lambda>x. fst x \<noteq> v) r)"
    and law_table: "t = kMigrationsTableSqlite \<or> t = kMigrationsTablePostgresql \<Longrightarrow>
          bc_sql_exec drv db t = (status, db') \<Longrightarrow> pending S db = None \<Longrightarrow>
          durable S db' = durable S db \<and> pending S db' = None"
    and law_query: "sc_sql_query drv st db kSelectApplied [] e = (status, R, e', db', st') \<Longrightarrow> pending S db = None \<Longrightarrow>
          durable S db' = durable S db \<and> pending S db' = None \<and> (status = SC_OK \<longrightarrow> rest S R = snd (durable S db))"
    and law_next: "sc_sql_next drv R = (True, R') \<Longrightarrow>
          \<exists>v n xs. rest S R = (v, n) # xs \<and> rest S R' = xs \<and> sc_sql_col_int drv R' 0 = uint v \<and> sc_sql_col_text drv R' 1 = n"
    and law_end: "sc_sql_next drv R = (False, R') \<Longrightarrow> rest S R = [] \<or> rows_status R' \<noteq> SC_OK"
proof -
  have T: "transaction_laws drv S" and M: "statement_laws drv S" and O: "outside_laws drv S"
    using assms by (simp_all add: migration_store_def)
  note t = T [unfolded transaction_laws_def] and m = M [unfolded statement_laws_def] and o = O [unfolded outside_laws_def]
  show "bc_sql_exec drv db ''BEGIN'' = (status, db') \<Longrightarrow> pending S db = None \<Longrightarrow>
      inside S db status db' (durable S db) \<and> (status \<noteq> SC_OK \<longrightarrow> pending S db' = None)"
    using t [THEN conjunct1] by blast
  show "bc_sql_exec drv db ''COMMIT'' = (status, db') \<Longrightarrow> pending S db = Some p \<Longrightarrow>
      if status = SC_OK then durable S db' = p \<and> pending S db' = None
      else durable S db' = durable S db \<or> status = SC_ERR_NETWORK \<and> durable S db' = p"
    by (rule t [THEN conjunct2, THEN conjunct1, rule_format, OF conjI])
  show "bc_sql_exec drv db ''ROLLBACK'' = (status, db') \<Longrightarrow> durable S db' = durable S db"
    using t [THEN conjunct2, THEN conjunct2] by blast
  show "ddl S t \<Longrightarrow> bc_sql_exec drv db t = (status, db') \<Longrightarrow> pending S db = Some (d, r) \<Longrightarrow>
      inside S db status db' (effect S t d, r)"
    using m [THEN conjunct1] by blast
  show "record_applied drv now st db m = (status, db', st') \<Longrightarrow> pending S db = Some (d, r) \<Longrightarrow>
      \<forall>x \<in> set r. fst x < m_version m \<Longrightarrow> inside S db status db' (d, r @ [m_key m])"
    using m [THEN conjunct2, THEN conjunct1] by blast
  show "forget_applied drv st db v = (status, db', st') \<Longrightarrow> pending S db = Some (d, r) \<Longrightarrow>
      inside S db status db' (d, filter (\<lambda>x. fst x \<noteq> v) r)"
    using m [THEN conjunct2, THEN conjunct2] by blast
  show "t = kMigrationsTableSqlite \<or> t = kMigrationsTablePostgresql \<Longrightarrow> bc_sql_exec drv db t = (status, db') \<Longrightarrow>
      pending S db = None \<Longrightarrow> durable S db' = durable S db \<and> pending S db' = None"
    using o [THEN conjunct1] by blast
  show "sc_sql_query drv st db kSelectApplied [] e = (status, R, e', db', st') \<Longrightarrow> pending S db = None \<Longrightarrow>
      durable S db' = durable S db \<and> pending S db' = None \<and> (status = SC_OK \<longrightarrow> rest S R = snd (durable S db))"
    using o [THEN conjunct2, THEN conjunct1] by blast
  show "sc_sql_next drv R = (True, R') \<Longrightarrow>
      \<exists>v n xs. rest S R = (v, n) # xs \<and> rest S R' = xs \<and> sc_sql_col_int drv R' 0 = uint v \<and> sc_sql_col_text drv R' 1 = n"
    using o [THEN conjunct2, THEN conjunct2, THEN conjunct1] by blast
  show "sc_sql_next drv R = (False, R') \<Longrightarrow> rest S R = [] \<or> rows_status R' \<noteq> SC_OK"
    using o [THEN conjunct2, THEN conjunct2, THEN conjunct2] by blast
qed

text \<open>The statements of a file, and what they do together.\<close>

definition sql_of :: "string \<Rightarrow> string list" where
  "sql_of sql = fst (statements BC_SQL_STATEMENT_MAX (Some sql))"

lemma apply_statements_effect:
  "migration_store drv S \<Longrightarrow> apply_statements drv at db = (status, db') \<Longrightarrow> pending S db = Some (d, r) \<Longrightarrow>
     list_all (ddl S) (fst (statements BC_SQL_STATEMENT_MAX at)) \<Longrightarrow>
     inside S db status db' (fold (effect S) (fst (statements BC_SQL_STATEMENT_MAX at)) d, r)"
proof (induction drv at db arbitrary: d rule: apply_statements.induct)
  case (1 drv at db)
  show ?case
  proof (cases "bc_sql_split_next BC_SQL_STATEMENT_MAX at")
    case (Split_stmt t at')
    obtain s1 db1 where ex: "bc_sql_exec drv db t = (s1, db1)" by (cases "bc_sql_exec drv db t")
    define ts where "ts = fst (statements BC_SQL_STATEMENT_MAX at')"
    have all: "fst (statements BC_SQL_STATEMENT_MAX at) = t # ts"
      by (subst statements.simps) (simp add: Split_stmt ts_def split: prod.splits)
    have ok: "ddl S t" "list_all (ddl S) ts" using 1(5) by (simp_all add: all)
    have first: "inside S db s1 db1 (effect S t d, r)" by (rule law_ddl [OF 1(2) ok(1) ex 1(4)])
    have step: "apply_statements drv at db = (if s1 \<noteq> SC_OK then (s1, db1) else apply_statements drv at' db1)"
      by (subst apply_statements.simps) (simp add: Split_stmt ex)
    show ?thesis
    proof (cases "s1 = SC_OK")
      case False
      with step 1(3) first show ?thesis by (simp add: inside_def)
    next
      case True
      with first have p: "pending S db1 = Some (effect S t d, r)" by (simp add: inside_def)
      have "inside S db1 status db' (fold (effect S) ts (effect S t d), r)"
        unfolding ts_def
        by (rule 1(1) [OF Split_stmt ex [symmetric] refl _ 1(2) _ p]) (use True step 1(3) ok ts_def in auto)
      with first show ?thesis by (simp add: inside_def all)
    qed
  next
    case Split_end
    then have "(status, db') = (SC_OK, db)" "fst (statements BC_SQL_STATEMENT_MAX at) = []"
      using 1(3) by (simp_all add: apply_statements.simps statements.simps)
    then show ?thesis using 1(4) by (simp add: inside_def)
  next
    case Split_long
    then have "(status, db') = (SC_ERR_TOO_LONG, db)" using 1(3) by (simp add: apply_statements.simps)
    then show ?thesis by (simp add: inside_def)
  qed
qed

text \<open>What the whole of a migration makes of the database.\<close>

definition applied_whole ::
  "('c, 'h, 'd) store \<Rightarrow> bc_migration \<Rightarrow> string \<Rightarrow> bool \<Rightarrow> 'd \<times> bc_applied_migration list \<Rightarrow> 'd \<times> bc_applied_migration list" where
  "applied_whole S m sql undo p =
     (fold (effect S) (sql_of sql) (fst p),
      if undo then filter (\<lambda>x. fst x \<noteq> m_version m) (snd p) else snd p @ [m_key m])"

lemma rollback_keeps:
  assumes "migration_store drv S" and "mig_rollback drv s0 db st = (status, db', st')"
  shows "status = s0 \<and> durable S db' = durable S db"
  using assms law_rollback [OF assms(1)] by (auto simp: mig_rollback_def split: prod.splits)

lemma migration_whole:
  assumes "migration_store drv S" and "pending S db = None"
    and "list_all (ddl S) (sql_of sql)"
    and "\<not> undo \<Longrightarrow> \<forall>x \<in> set (snd (durable S db)). fst x < m_version m"
    and "apply_migration drv now st db m sql undo = (status, db', st')"
  shows "if status = SC_OK
         then durable S db' = applied_whole S m sql undo (durable S db) \<and> pending S db' = None
         else durable S db' = durable S db \<or>
              status = SC_ERR_NETWORK \<and> durable S db' = applied_whole S m sql undo (durable S db)"
proof -
  obtain d r where dr: "durable S db = (d, r)" by (cases "durable S db")
  obtain s0 db0 where b: "bc_sql_exec drv db ''BEGIN'' = (s0, db0)" by (cases "bc_sql_exec drv db ''BEGIN''")
  obtain s1 db1 where a: "apply_statements drv (Some sql) db0 = (s1, db1)" by (cases "apply_statements drv (Some sql) db0")
  obtain s2 db2 st2 where n: "(if undo then forget_applied drv st db1 (m_version m) else record_applied drv now st db1 m) = (s2, db2, st2)"
    by (metis prod_cases3)
  obtain s3 db3 where c: "bc_sql_exec drv db2 ''COMMIT'' = (s3, db3)" by (cases "bc_sql_exec drv db2 ''COMMIT''")
  note run = assms(5) [unfolded apply_migration_def b a n c Let_def prod.case]
  note rolled = rollback_keeps [OF assms(1)]
  have l0: "durable S db0 = (d, r)" "s0 = SC_OK \<Longrightarrow> pending S db0 = Some (d, r)"
    using law_begin [OF assms(1) b assms(2)] by (simp_all add: inside_def dr)
  let ?d = "fold (effect S) (sql_of sql) d"
  have l1: "durable S db1 = (d, r) \<and> (s1 = SC_OK \<longrightarrow> pending S db1 = Some (?d, r))" if "s0 = SC_OK"
    using apply_statements_effect [OF assms(1) a l0(2) [OF that]] assms(3) l0(1) by (simp add: inside_def sql_of_def)
  have l2: "durable S db2 = (d, r) \<and> (s2 = SC_OK \<longrightarrow> pending S db2 = Some (applied_whole S m sql undo (d, r)))"
    if "s0 = SC_OK" "s1 = SC_OK"
    using l1 that n assms(4) dr law_forget [OF assms(1)] law_record [OF assms(1)]
    by (cases undo) (force simp: inside_def applied_whole_def)+
  show ?thesis
  proof (cases "s0 = SC_OK \<and> s1 = SC_OK \<and> s2 = SC_OK")
    case True
    note l3 = law_commit [OF assms(1) c, of "applied_whole S m sql undo (d, r)"]
    show ?thesis
    proof (cases "s3 = SC_OK")
      case ok: True
      with run True have "status = SC_OK" "db' = db3" by auto
      with l3 l2 True ok show ?thesis by (simp add: dr)
    next
      case False
      with run True have "mig_rollback drv s3 db3 st2 = (status, db', st')" by simp
      from rolled [OF this] l3 l2 True False show ?thesis by (auto simp: dr)
    qed
  next
    case False
    then have "status \<noteq> SC_OK \<and> durable S db' = (d, r)"
      using run l0 l1 l2 by (auto split: if_splits dest!: rolled)
    then show ?thesis by (simp add: dr)
  qed
qed

text \<open>
  C12. A migration is applied wholly or not at all. When \<open>apply\<close> answers \<open>SC_OK\<close>, every statement of
  the file has taken effect, in order, and the row of the migration has been written (or, undoing,
  removed) with them, and no transaction is open; when it answers anything else, what was durable
  is unchanged, unless the connection was lost while committing, where the whole may have become
  durable.
\<close>

theorem migration_all_or_nothing:
  assumes "migration_store drv S" and "pending S db = None"
    and "list_all (ddl S) (sql_of sql)"
    and "\<not> undo \<Longrightarrow> \<forall>x \<in> set (snd (durable S db)). fst x < m_version m"
    and "apply_migration drv now st db m sql undo = (status, db', st')"
  shows "if status = SC_OK
         then durable S db' = applied_whole S m sql undo (durable S db) \<and> pending S db' = None
         else durable S db' = durable S db \<or>
              status = SC_ERR_NETWORK \<and> durable S db' = applied_whole S m sql undo (durable S db)"
  by (rule migration_whole [OF assms])

section \<open>Running them all\<close>

lemma read_applied_rows:
  "migration_store drv S \<Longrightarrow> read_applied drv items R = (SC_OK, items') \<Longrightarrow> items' = items @ map clip (rest S R)"
proof (induction drv items R rule: read_applied.induct)
  case (1 drv items R)
  obtain more R' where nx: "sc_sql_next drv R = (more, R')" by (cases "sc_sql_next drv R")
  show ?case
  proof (cases more)
    case False
    with 1(3) nx have fin: "bc_sql_finish R' SC_OK = SC_OK" "items' = items"
      by (subst (asm) read_applied.simps, simp)+
    then have "rows_status R' = SC_OK" by (auto simp: bc_sql_finish_def sc_sql_close_def split: if_splits)
    with law_end [OF 1(2), of R R'] nx False fin show ?thesis by simp
  next
    case True
    have "sc_sql_next drv R = (True, R')" using nx True by simp
    from law_next [OF 1(2) this] obtain v n xs where
      row: "rest S R = (v, n) # xs" "rest S R' = xs" "sc_sql_col_int drv R' 0 = uint v" "sc_sql_col_text drv R' 1 = n"
      by blast
    have room: "\<not> length items \<ge> BC_MIGRATIONS_MAX"
      using 1(3) nx True by (subst (asm) read_applied.simps) (auto simp: bc_sql_finish_def split: prod.splits if_splits)
    have item: "(word_of_int (sc_sql_col_int drv R' 0),
        case sc_sql_col_copy drv R' 1 BC_MIGRATION_NAME_MAX of None \<Rightarrow> [] | Some n \<Rightarrow> n) = clip (v, n)"
      by (simp add: row [unfolded One_nat_def] clip_def sc_sql_col_copy_def BC_MIGRATION_NAME_MAX_def)
    have "read_applied drv (items @ [clip (v, n)]) R' = (SC_OK, items')"
      using 1(3) True room unfolding read_applied.simps [of drv items R] nx Let_def prod.case item by simp
    with 1(1) [OF refl nx [symmetric] _ room 1(2), unfolded item] True row show ?thesis by simp
  qed
qed

lemma prepare_reads:
  assumes "migration_store (mig_drivers env) S" and "pending S db = None"
    and "bc_migrations_load (mig_reader env) (bc_migration_files env) (kind db) = Inr carried"
    and "mig_prepare env st db = (out, db1, st1)"
  shows "durable S db1 = durable S db \<and> pending S db1 = None \<and>
         (case out of Inl status \<Rightarrow> status \<noteq> SC_OK
          | Inr (c, a) \<Rightarrow> c = carried \<and> a = map clip (snd (durable S db)))"
proof -
  let ?drv = "mig_drivers env"
  let ?t = "if kind db = SC_DB_SQLITE then kMigrationsTableSqlite else kMigrationsTablePostgresql"
  obtain s0 db0 where t: "bc_sql_exec ?drv db ?t = (s0, db0)" by (cases "bc_sql_exec ?drv db ?t")
  obtain s1 R e db2 st2 where q: "sc_sql_query ?drv st db0 kSelectApplied [] no_failure = (s1, R, e, db2, st2)"
    by (metis prod_cases5)
  have l0: "durable S db0 = durable S db \<and> pending S db0 = None"
    by (rule law_table [OF assms(1) _ t assms(2)]) simp
  with law_query [OF assms(1) q] have l1: "durable S db2 = durable S db \<and> pending S db2 = None \<and>
      (s1 = SC_OK \<longrightarrow> rest S R = snd (durable S db))" by simp
  obtain s2 items where r: "read_applied ?drv [] R = (s2, items)" by (cases "read_applied ?drv [] R")
  have p: "(out, db1, st1) =
      (if s0 \<noteq> SC_OK then (Inl s0, db0, st)
       else if s1 \<noteq> SC_OK then (Inl s1, db2, st2)
       else (if s2 \<noteq> SC_OK then Inl s2 else Inr (carried, items), db2, st2))"
    using assms(4) by (simp add: mig_prepare_def t assms(3) applied_migrations_def q r split: if_splits)
  show ?thesis
    using p l0 l1 r read_applied_rows [OF assms(1), of "[]" R items] by (auto split: if_splits)
qed

text \<open>
  The migrations this build carries, as the contract describes them: ascending versions, names
  that are names, and files that hold statements only.
\<close>

definition carried_ok :: "('c, 'h, 'd) store \<Rightarrow> bc_migration list \<Rightarrow> bool" where
  "carried_ok S carried \<longleftrightarrow>
     sorted_wrt (<) (map m_version carried) \<and>
     list_all (\<lambda>m. 0 < m_version m \<and> m_name m \<noteq> [] \<and> length (m_name m) < BC_MIGRATION_NAME_MAX \<and>
       list_all (ddl S) (sql_of (m_up m)) \<and> list_all (ddl S) (case m_down m of None \<Rightarrow> [] | Some sql \<Rightarrow> sql_of sql)) carried"

text \<open>The specification of a run: the next migrations, one after the other.\<close>

definition upgraded :: "('c, 'h, 'd) store \<Rightarrow> bc_migration list \<Rightarrow> 'd \<times> bc_applied_migration list \<Rightarrow> 'd \<times> bc_applied_migration list" where
  "upgraded S ms p = fold (\<lambda>m. applied_whole S m (m_up m) False) ms p"

lemma upgraded_rows: "snd (upgraded S ms p) = snd p @ map m_key ms"
  by (induction ms arbitrary: p) (simp_all add: upgraded_def applied_whole_def)

lemma apply_from_skip:
  "\<forall>m \<in> set ms. m_version m \<le> from \<Longrightarrow> apply_from drv now from (ms @ ns) st db = apply_from drv now from ns st db"
  by (induction ms) auto

lemma apply_from_upgrades:
  assumes "migration_store drv S" and "pending S db = None" and "carried_ok S ms"
    and "\<forall>m \<in> set ms. from < m_version m \<and> (\<forall>x \<in> set (snd (durable S db)). fst x < m_version m)"
    and "apply_from drv now from ms st db = (status, db', st')"
  shows "\<exists>k. durable S db' = upgraded S (take k ms) (durable S db) \<and>
             (status = SC_OK \<longrightarrow> length ms \<le> k \<and> pending S db' = None)"
  using assms(2-)
proof (induction ms arbitrary: st db)
  case Nil
  then show ?case by (auto simp: upgraded_def)
next
  case (Cons m ms)
  obtain s1 db1 st1 where a: "apply_migration drv now st db m (m_up m) False = (s1, db1, st1)"
    by (metis prod_cases3)
  have "\<not> m_version m \<le> from" using Cons.prems(3) by auto
  then have step: "(if s1 \<noteq> SC_OK then (s1, db1, st1) else apply_from drv now from ms st1 db1) = (status, db', st')"
    using Cons.prems(4) a by simp
  have whole: "if s1 = SC_OK then durable S db1 = upgraded S [m] (durable S db) \<and> pending S db1 = None
      else durable S db1 = durable S db \<or> s1 = SC_ERR_NETWORK \<and> durable S db1 = upgraded S [m] (durable S db)"
    using migration_whole [OF assms(1) Cons.prems(1) _ _ a] Cons.prems(2,3)
    by (simp add: carried_ok_def upgraded_def)
  show ?case
  proof (cases "s1 = SC_OK")
    case False
    with step have st: "status \<noteq> SC_OK" "db' = db1" by auto
    from whole False have "durable S db1 = upgraded S (take 0 (m # ms)) (durable S db) \<or>
        durable S db1 = upgraded S (take 1 (m # ms)) (durable S db)" by (auto simp: upgraded_def)
    with st show ?thesis by metis
  next
    case True
    with step have run: "apply_from drv now from ms st1 db1 = (status, db', st')" by simp
    have rows: "snd (durable S db1) = snd (durable S db) @ [m_key m]"
      using whole True by (simp add: upgraded_rows)
    have "\<exists>k. durable S db' = upgraded S (take k ms) (durable S db1) \<and>
        (status = SC_OK \<longrightarrow> length ms \<le> k \<and> pending S db' = None)"
    proof (rule Cons.IH [OF _ _ _ run])
      show "pending S db1 = None" using whole True by simp
      show "carried_ok S ms" using Cons.prems(2) by (simp add: carried_ok_def)
      show "\<forall>x \<in> set ms. from < m_version x \<and> (\<forall>y \<in> set (snd (durable S db1)). fst y < m_version x)"
        using Cons.prems(2,3) by (auto simp: rows carried_ok_def m_key_def)
    qed
    then obtain k where "durable S db' = upgraded S (take k ms) (upgraded S [m] (durable S db))"
        "status = SC_OK \<longrightarrow> length ms \<le> k \<and> pending S db' = None" using whole True by auto
    then show ?thesis by (intro exI [of _ "Suc k"]) (simp add: upgraded_def)
  qed
qed

text \<open>Splitting what is carried at what is applied.\<close>

lemma applied_split:
  assumes "carried_ok S carried" and "prefix rows (map m_key carried)"
  defines "old \<equiv> take (length rows) carried" and "todo \<equiv> drop (length rows) carried"
  shows "rows = map m_key old" and "carried = old @ todo"
    and "\<forall>m \<in> set old. m_version m \<le> applied_version rows"
    and "\<forall>m \<in> set todo. applied_version rows < m_version m \<and> (\<forall>x \<in> set rows. fst x < m_version m)"
    and "carried_ok S todo"
proof -
  show rows: "rows = map m_key old"
    using assms(2) unfolding old_def by (metis append_eq_conv_conj prefix_def take_map)
  show split: "carried = old @ todo" by (simp add: old_def todo_def)
  have sorted: "sorted_wrt (<) (map m_version old @ map m_version todo)"
    using assms(1) by (simp add: carried_ok_def split flip: map_append)
  have version: "applied_version (map m_key old) = (if old = [] then 0 else m_version (last old))"
    by (simp add: applied_version_def m_key_def last_map)
  show "\<forall>m \<in> set old. m_version m \<le> applied_version rows"
    using sorted unfolding rows version by (cases old rule: rev_cases) (auto simp: sorted_wrt_append)
  have pos: "\<forall>m \<in> set todo. 0 < m_version m"
    using assms(1) unfolding split by (simp add: carried_ok_def list_all_iff)
  show "\<forall>m \<in> set todo. applied_version rows < m_version m \<and> (\<forall>x \<in> set rows. fst x < m_version m)"
    using sorted pos unfolding rows version by (cases old rule: rev_cases) (auto simp: sorted_wrt_append m_key_def)
  show "carried_ok S todo"
    using assms(1) unfolding split by (simp add: carried_ok_def sorted_wrt_append)
qed

text \<open>What both directions know after their preparation.\<close>

lemma prepare_decides:
  assumes "migration_store (mig_drivers env) S" and "pending S db = None"
    and "bc_migrations_load (mig_reader env) (bc_migration_files env) (kind db) = Inr carried"
    and "carried_ok S carried" and "durable S db = (schema, rows)"
  obtains (failed) e db1 st1 where "mig_prepare env st db = (Inl e, db1, st1)" "e \<noteq> SC_OK" "durable S db1 = (schema, rows)"
  | (diverged) a db1 st1 where "mig_prepare env st db = (Inr (carried, a), db1, st1)" "durable S db1 = (schema, rows)"
      "find_divergence a carried \<noteq> None" "\<not> prefix rows (map m_key carried)"
  | (agreed) db1 st1 where "mig_prepare env st db = (Inr (carried, rows), db1, st1)" "durable S db1 = (schema, rows)"
      "pending S db1 = None" "find_divergence rows carried = None" "prefix rows (map m_key carried)"
proof -
  obtain out db1 st1 where p: "mig_prepare env st db = (out, db1, st1)" by (metis prod_cases3)
  note reads = prepare_reads [OF assms(1-3) p]
  have names: "list_all (\<lambda>m. m_name m \<noteq> [] \<and> length (m_name m) < BC_MIGRATION_NAME_MAX) carried"
    using assms(4) by (simp add: carried_ok_def list_all_iff)
  note pre = clip_prefix_iff [OF names]
  show thesis
  proof (cases out)
    case (Inl e)
    with p reads assms(5) show thesis by (intro failed [of e db1 st1]) auto
  next
    case (Inr ca)
    with reads assms(5) have ca: "ca = (carried, map clip rows)" by (cases ca) auto
    show thesis
    proof (cases "prefix rows (map m_key carried)")
      case False
      with p Inr ca reads assms(5) pre show thesis
        by (intro diverged [of "map clip rows" db1 st1]) (auto simp: find_divergence_prefix)
    next
      case True
      then have "map clip rows = rows" using clip_prefix [of rows carried] pre names by (simp add: list_all_iff)
      with True p Inr ca reads assms(5) show thesis by (intro agreed [of db1 st1]) (auto simp: find_divergence_prefix)
    qed
  qed
qed

text \<open>
  C4. A run never leaves the path the contract describes. When the applied migrations are not a
  beginning of the ones this build carries, it refuses and changes nothing. Otherwise what is
  durable afterwards is what was durable before with the next so many migrations applied wholly
  and in order, whatever failed in between, so that the applied migrations are still a beginning
  of the carried ones; and when the run answers \<open>SC_OK\<close> it has applied all of them.
\<close>

theorem migrations_run_sound:
  assumes "migration_store (mig_drivers env) S" and "pending S db = None"
    and "bc_migrations_load (mig_reader env) (bc_migration_files env) (kind db) = Inr carried"
    and "carried_ok S carried"
    and "bc_migrations_run env st db = (status, from, db', st')"
    and "durable S db = (schema, rows)"
  shows "if prefix rows (map m_key carried)
         then \<exists>k. durable S db' = upgraded S (take k (drop (length rows) carried)) (schema, rows) \<and>
                  prefix (snd (durable S db')) (map m_key carried) \<and>
                  (status = SC_OK \<longrightarrow> snd (durable S db') = map m_key carried)
         else status \<noteq> SC_OK \<and> durable S db' = (schema, rows)"
proof -
  have none: "\<exists>k. (schema, rows) = upgraded S (take k (drop (length rows) carried)) (schema, rows)"
    by (rule exI [of _ 0]) (simp add: upgraded_def)
  show ?thesis
  proof (rule prepare_decides [OF assms(1-4,6), of st])
    fix e db1 st1 assume "mig_prepare env st db = (Inl e, db1, st1)" "e \<noteq> SC_OK" "durable S db1 = (schema, rows)"
    with assms(5) have "status \<noteq> SC_OK" "durable S db' = (schema, rows)" by (auto simp: bc_migrations_run_def)
    with none show ?thesis by auto
  next
    fix a db1 st1 assume "mig_prepare env st db = (Inr (carried, a), db1, st1)" "durable S db1 = (schema, rows)"
      "find_divergence a carried \<noteq> None" "\<not> prefix rows (map m_key carried)"
    with assms(5) show ?thesis by (auto simp: bc_migrations_run_def)
  next
    fix db1 st1 assume a: "mig_prepare env st db = (Inr (carried, rows), db1, st1)" "durable S db1 = (schema, rows)"
      "pending S db1 = None" "find_divergence rows carried = None" "prefix rows (map m_key carried)"
    note sp = applied_split [OF assms(4) a(5)]
    let ?todo = "drop (length rows) carried"
    have "apply_from (mig_drivers env) (sc_now_ms env) (applied_version rows) carried st1 db1 = (status, db', st')"
      using assms(5) a by (auto simp: bc_migrations_run_def Let_def split: prod.splits)
    then have "apply_from (mig_drivers env) (sc_now_ms env) (applied_version rows) ?todo st1 db1 = (status, db', st')"
      using apply_from_skip [OF sp(3)] sp(2) by metis
    from apply_from_upgrades [OF assms(1) a(3) sp(5) _ this] sp(4) a(2)
    obtain k where k: "durable S db' = upgraded S (take k ?todo) (schema, rows)" "status = SC_OK \<longrightarrow> length ?todo \<le> k"
      by auto
    have rows': "snd (durable S db') = map m_key (take (length rows) carried @ take k ?todo)"
      using sp(1) by (simp add: k(1) upgraded_rows)
    have "prefix (snd (durable S db')) (map m_key carried)"
      unfolding rows' by (simp add: take_add [symmetric] map_mono_prefix take_is_prefix del: map_append)
    moreover have "status = SC_OK \<longrightarrow> snd (durable S db') = map m_key carried"
      unfolding rows' using k(2) by simp
    ultimately show ?thesis using a(5) k(1) by auto
  qed
qed

section \<open>Undoing the last one\<close>

lemma filter_last:
  assumes "sorted_wrt (<) (map fst rows)" and "rows \<noteq> []"
  shows "filter (\<lambda>x. fst x \<noteq> (fst (last rows) :: 'a::linorder)) rows = butlast rows"
  using assms by (cases rows rule: rev_cases) (auto simp: sorted_wrt_append intro!: filter_True)

text \<open>
  A down run undoes the last applied migration and only that one, and only with the consent it
  asks for. When it answers \<open>SC_OK\<close>, the applied migrations were a beginning of the carried ones,
  the last one has a down file, whose statements have all taken effect, and its row and no other is
  gone; a target that was given named the migration before it, or \<open>0\<close> when there is none. Otherwise
  nothing durable has changed, unless the connection was lost while committing.
\<close>

theorem migrations_down_one:
  assumes "migration_store (mig_drivers env) S" and "pending S db = None"
    and "bc_migrations_load (mig_reader env) (bc_migration_files env) (kind db) = Inr carried"
    and "carried_ok S carried"
    and "bc_migrations_down env st db target = (status, db', st')"
    and "durable S db = (schema, rows)"
  shows "if status = SC_OK
         then \<exists>sql. rows \<noteq> [] \<and> prefix rows (map m_key carried) \<and>
                m_down (carried ! (length rows - 1)) = Some sql \<and>
                durable S db' = (fold (effect S) (sql_of sql) schema, butlast rows) \<and>
                target \<in> {None, Some (if length rows = 1 then ''0'' else snd (rows ! (length rows - 2)))}
         else durable S db' = (schema, rows) \<or> status = SC_ERR_NETWORK \<and> snd (durable S db') = butlast rows"
proof (rule prepare_decides [OF assms(1-4,6), of st])
  fix e db1 st1 assume "mig_prepare env st db = (Inl e, db1, st1)" "e \<noteq> SC_OK" "durable S db1 = (schema, rows)"
  with assms(5) show ?thesis by (auto simp: bc_migrations_down_def)
next
  fix a db1 st1 assume "mig_prepare env st db = (Inr (carried, a), db1, st1)" "durable S db1 = (schema, rows)"
    "find_divergence a carried \<noteq> None" "\<not> prefix rows (map m_key carried)"
  with assms(5) show ?thesis by (auto simp: bc_migrations_down_def)
next
  fix db1 st1 assume a: "mig_prepare env st db = (Inr (carried, rows), db1, st1)" "durable S db1 = (schema, rows)"
    "pending S db1 = None" "find_divergence rows carried = None" "prefix rows (map m_key carried)"
  define m where "m = carried ! (length rows - 1)"
  have nth: "rows ! i = m_key (carried ! i)" "i < length carried" if "i < length rows" for i
    using a(5) that by (auto simp: prefix_def map_eq_append_conv nth_append)
  show ?thesis
  proof (cases "\<exists>sql. rows \<noteq> [] \<and> m_down m = Some sql \<and>
      apply_migration (mig_drivers env) (sc_now_ms env) st1 db1 m sql True = (status, db', st')")
    case False
    with assms(5) a have "status \<noteq> SC_OK" "durable S db' = (schema, rows)"
      by (auto simp: bc_migrations_down_def Let_def m_def split: if_splits option.splits)
    then show ?thesis by simp
  next
    case True
    then obtain sql where sql: "rows \<noteq> []" "m_down m = Some sql"
      "apply_migration (mig_drivers env) (sc_now_ms env) st1 db1 m sql True = (status, db', st')" by blast
    have mem: "m \<in> set carried" using nth(2) [of "length rows - 1"] sql(1) by (simp add: m_def)
    have ddls: "list_all (ddl S) (sql_of sql)"
      using assms(4) mem sql(2) by (force simp: carried_ok_def list_all_iff)
    have key: "fst (last rows) = m_version m"
      using nth(1) [of "length rows - 1"] sql(1) by (simp add: last_conv_nth m_def m_key_def)
    have "sorted_wrt (<) (map fst rows)"
      using assms(4) a(5) by (auto simp: prefix_def carried_ok_def map_eq_append_conv m_key_def sorted_wrt_append comp_def)
    from filter_last [OF this sql(1)] key
    have whole: "applied_whole S m sql True (schema, rows) = (fold (effect S) (sql_of sql) schema, butlast rows)"
      by (simp add: applied_whole_def)
    have target: "target \<in> {None, Some (if length rows = 1 then ''0'' else snd (rows ! (length rows - 2)))}" if "status = SC_OK"
      using assms(5) a sql(1) that nth(1) [of "length rows - 2"] length_0_conv [of rows]
      by (auto simp: bc_migrations_down_def Let_def m_key_def BC_MIGRATE_DOWN_EMPTY_TARGET_def not_le less_2_cases_iff
          split: if_splits option.splits)
    from migration_whole [OF assms(1) a(3) ddls _ sql(3)] a(2,5) sql(1,2) whole target show ?thesis
      by (auto simp: m_def)
  qed
qed

section \<open>A small database\<close>

text \<open>
  SQLite with a schema that is the list of the statements run; this build has no PostgreSQL. It
  shows that the promises above can be kept.
\<close>

type_synonym content = "string list \<times> bc_applied_migration list"
type_synonym small = "content \<times> content option"
type_synonym cursor = "bc_applied_migration list \<times> bc_applied_migration"

definition control :: "string \<Rightarrow> bool" where
  "control t \<longleftrightarrow> t = ''BEGIN'' \<or> t = ''COMMIT'' \<or> t = ''ROLLBACK'' \<or>
     t = kMigrationsTableSqlite \<or> t = kMigrationsTablePostgresql"

definition small_simple :: "small sc_db \<Rightarrow> string \<Rightarrow> sc_status \<times> sc_sql_error \<times> small sc_db" where
  "small_simple db t =
     (case native db of (kept, open) \<Rightarrow>
        if t = ''BEGIN'' then (SC_OK, no_failure, db\<lparr>native := (kept, Some kept)\<rparr>)
        else if t = ''COMMIT'' then (SC_OK, no_failure, db\<lparr>native := (case open of None \<Rightarrow> kept | Some p \<Rightarrow> p, None)\<rparr>)
        else if t = ''ROLLBACK'' then (SC_OK, no_failure, db\<lparr>native := (kept, None)\<rparr>)
        else if control t then (SC_OK, no_failure, db)
        else (case open of
                None \<Rightarrow> (SC_ERR_INVALID_ARGUMENT, no_failure, db)
              | Some (d, r) \<Rightarrow> (SC_OK, no_failure, db\<lparr>native := (kept, Some (d @ [t], r))\<rparr>)))"

definition small_run ::
  "small sc_db \<Rightarrow> sc_sql_statement \<Rightarrow> int \<Rightarrow> sc_sql_param list \<Rightarrow>
   sc_status \<times> cursor option \<times> int \<times> sc_sql_error \<times> small sc_db" where
  "small_run db statement sl params =
     (case native db of (kept, open) \<Rightarrow>
        if statement_id statement = 1 then (SC_OK, Some (snd kept, (0, [])), 0, no_failure, db)
        else (case (open, params) of
                (Some (d, r), SC_SQL_INT v # ps) \<Rightarrow>
                  (SC_OK, None, 1, no_failure,
                   db\<lparr>native := (kept, Some (d,
                     case ps of SC_SQL_TEXT n b # _ \<Rightarrow> r @ [(word_of_int v, n)]
                     | _ \<Rightarrow> filter (\<lambda>x. fst x \<noteq> word_of_int v) r))\<rparr>)
              | _ \<Rightarrow> (SC_ERR_INVALID_ARGUMENT, None, 0, no_failure, db)))"

definition small_sqlite :: "(small, cursor) sql_driver" where
  "small_sqlite = \<lparr>drv_run = small_run, drv_simple = small_simple,
     drv_next = (\<lambda>h. case fst h of [] \<Rightarrow> (False, SC_OK, h) | x # xs \<Rightarrow> (True, SC_OK, (xs, x))),
     drv_is_null = (\<lambda>h c. False), drv_text = (\<lambda>h c. Some (snd (snd h))),
     drv_int = (\<lambda>h c. uint (fst (snd h))), drv_bytes = (\<lambda>h c n. None)\<rparr>"

definition small_absent :: "(small, cursor) sql_driver" where
  "small_absent = \<lparr>drv_run = (\<lambda>db s sl ps. (SC_ERR_UNAVAILABLE, None, 0, no_failure, db)),
     drv_simple = (\<lambda>db t. (SC_ERR_UNAVAILABLE, no_failure, db)), drv_next = (\<lambda>h. (False, SC_OK, h)),
     drv_is_null = (\<lambda>h c. True), drv_text = (\<lambda>h c. None), drv_int = (\<lambda>h c. 0), drv_bytes = (\<lambda>h c n. None)\<rparr>"

definition small_drivers :: "(small, cursor) drivers" where
  "small_drivers k = (if k = SC_DB_SQLITE then small_sqlite else small_absent)"

definition small_store :: "(small, cursor, string list) store" where
  "small_store = \<lparr>durable = (\<lambda>db. fst (native db)), pending = (\<lambda>db. snd (native db)),
     ddl = (\<lambda>t. \<not> control t), effect = (\<lambda>t d. d @ [t]),
     rest = (\<lambda>R. if rows_kind R = SC_DB_SQLITE then (case handle R of None \<Rightarrow> [] | Some h \<Rightarrow> fst h) else [])\<rparr>"

lemma table_texts [simp]:
  "kMigrationsTableSqlite \<noteq> ''BEGIN''" "kMigrationsTableSqlite \<noteq> ''COMMIT''" "kMigrationsTableSqlite \<noteq> ''ROLLBACK''"
  "kMigrationsTablePostgresql \<noteq> ''BEGIN''" "kMigrationsTablePostgresql \<noteq> ''COMMIT''" "kMigrationsTablePostgresql \<noteq> ''ROLLBACK''"
  by (simp_all add: kMigrationsTableSqlite_def kMigrationsTablePostgresql_def)

lemma small_exec: "bc_sql_exec small_drivers db t =
    (if kind db = SC_DB_SQLITE then (fst (small_simple db t), snd (snd (small_simple db t)))
     else (SC_ERR_UNAVAILABLE, db))"
  by (simp add: bc_sql_exec_def sc_sql_simple_def small_drivers_def small_sqlite_def small_absent_def split: prod.splits)

lemma small_transactions: "transaction_laws small_drivers small_store"
  unfolding transaction_laws_def
  by (intro conjI; clarsimp simp: small_exec small_simple_def small_store_def inside_def split: prod.splits if_splits option.splits)

lemma small_outside: "outside_laws small_drivers small_store"
  unfolding outside_laws_def
  by (intro conjI;
      auto simp: small_exec small_simple_def small_store_def control_def sc_sql_query_def run_def Let_def kSelectApplied_def
        small_drivers_def small_sqlite_def small_absent_def small_run_def sc_sql_next_def sc_sql_col_int_def sc_sql_col_text_def
        split: prod.splits if_splits option.splits list.splits)

lemma small_statements: "statement_laws small_drivers small_store"
  unfolding statement_laws_def
  by (intro conjI;
      clarsimp simp: small_exec small_simple_def small_store_def inside_def control_def record_applied_def forget_applied_def
        sc_sql_exec_def run_def Let_def kRecordApplied_def kForgetApplied_def small_drivers_def small_sqlite_def small_absent_def
        small_run_def sc_sql_int_def sc_sql_text_def sc_sql_time_def m_key_def
        split: prod.splits if_splits option.splits)

lemma small_migration_store: "migration_store small_drivers small_store"
  by (simp add: migration_store_def small_transactions small_statements small_outside)

text \<open>Two migrations, and a database that has the first.\<close>

definition small_reader :: "nat json_reader" where
  "small_reader = \<lparr>reader_init = True, json_parse = (\<lambda>t. Some 0),
     json_value = (\<lambda>j k. if j = 0 then (if k = ''files'' then Some 1 else if k = ''migrations'' then Some 2 else None)
                        else if j = 1 then (if k = ''up'' then Some 3 else if k = ''down'' then Some 4 else None)
                        else None),
     json_string = (\<lambda>j k. if j = 3 then Some ''u'' else if j = 4 then Some ''d''
                         else if k = ''version'' then Some (if j = 5 then ''1'' else ''2'')
                         else Some (if j = 5 then ''a'' else ''b'')),
     json_bool = (\<lambda>j k. None),
     json_array = (\<lambda>j n. if 2 \<le> n then Some [5, 6] else None)\<rparr>"

definition small_files :: "(string \<times> string) list" where
  "small_files = [(''index.json'', ''{}''), (''a/u'', ''A;''), (''a/d'', ''UNDO A;''), (''b/u'', ''B; C;''), (''b/d'', ''UNDO B;'')]"

definition small_env :: "(small, cursor, nat) mig_env" where
  "small_env = \<lparr>mig_drivers = small_drivers, mig_reader = small_reader, bc_migration_files = small_files, sc_now_ms = 0\<rparr>"

definition small_carried :: "bc_migration list" where
  "small_carried = [\<lparr>m_version = 1, m_name = ''a'', m_up = ''A;'', m_down = Some ''UNDO A;''\<rparr>,
                    \<lparr>m_version = 2, m_name = ''b'', m_up = ''B; C;'', m_down = Some ''UNDO B;''\<rparr>]"

definition small_db :: "small sc_db" where
  "small_db = \<lparr>kind = SC_DB_SQLITE, native = (([''A''], [(1, ''a'')]), None), rerun_unit = False\<rparr>"

definition small_start :: sql_state where
  "small_start = \<lparr>last_slot = 0, slot = (\<lambda>_. 0)\<rparr>"

lemma small_load: "bc_migrations_load small_reader small_files SC_DB_SQLITE = Inr small_carried"
  by code_simp

lemma small_array: "json_array small_reader j n = Some es \<Longrightarrow> length es \<le> n"
  by (auto simp: small_reader_def split: if_splits)

lemma small_sql: "sql_of ''A;'' = [''A'']" "sql_of ''B; C;'' = [''B'', ''C'']" "sql_of ''UNDO A;'' = [''UNDO A'']"
  "sql_of ''UNDO B;'' = [''UNDO B'']"
  by code_simp+

lemma small_carried_ok: "carried_ok small_store small_carried"
  by (simp add: carried_ok_def small_carried_def small_sql small_store_def control_def BC_MIGRATION_NAME_MAX_def
      kMigrationsTableSqlite_def kMigrationsTablePostgresql_def)

lemma small_db_simps: "pending small_store small_db = None" "durable small_store small_db = ([''A''], [(1, ''a'')])"
  "kind small_db = SC_DB_SQLITE"
  by (simp_all add: small_store_def small_db_def)

lemma small_env_simps: "mig_drivers small_env = small_drivers" "mig_reader small_env = small_reader"
  "bc_migration_files small_env = small_files"
  by (simp_all add: small_env_def)

theorem migrations_load_wf_witness:
  "bc_migrations_schema_version small_carried = Max (insert 0 (m_version ` set small_carried)) \<and>
   length small_carried = 2"
  using migrations_load_wf [OF small_load small_array] by (simp add: small_carried_def)

lemma small_apply: "fst (apply_migration small_drivers 0 small_start small_db (small_carried ! 1) ''B; C;'' False) = SC_OK"
  by code_simp

theorem migration_all_or_nothing_witness:
  "durable small_store (fst (snd (apply_migration small_drivers 0 small_start small_db (small_carried ! 1) ''B; C;'' False))) =
     ([''A'', ''B'', ''C''], [(1, ''a''), (2, ''b'')])"
proof -
  obtain status db' st' where a: "apply_migration small_drivers 0 small_start small_db (small_carried ! 1) ''B; C;'' False = (status, db', st')"
    by (metis prod_cases3)
  have "list_all (ddl small_store) (sql_of ''B; C;'')"
    using small_carried_ok by (simp add: carried_ok_def small_carried_def)
  note whole = migration_all_or_nothing [OF small_migration_store small_db_simps(1) this _ a]
  have "status = SC_OK" using small_apply unfolding a by simp
  moreover have "applied_whole small_store (small_carried ! 1) ''B; C;'' False (durable small_store small_db) =
      ([''A'', ''B'', ''C''], [(1, ''a''), (2, ''b'')])"
    by code_simp
  ultimately show ?thesis
    unfolding a using whole by (simp add: small_db_simps small_carried_def)
qed

lemma small_run_ok: "fst (bc_migrations_run small_env small_start small_db) = SC_OK"
  by code_simp

theorem migrations_run_sound_witness:
  "\<exists>db' st' from. bc_migrations_run small_env small_start small_db = (SC_OK, from, db', st') \<and>
     snd (durable small_store db') = [(1, ''a''), (2, ''b'')]"
proof -
  obtain status since db' st' where r: "bc_migrations_run small_env small_start small_db = (status, since, db', st')"
    by (metis prod_cases4)
  have load: "bc_migrations_load (mig_reader small_env) (bc_migration_files small_env) (kind small_db) = Inr small_carried"
    by (simp add: small_env_simps small_db_simps small_load)
  from migrations_run_sound [OF _ small_db_simps(1) load small_carried_ok r small_db_simps(2)]
  show ?thesis using r small_run_ok small_migration_store
    by (auto simp: small_env_simps small_carried_def m_key_def)
qed

lemma small_down_ok: "fst (bc_migrations_down small_env small_start small_db (Some ''0'')) = SC_OK"
  by code_simp

theorem migrations_down_one_witness:
  "\<exists>db' st'. bc_migrations_down small_env small_start small_db (Some ''0'') = (SC_OK, db', st') \<and>
     durable small_store db' = ([''A'', ''UNDO A''], [])"
proof -
  obtain status db' st' where r: "bc_migrations_down small_env small_start small_db (Some ''0'') = (status, db', st')"
    by (metis prod_cases3)
  have load: "bc_migrations_load (mig_reader small_env) (bc_migration_files small_env) (kind small_db) = Inr small_carried"
    by (simp add: small_env_simps small_db_simps small_load)
  from migrations_down_one [OF _ small_db_simps(1) load small_carried_ok r small_db_simps(2)]
  show ?thesis using r small_down_ok small_migration_store
    by (auto simp: small_env_simps small_carried_def small_sql) (simp add: small_store_def)
qed

end
