(* ===== verification/FieldRules.thy ===== *)
theory FieldRules
  imports Prelude "HOL-Library.Code_Target_Nat"
begin

text \<open>
  The rules for the fields of a request body, \<^verbatim>\<open>backend/src/field_rules.c\<close>: the length of a UTF-8 text
  in UTF-16 code units, trimming as JavaScript does it, and the form of an e-mail address.

  Bytes are characters and masks are quotients: \<open>(b & 0xe0) == 0xc0\<close> says that \<open>b div 32 = 6\<close>, and
  \<open>(v << 6) | (b & 0x3f)\<close> is \<open>v * 64 + b mod 64\<close>. Shown: on the UTF-8 form of any list of code points
  the two measures are what a JavaScript string would answer, on any bytes they stay inside the
  text, and an address is accepted exactly when it is in the language of the regular expression
  the comment quotes.
\<close>

section \<open>Decoding\<close>

text \<open>The loop over the bytes that have to continue a sequence.\<close>

fun continue_walk :: "nat \<Rightarrow> nat \<Rightarrow> string \<Rightarrow> nat option" where
  "continue_walk 0 v s = Some v"
| "continue_walk (Suc n) v [] = None"
| "continue_walk (Suc n) v (c # cs) =
     (if code_of c div 64 \<noteq> 2 then None else continue_walk n (v * 64 + code_of c mod 64) cs)"

text \<open>The code point at the head of a text that is not empty, and its width.\<close>

definition sequence :: "nat \<Rightarrow> nat \<Rightarrow> string \<Rightarrow> nat \<times> nat" where
  "sequence needed v s =
     (if needed \<ge> length s then (code_of (hd s), 1)
      else case continue_walk needed v (tl s) of None \<Rightarrow> (code_of (hd s), 1) | Some w \<Rightarrow> (w, needed + 1))"

definition decode :: "string \<Rightarrow> nat \<times> nat" where
  "decode s =
     (let b = code_of (hd s)
      in if b < 128 then (b, 1)
         else if b div 32 = 6 then sequence 1 (b mod 32) s
         else if b div 16 = 14 then sequence 2 (b mod 16) s
         else if b div 8 = 30 then sequence 3 (b mod 8) s
         else (b, 1))"

lemma sequence_width: "s \<noteq> [] \<Longrightarrow> 0 < snd (sequence n v s) \<and> snd (sequence n v s) \<le> length s"
  by (cases s) (auto simp: sequence_def Suc_le_eq split: option.splits)

lemma decode_width: "s \<noteq> [] \<Longrightarrow> 0 < snd (decode s) \<and> snd (decode s) \<le> length s"
  using sequence_width [of s] by (cases s) (auto simp: decode_def Let_def)

section \<open>Length and trimming\<close>

function bk_utf16_length :: "string \<Rightarrow> nat" where
  "bk_utf16_length s =
     (if s = [] then 0
      else let (code, width) = decode s
           in (if code > 65535 then 2 else 1) + bk_utf16_length (drop width s))"
  by pat_completeness auto
termination
proof (relation "measure length", simp)
  fix s x code width
  assume "s \<noteq> []" "x = decode s" "(code, width) = x"
  then show "(drop width s, s) \<in> measure length" using decode_width [of s] by (cases "decode s") auto
qed

declare bk_utf16_length.simps [simp del]

definition is_js_space :: "nat \<Rightarrow> bool" where
  "is_js_space code \<longleftrightarrow>
     code \<in> {0x0009, 0x000a, 0x000b, 0x000c, 0x000d, 0x0020, 0x00a0, 0x1680, 0x2028, 0x2029, 0x202f, 0x205f, 0x3000, 0xfeff} \<or>
     0x2000 \<le> code \<and> code \<le> 0x200a"

text \<open>The first loop of \<^verbatim>\<open>bk_trim\<close>: where the text starts.\<close>

function trim_start :: "string \<Rightarrow> nat \<Rightarrow> nat" where
  "trim_start s start =
     (if start \<ge> length s then start
      else let (code, width) = decode (drop start s)
           in if \<not> is_js_space code then start else trim_start s (start + width))"
  by pat_completeness auto
termination
proof (relation "measure (\<lambda>(s, start). length s - start)", simp)
  fix s :: string and start x code width
  assume "\<not> length s \<le> start" "x = decode (drop start s)" "(code, width) = x"
  then show "((s, start + width), s, start) \<in> measure (\<lambda>(s, start). length s - start)"
    using decode_width [of "drop start s"] by (cases "decode (drop start s)") auto
qed

declare trim_start.simps [simp del]

definition is_continuation :: "char \<Rightarrow> bool" where
  "is_continuation c \<longleftrightarrow> code_of c div 64 = 2"

fun back_over :: "string \<Rightarrow> nat \<Rightarrow> nat \<Rightarrow> nat" where
  "back_over s start 0 = 0"
| "back_over s start (Suc n) =
     (if start < Suc n \<and> is_continuation (s ! Suc n) then back_over s start n else Suc n)"

lemma back_over_le: "back_over s start n \<le> n"
  by (induction s start n rule: back_over.induct) auto

text \<open>The second loop: where it ends.\<close>

function trim_end :: "string \<Rightarrow> nat \<Rightarrow> nat \<Rightarrow> nat" where
  "trim_end s start stop =
     (if stop \<le> start then stop
      else let lst = back_over s start (stop - 1);
               (code, width) = decode (drop lst s)
           in if lst + width \<noteq> stop \<or> \<not> is_js_space code then stop else trim_end s start lst)"
  by pat_completeness auto
termination
proof (relation "measure (\<lambda>(s, start, stop). stop)", simp)
  fix s :: string and start stop lst x code width
  assume "\<not> stop \<le> start" "lst = back_over s start (stop - 1)"
  then show "((s, start, lst), s, start, stop) \<in> measure (\<lambda>(s, start, stop). stop)"
    using back_over_le [of s start "stop - 1"] by auto
qed

declare trim_end.simps [simp del]

text \<open>The offset and the length of what trimming leaves.\<close>

definition bk_trim :: "string option \<Rightarrow> nat \<times> nat" where
  "bk_trim text0 =
     (case text0 of
        None \<Rightarrow> (0, 0)
      | Some s \<Rightarrow> let start = trim_start s 0; stop = trim_end s start (length s) in (start, stop - start))"

lemma trim_end_le: "trim_end s start stop \<le> stop"
proof (induction s start stop rule: trim_end.induct)
  case (1 s start stop)
  let ?l = "back_over s start (stop - 1)"
  obtain code width where d: "decode (drop ?l s) = (code, width)" by (cases "decode (drop ?l s)")
  show ?case
  proof (cases "stop \<le> start \<or> ?l + width \<noteq> stop \<or> \<not> is_js_space code")
    case True
    with d show ?thesis by (subst trim_end.simps) auto
  next
    case False
    with 1 d have "trim_end s start ?l \<le> ?l" by fastforce
    with False d back_over_le [of s start "stop - 1"] show ?thesis by (subst trim_end.simps) auto
  qed
qed

lemma trim_length: "bk_trim (Some s) = (start, len) \<Longrightarrow> len \<le> length s - start"
  using trim_end_le [of s "trim_start s 0" "length s"] by (auto simp: bk_trim_def Let_def)

section \<open>E-mail addresses\<close>

definition is_letter :: "char \<Rightarrow> bool" where
  "is_letter c \<longleftrightarrow> is_upper c \<or> is_lower c"

definition is_label_char :: "char \<Rightarrow> bool" where
  "is_label_char c \<longleftrightarrow> is_letter c \<or> is_digit c"

definition is_local_char :: "char \<Rightarrow> bool" where
  "is_local_char c \<longleftrightarrow> is_label_char c \<or> c = CHR ''_'' \<or> c = CHR ''+'' \<or> c = CHR ''-''"

fun label_walk :: "(char \<Rightarrow> bool) \<Rightarrow> (char \<Rightarrow> bool) \<Rightarrow> nat \<Rightarrow> string \<Rightarrow> bool" where
  "label_walk sep ok in_label [] = (in_label \<noteq> 0)"
| "label_walk sep ok in_label (c # cs) =
     (if sep c then (if in_label = 0 then False else label_walk sep ok 0 cs)
      else if \<not> ok c then False
      else label_walk sep ok (in_label + 1) cs)"

definition is_dot :: "char \<Rightarrow> bool" where "is_dot c \<longleftrightarrow> c = CHR ''.''"
definition is_joint :: "char \<Rightarrow> bool" where "is_joint c \<longleftrightarrow> c = CHR ''.'' \<or> c = CHR ''-''"

definition local_part_ok :: "string \<Rightarrow> bool" where
  "local_part_ok s \<longleftrightarrow> s \<noteq> [] \<and> label_walk is_dot is_local_char 0 s"

definition domain_labels_ok :: "string \<Rightarrow> bool" where
  "domain_labels_ok s \<longleftrightarrow> s \<noteq> [] \<and> label_walk is_joint is_label_char 0 s"

fun find_last_dot :: "nat \<Rightarrow> nat option \<Rightarrow> string \<Rightarrow> nat option" where
  "find_last_dot i found [] = found"
| "find_last_dot i found (c # cs) = find_last_dot (i + 1) (if c = CHR ''.'' then Some i else found) cs"

fun find_at :: "nat \<Rightarrow> string \<Rightarrow> nat option" where
  "find_at i [] = None"
| "find_at i (c # cs) = (if c = CHR ''@'' then Some i else find_at (i + 1) cs)"

definition bk_is_email :: "string option \<Rightarrow> bool" where
  "bk_is_email text0 =
     (case text0 of
        None \<Rightarrow> False
      | Some s \<Rightarrow>
          (case find_at 0 s of
             None \<Rightarrow> False
           | Some at \<Rightarrow>
               local_part_ok (take at s) \<and>
               (case find_last_dot (at + 1) None (drop (at + 1) s) of
                  None \<Rightarrow> False
                | Some last_dot \<Rightarrow>
                    2 \<le> length s - last_dot - 1 \<and>
                    list_all is_letter (drop (last_dot + 1) s) \<and>
                    domain_labels_ok (take (last_dot - at - 1) (drop (at + 1) s)))))"

section \<open>Texts as lists of code points\<close>

definition byte_char :: "nat \<Rightarrow> char" where "byte_char n = char_of n"

text \<open>The UTF-8 form of a code point (RFC 3629).\<close>

definition utf8 :: "nat \<Rightarrow> string" where
  "utf8 c =
     (if c < 0x80 then [byte_char c]
      else if c < 0x800 then [byte_char (192 + c div 64), byte_char (128 + c mod 64)]
      else if c < 0x10000 then [byte_char (224 + c div 4096), byte_char (128 + c div 64 mod 64), byte_char (128 + c mod 64)]
      else [byte_char (240 + c div 262144), byte_char (128 + c div 4096 mod 64),
            byte_char (128 + c div 64 mod 64), byte_char (128 + c mod 64)])"

definition encode :: "nat list \<Rightarrow> string" where
  "encode cps = concat (map utf8 cps)"

definition code_point :: "nat \<Rightarrow> bool" where
  "code_point c \<longleftrightarrow> c < 0x110000"

lemma code_of_byte [simp]: "n < 256 \<Longrightarrow> code_of (byte_char n) = n"
  by (simp add: byte_char_def code_of_def)

lemma encode_simps [simp]:
  "encode [] = []" "encode (c # cs) = utf8 c @ encode cs" "encode (xs @ ys) = encode xs @ encode ys"
  by (simp_all add: encode_def)

lemma utf8_nonempty [simp]: "utf8 c \<noteq> []"
  by (simp add: utf8_def)

lemma low_byte: "128 + (n::nat) mod 64 < 256" "(128 + n mod 64) div 64 = 2" "(128 + n mod 64) mod 64 = n mod 64"
proof -
  have "n mod 64 < 64" by simp
  then show "128 + n mod 64 < 256" "(128 + n mod 64) div 64 = 2" by linarith+
  have "(128 + n mod 64) mod 64 = (n mod 64 + 2 * 64) mod 64" by (simp add: add.commute)
  then show "(128 + n mod 64) mod 64 = n mod 64" by (metis mod_mod_trivial mod_mult_self1)
qed

lemma join2: "(c div 64) * 64 + c mod 64 = (c::nat)"
  by simp

lemma join3: "((c div 4096) * 64 + c div 64 mod 64) * 64 + c mod 64 = (c::nat)"
proof -
  have "c div 4096 = c div 64 div 64" by (simp add: div_mult2_eq [symmetric])
  then have "(c div 4096) * 64 + c div 64 mod 64 = c div 64" by simp
  then show ?thesis by simp
qed

lemma join4: "(((c div 262144) * 64 + c div 4096 mod 64) * 64 + c div 64 mod 64) * 64 + c mod 64 = (c::nat)"
proof -
  have "c div 262144 = c div 4096 div 64" by (simp add: div_mult2_eq [symmetric])
  then have "(c div 262144) * 64 + c div 4096 mod 64 = c div 4096" by simp
  then show ?thesis using join3 by simp
qed

lemma decode_utf8:
  assumes "code_point c"
  shows "decode (utf8 c @ rest) = (c, length (utf8 c))"
proof -
  consider "c < 128" | "128 \<le> c" "c < 2048" | "2048 \<le> c" "c < 65536" | "65536 \<le> c" "c < 1114112"
    using assms by (fastforce simp: code_point_def)
  then show ?thesis
  proof cases
    case 1
    then show ?thesis by (simp add: decode_def utf8_def Let_def)
  next
    case 2
    have q: "c div 64 < 32" "2 \<le> c div 64" using 2 by auto
    have "(192 + c div 64) div 32 = 6" "(192 + c div 64) mod 32 = c div 64" using q by (auto simp: mod_if)
    with 2 q show ?thesis
      by (simp add: decode_def utf8_def Let_def sequence_def low_byte join2)
  next
    case 3
    have q: "c div 4096 < 16" using 3 by auto
    have "(224 + c div 4096) div 32 = 7" "(224 + c div 4096) div 16 = 14" "(224 + c div 4096) mod 16 = c div 4096" using q by (auto simp: mod_if)
    with 3 q join3 [of c] show ?thesis
      by (simp add: decode_def utf8_def Let_def sequence_def low_byte numeral_2_eq_2)
  next
    case 4
    have q: "c div 262144 < 8" using 4 by auto
    have "(240 + c div 262144) div 32 = 7" "(240 + c div 262144) div 16 = 15" "(240 + c div 262144) div 8 = 30"
      "(240 + c div 262144) mod 8 = c div 262144" using q by (auto simp: mod_if)
    with 4 q join4 [of c] show ?thesis
      by (simp add: decode_def utf8_def Let_def sequence_def low_byte numeral_3_eq_3)
  qed
qed

text \<open>
  The length of the UTF-8 form of a text is the number of its UTF-16 code units: one for each
  code point of the basic plane, two for each beyond it.
\<close>

definition utf16_units :: "nat \<Rightarrow> nat" where
  "utf16_units c = (if c < 0x10000 then 1 else 2)"

theorem utf16_length_of_text:
  assumes "list_all code_point cps"
  shows "bk_utf16_length (encode cps) = sum_list (map utf16_units cps)"
  using assms
proof (induction cps)
  case (Cons c cs)
  then have "bk_utf16_length (utf8 c @ encode cs) = utf16_units c + bk_utf16_length (encode cs)"
    by (subst bk_utf16_length.simps) (simp add: decode_utf8 utf16_units_def)
  with Cons show ?case by simp
qed (simp add: bk_utf16_length.simps)

theorem utf16_length_of_text_witness:
  "bk_utf16_length (encode [0x4D, 0xFC, 0x1F600]) = 4"
  using utf16_length_of_text [of "[0x4D, 0xFC, 0x1F600]"] by (simp add: code_point_def utf16_units_def)

section \<open>Trimming\<close>

lemma trim_start_encode:
  assumes "list_all code_point (xs @ ys)" and "list_all is_js_space xs" and "ys = [] \<or> \<not> is_js_space (hd ys)"
  shows "trim_start (encode (zs @ xs @ ys)) (length (encode zs)) = length (encode (zs @ xs))"
  using assms
proof (induction xs arbitrary: zs)
  case Nil
  then show ?case
    by (subst trim_start.simps) (cases ys; simp add: decode_utf8)
next
  case (Cons x xs)
  have "trim_start (encode ((zs @ [x]) @ xs @ ys)) (length (encode (zs @ [x]))) = length (encode ((zs @ [x]) @ xs))"
    using Cons by (intro Cons.IH) simp_all
  with Cons.prems show ?case
    by (subst trim_start.simps) (simp add: decode_utf8 add.assoc)
qed

lemma utf8_lead: "code_point c \<Longrightarrow> \<not> is_continuation (hd (utf8 c))"
proof -
  assume "code_point c"
  then have "c div 262144 < 8" by (simp add: code_point_def)
  moreover have "c < 128 \<Longrightarrow> c div 64 < 2" by auto
  moreover have "c < 2048 \<Longrightarrow> c div 64 < 32" "c < 65536 \<Longrightarrow> c div 4096 < 16" by auto
  ultimately show ?thesis
    by (auto simp: utf8_def is_continuation_def)
qed

lemma utf8_tail: "d \<in> set (tl (utf8 c)) \<Longrightarrow> is_continuation d"
  by (auto simp: utf8_def is_continuation_def low_byte split: if_splits)

lemma back_over_run:
  assumes "\<And>i. at < i \<Longrightarrow> i \<le> n \<Longrightarrow> is_continuation (s ! i)" and "start \<le> at" and "at \<le> n"
    and "at = start \<or> \<not> is_continuation (s ! at)"
  shows "back_over s start n = at"
  using assms
proof (induction n)
  case (Suc n)
  show ?case
  proof (cases "at = Suc n")
    case True
    with Suc.prems show ?thesis by auto
  next
    case False
    with Suc show ?thesis by auto
  qed
qed simp

lemma back_over_encode:
  assumes "code_point c" and "start \<le> length (encode zs)"
  shows "back_over (encode (zs @ [c]) @ r) start (length (encode (zs @ [c])) - 1) = length (encode zs)"
proof (rule back_over_run)
  fix i assume i: "length (encode zs) < i" "i \<le> length (encode (zs @ [c])) - 1"
  then have "(encode (zs @ [c]) @ r) ! i = utf8 c ! (i - length (encode zs))"
    by (auto simp: nth_append)
  also have "\<dots> = tl (utf8 c) ! (i - length (encode zs) - 1)"
    using i by (cases "utf8 c") (auto simp: nth_Cons')
  also have "\<dots> \<in> set (tl (utf8 c))" using i by (intro nth_mem) auto
  finally show "is_continuation ((encode (zs @ [c]) @ r) ! i)" by (rule utf8_tail)
next
  have "(encode (zs @ [c]) @ r) ! length (encode zs) = hd (utf8 c)"
    by (simp add: nth_append hd_conv_nth)
  then show "length (encode zs) = start \<or> \<not> is_continuation ((encode (zs @ [c]) @ r) ! length (encode zs))"
    using utf8_lead [OF assms(1)] by simp
next
  show "length (encode zs) \<le> length (encode (zs @ [c])) - 1"
    using utf8_nonempty [of c] by (cases "utf8 c") simp_all
qed (use assms in simp)

lemma trim_end_encode:
  assumes "list_all code_point (ys @ xs)" and "list_all is_js_space xs"
    and "ys = [] \<or> \<not> is_js_space (last ys)"
  shows "trim_end (encode (zs @ ys @ xs) @ r) (length (encode zs)) (length (encode (zs @ ys @ xs))) = length (encode (zs @ ys))"
  using assms
proof (induction xs arbitrary: r rule: rev_induct)
  case Nil
  show ?case
  proof (cases ys rule: rev_cases)
    case Nil
    then show ?thesis by (subst trim_end.simps) simp
  next
    case (snoc us u)
    have bo: "back_over (encode ((zs @ us) @ [u]) @ r) (length (encode zs)) (length (encode ((zs @ us) @ [u])) - 1) = length (encode (zs @ us))"
      using Nil.prems snoc by (intro back_over_encode) simp_all
    have "\<not> length (encode (zs @ ys)) \<le> length (encode zs)" using snoc by (simp add: Suc_le_eq)
    with bo snoc Nil.prems show ?thesis
      by (subst trim_end.simps) (simp add: decode_utf8 Let_def)
  qed
next
  case (snoc x xs)
  have bo: "back_over (encode ((zs @ ys @ xs) @ [x]) @ r) (length (encode zs)) (length (encode ((zs @ ys @ xs) @ [x])) - 1) = length (encode (zs @ ys @ xs))"
    using snoc.prems by (intro back_over_encode) simp_all
  have "trim_end (encode (zs @ ys @ xs) @ (utf8 x @ r)) (length (encode zs)) (length (encode (zs @ ys @ xs))) = length (encode (zs @ ys))"
    using snoc by (intro snoc.IH) simp_all
  moreover have "\<not> length (encode (zs @ ys @ xs @ [x])) \<le> length (encode zs)" by (simp add: Suc_le_eq)
  ultimately show ?case using bo snoc.prems
    by (subst trim_end.simps) (simp add: decode_utf8 Let_def)
qed

text \<open>\<^verbatim>\<open>String.prototype.trim\<close> on a list of code points.\<close>

definition js_trim :: "nat list \<Rightarrow> nat list" where
  "js_trim cps = rev (dropWhile is_js_space (rev (dropWhile is_js_space cps)))"

lemma js_trim_split:
  obtains as bs where "cps = as @ js_trim cps @ bs" "list_all is_js_space as" "list_all is_js_space bs"
    "js_trim cps = [] \<or> \<not> is_js_space (hd (js_trim cps))" "js_trim cps = [] \<or> \<not> is_js_space (last (js_trim cps))"
    "js_trim cps = [] \<longrightarrow> bs = []"
proof -
  define ds where "ds = dropWhile is_js_space cps"
  have first: "cps = takeWhile is_js_space cps @ ds" by (simp add: ds_def)
  have "rev ds = takeWhile is_js_space (rev ds) @ dropWhile is_js_space (rev ds)" by simp
  then have second: "ds = js_trim cps @ rev (takeWhile is_js_space (rev ds))"
    unfolding js_trim_def ds_def [symmetric] by (metis rev_append rev_rev_ident)
  have head: "ds = [] \<or> \<not> is_js_space (hd ds)" unfolding ds_def by (metis hd_dropWhile)
  have none: "js_trim cps = [] \<longrightarrow> ds = []"
  proof
    assume "js_trim cps = []"
    then have "\<forall>x \<in> set ds. is_js_space x" by (simp add: js_trim_def ds_def [symmetric] dropWhile_eq_Nil_conv)
    with head show "ds = []" by (metis list.set_sel(1))
  qed
  have "js_trim cps = [] \<or> \<not> is_js_space (last (js_trim cps))"
    unfolding js_trim_def ds_def [symmetric] by (metis hd_dropWhile last_rev rev_is_Nil_conv)
  moreover have "js_trim cps = [] \<or> \<not> is_js_space (hd (js_trim cps))"
    using head arg_cong [OF second, of hd] arg_cong [OF second, of "\<lambda>x. x = []"] by auto
  moreover have "list_all is_js_space (takeWhile is_js_space cps)" "list_all is_js_space (rev (takeWhile is_js_space (rev ds)))"
    by (auto simp: list_all_iff dest: set_takeWhileD)
  moreover have "cps = takeWhile is_js_space cps @ js_trim cps @ rev (takeWhile is_js_space (rev ds))"
    using first second by metis
  moreover have "js_trim cps = [] \<longrightarrow> rev (takeWhile is_js_space (rev ds)) = []" using none by simp
  ultimately show thesis using that by blast
qed

text \<open>
  Trimming the UTF-8 form of a text leaves the UTF-8 form of the text trimmed as JavaScript
  trims it, wherever the white space is in the encoding one, two or three bytes long.
\<close>

theorem trim_of_text:
  assumes "list_all code_point cps" and "bk_trim (Some (encode cps)) = (begin, len)"
  shows "take len (drop begin (encode cps)) = encode (js_trim cps)"
proof -
  obtain as bs where s: "cps = as @ js_trim cps @ bs" "list_all is_js_space as" "list_all is_js_space bs"
    "js_trim cps = [] \<or> \<not> is_js_space (hd (js_trim cps))" "js_trim cps = [] \<or> \<not> is_js_space (last (js_trim cps))"
    "js_trim cps = [] \<longrightarrow> bs = []" by (rule js_trim_split [of cps])
  obtain ys where ys: "js_trim cps = ys" by blast
  note s = s [unfolded ys]
  have ok: "list_all code_point (as @ ys @ bs)" using assms(1) s(1) by metis
  have "trim_start (encode ([] @ as @ (ys @ bs))) (length (encode [])) = length (encode ([] @ as))"
    using ok s by (intro trim_start_encode) (auto simp: hd_append)
  then have b: "trim_start (encode cps) 0 = length (encode as)" by (subst s(1)) simp
  have "trim_end (encode (as @ ys @ bs) @ []) (length (encode as)) (length (encode (as @ ys @ bs))) = length (encode (as @ ys))"
    using ok s by (intro trim_end_encode) auto
  then have e: "trim_end (encode cps) (length (encode as)) (length (encode cps)) = length (encode (as @ ys))"
    by (subst (1 2) s(1)) simp
  have "begin = length (encode as)" "len = length (encode ys)"
    using assms(2) by (simp_all add: bk_trim_def b e Let_def)
  then show ?thesis unfolding ys by (subst s(1)) simp
qed

theorem trim_of_text_witness:
  "\<exists>begin len. bk_trim (Some (encode [0x20, 0x3000, 0x4D, 0xFC, 0xA0])) = (begin, len) \<and>
     take len (drop begin (encode [0x20, 0x3000, 0x4D, 0xFC, 0xA0])) = encode [0x4D, 0xFC]"
proof -
  obtain b l where t: "bk_trim (Some (encode [0x20, 0x3000, 0x4D, 0xFC, 0xA0])) = (b, l)" by fastforce
  from trim_of_text [OF _ t] t show ?thesis by (simp add: code_point_def js_trim_def is_js_space_def)
qed

section \<open>The regular expression\<close>

text \<open>One or more labels, with a separator between each two.\<close>

inductive labels :: "(char \<Rightarrow> bool) \<Rightarrow> (char \<Rightarrow> bool) \<Rightarrow> string \<Rightarrow> bool" for sep ok where
  one: "w \<noteq> [] \<Longrightarrow> list_all ok w \<Longrightarrow> labels sep ok w"
| more: "w \<noteq> [] \<Longrightarrow> list_all ok w \<Longrightarrow> sep c \<Longrightarrow> labels sep ok s \<Longrightarrow> labels sep ok (w @ c # s)"

text \<open>\<^verbatim>\<open>/^[\w+-]+(?:\.[\w+-]+)*@[\da-z]+(?:[.-][\da-z]+)*\.[a-z]{2,}$/i\<close> over ASCII.\<close>

definition email_regex :: "string \<Rightarrow> bool" where
  "email_regex s \<longleftrightarrow>
     (\<exists>l d t. s = l @ CHR ''@'' # d @ CHR ''.'' # t \<and> labels is_dot is_local_char l \<and>
        labels is_joint is_label_char d \<and> 2 \<le> length t \<and> list_all is_letter t)"

lemma label_walk_word:
  assumes "list_all ok w" and "\<And>c. ok c \<Longrightarrow> \<not> sep c"
  shows "label_walk sep ok n (w @ s) = label_walk sep ok (n + length w) s"
  using assms by (induction w arbitrary: n) auto

lemma label_walk_iff:
  assumes apart: "\<And>c. ok c \<Longrightarrow> \<not> sep c"
  shows "label_walk sep ok 0 s \<longleftrightarrow> labels sep ok s"
proof
  have "label_walk sep ok n s \<Longrightarrow> (\<exists>w. length w = n \<and> list_all ok w) \<Longrightarrow>
      (\<forall>w. length w = n \<and> list_all ok w \<longrightarrow> labels sep ok (w @ s))" for n
  proof (induction sep ok n s rule: label_walk.induct)
    case (1 sep ok n)
    then show ?case by (auto intro!: labels.one)
  next
    case (2 sep ok n c cs)
    show ?case
    proof (intro allI impI)
      fix w assume w: "length w = n \<and> list_all ok w"
      show "labels sep ok (w @ c # cs)"
      proof (cases "sep c")
        case True
        with 2(1) [OF True] 2(3) have "n \<noteq> 0" "labels sep ok cs" by (auto split: if_splits)
        with w True show ?thesis by (intro labels.more) auto
      next
        case False
        with 2(3) have c: "ok c" "label_walk sep ok (n + 1) cs" by (auto split: if_splits)
        with w have "length (w @ [c]) = n + 1 \<and> list_all ok (w @ [c])" by simp
        with 2(2) [OF False] c have "labels sep ok ((w @ [c]) @ cs)" by blast
        then show ?thesis by simp
      qed
    qed
  qed
  from this [of 0] show "label_walk sep ok 0 s \<Longrightarrow> labels sep ok s" by auto
next
  assume "labels sep ok s"
  then show "label_walk sep ok 0 s"
  proof induction
    case (one w)
    then show ?case using label_walk_word [of ok w sep 0 "[]"] apart by simp
  next
    case (more w c s)
    then show ?case using label_walk_word [of ok w sep 0 "c # s"] apart by simp
  qed
qed

lemma labels_nonempty: "labels sep ok s \<Longrightarrow> s \<noteq> []"
  by (induction rule: labels.induct) auto

lemma labels_chars: "labels sep ok s \<Longrightarrow> c \<in> set s \<Longrightarrow> ok c \<or> sep c"
  by (induction rule: labels.induct) (auto simp: list_all_iff)

lemma letter_codes: "is_letter c \<Longrightarrow> c \<noteq> CHR ''.'' \<and> c \<noteq> CHR ''-'' \<and> c \<noteq> CHR ''@''"
  "is_digit c \<Longrightarrow> c \<noteq> CHR ''.'' \<and> c \<noteq> CHR ''-'' \<and> c \<noteq> CHR ''@''"
  by (auto simp: is_letter_def is_upper_def is_lower_def is_digit_def in_range_def code_of_def)

lemma local_labels: "local_part_ok s \<longleftrightarrow> labels is_dot is_local_char s"
  using label_walk_iff [of is_local_char is_dot s] labels_nonempty
  by (fastforce simp: local_part_ok_def is_local_char_def is_label_char_def is_dot_def dest: letter_codes)

lemma domain_labels: "domain_labels_ok s \<longleftrightarrow> labels is_joint is_label_char s"
  using label_walk_iff [of is_label_char is_joint s] labels_nonempty
  by (fastforce simp: domain_labels_ok_def is_label_char_def is_joint_def dest: letter_codes)

lemma find_at_Some: "find_at i s = Some k \<longleftrightarrow> (\<exists>l r. s = l @ CHR ''@'' # r \<and> CHR ''@'' \<notin> set l \<and> k = i + length l)"
proof (induction i s arbitrary: k rule: find_at.induct)
  case (2 i c cs)
  show ?case
  proof (cases "c = CHR ''@''")
    case True
    then show ?thesis by (auto simp: Cons_eq_append_conv)
  next
    case False
    have "(\<exists>l r. c # cs = l @ CHR ''@'' # r \<and> CHR ''@'' \<notin> set l \<and> k = i + length l) \<longleftrightarrow>
        (\<exists>l r. cs = l @ CHR ''@'' # r \<and> CHR ''@'' \<notin> set l \<and> k = i + 1 + length l)" (is "?a = ?b")
    proof
      assume ?a with False show ?b by (auto simp: Cons_eq_append_conv)
    next
      assume ?b
      then obtain l r where "cs = l @ CHR ''@'' # r" "CHR ''@'' \<notin> set l" "k = i + 1 + length l" by blast
      with False show ?a by (intro exI [of _ "c # l"] exI [of _ r]) simp
    qed
    with False 2 [of k] show ?thesis by simp
  qed
qed simp

lemma find_last_dot_none: "CHR ''.'' \<notin> set s \<Longrightarrow> find_last_dot i found s = found"
  by (induction i found s rule: find_last_dot.induct) auto

lemma find_last_dot_append: "CHR ''.'' \<notin> set t \<Longrightarrow> find_last_dot i found (d @ CHR ''.'' # t) = Some (i + length d)"
  by (induction d arbitrary: i found) (auto simp: find_last_dot_none)

lemma bk_is_email_regex: "bk_is_email (Some s) \<longleftrightarrow> email_regex s"
proof
  assume acc: "bk_is_email (Some s)"
  then obtain k where k: "find_at 0 s = Some k" by (auto simp: bk_is_email_def split: option.splits)
  then obtain l r where s: "s = l @ CHR ''@'' # r" "k = length l" by (auto simp: find_at_Some)
  have dotted: "CHR ''.'' \<in> set r"
  proof (rule ccontr)
    assume "CHR ''.'' \<notin> set r"
    with acc k s show False by (simp add: bk_is_email_def find_last_dot_none)
  qed
  obtain d t where r: "r = d @ CHR ''.'' # t" "CHR ''.'' \<notin> set t" using split_list_last [OF dotted] by blast
  show "email_regex s"
    unfolding email_regex_def
    by (rule exI [of _ l], rule exI [of _ d], rule exI [of _ t])
      (use acc k s r in \<open>simp add: bk_is_email_def find_last_dot_append local_labels domain_labels\<close>)
next
  assume "email_regex s"
  then obtain l d t where s: "s = l @ CHR ''@'' # d @ CHR ''.'' # t" and p: "labels is_dot is_local_char l"
    "labels is_joint is_label_char d" "2 \<le> length t" "list_all is_letter t" by (auto simp: email_regex_def)
  have "CHR ''@'' \<notin> set l"
    using labels_chars [OF p(1)] letter_codes by (fastforce simp: is_local_char_def is_label_char_def is_dot_def)
  then have at: "find_at 0 s = Some (length l)" using s by (auto simp: find_at_Some)
  have "CHR ''.'' \<notin> set t" using p(4) letter_codes by (auto simp: list_all_iff)
  with at p s show "bk_is_email (Some s)"
    by (simp add: bk_is_email_def find_last_dot_append local_labels domain_labels)
qed

text \<open>
  An address is accepted exactly when it matches the regular expression of the reference
  implementation (over ASCII): labels of the local part with single dots between them, an at sign,
  labels of the domain with single dots or hyphens between them, a dot and two or more letters.
\<close>

theorem email_is_regex: "bk_is_email (Some s) \<longleftrightarrow> email_regex s"
  by (rule bk_is_email_regex)

end
