(* ===== verification/DbContent.thy ===== *)
theory DbContent
  imports DbUnit
begin

text \<open>
  Units of work on a database whose content is known. \<open>journal\<close> says what a connection promises
  about the durable content and about the content of the transaction that is open on it;
  \<open>unit_outcome\<close> then says what a unit that writes has done, in terms of the last run of its work
  alone: the clients of \<open>DbUnit\<close> reason about one run of their work on the durable content.
\<close>

section \<open>What a connection promises\<close>

definition journal :: "('c, 'h, 'u) exec_env \<Rightarrow> ('c sc_db \<Rightarrow> 'd) \<Rightarrow> ('c sc_db \<Rightarrow> 'd option) \<Rightarrow> bool" where
  "journal env D P \<longleftrightarrow>
     (\<forall>db b. D (db\<lparr>rerun_unit := b\<rparr>) = D db \<and> P (db\<lparr>rerun_unit := b\<rparr>) = P db) \<and>
     (\<forall>db st e db'. sc_sql_simple (drivers env) db (begin_text db) = (st, e, db') \<and> P db = None \<longrightarrow>
        D db' = D db \<and> P db' = (if st = SC_OK then Some (D db) else None)) \<and>
     (\<forall>db st e db'. sc_sql_simple (drivers env) db ''COMMIT'' = (st, e, db') \<longrightarrow>
        (if st = SC_OK then D db' = (case P db of None \<Rightarrow> D db | Some p \<Rightarrow> p)
         else D db' = D db \<or> st = SC_ERR_NETWORK \<and> P db = Some (D db'))) \<and>
     (\<forall>db st e db'. sc_sql_simple (drivers env) db ''ROLLBACK'' = (st, e, db') \<longrightarrow>
        D db' = D db \<and> (st = SC_OK \<longrightarrow> P db' = None) \<and> kind db' = kind db) \<and>
     (\<forall>db. D (redial env db) = D db \<and> P (redial env db) = None) \<and>
     (\<forall>db. kind db = SC_DB_SQLITE \<and> \<not> in_transaction env db \<longrightarrow> P db = None)"

text \<open>
  What a work has to keep: the durable content, while the transaction it runs in is open. \<open>K\<close> is
  whatever it keeps of its own part.
\<close>

definition keeps_content ::
  "('c, 'h, 'u) exec_env \<Rightarrow> ('c sc_db \<Rightarrow> 'd) \<Rightarrow> ('c sc_db \<Rightarrow> 'd option) \<Rightarrow> ('u \<Rightarrow> bool) \<Rightarrow> bool" where
  "keeps_content env D P K \<longleftrightarrow>
     (\<forall>db unit fin db' o' e'. work env db unit = (fin, db', o', e') \<and> P db = Some (D db) \<and> K (own unit) \<longrightarrow>
        D db' = D db \<and> K o')"

text \<open>How a unit ended that found \<open>d\<close> durable: the last run of its work and what became of it.\<close>

definition last_run ::
  "('c, 'h, 'u) exec_env \<Rightarrow> ('c sc_db \<Rightarrow> 'd) \<Rightarrow> ('c sc_db \<Rightarrow> 'd option) \<Rightarrow> ('u \<Rightarrow> bool) \<Rightarrow> 'd \<Rightarrow>
   'c sc_db \<Rightarrow> 'u sc_db_unit \<Rightarrow> bool" where
  "last_run env D P K d db' unit' \<longleftrightarrow>
     (\<exists>db2 unit1 fin db3 e3. work env db2 unit1 = (fin, db3, own unit', e3) \<and>
        P db2 = Some d \<and> D db2 = d \<and> K (own unit1) \<and>
        (fin = SC_DB_COMMIT \<and> (\<forall>p. P db3 = Some p \<longrightarrow> D db' = p) \<or> fin = SC_DB_ROLLBACK \<and> D db' = d))"

definition unit_ended ::
  "('c, 'h, 'u) exec_env \<Rightarrow> ('c sc_db \<Rightarrow> 'd) \<Rightarrow> ('c sc_db \<Rightarrow> 'd option) \<Rightarrow> ('u \<Rightarrow> bool) \<Rightarrow> 'd \<Rightarrow>
   'c sc_db \<Rightarrow> 'u sc_db_unit \<Rightarrow> bool" where
  "unit_ended env D P K d db' unit' \<longleftrightarrow>
     (if status unit' = SC_OK then last_run env D P K d db' unit'
      else D db' = d \<or> status unit' = SC_ERR_NETWORK)"

section \<open>The last run of the work\<close>

lemma journalD:
  assumes "journal env D P"
  shows jn_flag: "D (db\<lparr>rerun_unit := b\<rparr>) = D db" "P (db\<lparr>rerun_unit := b\<rparr>) = P db"
    and jn_begin: "sc_sql_simple (drivers env) db (begin_text db) = (st, e, db') \<Longrightarrow> P db = None \<Longrightarrow>
          D db' = D db \<and> P db' = (if st = SC_OK then Some (D db) else None)"
    and jn_commit: "sc_sql_simple (drivers env) db ''COMMIT'' = (st, e, db') \<Longrightarrow>
          (if st = SC_OK then D db' = (case P db of None \<Rightarrow> D db | Some p \<Rightarrow> p)
           else D db' = D db \<or> st = SC_ERR_NETWORK \<and> P db = Some (D db'))"
    and jn_rollback: "sc_sql_simple (drivers env) db ''ROLLBACK'' = (st, e, db') \<Longrightarrow>
          D db' = D db \<and> (st = SC_OK \<longrightarrow> P db' = None) \<and> kind db' = kind db"
    and jn_redial: "D (redial env db) = D db" "P (redial env db) = None"
    and jn_asked: "kind db = SC_DB_SQLITE \<Longrightarrow> \<not> in_transaction env db \<Longrightarrow> P db = None"
proof -
  note j = assms [unfolded journal_def]
  show "D (db\<lparr>rerun_unit := b\<rparr>) = D db" "P (db\<lparr>rerun_unit := b\<rparr>) = P db"
    using j [THEN conjunct1] by blast+
  show "sc_sql_simple (drivers env) db (begin_text db) = (st, e, db') \<Longrightarrow> P db = None \<Longrightarrow>
      D db' = D db \<and> P db' = (if st = SC_OK then Some (D db) else None)"
    by (rule j [THEN conjunct2, THEN conjunct1, rule_format, OF conjI])
  show "sc_sql_simple (drivers env) db ''COMMIT'' = (st, e, db') \<Longrightarrow>
      (if st = SC_OK then D db' = (case P db of None \<Rightarrow> D db | Some p \<Rightarrow> p)
       else D db' = D db \<or> st = SC_ERR_NETWORK \<and> P db = Some (D db'))"
    by (rule j [THEN conjunct2, THEN conjunct2, THEN conjunct1, rule_format])
  show "sc_sql_simple (drivers env) db ''ROLLBACK'' = (st, e, db') \<Longrightarrow>
      D db' = D db \<and> (st = SC_OK \<longrightarrow> P db' = None) \<and> kind db' = kind db"
    using j [THEN conjunct2, THEN conjunct2, THEN conjunct2, THEN conjunct1] by blast
  show "D (redial env db) = D db" "P (redial env db) = None"
    using j [THEN conjunct2, THEN conjunct2, THEN conjunct2, THEN conjunct2, THEN conjunct1] by blast+
  show "kind db = SC_DB_SQLITE \<Longrightarrow> \<not> in_transaction env db \<Longrightarrow> P db = None"
    using j [THEN conjunct2, THEN conjunct2, THEN conjunct2, THEN conjunct2, THEN conjunct2] by blast
qed

lemma roll_back_content:
  assumes "journal env D P" and "roll_back env db unit = (stop, db', unit')"
  shows "D db' = D db \<and> (if stop then status unit' \<noteq> SC_OK else P db' = None \<and> unit' = unit)"
proof -
  obtain st e db1 where r: "sc_sql_simple (drivers env) db ''ROLLBACK'' = (st, e, db1)" by (metis prod_cases3)
  note l = jn_rollback [OF assms(1) r]
  have "kind db \<noteq> SC_DB_POSTGRESQL \<Longrightarrow> kind db = SC_DB_SQLITE" by (cases "kind db") auto
  then show ?thesis
    using assms(2) l jn_redial [OF assms(1), of db1] jn_asked [OF assms(1), of db1]
    by (auto simp: roll_back_def r split: if_splits)
qed

lemma turn_content:
  assumes j: "journal env D P" and k: "keeps_content env D P K"
    and free: "P db = None" and w: "access unit = SC_DB_WRITE" and own: "K (own unit)" and ok: "status unit = SC_OK"
  shows "case run_turn env reruns db unit of
           Inl (stop, db', unit') \<Rightarrow> unit_ended env D P K (D db) db' unit'
         | Inr (n, db', unit') \<Rightarrow> D db' = D db \<and> P db' = None \<and> access unit' = SC_DB_WRITE \<and>
                                  K (own unit') \<and> status unit' = SC_OK"
proof -
  let ?db1 = "db\<lparr>rerun_unit := False\<rparr>"
  obtain st e db2 where b: "sc_sql_simple (drivers env) ?db1 (begin_text ?db1) = (st, e, db2)" by (metis prod_cases3)
  have l0: "D db2 = D db" "P db2 = (if st = SC_OK then Some (D db) else None)"
    using jn_begin [OF j b] jn_flag [OF j] free by auto
  let ?unit1 = "unit\<lparr>error := e\<rparr>"
  obtain fin db3 o3 e3 where wk: "work env db2 ?unit1 = (fin, db3, o3, e3)" by (metis prod_cases4)
  let ?unit3 = "?unit1\<lparr>own := o3, error := e3\<rparr>"
  show ?thesis
  proof (cases "st = SC_OK")
    case False
    then show ?thesis using l0 w b by (simp add: run_turn_def unit_ended_def)
  next
    case True
    have l3: "D db3 = D db" "K o3"
      using k [unfolded keeps_content_def, rule_format, of db2 ?unit1 fin db3 o3 e3] wk l0 True own by auto
    have last: "last_run env D P K (D db) db' u"
      if "own u = o3" "fin = SC_DB_COMMIT \<and> (\<forall>p. P db3 = Some p \<longrightarrow> D db' = p) \<or> fin = SC_DB_ROLLBACK \<and> D db' = D db"
      for db' u
      unfolding last_run_def
      by (intro exI [of _ db2] exI [of _ ?unit1] exI [of _ fin] exI [of _ db3] exI [of _ e3])
        (use that wk l0 True own in simp)
    show ?thesis
    proof (cases "\<not> rerun_unit db3 \<and> fin = SC_DB_COMMIT")
      case commit: True
      obtain st4 e4 db4 where c: "sc_sql_simple (drivers env) db3 ''COMMIT'' = (st4, e4, db4)" by (metis prod_cases3)
      note l4 = jn_commit [OF j c]
      have "run_turn env reruns db unit =
          Inl (False, db4, if st4 \<noteq> SC_OK then ?unit3\<lparr>error := e4, status := st4\<rparr> else ?unit3\<lparr>error := e4\<rparr>)"
        using b wk c True commit w by (simp add: run_turn_def Let_def)
      then show ?thesis
        using l4 l3 ok commit last [of "?unit3\<lparr>error := e4\<rparr>" db4] by (auto simp: unit_ended_def split: option.splits)
    next
      case False
      define bb where "bb = (if rerun_unit db3 then False else rerun_unit db3)"
      obtain stop db5 unit5 where rb: "roll_back env (db3\<lparr>rerun_unit := bb\<rparr>) ?unit3 = (stop, db5, unit5)" by (metis prod_cases3)
      have l5: "D db5 = D db" "if stop then status unit5 \<noteq> SC_OK else P db5 = None \<and> unit5 = ?unit3"
        using roll_back_content [OF j rb] jn_flag [OF j] l3 by auto
      have noflag: "\<not> rerun_unit db3 \<Longrightarrow> db3\<lparr>rerun_unit := bb\<rparr> = db3" by (simp add: bb_def)
      show ?thesis
      proof (cases "rerun_unit db3")
        case rerun: True
        then have "bb = False" by (simp add: bb_def)
        with rerun show ?thesis
          using b wk True rb l5 l3 w ok by (auto simp: run_turn_def Let_def unit_ended_def)
      next
        case no: False
        with False have fin: "fin \<noteq> SC_DB_COMMIT" by simp
        have "roll_back env db3 ?unit3 = (stop, db5, unit5)" using rb noflag [OF no] by simp
        with no fin show ?thesis
          using b wk True l5 l3 w ok last [of unit5 db5]
          by (cases fin) (auto simp: run_turn_def Let_def unit_ended_def)
      qed
    qed
  qed
qed

lemma loop_content:
  assumes "journal env D P" and "keeps_content env D P K"
  shows "P db = None \<Longrightarrow> access unit = SC_DB_WRITE \<Longrightarrow> K (own unit) \<Longrightarrow> status unit = SC_OK \<Longrightarrow>
     run_loop env reruns db unit = (stop, db', unit') \<Longrightarrow> unit_ended env D P K (D db) db' unit'"
  using assms
proof (induction env reruns db unit rule: run_loop.induct)
  case (1 env reruns db unit)
  note turn = turn_content [OF 1(7,8) 1(2-5), of reruns]
  show ?case
  proof (cases "run_turn env reruns db unit")
    case (Inl r)
    with 1(6) have "r = (stop, db', unit')" by (simp add: run_loop.simps [of _ _ db])
    with turn Inl show ?thesis by simp
  next
    case (Inr r)
    obtain n d u where r: "r = (n, d, u)" by (cases r)
    then have "run_loop env n d u = (stop, db', unit')" using 1(6) Inr by (simp add: run_loop.simps [of _ _ db])
    with 1(1) [OF Inr r [symmetric] refl] turn Inr r 1(7,8) show ?thesis by simp
  qed
qed

text \<open>What a unit that writes has done when it is over.\<close>

lemma unit_outcome:
  assumes "journal env D P" and "keeps_content env D P K" and "P db = None" and "access unit = SC_DB_WRITE"
    and "K (own unit)" and "run_unit env db unit = (stop, db', unit')"
  shows "unit_ended env D P K (D db) db' unit'"
  using loop_content [OF assms(1,2,3), of "unit\<lparr>status := SC_OK, attempt := 1, error := no_error\<rparr>" 0] assms(4-6)
  by (simp add: run_unit_def)

end
