(* ===== verification/Registration.thy ===== *)
theory Registration
  imports DbContent BcSql
begin

text \<open>
  Somebody signs up: \<^verbatim>\<open>backend-core/src/domain/user/\<close> (\<^verbatim>\<open>register_account.c\<close>, \<^verbatim>\<open>user_repository.c\<close>,
  \<^verbatim>\<open>user_logic.c\<close>) with \<^verbatim>\<open>uuid.c\<close> and \<^verbatim>\<open>language.c\<close>. The work of a registration runs as a unit of
  \<open>DbUnit\<close>: it draws values, writes the member, the address and their link, and says how the
  transaction ends.

  The random source, the rendering of a uuid, the clock and the drivers are parameters. The slots of
  the statements and the random source are global in the sources; here they travel in the unit's own
  part. Log lines and error sentences are not modelled. Shown: an account is written wholly and once
  or not at all, and a taken address changes nothing and is told apart only in the log.
\<close>

section \<open>Logic without a database\<close>

definition BC_EMAIL_MAX :: nat where "BC_EMAIL_MAX = 256"
definition BC_NAME_MAX :: nat where "BC_NAME_MAX = 256"
definition BC_LANGUAGE_MAX :: nat where "BC_LANGUAGE_MAX = 5"
definition BC_REGISTER_MAX_ATTEMPTS :: nat where "BC_REGISTER_MAX_ATTEMPTS = 5"
definition BC_LANGUAGE_DEFAULT :: string where "BC_LANGUAGE_DEFAULT = ''de''"

definition kLanguages :: "string list" where
  "kLanguages = [''de'', ''en'', ''es'', ''fr'', ''nl'', ''it'', ''tr'', ''ru'', ''pt'', ''el'']"

definition bc_language_is_known :: "string option \<Rightarrow> bool" where
  "bc_language_is_known v = (case v of None \<Rightarrow> False | Some t \<Rightarrow> t \<in> set kLanguages)"

definition bc_language_or_default :: "string option \<Rightarrow> string" where
  "bc_language_or_default v = (if bc_language_is_known v then the v else BC_LANGUAGE_DEFAULT)"

definition is_low :: "char \<Rightarrow> bool" where
  "is_low c \<longleftrightarrow> code_of c \<le> 32"

definition bc_normalize_email :: "string option \<Rightarrow> nat \<Rightarrow> string option" where
  "bc_normalize_email email out_size =
     (case email of
        None \<Rightarrow> None
      | Some e \<Rightarrow>
          if out_size = 0 then None
          else let t = rtrim is_low (ltrim is_low e)
               in if length t + 1 > out_size then None else Some (map ascii_lower t))"

text \<open>Seven bytes as a number, and its low 53 bits.\<close>

definition code_value :: "byte list \<Rightarrow> 64 word" where
  "code_value bytes = and (foldl (\<lambda>v b. or (push_bit 8 v) (ucast b)) 0 bytes) 0x1fffffffffffff"

partial_function (option) bc_new_email_verification_code ::
  "('g \<Rightarrow> nat \<Rightarrow> byte list \<times> 'g) \<Rightarrow> 'g \<Rightarrow> (64 word \<times> 'g) option" where
  "bc_new_email_verification_code random g =
     (let (bytes, g') = random g 7; v = code_value bytes
      in if v \<noteq> 0 then Some (v, g') else bc_new_email_verification_code random g')"

definition uuid_bits :: "byte list \<Rightarrow> byte list" where
  "uuid_bits bytes = bytes[6 := or (and (bytes ! 6) 0x0f) 0x40, 8 := or (and (bytes ! 8) 0x3f) 0x80]"

definition bc_new_uuid ::
  "('g \<Rightarrow> nat \<Rightarrow> byte list \<times> 'g) \<Rightarrow> (byte list \<Rightarrow> string) \<Rightarrow> 'g \<Rightarrow> string \<times> 'g" where
  "bc_new_uuid random render g =
     (let (bytes, g') = random g 16
      in (render (uuid_bits bytes), g'))"

definition bc_new_gradido_id ::
  "('g \<Rightarrow> nat \<Rightarrow> byte list \<times> 'g) \<Rightarrow> (byte list \<Rightarrow> string) \<Rightarrow> 'g \<Rightarrow> string \<times> 'g" where
  "bc_new_gradido_id random render g = bc_new_uuid random render g"

text \<open>What an attempt draws: the gradido id, the verification code and the instant, in this order.\<close>

definition draw ::
  "('g \<Rightarrow> nat \<Rightarrow> byte list \<times> 'g) \<Rightarrow> (byte list \<Rightarrow> string) \<Rightarrow> ('g \<Rightarrow> int \<times> 'g) \<Rightarrow> 'g \<Rightarrow>
   ((string \<times> 64 word \<times> int) \<times> 'g) option" where
  "draw random render sc_now_ms g =
     (let (gradido_id, g1) = bc_new_gradido_id random render g
      in case bc_new_email_verification_code random g1 of
           None \<Rightarrow> None
         | Some (v, g2) \<Rightarrow> (let (now, g3) = sc_now_ms g2 in Some ((gradido_id, v, now), g3)))"

lemma code_value_bound: "code_value bytes < 2 ^ 53"
proof -
  have "code_value bytes \<le> 0x1fffffffffffff" unfolding code_value_def by (rule word_and_le1)
  also have "\<dots> < 2 ^ 53" by simp
  finally show ?thesis .
qed

text \<open>A source of seven bytes that is not zero for ever.\<close>

fun nonzero_within :: "('g \<Rightarrow> nat \<Rightarrow> byte list \<times> 'g) \<Rightarrow> nat \<Rightarrow> 'g \<Rightarrow> bool" where
  "nonzero_within random 0 g = False"
| "nonzero_within random (Suc n) g =
     (code_value (fst (random g 7)) \<noteq> 0 \<or> nonzero_within random n (snd (random g 7)))"

lemma code_returns:
  "nonzero_within random n g \<Longrightarrow>
     \<exists>v g'. bc_new_email_verification_code random g = Some (v, g') \<and> 0 < v \<and> v < 2 ^ 53"
proof (induction n arbitrary: g)
  case (Suc n)
  obtain bytes g' where r: "random g 7 = (bytes, g')" by (cases "random g 7")
  show ?case
  proof (cases "code_value bytes = 0")
    case True
    with Suc.prems r have "nonzero_within random n g'" by simp
    with Suc.IH [OF this] True r show ?thesis by (simp add: bc_new_email_verification_code.simps [of random g])
  next
    case False
    with r code_value_bound [of bytes] show ?thesis
      by (simp add: bc_new_email_verification_code.simps [of random g] word_greater_zero_iff)
  qed
qed simp

lemma version_bits: "drop_bit 4 (or (and x 0x0f) 0x40) = (4 :: byte)" and variant_bits: "drop_bit 6 (or (and x 0x3f) 0x80) = (2 :: byte)"
  for x :: byte
  by (rule bit_word_eqI; auto simp: bit_simps bit_numeral_rec less_Suc_eq numeral_eq_Suc)+

text \<open>
  C27. Drawing the values of an attempt returns, unless the random source answers zeros for ever,
  with a verification code that is not zero and fits the 53 bits both databases and JavaScript
  keep, and with a gradido id made from sixteen bytes that carry the version and the variant of a
  random uuid.
\<close>

theorem draw_returns:
  assumes "\<And>g. nonzero_within random (tries g) g" and "\<And>g k. length (fst (random g k)) = k"
  shows "\<exists>gid v now g' bytes. draw random render sc_now_ms g = Some ((gid, v, now), g') \<and> 0 < v \<and> v < 2 ^ 53 \<and>
    gid = render bytes \<and> length bytes = 16 \<and> drop_bit 4 (bytes ! 6) = 4 \<and> drop_bit 6 (bytes ! 8) = 2"
proof -
  let ?b = "uuid_bits (fst (random g 16))"
  obtain v g2 where code: "bc_new_email_verification_code random (snd (random g 16)) = Some (v, g2)" and v: "0 < v" "v < 2 ^ 53"
    using code_returns [OF assms(1), of "snd (random g 16)"] by blast
  have "draw random render sc_now_ms g = Some ((render ?b, v, fst (sc_now_ms g2)), snd (sc_now_ms g2))"
    using code by (simp add: draw_def bc_new_gradido_id_def bc_new_uuid_def split_beta)
  note this v
  moreover have "length ?b = 16" "drop_bit 4 (?b ! 6) = 4" "drop_bit 6 (?b ! 8) = 2"
    using assms(2) [of g 16] by (simp_all add: uuid_bits_def version_bits variant_bits)
  ultimately show ?thesis by blast
qed

theorem draw_returns_witness:
  "\<exists>gid v now g' bytes. draw (\<lambda>g k. (replicate k 5, Suc g)) (map (\<lambda>b. char_of (unat b))) (\<lambda>g. (int g, g)) 0 = Some ((gid, v, now), g') \<and>
     0 < v \<and> v < 2 ^ 53 \<and> gid = map (\<lambda>b. char_of (unat b)) (bytes :: byte list) \<and> length bytes = 16 \<and>
     drop_bit 4 (bytes ! 6) = 4 \<and> drop_bit 6 (bytes ! 8) = 2"
proof -
  have "code_value (replicate 7 5) \<noteq> 0" by code_simp
  then have "nonzero_within (\<lambda>g k. (replicate k 5, Suc g)) 1 g" for g by simp
  show ?thesis
    by (rule draw_returns [of "\<lambda>g k. (replicate k 5, Suc g)" "\<lambda>_. 1", OF \<open>\<And>g. nonzero_within _ 1 g\<close>]) simp
qed

section \<open>Accounts and their rows\<close>

record bc_new_account =
  a_email :: string
  a_first_name :: string
  a_last_name :: string
  a_language :: string
  a_community_id :: "64 word"
  a_gradido_id :: string
  a_verification_code :: "64 word"
  a_created_at :: int

datatype bc_account_outcome = BC_ACCOUNT_CREATED | BC_ACCOUNT_ADDRESS_TAKEN | BC_ACCOUNT_COLLIDED

record bc_create_account_result =
  c_outcome :: bc_account_outcome
  c_user_id :: "64 word"
  c_taken_by :: "64 word"

definition kInsertUser :: sc_sql_statement where
  "kInsertUser = \<lparr>statement_id = 11,
     postgresql = ''INSERT INTO users (gradido_id, community_id, first_name, last_name, language, created_at) '' @
       ''VALUES ($1, $2, $3, $4, $5, $6) RETURNING id'',
     sqlite = ''INSERT INTO users (gradido_id, community_id, first_name, last_name, language, created_at) '' @
       ''VALUES (?1, ?2, ?3, ?4, ?5, ?6) RETURNING id''\<rparr>"

definition contact_insert :: "string \<Rightarrow> string" where
  "contact_insert vs =
     ''INSERT INTO user_contacts (user_id, type, email, email_checked, email_verification_code, '' @
     ''email_opt_in_type_id, created_at) VALUES ('' @ vs @ '') ON CONFLICT (email) DO NOTHING RETURNING id''"

definition kInsertContact :: sc_sql_statement where
  "kInsertContact = \<lparr>statement_id = 12,
     postgresql = contact_insert (''$1, '' @ [APOS] @ ''EMAIL'' @ [APOS] @ '', $2, false, $3, 1, $4''),
     sqlite = contact_insert (''?1, '' @ [APOS] @ ''EMAIL'' @ [APOS] @ '', ?2, 0, ?3, 1, ?4'')\<rparr>"

definition kOwnerOfAddress :: sc_sql_statement where
  "kOwnerOfAddress = \<lparr>statement_id = 13,
     postgresql = ''SELECT user_id FROM user_contacts WHERE email = $1'',
     sqlite = ''SELECT user_id FROM user_contacts WHERE email = ?1''\<rparr>"

definition kSetMainAddress :: sc_sql_statement where
  "kSetMainAddress = \<lparr>statement_id = 14,
     postgresql = ''UPDATE users SET email_id = $1 WHERE id = $2'',
     sqlite = ''UPDATE users SET email_id = ?1 WHERE id = ?2''\<rparr>"

section \<open>Writing an account\<close>

definition user_params :: "bc_new_account \<Rightarrow> sc_sql_param list" where
  "user_params a = [sc_sql_text (Some (a_gradido_id a)), sc_sql_int (sint (a_community_id a)),
     sc_sql_text (Some (a_first_name a)), sc_sql_text (Some (a_last_name a)), sc_sql_text (Some (a_language a)),
     sc_sql_time (a_created_at a)]"

definition contact_params :: "int \<Rightarrow> bc_new_account \<Rightarrow> sc_sql_param list" where
  "contact_params user_id a = [sc_sql_int user_id, sc_sql_text (Some (a_email a)),
     sc_sql_int (sint (a_verification_code a)), sc_sql_time (a_created_at a)]"

definition empty_result :: bc_create_account_result where
  "empty_result = \<lparr>c_outcome = BC_ACCOUNT_CREATED, c_user_id = 0, c_taken_by = 0\<rparr>"

definition refused :: "sc_sql_error \<Rightarrow> sc_status \<Rightarrow> sc_status \<times> bc_create_account_result" where
  "refused failure st =
     (if error_kind failure = SC_SQL_ERROR_UNIQUE then (SC_OK, empty_result\<lparr>c_outcome := BC_ACCOUNT_COLLIDED\<rparr>)
      else (st, empty_result))"

text \<open>The branch of a taken address: whose it is.\<close>

definition address_taken ::
  "('c, 'h) drivers \<Rightarrow> sql_state \<Rightarrow> 'c sc_db \<Rightarrow> bc_new_account \<Rightarrow>
   (sc_status \<times> bc_create_account_result) \<times> 'c sc_db \<times> sql_state" where
  "address_taken drv st db a =
     (case query_int drv st db kOwnerOfAddress [sc_sql_text (Some (a_email a))] of
        (Inl (s, failure), db', st') \<Rightarrow> ((s, empty_result\<lparr>c_outcome := BC_ACCOUNT_ADDRESS_TAKEN\<rparr>), db', st')
      | (Inr (owner, closed), db', st') \<Rightarrow>
          ((closed, empty_result\<lparr>c_outcome := BC_ACCOUNT_ADDRESS_TAKEN,
                                 c_taken_by := (case owner of None \<Rightarrow> 0 | Some i \<Rightarrow> word_of_int i)\<rparr>), db', st'))"

text \<open>The last of the three writes.\<close>

definition set_main_address ::
  "('c, 'h) drivers \<Rightarrow> sql_state \<Rightarrow> 'c sc_db \<Rightarrow> int \<Rightarrow> int \<Rightarrow>
   (sc_status \<times> bc_create_account_result) \<times> 'c sc_db \<times> sql_state" where
  "set_main_address drv st db contact_id user_id =
     (let (s, changes, failure, db', st') =
            sc_sql_exec drv st db kSetMainAddress [sc_sql_int contact_id, sc_sql_int user_id] no_failure
      in (if s \<noteq> SC_OK then refused failure s
          else (SC_OK, empty_result\<lparr>c_user_id := word_of_int user_id\<rparr>), db', st'))"

definition bc_user_create_account ::
  "('c, 'h) drivers \<Rightarrow> sql_state \<Rightarrow> 'c sc_db \<Rightarrow> bc_new_account \<Rightarrow>
   (sc_status \<times> bc_create_account_result) \<times> 'c sc_db \<times> sql_state" where
  "bc_user_create_account drv st db a =
     (case query_int drv st db kInsertUser (user_params a) of
        (Inl (s, failure), db1, st1) \<Rightarrow> (refused failure s, db1, st1)
      | (Inr (row, closed), db1, st1) \<Rightarrow>
          let user_id = (case row of None \<Rightarrow> 0 | Some i \<Rightarrow> i)
          in if closed \<noteq> SC_OK then ((closed, empty_result), db1, st1)
             else (case query_int drv st1 db1 kInsertContact (contact_params user_id a) of
                     (Inl (s, failure), db2, st2) \<Rightarrow> (refused failure s, db2, st2)
                   | (Inr (contact, closed2), db2, st2) \<Rightarrow>
                       if closed2 \<noteq> SC_OK then ((closed2, empty_result), db2, st2)
                       else (case contact of
                               None \<Rightarrow> address_taken drv st2 db2 a
                             | Some contact_id \<Rightarrow> set_main_address drv st2 db2 contact_id user_id)))"

section \<open>The registration as a unit\<close>

datatype bc_registration_outcome =
  BC_REGISTRATION_PENDING | BC_REGISTRATION_CREATED | BC_REGISTRATION_ADDRESS_TAKEN | BC_REGISTRATION_FAILED

record 'g bc_registration =
  r_account :: bc_new_account
  r_outcome :: bc_registration_outcome
  r_user_id :: "64 word"
  r_slots :: sql_state
  r_source :: 'g

text \<open>
  What an attempt draws, as a total function: \<open>draw\<close> where it returns.
\<close>

type_synonym 'g fresh = "'g \<Rightarrow> (string \<times> 64 word \<times> int) \<times> 'g"

definition registration_work ::
  "('c, 'h) drivers \<Rightarrow> 'g fresh \<Rightarrow> 'c sc_db \<Rightarrow> 'g bc_registration sc_db_unit \<Rightarrow>
   sc_db_end \<times> 'c sc_db \<times> 'g bc_registration \<times> sc_sql_error" where
  "registration_work drv fresh db unit =
     (let r = own unit;
          ((gradido_id, verification, now), g') = fresh (r_source r);
          a = (r_account r)\<lparr>a_gradido_id := gradido_id, a_verification_code := verification, a_created_at := now\<rparr>;
          ((s, result), db', st') = bc_user_create_account drv (r_slots r) db a;
          r1 = r\<lparr>r_account := a, r_slots := st', r_source := g'\<rparr>
      in if s \<noteq> SC_OK then (SC_DB_ROLLBACK, db', r1\<lparr>r_outcome := BC_REGISTRATION_FAILED\<rparr>, error unit)
         else (case c_outcome result of
                 BC_ACCOUNT_COLLIDED \<Rightarrow>
                   if attempt unit < BC_REGISTER_MAX_ATTEMPTS then (SC_DB_AGAIN, db', r1, error unit)
                   else (SC_DB_ROLLBACK, db', r1\<lparr>r_outcome := BC_REGISTRATION_FAILED\<rparr>, error unit)
               | BC_ACCOUNT_ADDRESS_TAKEN \<Rightarrow>
                   (SC_DB_ROLLBACK, db', r1\<lparr>r_outcome := BC_REGISTRATION_ADDRESS_TAKEN, r_user_id := c_taken_by result\<rparr>, error unit)
               | BC_ACCOUNT_CREATED \<Rightarrow>
                   (SC_DB_COMMIT, db', r1\<lparr>r_outcome := BC_REGISTRATION_CREATED, r_user_id := c_user_id result\<rparr>, error unit)))"

text \<open>The values of a request into a fresh unit.\<close>

definition bc_registration_prepare ::
  "sql_state \<Rightarrow> 'g \<Rightarrow> 64 word \<Rightarrow> string \<Rightarrow> string \<Rightarrow> string \<Rightarrow> string option \<Rightarrow>
   sc_status + 'g bc_registration sc_db_unit" where
  "bc_registration_prepare st g home first_name last_name email language =
     (case bc_normalize_email (Some email) BC_EMAIL_MAX of
        None \<Rightarrow> Inl SC_ERR_TOO_LONG
      | Some address \<Rightarrow>
          if length first_name + 1 > BC_NAME_MAX \<or> length last_name + 1 > BC_NAME_MAX then Inl SC_ERR_TOO_LONG
          else Inr \<lparr>access = SC_DB_WRITE, status = SC_OK, attempt = 0, error = no_error, queued_ns = 0,
                    own = \<lparr>r_account = \<lparr>a_email = address, a_first_name = first_name, a_last_name = last_name,
                                       a_language = take (BC_LANGUAGE_MAX - 1) (bc_language_or_default language),
                                       a_community_id = home, a_gradido_id = [], a_verification_code = 0, a_created_at = 0\<rparr>,
                           r_outcome = BC_REGISTRATION_PENDING, r_user_id = 0, r_slots = st, r_source = g\<rparr>\<rparr>)"

definition registering ::
  "('c, 'h, 'g bc_registration) exec_env \<Rightarrow> 'g fresh \<Rightarrow> ('c, 'h, 'g bc_registration) exec_env" where
  "registering env fresh = env\<lparr>work := registration_work (drivers env) fresh\<rparr>"

definition bc_register_account_on ::
  "('c, 'h, 'g bc_registration) exec_env \<Rightarrow> 'g fresh \<Rightarrow> 'c sc_db \<Rightarrow> sql_state \<Rightarrow> 'g \<Rightarrow> 64 word \<Rightarrow>
   string \<Rightarrow> string \<Rightarrow> string \<Rightarrow> string option \<Rightarrow> sc_status \<times> 'c sc_db" where
  "bc_register_account_on env fresh db st g home first_name last_name email language =
     (case bc_registration_prepare st g home first_name last_name email language of
        Inl s \<Rightarrow> (s, db)
      | Inr unit \<Rightarrow>
          let (s, stop, db', unit') = sc_db_run (registering env fresh) db unit
          in if s \<noteq> SC_OK then (s, db')
             else if r_outcome (own unit') = BC_REGISTRATION_FAILED then (SC_ERR_UNAVAILABLE, db')
             else (SC_OK, db'))"

section \<open>What the tables promise\<close>

record user_row =
  u_id :: int
  u_gradido_id :: string
  u_community_id :: int
  u_first_name :: string
  u_last_name :: string
  u_language :: string
  u_created_at :: int
  u_email_id :: "int option"

record contact_row =
  k_id :: int
  k_user_id :: int
  k_email :: string
  k_code :: int
  k_created_at :: int

record content =
  users :: "user_row list"
  contacts :: "contact_row list"

definition member_row :: "bc_new_account \<Rightarrow> int \<Rightarrow> int option \<Rightarrow> user_row" where
  "member_row a uid address =
     \<lparr>u_id = uid, u_gradido_id = a_gradido_id a, u_community_id = sint (a_community_id a), u_first_name = a_first_name a,
      u_last_name = a_last_name a, u_language = a_language a, u_created_at = a_created_at a, u_email_id = address\<rparr>"

definition address_row :: "bc_new_account \<Rightarrow> int \<Rightarrow> int \<Rightarrow> contact_row" where
  "address_row a uid cid =
     \<lparr>k_id = cid, k_user_id = uid, k_email = a_email a, k_code = sint (a_verification_code a), k_created_at = a_created_at a\<rparr>"

definition in_use :: "content \<Rightarrow> string \<Rightarrow> bool" where
  "in_use c e \<longleftrightarrow> e \<in> k_email ` set (contacts c)"

text \<open>The content with an account added: two linked rows.\<close>

definition with_account :: "content \<Rightarrow> bc_new_account \<Rightarrow> int \<Rightarrow> int \<Rightarrow> content" where
  "with_account c a uid cid =
     \<lparr>users = users c @ [member_row a uid (Some cid)], contacts = contacts c @ [address_row a uid cid]\<rparr>"

definition link :: "int \<Rightarrow> int \<Rightarrow> user_row \<Rightarrow> user_row" where
  "link uid cid u = (if u_id u = uid then u\<lparr>u_email_id := Some cid\<rparr> else u)"

text \<open>
  The four statements on the tables, inside a transaction that shows \<open>p\<close>: an insert writes one row
  under an id nobody has, an address is inserted unless it is there, and nothing durable changes
  before a COMMIT. What a statement that fails leaves of the transaction is not promised.
\<close>

definition account_store ::
  "('c, 'h) drivers \<Rightarrow> ('c sc_db \<Rightarrow> content) \<Rightarrow> ('c sc_db \<Rightarrow> content option) \<Rightarrow> bool" where
  "account_store drv D P \<longleftrightarrow>
     (\<forall>st db s ps r db' st'. query_int drv st db s ps = (r, db', st') \<longrightarrow> D db' = D db) \<and>
     (\<forall>st db s ps r n e db' st'. sc_sql_exec drv st db s ps no_failure = (r, n, e, db', st') \<longrightarrow> D db' = D db) \<and>
     (\<forall>st db a row db' st' p. query_int drv st db kInsertUser (user_params a) = (Inr (row, SC_OK), db', st') \<and> P db = Some p \<longrightarrow>
        (\<exists>uid. row = Some uid \<and> uid \<notin> u_id ` set (users p) \<and> P db' = Some (p\<lparr>users := users p @ [member_row a uid None]\<rparr>))) \<and>
     (\<forall>st db uid a row db' st' p. query_int drv st db kInsertContact (contact_params uid a) = (Inr (row, SC_OK), db', st') \<and> P db = Some p \<longrightarrow>
        (case row of
           None \<Rightarrow> in_use p (a_email a) \<and> P db' = Some p
         | Some cid \<Rightarrow> \<not> in_use p (a_email a) \<and> P db' = Some (p\<lparr>contacts := contacts p @ [address_row a uid cid]\<rparr>))) \<and>
     (\<forall>st db e row db' st' p. query_int drv st db kOwnerOfAddress [sc_sql_text (Some e)] = (Inr (row, SC_OK), db', st') \<and> P db = Some p \<longrightarrow>
        row = map_option k_user_id (find (\<lambda>k. k_email k = e) (contacts p))) \<and>
     (\<forall>st db cid uid n failure db' st' p.
        sc_sql_exec drv st db kSetMainAddress [sc_sql_int cid, sc_sql_int uid] no_failure = (SC_OK, n, failure, db', st') \<and> P db = Some p \<longrightarrow>
        P db' = Some (p\<lparr>users := map (link uid cid) (users p)\<rparr>))"

lemma account_storeD:
  assumes "account_store drv D P"
  shows as_query: "query_int drv st db s ps = (r, db', st') \<Longrightarrow> D db' = D db"
    and as_exec: "sc_sql_exec drv st db s ps no_failure = (x, n, e, db', st') \<Longrightarrow> D db' = D db"
    and as_user: "query_int drv st db kInsertUser (user_params a) = (Inr (row, SC_OK), db', st') \<Longrightarrow> P db = Some p \<Longrightarrow>
          \<exists>uid. row = Some uid \<and> uid \<notin> u_id ` set (users p) \<and> P db' = Some (p\<lparr>users := users p @ [member_row a uid None]\<rparr>)"
    and as_contact: "query_int drv st db kInsertContact (contact_params uid a) = (Inr (row, SC_OK), db', st') \<Longrightarrow> P db = Some p \<Longrightarrow>
          (case row of
             None \<Rightarrow> in_use p (a_email a) \<and> P db' = Some p
           | Some cid \<Rightarrow> \<not> in_use p (a_email a) \<and> P db' = Some (p\<lparr>contacts := contacts p @ [address_row a uid cid]\<rparr>))"
    and as_owner: "query_int drv st db kOwnerOfAddress [sc_sql_text (Some m)] = (Inr (row, SC_OK), db', st') \<Longrightarrow> P db = Some p \<Longrightarrow>
          row = map_option k_user_id (find (\<lambda>k. k_email k = m) (contacts p))"
    and as_link: "sc_sql_exec drv st db kSetMainAddress [sc_sql_int cid, sc_sql_int uid] no_failure = (SC_OK, n, e, db', st') \<Longrightarrow>
          P db = Some p \<Longrightarrow> P db' = Some (p\<lparr>users := map (link uid cid) (users p)\<rparr>)"
proof -
  note j = assms [unfolded account_store_def]
  note j2 = j [THEN conjunct2] note j3 = j2 [THEN conjunct2] note j4 = j3 [THEN conjunct2] note j5 = j4 [THEN conjunct2]
  show "query_int drv st db s ps = (r, db', st') \<Longrightarrow> D db' = D db"
    by (rule j [THEN conjunct1, rule_format])
  show "sc_sql_exec drv st db s ps no_failure = (x, n, e, db', st') \<Longrightarrow> D db' = D db"
    by (rule j2 [THEN conjunct1, rule_format])
  show "query_int drv st db kInsertUser (user_params a) = (Inr (row, SC_OK), db', st') \<Longrightarrow> P db = Some p \<Longrightarrow>
      \<exists>uid. row = Some uid \<and> uid \<notin> u_id ` set (users p) \<and> P db' = Some (p\<lparr>users := users p @ [member_row a uid None]\<rparr>)"
    by (rule j3 [THEN conjunct1, rule_format, OF conjI])
  show "query_int drv st db kInsertContact (contact_params uid a) = (Inr (row, SC_OK), db', st') \<Longrightarrow> P db = Some p \<Longrightarrow>
      (case row of
         None \<Rightarrow> in_use p (a_email a) \<and> P db' = Some p
       | Some cid \<Rightarrow> \<not> in_use p (a_email a) \<and> P db' = Some (p\<lparr>contacts := contacts p @ [address_row a uid cid]\<rparr>))"
    by (rule j4 [THEN conjunct1, rule_format, OF conjI])
  show "query_int drv st db kOwnerOfAddress [sc_sql_text (Some m)] = (Inr (row, SC_OK), db', st') \<Longrightarrow> P db = Some p \<Longrightarrow>
      row = map_option k_user_id (find (\<lambda>k. k_email k = m) (contacts p))"
    by (rule j5 [THEN conjunct1, rule_format, OF conjI])
  show "sc_sql_exec drv st db kSetMainAddress [sc_sql_int cid, sc_sql_int uid] no_failure = (SC_OK, n, e, db', st') \<Longrightarrow>
      P db = Some p \<Longrightarrow> P db' = Some (p\<lparr>users := map (link uid cid) (users p)\<rparr>)"
    by (rule j5 [THEN conjunct2, rule_format, OF conjI])
qed

lemma link_new: "uid \<notin> u_id ` set us \<Longrightarrow> map (link uid cid) (us @ [member_row a uid None]) = us @ [member_row a uid (Some cid)]"
  by (auto simp: link_def member_row_def intro!: map_idI)

section \<open>An account is written wholly or not at all\<close>

text \<open>What became of the three writes, in a transaction that shows \<open>p\<close>.\<close>

definition account_written ::
  "content \<Rightarrow> bc_new_account \<Rightarrow> bc_create_account_result \<Rightarrow> content option \<Rightarrow> bool" where
  "account_written p a result p' =
     (case c_outcome result of
        BC_ACCOUNT_CREATED \<Rightarrow> \<not> in_use p (a_email a) \<and>
          (\<exists>uid cid. uid \<notin> u_id ` set (users p) \<and> c_user_id result = word_of_int uid \<and> p' = Some (with_account p a uid cid))
      | BC_ACCOUNT_ADDRESS_TAKEN \<Rightarrow>
          (\<exists>k \<in> set (contacts p). k_email k = a_email a \<and> c_taken_by result = word_of_int (k_user_id k))
      | BC_ACCOUNT_COLLIDED \<Rightarrow> True)"

lemma address_taken_spec:
  assumes l: "account_store drv D P" and p: "P db = Some p" and u: "in_use p (a_email a)"
    and r: "address_taken drv st db a = ((s, result), db', st')"
  shows "D db' = D db \<and> c_outcome result = BC_ACCOUNT_ADDRESS_TAKEN \<and>
     (s = SC_OK \<longrightarrow> (\<exists>k \<in> set (contacts p). k_email k = a_email a \<and> c_taken_by result = word_of_int (k_user_id k)))"
proof -
  obtain q d t where q: "query_int drv st db kOwnerOfAddress [sc_sql_text (Some (a_email a))] = (q, d, t)" by (metis prod_cases3)
  note keep = as_query [OF l q]
  show ?thesis
  proof (cases q)
    case (Inl x)
    with q query_int_refused [of drv st db] r keep show ?thesis
      by (cases x) (auto simp: address_taken_def empty_result_def)
  next
    case (Inr x)
    obtain row closed where x: "x = (row, closed)" by (cases x)
    have "\<exists>k. find (\<lambda>k. k_email k = a_email a) (contacts p) = Some k"
      using u by (auto simp: in_use_def find_None_iff not_None_eq [symmetric] simp del: not_None_eq)
    then obtain k where k: "find (\<lambda>k. k_email k = a_email a) (contacts p) = Some k" by blast
    then have "k \<in> set (contacts p)" "k_email k = a_email a" by (auto simp: find_Some_iff)
    moreover have "closed = SC_OK \<Longrightarrow> row = Some (k_user_id k)"
      using as_owner [OF l _ p] q Inr x k by fastforce
    ultimately show ?thesis using r q Inr x keep
      by (auto simp: address_taken_def empty_result_def)
  qed
qed

lemma set_main_address_spec:
  assumes l: "account_store drv D P" and p: "P db = Some p" and r: "set_main_address drv st db cid uid = ((s, result), db', st')"
  shows "D db' = D db \<and> (s = SC_OK \<longrightarrow> c_outcome result = BC_ACCOUNT_COLLIDED \<or>
     c_outcome result = BC_ACCOUNT_CREATED \<and> c_user_id result = word_of_int uid \<and>
     P db' = Some (p\<lparr>users := map (link uid cid) (users p)\<rparr>))"
proof -
  obtain x n e d t where q: "sc_sql_exec drv st db kSetMainAddress [sc_sql_int cid, sc_sql_int uid] no_failure = (x, n, e, d, t)"
    by (metis prod_cases5)
  show ?thesis
    using r as_exec [OF l q] as_link [OF l _ p, of st cid uid n e d t] q
    by (auto simp: set_main_address_def refused_def empty_result_def split: if_splits)
qed

lemma create_account_spec:
  assumes l: "account_store drv D P" and p: "P db = Some p" and r: "bc_user_create_account drv st db a = ((s, result), db', st')"
  shows "D db' = D db \<and> (s = SC_OK \<longrightarrow> account_written p a result (P db'))"
proof -
  obtain q1 db1 st1 where q1: "query_int drv st db kInsertUser (user_params a) = (q1, db1, st1)" by (metis prod_cases3)
  note k1 = as_query [OF l q1]
  show ?thesis
  proof (cases "\<exists>row. q1 = Inr (row, SC_OK)")
    case False
    with r q1 k1 query_int_refused [of drv st db] show ?thesis
      by (auto simp: bc_user_create_account_def refused_def empty_result_def account_written_def Let_def
          split: sum.splits prod.splits if_splits)
  next
    case True
    then obtain uid where row: "q1 = Inr (Some uid, SC_OK)" "uid \<notin> u_id ` set (users p)"
        and p1: "P db1 = Some (p\<lparr>users := users p @ [member_row a uid None]\<rparr>)" (is "_ = Some ?p1")
      using as_user [OF l _ p] q1 by blast
    obtain q2 db2 st2 where q2: "query_int drv st1 db1 kInsertContact (contact_params uid a) = (q2, db2, st2)" by (metis prod_cases3)
    note k2 = as_query [OF l q2] and con = as_contact [OF l _ p1, of st1 uid a]
    have step: "bc_user_create_account drv st db a =
        (case q2 of
           Inl (s, failure) \<Rightarrow> (refused failure s, db2, st2)
         | Inr (contact, closed2) \<Rightarrow>
             if closed2 \<noteq> SC_OK then ((closed2, empty_result), db2, st2)
             else (case contact of
                     None \<Rightarrow> address_taken drv st2 db2 a
                   | Some contact_id \<Rightarrow> set_main_address drv st2 db2 contact_id uid))"
      by (simp add: bc_user_create_account_def q1 row q2 split: sum.splits)
    consider (failed) "\<nexists>c. q2 = Inr (c, SC_OK)" | (taken) "q2 = Inr (None, SC_OK)" | (free) cid where "q2 = Inr (Some cid, SC_OK)"
      by (metis option.exhaust)
    then show ?thesis
    proof cases
      case failed
      with r step k1 k2 query_int_refused [of drv st1 db1] q2 show ?thesis
        by (auto simp: refused_def empty_result_def account_written_def split: sum.splits prod.splits if_splits)
    next
      case taken
      then have "in_use ?p1 (a_email a)" and p2: "P db2 = Some ?p1" using con q2 by auto
      with address_taken_spec [OF l p2 _ r [unfolded step taken, simplified]] k1 k2 show ?thesis
        by (auto simp: account_written_def)
    next
      case free
      let ?p2 = "?p1\<lparr>contacts := contacts ?p1 @ [address_row a uid cid]\<rparr>"
      have "\<not> in_use ?p1 (a_email a)" and p2: "P db2 = Some ?p2" using con q2 free by auto
      moreover have "?p2\<lparr>users := map (link uid cid) (users ?p2)\<rparr> = with_account p a uid cid"
        using link_new [OF row(2)] by (simp add: with_account_def)
      ultimately show ?thesis
        using set_main_address_spec [OF l p2 r [unfolded step free, simplified]] k1 k2 row(2)
        by (auto simp: account_written_def in_use_def; blast)
    qed
  qed
qed

text \<open>What a request asks for: the part of the account no attempt changes.\<close>

definition asks_for :: "bc_new_account \<Rightarrow> bc_new_account \<Rightarrow> bool" where
  "asks_for a b \<longleftrightarrow> a_email b = a_email a \<and> a_first_name b = a_first_name a \<and> a_last_name b = a_last_name a \<and>
     a_language b = a_language a \<and> a_community_id b = a_community_id a"

definition keeps_request :: "bc_new_account \<Rightarrow> 'g bc_registration \<Rightarrow> bool" where
  "keeps_request a r \<longleftrightarrow> asks_for a (r_account r)"

text \<open>One run of the work and what it asks of the transaction.\<close>

definition work_ended ::
  "bc_new_account \<Rightarrow> content \<Rightarrow> sc_db_end \<Rightarrow> content option \<Rightarrow> 'g bc_registration \<Rightarrow> bool" where
  "work_ended a p fin p' r =
     (case r_outcome r of
        BC_REGISTRATION_CREATED \<Rightarrow> fin = SC_DB_COMMIT \<and> \<not> in_use p (a_email a) \<and>
          (\<exists>b uid cid. asks_for a b \<and> uid \<notin> u_id ` set (users p) \<and> r_user_id r = word_of_int uid \<and> p' = Some (with_account p b uid cid))
      | BC_REGISTRATION_ADDRESS_TAKEN \<Rightarrow> fin = SC_DB_ROLLBACK \<and>
          (\<exists>k \<in> set (contacts p). k_email k = a_email a \<and> r_user_id r = word_of_int (k_user_id k))
      | BC_REGISTRATION_FAILED \<Rightarrow> fin = SC_DB_ROLLBACK
      | BC_REGISTRATION_PENDING \<Rightarrow> False)"

lemma registration_work_spec:
  assumes l: "account_store drv D P" and p: "P db = Some p" and keep: "keeps_request a (own unit)"
    and r: "registration_work drv fresh db unit = (fin, db', r', e')"
  shows "D db' = D db \<and> keeps_request a r' \<and> (fin \<noteq> SC_DB_AGAIN \<longrightarrow> work_ended a p fin (P db') r')"
proof -
  obtain gid code now g where f: "fresh (r_source (own unit)) = ((gid, code, now), g)" by (metis prod_cases3 surj_pair)
  let ?b = "(r_account (own unit))\<lparr>a_gradido_id := gid, a_verification_code := code, a_created_at := now\<rparr>"
  obtain s result d t where c: "bc_user_create_account drv (r_slots (own unit)) db ?b = ((s, result), d, t)" by (metis prod.exhaust)
  have b: "asks_for a ?b" "a_email ?b = a_email a" using keep by (simp_all add: keeps_request_def asks_for_def)
  note spec = create_account_spec [OF l p c]
  have d: "db' = d" and k: "keeps_request a r'"
    using r f c b(1) by (auto simp: registration_work_def Let_def keeps_request_def split: if_splits bc_account_outcome.splits)
  show ?thesis
  proof (cases "s = SC_OK \<and> c_outcome result = BC_ACCOUNT_CREATED")
    case True
    with spec b(2) obtain uid cid where "\<not> in_use p (a_email a)" "uid \<notin> u_id ` set (users p)"
        "c_user_id result = word_of_int uid" "P d = Some (with_account p ?b uid cid)"
      by (auto simp: account_written_def)
    with True r f c spec d k b(1) show ?thesis
      by (auto simp: registration_work_def Let_def work_ended_def; blast)
  next
    case False
    with r f c spec d k b show ?thesis
      by (auto simp: registration_work_def Let_def work_ended_def account_written_def
          split: if_splits bc_account_outcome.splits)
  qed
qed

lemma journal_registering: "journal (registering env fresh) D P = journal env D P"
  by (simp add: journal_def registering_def)

lemma registering_keeps:
  assumes "account_store (drivers env) D P"
  shows "keeps_content (registering env fresh) D P (keeps_request a)"
  unfolding keeps_content_def
  using registration_work_spec [OF assms] by (auto simp: registering_def; blast)

lemma language_fits: "length (bc_language_or_default v) \<le> BC_LANGUAGE_MAX - Suc 0"
  by (auto simp: bc_language_or_default_def bc_language_is_known_def BC_LANGUAGE_MAX_def BC_LANGUAGE_DEFAULT_def
      kLanguages_def split: option.splits)

text \<open>A registration that ran to its end, on a database that held \<open>d\<close> before it.\<close>

definition registered :: "bc_new_account \<Rightarrow> content \<Rightarrow> sc_status \<Rightarrow> bc_registration_outcome \<Rightarrow> 64 word \<Rightarrow> content \<Rightarrow> bool" where
  "registered a d s outcome uid d' \<longleftrightarrow>
     (if s \<noteq> SC_OK then d' = d \<or> s = SC_ERR_NETWORK
      else case outcome of
        BC_REGISTRATION_CREATED \<Rightarrow> \<not> in_use d (a_email a) \<and>
          (\<exists>b i cid. asks_for a b \<and> i \<notin> u_id ` set (users d) \<and> uid = word_of_int i \<and> d' = with_account d b i cid)
      | BC_REGISTRATION_ADDRESS_TAKEN \<Rightarrow> d' = d \<and>
          (\<exists>k \<in> set (contacts d). k_email k = a_email a \<and> uid = word_of_int (k_user_id k))
      | BC_REGISTRATION_FAILED \<Rightarrow> d' = d
      | BC_REGISTRATION_PENDING \<Rightarrow> False)"

lemma registration_unit_spec:
  assumes j: "journal env D P" and l: "account_store (drivers env) D P" and idle: "P db = None"
    and w: "access unit = SC_DB_WRITE" and a: "r_account (own unit) = a"
    and r: "run_unit (registering env fresh) db unit = (stop, db', unit')"
  shows "registered a (D db) (status unit') (r_outcome (own unit')) (r_user_id (own unit')) (D db')"
proof -
  have keep: "keeps_request a (own unit)" using a by (simp add: keeps_request_def asks_for_def)
  have e: "unit_ended (registering env fresh) D P (keeps_request a) (D db) db' unit'"
    using unit_outcome [OF _ registering_keeps [OF l] idle w keep r] j by (simp add: journal_registering)
  show ?thesis
  proof (cases "status unit' = SC_OK")
    case False
    with e show ?thesis by (simp add: registered_def unit_ended_def)
  next
    case True
    with e obtain db2 unit1 fin db3 e3 where run: "registration_work (drivers env) fresh db2 unit1 = (fin, db3, own unit', e3)"
        and p: "P db2 = Some (D db)" and k: "keeps_request a (own unit1)"
        and fin: "fin = SC_DB_COMMIT \<and> (\<forall>p. P db3 = Some p \<longrightarrow> D db' = p) \<or> fin = SC_DB_ROLLBACK \<and> D db' = D db"
      by (auto simp: unit_ended_def last_run_def registering_def)
    from fin have "fin \<noteq> SC_DB_AGAIN" by auto
    with registration_work_spec [OF l p k run] have "work_ended a (D db) fin (P db3) (own unit')" by simp
    with fin True show ?thesis
      by (auto simp: work_ended_def registered_def split: bc_registration_outcome.splits; blast)
  qed
qed

lemma registered_ok:
  assumes "registered a d SC_OK outcome n d'" and "outcome \<noteq> BC_REGISTRATION_FAILED"
  shows "if in_use d (a_email a) then d' = d
     else \<exists>b uid cid. a_email b = a_email a \<and> a_first_name b = a_first_name a \<and> a_last_name b = a_last_name a \<and>
            a_language b = a_language a \<and> a_community_id b = a_community_id a \<and> uid \<notin> u_id ` set (users d) \<and>
            users d' = users d @ [member_row b uid (Some cid)] \<and> contacts d' = contacts d @ [address_row b uid cid]"
proof (cases outcome)
  case BC_REGISTRATION_CREATED
  with assms(1) obtain b i cid where "\<not> in_use d (a_email a)" "asks_for a b" "i \<notin> u_id ` set (users d)" "d' = with_account d b i cid"
    by (auto simp: registered_def)
  then show ?thesis
    by (simp only: if_False) (rule exI [of _ b], rule exI [of _ i], rule exI [of _ cid], simp add: asks_for_def with_account_def)
next
  case BC_REGISTRATION_ADDRESS_TAKEN
  with assms(1) show ?thesis by (auto simp: registered_def in_use_def intro: rev_image_eqI)
qed (use assms in \<open>auto simp: registered_def\<close>)


section \<open>A concrete database\<close>

text \<open>Two tables kept in two copies, the durable one and the one an open transaction sees.\<close>

type_synonym tables = "content \<times> content option"

definition tb_simple :: "tables sc_db \<Rightarrow> string \<Rightarrow> sc_status \<times> sc_sql_error \<times> tables sc_db" where
  "tb_simple db sql =
     (let (d, p) = native db
      in if sql = ''COMMIT'' then (SC_OK, no_error, db\<lparr>native := (case p of None \<Rightarrow> d | Some c \<Rightarrow> c, None)\<rparr>)
         else if sql = ''ROLLBACK'' then (SC_OK, no_error, db\<lparr>native := (d, None)\<rparr>)
         else (SC_OK, no_error, db\<lparr>native := (d, Some d)\<rparr>))"

definition free_id :: "content \<Rightarrow> int" where
  "free_id c = 1 + foldr (\<lambda>u m. max (u_id u) m) (users c) 0"

lemma free_id_new: "free_id c \<notin> u_id ` set (users c)"
proof -
  have "u \<in> set us \<Longrightarrow> u_id u \<le> foldr (\<lambda>u m. max (u_id u) m) us 0" for u and us :: "user_row list"
    by (induction us) auto
  then show ?thesis by (force simp: free_id_def)
qed

fun tb_user :: "int \<Rightarrow> sc_sql_param list \<Rightarrow> user_row" where
  "tb_user uid [SC_SQL_TEXT gid _, SC_SQL_INT com, SC_SQL_TEXT first _, SC_SQL_TEXT lst _, SC_SQL_TEXT lang _, SC_SQL_TIME t] =
     \<lparr>u_id = uid, u_gradido_id = gid, u_community_id = com, u_first_name = first, u_last_name = lst, u_language = lang,
      u_created_at = t, u_email_id = None\<rparr>"
| "tb_user uid _ = \<lparr>u_id = uid, u_gradido_id = [], u_community_id = 0, u_first_name = [], u_last_name = [], u_language = [],
      u_created_at = 0, u_email_id = None\<rparr>"

fun tb_contact :: "content \<Rightarrow> sc_sql_param list \<Rightarrow> int option \<times> content" where
  "tb_contact c [SC_SQL_INT uid, SC_SQL_TEXT e _, SC_SQL_INT v, SC_SQL_TIME t] =
     (if in_use c e then (None, c)
      else (let i = int (length (contacts c)) + 1
            in (Some i, c\<lparr>contacts := contacts c @ [\<lparr>k_id = i, k_user_id = uid, k_email = e, k_code = v, k_created_at = t\<rparr>]\<rparr>)))"
| "tb_contact c _ = (None, c)"

fun tb_owner :: "content \<Rightarrow> sc_sql_param list \<Rightarrow> int option" where
  "tb_owner c [SC_SQL_TEXT e _] = map_option k_user_id (find (\<lambda>k. k_email k = e) (contacts c))"
| "tb_owner c _ = None"

fun tb_link :: "content \<Rightarrow> sc_sql_param list \<Rightarrow> content" where
  "tb_link c [SC_SQL_INT cid, SC_SQL_INT uid] = c\<lparr>users := map (link uid cid) (users c)\<rparr>"
| "tb_link c _ = c"

definition tb_run :: "content \<Rightarrow> nat \<Rightarrow> sc_sql_param list \<Rightarrow> int option \<times> content" where
  "tb_run c n ps =
     (if n = 11 then (Some (free_id c), c\<lparr>users := users c @ [tb_user (free_id c) ps]\<rparr>)
      else if n = 12 then tb_contact c ps
      else if n = 13 then (tb_owner c ps, c)
      else (None, tb_link c ps))"

definition tb_driver :: "sc_db_kind \<Rightarrow> (tables, int option) sql_driver" where
  "tb_driver k = \<lparr>
     drv_run = (\<lambda>db s sl ps.
       case native db of
         (d, Some c) \<Rightarrow> if k = SC_DB_SQLITE
            then let (row, c') = tb_run c (statement_id s) ps in (SC_OK, Some row, 1, no_error, db\<lparr>native := (d, Some c')\<rparr>)
            else (SC_ERR_NETWORK, None, 0, no_error, db)
       | (d, None) \<Rightarrow> (SC_ERR_NETWORK, None, 0, no_error, db)),
     drv_simple = tb_simple, drv_next = (\<lambda>h. (h \<noteq> None, SC_OK, h)), drv_is_null = (\<lambda>h c. h = None),
     drv_text = (\<lambda>h c. None), drv_int = (\<lambda>h c. the h), drv_bytes = (\<lambda>h c n. None)\<rparr>"

definition tb_env :: "(tables, int option, 'g bc_registration) exec_env" where
  "tb_env = \<lparr>drivers = tb_driver, redial = (\<lambda>db. db\<lparr>native := (fst (native db), None)\<rparr>), revive = (\<lambda>db. (SC_OK, db)),
     in_transaction = (\<lambda>db. snd (native db) \<noteq> None), db_error = (\<lambda>db. []),
     work = (\<lambda>db unit. (SC_DB_ROLLBACK, db, own unit, no_error))\<rparr>"

lemma tb_journal: "journal tb_env (\<lambda>db. fst (native db)) (\<lambda>db. snd (native db))"
  unfolding journal_def
  by (intro conjI; clarsimp simp: tb_env_def sc_sql_simple_def tb_driver_def tb_simple_def begin_text_def
      split: prod.splits if_splits option.splits)

lemma tb_query:
  "query_int tb_driver st db s ps = (Inr (row, SC_OK), db', st') \<Longrightarrow> snd (native db) = Some p \<Longrightarrow>
     row = fst (tb_run p (statement_id s) ps) \<and> snd (native db') = Some (snd (tb_run p (statement_id s) ps))"
  by (cases "native db")
    (auto simp: query_int_def sc_sql_query_def run_def tb_driver_def sc_sql_next_def sc_sql_col_int_def bc_sql_finish_def
      sc_sql_close_def Let_def split: prod.splits if_splits)

lemma tb_exec:
  "sc_sql_exec tb_driver st db s ps no_failure = (SC_OK, n, e, db', st') \<Longrightarrow> snd (native db) = Some p \<Longrightarrow>
     snd (native db') = Some (snd (tb_run p (statement_id s) ps))"
  by (cases "native db")
    (auto simp: sc_sql_exec_def run_def tb_driver_def Let_def split: prod.splits if_splits)

lemma tb_durable:
  shows "query_int tb_driver st db s ps = (r, db', st') \<Longrightarrow> fst (native db') = fst (native db)"
    and "sc_sql_exec tb_driver st db s ps no_failure = (x, n, e, db', st') \<Longrightarrow> fst (native db') = fst (native db)"
  by (cases "native db"; cases "snd (native db)";
      auto simp: query_int_def sc_sql_query_def sc_sql_exec_def run_def tb_driver_def Let_def split: prod.splits if_splits)+

lemma tb_store: "account_store tb_driver (\<lambda>db. fst (native db)) (\<lambda>db. snd (native db))"
  unfolding account_store_def
  by (intro conjI allI impI; (elim conjE)?;
      (erule tb_durable | (drule (1) tb_query | drule (1) tb_exec));
      auto simp: tb_run_def kInsertUser_def kInsertContact_def kOwnerOfAddress_def kSetMainAddress_def user_params_def
        contact_params_def member_row_def address_row_def free_id_new sc_sql_text_def sc_sql_int_def sc_sql_time_def Let_def
        split: option.splits)

definition tb_db :: "tables sc_db" where
  "tb_db = \<lparr>kind = SC_DB_SQLITE, native = (\<lparr>users = [], contacts = []\<rparr>, None), rerun_unit = False\<rparr>"

definition tb_fresh :: "int fresh" where
  "tb_fresh g = ((''0a'', 7, g), g + 1)"

definition tb_slots :: sql_state where "tb_slots = \<lparr>last_slot = 0, slot = (\<lambda>_. 0)\<rparr>"

definition tb_register :: "tables sc_db \<Rightarrow> sc_status \<times> tables sc_db" where
  "tb_register db = bc_register_account_on tb_env tb_fresh db tb_slots 5 1 ''Ada'' ''Lo'' ''Ada@x.org'' (Some ''en'')"

lemma tb_first: "fst (tb_register tb_db) = SC_OK" "snd (native (snd (tb_register tb_db))) = None"
  "\<not> in_use (fst (native tb_db)) ''ada@x.org''" "snd (native tb_db) = None"
  by code_simp+

lemma tb_second: "fst (tb_register (snd (tb_register tb_db))) = SC_OK" 
  "in_use (fst (native (snd (tb_register tb_db)))) ''ada@x.org''"
  by code_simp+

lemma tb_email: "bc_normalize_email (Some ''Ada@x.org'') BC_EMAIL_MAX = Some ''ada@x.org''"
  by code_simp


end
