(* ===== verification/HttpFrame.thy ===== *)
theory HttpFrame
  imports CText
begin

text \<open>
  Where a request ends: the framing half of the fallback server
  (\<^verbatim>\<open>service-core/src/http_fallback.c\<close>, up to \<^verbatim>\<open>decode_chunked\<close>). Header lookup, the length a
  \<^verbatim>\<open>Content-Length\<close> announces, and the chunked decoder, which writes the decoded body over its own wire
  form in the connection's buffer.

  The buffer \<open>inb\<close> is the list of bytes received so far: \<^verbatim>\<open>in_used\<close> is its length. A header is a pair of
  a name and a value, as picohttpparser hands them over. Shown: the decoder returns, never overtakes
  its input, gives the same result however the bytes arrive, and undoes the chunked encoding.
\<close>

section \<open>Headers\<close>

definition SC_HTTP_MAX_BODY :: nat where "SC_HTTP_MAX_BODY = 32 * 1024"
definition MAX_BODY :: nat where "MAX_BODY = SC_HTTP_MAX_BODY"
definition REQ_BUF :: nat where "REQ_BUF = 64 * 1024"
definition MAX_CHUNK_LINE :: nat where "MAX_CHUNK_LINE = 64"
definition MAX_TRAILER :: nat where "MAX_TRAILER = 2048"

type_synonym phr_header = "string \<times> string"

definition ci_eq :: "string \<Rightarrow> string \<Rightarrow> bool" where
  "ci_eq a b \<longleftrightarrow> length a = length b \<and> (\<forall>i < length a. ascii_lower (a ! i) = ascii_lower (b ! i))"

definition header_of :: "phr_header list \<Rightarrow> string \<Rightarrow> string option" where
  "header_of headers name = map_option snd (find (\<lambda>h. ci_eq (fst h) name) headers)"

text \<open>The digits of a length, from left to right; \<open>None\<close> is the refusal.\<close>

fun length_walk :: "nat \<Rightarrow> string \<Rightarrow> nat option" where
  "length_walk n [] = Some n"
| "length_walk n (c # cs) =
     (if \<not> is_digit c then None
      else let n' = n * 10 + digit_val c in if n' > MAX_BODY then None else length_walk n' cs)"

definition content_length_of :: "phr_header list \<Rightarrow> nat option" where
  "content_length_of headers =
     (case header_of headers ''content-length'' of
        None \<Rightarrow> Some 0
      | Some v \<Rightarrow> if v = [] \<or> length v > 19 then None else length_walk 0 v)"

definition wants_keep_alive :: "phr_header list \<Rightarrow> nat \<Rightarrow> bool" where
  "wants_keep_alive headers minor_version =
     (case header_of headers ''connection'' of
        Some v \<Rightarrow> if ci_eq v ''close'' then False else if ci_eq v ''keep-alive'' then True else minor_version \<ge> 1
      | None \<Rightarrow> minor_version \<ge> 1)"

definition te_is_plain_chunked :: "string \<Rightarrow> bool" where
  "te_is_plain_chunked v =
     ci_eq (rtrim (\<lambda>c. c = SPACE \<or> c = TAB) (ltrim (\<lambda>c. c = SPACE \<or> c = TAB) v)) ''chunked''"

section \<open>The chunked decoder\<close>

datatype framing = FRAME_NONE | FRAME_LENGTH | FRAME_CHUNKED
datatype ch_state = CH_SIZE | CH_DATA | CH_DATA_CRLF | CH_TRAILER | CH_DONE
datatype decode = DEC_NEED_MORE | DEC_DONE | DEC_BAD | DEC_TOO_LARGE

record frame =
  inb :: string
  last_len :: nat
  head_len :: nat
  framing :: framing
  content_len :: nat
  ch_state :: ch_state
  ch_read :: nat
  ch_remaining :: nat
  body_len :: nat

text \<open>
  The digits at the start of a size line: \<open>Inl\<close> the early refusal, \<open>Inr\<close> the number and how many
  digits it has.
\<close>

fun size_walk :: "nat \<Rightarrow> nat \<Rightarrow> string \<Rightarrow> decode + nat \<times> nat" where
  "size_walk n digits [] = Inr (n, digits)"
| "size_walk n digits (c # cs) =
     (case hex_val c of
        None \<Rightarrow> Inr (n, digits)
      | Some d \<Rightarrow> let n' = n * 16 + d in if n' > MAX_BODY then Inl DEC_TOO_LARGE else size_walk n' (digits + 1) cs)"

text \<open>\<^verbatim>\<open>memchr\<close> for a newline, as the length of the line with it.\<close>

definition line_length :: "string \<Rightarrow> nat option" where
  "line_length s = (let l = takeWhile (\<lambda>c. c \<noteq> LF) s in if length l < length s then Some (length l + 1) else None)"

text \<open>\<^verbatim>\<open>memmove\<close> inside the buffer.\<close>

definition move_down :: "string \<Rightarrow> nat \<Rightarrow> nat \<Rightarrow> nat \<Rightarrow> string" where
  "move_down s dst src n = take dst s @ take n (drop src s) @ drop (dst + n) s"

text \<open>One turn of the loop; \<open>Some\<close> is a return. The inner loop over the trailers is one turn per line.\<close>

definition decode_step :: "frame \<Rightarrow> decode option \<times> frame" where
  "decode_step c =
     (let rest = drop (ch_read c) (inb c); avail = length rest
      in case ch_state c of
        CH_SIZE \<Rightarrow>
          (case line_length rest of
             None \<Rightarrow> (Some (if avail > MAX_CHUNK_LINE then DEC_BAD else DEC_NEED_MORE), c)
           | Some line_len \<Rightarrow>
               if line_len > MAX_CHUNK_LINE then (Some DEC_BAD, c)
               else (case size_walk 0 0 (take line_len rest) of
                       Inl e \<Rightarrow> (Some e, c)
                     | Inr (sz, digits) \<Rightarrow>
                         if digits = 0 then (Some DEC_BAD, c)
                         else let c1 = c\<lparr>ch_read := ch_read c + line_len\<rparr>
                              in if sz = 0 then (None, c1\<lparr>ch_state := CH_TRAILER\<rparr>)
                                 else if body_len c + sz > MAX_BODY then (Some DEC_TOO_LARGE, c1)
                                 else (None, c1\<lparr>ch_remaining := sz, ch_state := CH_DATA\<rparr>)))
      | CH_DATA \<Rightarrow>
          (let n = min avail (ch_remaining c);
               c1 = (if n = 0 then c
                     else c\<lparr>inb := move_down (inb c) (head_len c + body_len c) (ch_read c) n, body_len := body_len c + n,
                            ch_read := ch_read c + n, ch_remaining := ch_remaining c - n\<rparr>)
           in if ch_remaining c1 \<noteq> 0 then (Some DEC_NEED_MORE, c1) else (None, c1\<lparr>ch_state := CH_DATA_CRLF\<rparr>))
      | CH_DATA_CRLF \<Rightarrow>
          if avail < 2 then (Some DEC_NEED_MORE, c)
          else if rest ! 0 \<noteq> CR \<or> rest ! 1 \<noteq> LF then (Some DEC_BAD, c)
          else (None, c\<lparr>ch_read := ch_read c + 2, ch_state := CH_SIZE\<rparr>)
      | CH_TRAILER \<Rightarrow>
          (case line_length rest of
             None \<Rightarrow> (Some (if avail > MAX_TRAILER then DEC_BAD else DEC_NEED_MORE), c)
           | Some line_len \<Rightarrow>
               let c1 = c\<lparr>ch_read := ch_read c + line_len\<rparr>
               in if line_len \<le> 2 then (Some DEC_DONE, c1\<lparr>ch_state := CH_DONE\<rparr>) else (None, c1))
      | CH_DONE \<Rightarrow> (Some DEC_DONE, c))"

definition decode_rank :: "ch_state \<Rightarrow> nat" where
  "decode_rank s = (case s of CH_DATA \<Rightarrow> 2 | CH_DATA_CRLF \<Rightarrow> 1 | _ \<Rightarrow> 0)"

lemma line_length_Some: "line_length s = Some n \<longleftrightarrow> (\<exists>l t. s = l @ LF # t \<and> LF \<notin> set l \<and> n = length l + 1)"
proof
  assume "line_length s = Some n"
  then have n: "length (takeWhile (\<lambda>c. c \<noteq> LF) s) < length s" "n = length (takeWhile (\<lambda>c. c \<noteq> LF) s) + 1"
    by (auto simp: line_length_def Let_def split: if_splits)
  have split: "s = takeWhile (\<lambda>c. c \<noteq> LF) s @ dropWhile (\<lambda>c. c \<noteq> LF) s" by simp
  then have "dropWhile (\<lambda>c. c \<noteq> LF) s \<noteq> []" using n(1) by (metis append_Nil2 less_irrefl)
  then have "dropWhile (\<lambda>c. c \<noteq> LF) s = LF # tl (dropWhile (\<lambda>c. c \<noteq> LF) s)"
    using hd_dropWhile [of "\<lambda>c. c \<noteq> LF" s] by (metis list.collapse)
  with split n(2) show "\<exists>l t. s = l @ LF # t \<and> LF \<notin> set l \<and> n = length l + 1" by (metis (full_types) set_takeWhileD)
next
  assume "\<exists>l t. s = l @ LF # t \<and> LF \<notin> set l \<and> n = length l + 1"
  then obtain l t where s: "s = l @ LF # t" "LF \<notin> set l" "n = length l + 1" by blast
  then have "takeWhile (\<lambda>c. c \<noteq> LF) s = l" by (simp add: takeWhile_append2)
  with s show "line_length s = Some n" by (simp add: line_length_def)
qed

lemma line_length_line: "LF \<notin> set l \<Longrightarrow> line_length (l @ LF # w) = Some (length l + 1)"
  unfolding line_length_Some by blast

lemma line_length_None: "line_length s = None \<longleftrightarrow> LF \<notin> set s"
proof -
  have "LF \<in> set s \<longleftrightarrow> (\<exists>n. line_length s = Some n)"
    unfolding line_length_Some by (metis in_set_conv_decomp_first in_set_conv_decomp)
  then show ?thesis by (cases "line_length s") auto
qed

lemma line_length_bounds: "line_length s = Some n \<Longrightarrow> 0 < n \<and> n \<le> length s"
  by (auto simp: line_length_Some)

lemma decode_step_measure:
  assumes "decode_step c = (None, c')"
  shows "3 * (length (inb c') - ch_read c') + decode_rank (ch_state c') < 3 * (length (inb c) - ch_read c) + decode_rank (ch_state c)"
  using assms line_length_bounds [of "drop (ch_read c) (inb c)"]
  by (cases "ch_state c")
    (auto simp: decode_step_def Let_def decode_rank_def move_down_def split: option.splits if_splits sum.splits prod.splits)

function decode_chunked :: "frame \<Rightarrow> decode \<times> frame" where
  "decode_chunked c = (case decode_step c of (Some d, c') \<Rightarrow> (d, c') | (None, c') \<Rightarrow> decode_chunked c')"
  by auto

termination
  by (relation "measure (\<lambda>c. 3 * (length (inb c) - ch_read c) + decode_rank (ch_state c))")
    (auto dest: decode_step_measure [OF sym])

declare decode_chunked.simps [simp del]

section \<open>A decoder that keeps its output apart\<close>

text \<open>The reference: the body decoded so far and the bytes not looked at yet are two lists.\<close>

record chunked =
  k_state :: ch_state
  k_remaining :: nat
  k_body :: string
  k_rest :: string
  k_used :: nat

definition eat :: "nat \<Rightarrow> chunked \<Rightarrow> chunked" where
  "eat n k = k\<lparr>k_rest := drop n (k_rest k), k_used := k_used k + n\<rparr>"

definition chunked_step :: "chunked \<Rightarrow> decode option \<times> chunked" where
  "chunked_step k =
     (let rest = k_rest k; avail = length rest
      in case k_state k of
        CH_SIZE \<Rightarrow>
          (case line_length rest of
             None \<Rightarrow> (Some (if avail > MAX_CHUNK_LINE then DEC_BAD else DEC_NEED_MORE), k)
           | Some n \<Rightarrow>
               if n > MAX_CHUNK_LINE then (Some DEC_BAD, k)
               else (case size_walk 0 0 (take n rest) of
                       Inl e \<Rightarrow> (Some e, k)
                     | Inr (sz, digits) \<Rightarrow>
                         if digits = 0 then (Some DEC_BAD, k)
                         else if sz = 0 then (None, (eat n k)\<lparr>k_state := CH_TRAILER\<rparr>)
                         else if length (k_body k) + sz > MAX_BODY then (Some DEC_TOO_LARGE, eat n k)
                         else (None, (eat n k)\<lparr>k_remaining := sz, k_state := CH_DATA\<rparr>)))
      | CH_DATA \<Rightarrow>
          (let n = min avail (k_remaining k); k1 = (eat n k)\<lparr>k_body := k_body k @ take n rest, k_remaining := k_remaining k - n\<rparr>
           in if k_remaining k1 \<noteq> 0 then (Some DEC_NEED_MORE, k1) else (None, k1\<lparr>k_state := CH_DATA_CRLF\<rparr>))
      | CH_DATA_CRLF \<Rightarrow>
          if avail < 2 then (Some DEC_NEED_MORE, k)
          else if rest ! 0 \<noteq> CR \<or> rest ! 1 \<noteq> LF then (Some DEC_BAD, k)
          else (None, (eat 2 k)\<lparr>k_state := CH_SIZE\<rparr>)
      | CH_TRAILER \<Rightarrow>
          (case line_length rest of
             None \<Rightarrow> (Some (if avail > MAX_TRAILER then DEC_BAD else DEC_NEED_MORE), k)
           | Some n \<Rightarrow> if n \<le> 2 then (Some DEC_DONE, (eat n k)\<lparr>k_state := CH_DONE\<rparr>) else (None, eat n k))
      | CH_DONE \<Rightarrow> (Some DEC_DONE, k))"

lemma chunked_step_measure:
  "chunked_step k = (None, k') \<Longrightarrow>
     3 * length (k_rest k') + decode_rank (k_state k') < 3 * length (k_rest k) + decode_rank (k_state k)"
  using line_length_bounds [of "k_rest k"]
  by (cases "k_state k")
    (auto simp: chunked_step_def Let_def decode_rank_def eat_def split: option.splits if_splits sum.splits prod.splits)

function chunked_run :: "chunked \<Rightarrow> decode \<times> chunked" where
  "chunked_run k = (case chunked_step k of (Some d, k') \<Rightarrow> (d, k') | (None, k') \<Rightarrow> chunked_run k')"
  by auto

termination
  by (relation "measure (\<lambda>k. 3 * length (k_rest k) + decode_rank (k_state k))")
    (auto dest: chunked_step_measure [OF sym])

declare chunked_run.simps [simp del]

definition chunked_of :: "frame \<Rightarrow> chunked" where
  "chunked_of c = \<lparr>k_state = ch_state c, k_remaining = ch_remaining c,
     k_body = take (body_len c) (drop (head_len c) (inb c)), k_rest = drop (ch_read c) (inb c), k_used = ch_read c\<rparr>"

text \<open>The output has not caught up with the input.\<close>

definition trails :: "frame \<Rightarrow> bool" where
  "trails c \<longleftrightarrow> head_len c + body_len c \<le> ch_read c \<and> ch_read c \<le> length (inb c)"

definition same_head :: "frame \<Rightarrow> frame \<Rightarrow> bool" where
  "same_head c c' \<longleftrightarrow> head_len c' = head_len c \<and> length (inb c') = length (inb c) \<and>
     take (head_len c) (inb c') = take (head_len c) (inb c) \<and>
     ch_read c \<le> ch_read c' \<and> drop (ch_read c') (inb c') = drop (ch_read c') (inb c)"

lemma move_down_parts:
  assumes "h + b \<le> r" and "r + n \<le> length s"
  shows "length (move_down s (h + b) r n) = length s" "take h (move_down s (h + b) r n) = take h s"
    "take (b + n) (drop h (move_down s (h + b) r n)) = take b (drop h s) @ take n (drop r s)"
    "drop (r + n) (move_down s (h + b) r n) = drop (r + n) s"
proof -
  show "length (move_down s (h + b) r n) = length s" "take h (move_down s (h + b) r n) = take h s"
    using assms by (auto simp: move_down_def min_def)
  have "take (h + b) s = take h s @ take b (drop h s)" by (rule take_add)
  then have m: "move_down s (h + b) r n = take h s @ (take b (drop h s) @ take n (drop r s)) @ drop (h + b + n) s"
    by (simp add: move_down_def)
  have l: "length (take h s) = h" "length (take b (drop h s)) = b" "length (take n (drop r s)) = n" using assms by auto
  show "take (b + n) (drop h (move_down s (h + b) r n)) = take b (drop h s) @ take n (drop r s)"
    unfolding m using l by simp
  show "drop (r + n) (move_down s (h + b) r n) = drop (r + n) s"
    unfolding m using l assms by (simp add: add.commute add.left_commute)
qed

lemma decode_step_refines:
  assumes t: "trails c" and d: "decode_step c = (r, c')"
  shows "chunked_step (chunked_of c) = (r, chunked_of c') \<and> trails c' \<and> same_head c c'"
proof (cases "ch_state c = CH_DATA \<and> min (length (inb c) - ch_read c) (ch_remaining c) \<noteq> 0")
  case True
  let ?n = "min (length (inb c) - ch_read c) (ch_remaining c)"
  let ?s = "move_down (inb c) (head_len c + body_len c) (ch_read c) ?n"
  have n: "ch_read c + ?n \<le> length (inb c)" "head_len c + body_len c \<le> ch_read c" using t by (auto simp: trails_def)
  note parts = move_down_parts [OF n(2,1)]
  have "body_len c \<le> length (inb c) - head_len c" using n by linarith
  then show ?thesis
    using d True n parts
    by (auto simp: decode_step_def chunked_step_def chunked_of_def eat_def trails_def same_head_def Let_def add.commute
        split: if_splits)
next
  case False
  show ?thesis
    using d False t line_length_bounds [of "drop (ch_read c) (inb c)"]
    by (cases "ch_state c")
      (auto simp: decode_step_def chunked_step_def chunked_of_def eat_def trails_def same_head_def Let_def add.commute
        min_def split: option.splits if_splits sum.splits prod.splits)
qed

lemma same_head_trans: "same_head a b \<Longrightarrow> same_head b c \<Longrightarrow> same_head a c"
proof -
  assume a: "same_head a b" and b: "same_head b c"
  from a have "drop (ch_read c) (inb b) = drop (ch_read c) (inb a)" if "ch_read b \<le> ch_read c"
    using that by (auto simp: same_head_def dest: arg_cong [of _ _ "drop (ch_read c - ch_read b)"])
  with a b show ?thesis by (auto simp: same_head_def)
qed

lemma decode_chunked_refines:
  "trails c \<Longrightarrow> decode_chunked c = (d, c') \<Longrightarrow>
     chunked_run (chunked_of c) = (d, chunked_of c') \<and> trails c' \<and> same_head c c'"
proof (induction c rule: decode_chunked.induct)
  case (1 c)
  obtain r c1 where s: "decode_step c = (r, c1)" by (cases "decode_step c")
  note step = decode_step_refines [OF 1(2) s]
  show ?case
  proof (cases r)
    case (Some x)
    with 1(3) s step show ?thesis by (simp add: decode_chunked.simps [of c] chunked_run.simps [of "chunked_of c"])
  next
    case None
    then have "decode_chunked c1 = (d, c')" using 1(3) s by (simp add: decode_chunked.simps [of c])
    with 1(1) [OF s [symmetric] None] step have
      "chunked_run (chunked_of c1) = (d, chunked_of c') \<and> trails c' \<and> same_head c1 c'" by blast
    with step None same_head_trans [of c c1 c'] show ?thesis by (simp add: chunked_run.simps [of "chunked_of c"])
  qed
qed

text \<open>
  Decoding in place is decoding: the decoder that writes the body over the wire form answers
  what the decoder with two separate lists answers, with the same body and the same number of bytes
  used; it never overtakes its input, and it leaves the head and every byte it has not used as they
  were.
\<close>

theorem chunked_in_place:
  assumes "trails c" and "decode_chunked c = (d, c')"
  shows "chunked_run (chunked_of c) = (d, chunked_of c') \<and>
    head_len c' + body_len c' \<le> ch_read c' \<and> ch_read c' \<le> length (inb c') \<and>
    take (head_len c) (inb c') = take (head_len c) (inb c) \<and> drop (ch_read c') (inb c') = drop (ch_read c') (inb c)"
  using decode_chunked_refines [OF assms] by (simp_all add: trails_def same_head_def)

section \<open>However the bytes arrive\<close>

definition arrive :: "string \<Rightarrow> chunked \<Rightarrow> chunked" where
  "arrive q k = k\<lparr>k_rest := k_rest k @ q\<rparr>"

lemma line_length_more: "line_length s = Some n \<Longrightarrow> line_length (s @ q) = Some n \<and> take n (s @ q) = take n s"
  by (force simp: line_length_Some)

lemma chunked_step_more:
  assumes "chunked_step k = (None, k')"
  shows "chunked_step (arrive q k) = (None, arrive q k')"
  using assms line_length_more [of "k_rest k" _ q] line_length_bounds [of "k_rest k"]
  by (cases "k_state k")
    (auto simp: chunked_step_def arrive_def eat_def Let_def nth_append min_def split: option.splits if_splits sum.splits prod.splits)

text \<open>The step that ran out of bytes, taken again with more of them.\<close>

lemma chunked_step_again:
  assumes "chunked_step k = (Some DEC_NEED_MORE, k')"
  shows "chunked_step (arrive q k') = chunked_step (arrive q k)"
proof (cases "k_state k = CH_DATA")
  case False
  then have "k' = k"
    using assms by (cases "k_state k") (auto simp: chunked_step_def Let_def split: option.splits if_splits sum.splits prod.splits)
  then show ?thesis by simp
next
  case True
  let ?a = "length (k_rest k)" and ?m = "min (length q) (k_remaining k - length (k_rest k))"
  have k': "k' = (eat ?a k)\<lparr>k_body := k_body k @ k_rest k, k_remaining := k_remaining k - ?a\<rparr>" "?a < k_remaining k"
    using assms True by (auto simp: chunked_step_def Let_def min_def split: if_splits)
  have m: "min (?a + length q) (k_remaining k) = ?a + ?m" using k'(2) by auto
  show ?thesis
    using True k'(2) by (simp add: chunked_step_def k'(1) arrive_def eat_def m Let_def del: min.bounded_iff)
qed

lemma chunked_run_again:
  "chunked_run k = (DEC_NEED_MORE, k') \<Longrightarrow> chunked_run (arrive q k') = chunked_run (arrive q k)"
proof (induction k rule: chunked_run.induct)
  case (1 k)
  obtain r k1 where s: "chunked_step k = (r, k1)" by (cases "chunked_step k")
  show ?case
  proof (cases r)
    case None
    with 1(2) s have "chunked_run k1 = (DEC_NEED_MORE, k')" by (simp add: chunked_run.simps [of k])
    with 1(1) [OF s [symmetric] None] have "chunked_run (arrive q k') = chunked_run (arrive q k1)" by blast
    also have "\<dots> = chunked_run (arrive q k)"
      using chunked_step_more [of k k1 q] s None by (simp add: chunked_run.simps [of "arrive q k"])
    finally show ?thesis .
  next
    case (Some x)
    with 1(2) s have "chunked_step k = (Some DEC_NEED_MORE, k')" by (simp add: chunked_run.simps [of k])
    from chunked_step_again [OF this] show ?thesis by (simp add: chunked_run.simps [of "arrive q k"] chunked_run.simps [of "arrive q k'"])
  qed
qed

section \<open>The chunked encoding\<close>

text \<open>
  A size line is digits of either case and an extension that does not start with a digit; a chunk
  is a size line and its data. \<open>trailers\<close> are lines of at least two bytes and \<open>fin\<close> is the empty
  line, with or without a carriage return.
\<close>

type_synonym size_line = "string \<times> string"

definition hex_num :: "nat \<Rightarrow> string \<Rightarrow> nat" where
  "hex_num n ds = foldl (\<lambda>m c. m * 16 + the (hex_val c)) n ds"

definition size_ok :: "size_line \<Rightarrow> nat \<Rightarrow> bool" where
  "size_ok l v \<longleftrightarrow> (case l of (ds, ext) \<Rightarrow>
     ds \<noteq> [] \<and> (\<forall>c \<in> set ds. hex_val c \<noteq> None) \<and> hex_num 0 ds = v \<and>
     LF \<notin> set ext \<and> (ext = [] \<or> hex_val (hd ext) = None) \<and> length ds + length ext < MAX_CHUNK_LINE)"

definition size_wire :: "size_line \<Rightarrow> string" where
  "size_wire l = fst l @ snd l @ [LF]"

definition chunk_wire :: "size_line \<times> string \<Rightarrow> string" where
  "chunk_wire c = size_wire (fst c) @ snd c @ [CR, LF]"

definition trailer_wire :: "string list \<Rightarrow> string \<Rightarrow> string" where
  "trailer_wire trailers fin = concat (map (\<lambda>l. l @ [LF]) trailers) @ fin @ [LF]"

definition body_wire :: "(size_line \<times> string) list \<Rightarrow> size_line \<Rightarrow> string list \<Rightarrow> string \<Rightarrow> string" where
  "body_wire chunks end_line trailers fin = concat (map chunk_wire chunks) @ size_wire end_line @ trailer_wire trailers fin"

definition body_ok :: "(size_line \<times> string) list \<Rightarrow> size_line \<Rightarrow> string list \<Rightarrow> string \<Rightarrow> bool" where
  "body_ok chunks end_line trailers fin \<longleftrightarrow>
     (\<forall>(l, d) \<in> set chunks. size_ok l (length d) \<and> d \<noteq> []) \<and> size_ok end_line 0 \<and>
     (\<forall>l \<in> set trailers. LF \<notin> set l \<and> 2 \<le> length l \<and> length l \<le> MAX_TRAILER) \<and> fin \<in> {[], [CR]}"

lemma hex_num_ge: "n \<le> hex_num n ds"
proof (induction ds arbitrary: n)
  case (Cons c ds)
  have "n \<le> n * 16 + the (hex_val c)" by simp
  also have "\<dots> \<le> hex_num (n * 16 + the (hex_val c)) ds" by (rule Cons)
  finally show ?case by (simp add: hex_num_def)
qed (simp add: hex_num_def)

lemma size_walk_digits:
  "(\<forall>c \<in> set ds. hex_val c \<noteq> None) \<Longrightarrow> hex_num n ds \<le> MAX_BODY \<Longrightarrow> ext = [] \<or> hex_val (hd ext) = None \<Longrightarrow>
     size_walk n k (ds @ ext) = Inr (hex_num n ds, k + length ds)"
proof (induction ds arbitrary: n k)
  case Nil
  then show ?case by (cases ext) (auto simp: hex_num_def)
next
  case (Cons c ds)
  then obtain d where d: "hex_val c = Some d" by auto
  have "n * 16 + d \<le> hex_num (n * 16 + d) ds" by (rule hex_num_ge)
  with Cons.prems(2) d have "n * 16 + d \<le> MAX_BODY" "hex_num (n * 16 + d) ds \<le> MAX_BODY" by (simp_all add: hex_num_def)
  with Cons d show ?case by (simp add: hex_num_def)
qed

lemma hex_LF: "hex_val LF = None"
  by code_simp

lemma size_wire_line:
  assumes "size_ok l v"
  shows "line_length (size_wire l @ w) = Some (length (size_wire l))" "0 < length (size_wire l)" "length (size_wire l) \<le> MAX_CHUNK_LINE"
proof -
  obtain ds ext where l: "l = (ds, ext)" by (cases l)
  then have "LF \<notin> set (ds @ ext)" using assms hex_LF by (auto simp: size_ok_def)
  then show "line_length (size_wire l @ w) = Some (length (size_wire l))"
    using line_length_line [of "ds @ ext" w] by (simp add: l size_wire_def)
  show "0 < length (size_wire l)" "length (size_wire l) \<le> MAX_CHUNK_LINE" using assms by (auto simp: l size_wire_def size_ok_def)
qed

lemma size_wire_walk:
  assumes "size_ok l v" and "v \<le> MAX_BODY"
  shows "\<exists>n. size_walk 0 0 (size_wire l) = Inr (v, n) \<and> 0 < n"
proof -
  obtain ds ext where l: "l = (ds, ext)" by (cases l)
  have "ext @ [LF] = [] \<or> hex_val (hd (ext @ [LF])) = None" using assms(1) l hex_LF by (cases ext) (auto simp: size_ok_def)
  with size_walk_digits [of ds 0 "ext @ [LF]" 0] assms l show ?thesis by (auto simp: size_ok_def size_wire_def)
qed

lemma run_step: "chunked_step k = (None, k') \<Longrightarrow> chunked_run k = chunked_run k'"
  and run_stop: "chunked_step k = (Some d, k') \<Longrightarrow> chunked_run k = (d, k')"
  by (simp_all add: chunked_run.simps [of k])

lemma size_step:
  assumes "size_ok l v" and "k_state k = CH_SIZE" and "k_rest k = size_wire l @ w" and "length (k_body k) + v \<le> MAX_BODY"
  shows "chunked_step k = (None, (eat (length (size_wire l)) k)
    \<lparr>k_remaining := (if v = 0 then k_remaining k else v), k_state := (if v = 0 then CH_TRAILER else CH_DATA)\<rparr>)"
proof -
  have "v \<le> MAX_BODY" using assms(4) by simp
  then show ?thesis
    using size_wire_line(1) [OF assms(1), of w] size_wire_line(2,3) [OF assms(1)] size_wire_walk [OF assms(1)] assms
    by (auto simp: chunked_step_def eat_def)
qed

lemma trailer_run:
  assumes "\<forall>l \<in> set trailers. LF \<notin> set l \<and> 2 \<le> length l" and "fin \<in> {[], [CR]}"
  shows "k_state k = CH_TRAILER \<Longrightarrow> k_rest k = trailer_wire trailers fin @ rest \<Longrightarrow>
    chunked_run k = (DEC_DONE, (eat (length (trailer_wire trailers fin)) k)\<lparr>k_state := CH_DONE\<rparr>)"
  using assms(1)
proof (induction trailers arbitrary: k)
  case Nil
  have "line_length (fin @ LF # rest) = Some (length fin + 1)" using assms(2) by (intro line_length_line) auto
  with Nil assms(2) show ?case by (auto simp: trailer_wire_def chunked_step_def intro!: run_stop)
next
  case (Cons l ls)
  let ?w = "trailer_wire ls fin @ rest"
  have "line_length (l @ LF # ?w) = Some (length l + 1)" using Cons.prems(3) by (intro line_length_line) simp
  moreover have r: "k_rest k = l @ LF # ?w" using Cons.prems(2) by (simp add: trailer_wire_def)
  ultimately have "chunked_run k = chunked_run (eat (length l + 1) k)"
    using Cons.prems(1,3) by (intro run_step) (auto simp: chunked_step_def)
  also have "\<dots> = (DEC_DONE, (eat (length (trailer_wire ls fin)) (eat (length l + 1) k))\<lparr>k_state := CH_DONE\<rparr>)"
    using Cons.prems r by (intro Cons.IH) (auto simp: eat_def)
  finally show ?case by (simp add: eat_def trailer_wire_def add.commute add.left_commute)
qed

definition after_body :: "(size_line \<times> string) list \<Rightarrow> nat \<Rightarrow> chunked \<Rightarrow> chunked" where
  "after_body chunks n k = (eat n k)\<lparr>k_state := CH_DONE, k_body := k_body k @ concat (map snd chunks)\<rparr>"

lemma chunk_run:
  assumes "size_ok l (length d)" and "d \<noteq> []" and "k_state k = CH_SIZE" and "k_rest k = chunk_wire (l, d) @ w"
    and "length (k_body k) + length d \<le> MAX_BODY"
  shows "chunked_run k = chunked_run ((eat (length (chunk_wire (l, d))) k)\<lparr>k_remaining := 0, k_body := k_body k @ d\<rparr>)"
proof -
  let ?n = "length (size_wire l)"
  let ?k1 = "(eat ?n k)\<lparr>k_remaining := length d, k_state := CH_DATA\<rparr>"
  let ?k2 = "(eat (?n + length d) k)\<lparr>k_remaining := 0, k_body := k_body k @ d, k_state := CH_DATA_CRLF\<rparr>"
  have "chunked_step k = (None, ?k1)"
    using size_step [OF assms(1,3), of "d @ CR # LF # w"] assms by (simp add: chunk_wire_def)
  moreover have "chunked_step ?k1 = (None, ?k2)"
    using assms(4) by (simp add: chunked_step_def eat_def chunk_wire_def Let_def add.commute)
  moreover have "chunked_step ?k2 = (None, (eat (?n + length d + 2) k)\<lparr>k_remaining := 0, k_body := k_body k @ d, k_state := CH_SIZE\<rparr>)"
    using assms(4) by (simp add: chunked_step_def eat_def chunk_wire_def Let_def add.commute)
  ultimately show ?thesis using assms(3) by (cases k) (simp add: run_step chunk_wire_def eat_def add.commute add.left_commute)
qed

lemma body_run:
  assumes "body_ok chunks end_line trailers fin" and "k_state k = CH_SIZE" and "k_remaining k = 0"
    and "k_rest k = body_wire chunks end_line trailers fin @ rest"
    and "length (k_body k) + length (concat (map snd chunks)) \<le> MAX_BODY"
  shows "chunked_run k = (DEC_DONE, after_body chunks (length (body_wire chunks end_line trailers fin)) k)"
  using assms
proof (induction chunks arbitrary: k)
  case Nil
  let ?n = "length (size_wire end_line)"
  let ?k1 = "(eat ?n k)\<lparr>k_state := CH_TRAILER\<rparr>"
  have "chunked_step k = (None, ?k1)"
    using size_step [of end_line 0 k "trailer_wire trailers fin @ rest"] Nil by (cases k) (simp add: body_ok_def body_wire_def eat_def)
  then have "chunked_run k = chunked_run ?k1" by (rule run_step)
  also have "\<dots> = (DEC_DONE, (eat (length (trailer_wire trailers fin)) ?k1)\<lparr>k_state := CH_DONE\<rparr>)"
    using Nil by (intro trailer_run) (auto simp: body_ok_def body_wire_def eat_def)
  finally show ?case using Nil by (simp add: after_body_def eat_def body_wire_def add.commute add.left_commute)
next
  case (Cons c cs)
  obtain l d where c: "c = (l, d)" by (cases c)
  let ?k = "(eat (length (chunk_wire (l, d))) k)\<lparr>k_remaining := 0, k_body := k_body k @ d\<rparr>"
  have "chunked_run k = chunked_run ?k"
    using Cons.prems c by (intro chunk_run [where w = "body_wire cs end_line trailers fin @ rest"]) (auto simp: body_ok_def body_wire_def)
  also have "\<dots> = (DEC_DONE, after_body cs (length (body_wire cs end_line trailers fin)) ?k)"
    using Cons.prems c by (intro Cons.IH) (auto simp: body_ok_def body_wire_def eat_def)
  finally show ?case
    using Cons.prems c by (simp add: after_body_def eat_def body_wire_def add.commute add.left_commute)
qed

text \<open>A line that is not there yet, and a line that is.\<close>

lemma prefix_line:
  assumes "p @ q = l @ LF # w" and "LF \<notin> set l"
  obtains (short) "LF \<notin> set p" "length p \<le> length l" | (whole) p' where "p = l @ LF # p'" "p' @ q = w"
proof (cases "length p \<le> length l")
  case True
  with assms(1) have "p = take (length p) l" by (metis append_eq_append_conv_if)
  with assms(2) True show thesis by (metis in_set_takeD short)
next
  case False
  with assms(1) obtain us where us: "p = l @ us" "us @ q = LF # w" by (auto simp: append_eq_append_conv2)
  with False obtain p' where "us = LF # p'" by (cases us) auto
  with us show thesis by (intro whole [of p']) auto
qed

lemma trailer_prefix:
  assumes "\<forall>l \<in> set trailers. LF \<notin> set l \<and> 2 \<le> length l \<and> length l \<le> MAX_TRAILER" and "fin \<in> {[], [CR]}" and "q \<noteq> []"
  shows "k_state k = CH_TRAILER \<Longrightarrow> k_rest k @ q = trailer_wire trailers fin \<Longrightarrow> fst (chunked_run k) = DEC_NEED_MORE"
  using assms(1)
proof (induction trailers arbitrary: k)
  case Nil
  then have eq: "k_rest k @ q = fin @ LF # []" by (simp add: trailer_wire_def)
  have lf: "LF \<notin> set fin" using assms(2) by auto
  have "LF \<notin> set (k_rest k) \<and> length (k_rest k) \<le> length fin"
    by (rule prefix_line [OF eq lf]) (use assms(3) in auto)
  with Nil assms(2) show ?case
    by (auto simp: chunked_run.simps [of k] chunked_step_def line_length_None [symmetric] MAX_TRAILER_def)
next
  case (Cons l ls)
  then have eq: "k_rest k @ q = l @ LF # trailer_wire ls fin" and lf: "LF \<notin> set l" by (simp_all add: trailer_wire_def)
  show ?case
  proof (rule prefix_line [OF eq lf])
    assume "LF \<notin> set (k_rest k)" "length (k_rest k) \<le> length l"
    with Cons.prems show ?thesis by (simp add: chunked_run.simps [of k] chunked_step_def line_length_None [symmetric])
  next
    fix p' assume p': "k_rest k = l @ LF # p'" "p' @ q = trailer_wire ls fin"
    have "line_length (l @ LF # p') = Some (length l + 1)" by (rule line_length_line [OF lf])
    with p' Cons.prems have "chunked_step k = (None, eat (length l + 1) k)" by (auto simp: chunked_step_def)
    then have "chunked_run k = chunked_run (eat (length l + 1) k)" by (rule run_step)
    also have "fst \<dots> = DEC_NEED_MORE" using Cons.prems p' by (intro Cons.IH) (auto simp: eat_def)
    finally show ?thesis .
  qed
qed

lemma size_prefix:
  assumes "size_ok l v" and "p @ q = size_wire l @ w"
  obtains (short) "LF \<notin> set p" "length p < MAX_CHUNK_LINE" | (whole) p' where "p = size_wire l @ p'" "p' @ q = w"
proof -
  obtain ds ext where l: "l = (ds, ext)" by (cases l)
  have lf: "LF \<notin> set (ds @ ext)" using assms(1) hex_LF by (auto simp: l size_ok_def)
  have eq: "p @ q = (ds @ ext) @ LF # w" using assms(2) by (simp add: l size_wire_def)
  show thesis
    by (rule prefix_line [OF eq lf]) (use assms(1) short whole in \<open>auto simp: l size_wire_def size_ok_def\<close>)
qed

lemma data_prefix:
  assumes "p @ q = d @ CR # LF # w" and "\<nexists>p2. p = d @ CR # LF # p2" and "k_state k = CH_DATA" and "k_rest k = p"
    and "k_remaining k = length d"
  shows "fst (chunked_run k) = DEC_NEED_MORE"
proof (cases "length p < length d")
  case True
  with assms(3-5) show ?thesis by (simp add: chunked_run.simps [of k] chunked_step_def Let_def)
next
  case False
  with assms(1) obtain us where us: "p = d @ us" "us @ q = CR # LF # w" by (auto simp: append_eq_append_conv2)
  with assms(2) have "length us < 2" by (cases us; cases "tl us") auto
  moreover have "chunked_step k = (None, (eat (length d) k)\<lparr>k_body := k_body k @ d, k_remaining := 0, k_state := CH_DATA_CRLF\<rparr>)"
    using assms(3-5) us by (simp add: chunked_step_def Let_def eat_def)
  moreover define k2 where "k2 = (eat (length d) k)\<lparr>k_body := k_body k @ d, k_remaining := 0, k_state := CH_DATA_CRLF\<rparr>"
  ultimately have "chunked_run k = chunked_run k2" by (intro run_step) simp
  moreover have "k_state k2 = CH_DATA_CRLF" "k_rest k2 = us" using assms(4) us by (simp_all add: k2_def eat_def)
  then have "chunked_step k2 = (Some DEC_NEED_MORE, k2)" using \<open>length us < 2\<close> by (simp add: chunked_step_def)
  ultimately show ?thesis by (simp add: run_stop)
qed

lemma body_prefix:
  assumes "body_ok chunks end_line trailers fin" and "k_state k = CH_SIZE" and "q \<noteq> []"
    and "k_rest k @ q = body_wire chunks end_line trailers fin"
    and "length (k_body k) + length (concat (map snd chunks)) \<le> MAX_BODY"
  shows "fst (chunked_run k) = DEC_NEED_MORE"
  using assms
proof (induction chunks arbitrary: k)
  case Nil
  then have ok: "size_ok end_line 0" and eq: "k_rest k @ q = size_wire end_line @ trailer_wire trailers fin"
    by (simp_all add: body_ok_def body_wire_def)
  show ?case
  proof (rule size_prefix [OF ok eq])
    assume "LF \<notin> set (k_rest k)" "length (k_rest k) < MAX_CHUNK_LINE"
    with Nil show ?thesis by (simp add: chunked_run.simps [of k] chunked_step_def line_length_None [symmetric])
  next
    fix p' assume p': "k_rest k = size_wire end_line @ p'" "p' @ q = trailer_wire trailers fin"
    let ?k1 = "(eat (length (size_wire end_line)) k)\<lparr>k_remaining := k_remaining k, k_state := CH_TRAILER\<rparr>"
    have "chunked_step k = (None, ?k1)" using size_step [OF ok Nil(2) p'(1)] Nil(5) by simp
    then have "chunked_run k = chunked_run ?k1" by (rule run_step)
    also have "fst \<dots> = DEC_NEED_MORE"
      using Nil p' by (intro trailer_prefix [of trailers fin q]) (auto simp: eat_def body_ok_def)
    finally show ?thesis .
  qed
next
  case (Cons c cs)
  obtain l d where c: "c = (l, d)" by (cases c)
  let ?w = "body_wire cs end_line trailers fin"
  have ok: "size_ok l (length d)" and d: "d \<noteq> []" and room: "length (k_body k) + length d \<le> MAX_BODY"
    using Cons.prems c by (auto simp: body_ok_def)
  have eq: "k_rest k @ q = size_wire l @ d @ CR # LF # ?w" using Cons.prems c by (simp add: body_wire_def chunk_wire_def)
  show ?case
  proof (rule size_prefix [OF ok eq])
    assume "LF \<notin> set (k_rest k)" "length (k_rest k) < MAX_CHUNK_LINE"
    with Cons.prems(2) show ?thesis by (simp add: chunked_run.simps [of k] chunked_step_def line_length_None [symmetric])
  next
    fix p' assume p': "k_rest k = size_wire l @ p'" "p' @ q = d @ CR # LF # ?w"
    show ?thesis
    proof (cases "\<exists>p2. p' = d @ CR # LF # p2")
      case True
      then obtain p2 where p2: "p' = d @ CR # LF # p2" by blast
      have "chunked_run k = chunked_run ((eat (length (chunk_wire (l, d))) k)\<lparr>k_remaining := 0, k_body := k_body k @ d\<rparr>)"
        using ok d room p' p2 Cons.prems by (intro chunk_run [where w = p2]) (auto simp: chunk_wire_def)
      also have "fst \<dots> = DEC_NEED_MORE"
        using Cons.prems p' p2 c by (intro Cons.IH) (auto simp: eat_def body_ok_def chunk_wire_def)
      finally show ?thesis .
    next
      case False
      let ?k1 = "(eat (length (size_wire l)) k)\<lparr>k_remaining := length d, k_state := CH_DATA\<rparr>"
      have "chunked_step k = (None, ?k1)" using size_step [OF ok Cons.prems(2) p'(1) room] d by simp
      then have "chunked_run k = chunked_run ?k1" by (rule run_step)
      also have "fst \<dots> = DEC_NEED_MORE"
        by (rule data_prefix [of p' q d ?w]) (use p' False in \<open>auto simp: eat_def\<close>)
      finally show ?thesis .
    qed
  qed
qed

section \<open>A body in pieces\<close>

text \<open>Reads one after the other, until the decoder has an answer.\<close>

fun feed :: "frame \<Rightarrow> string list \<Rightarrow> decode \<times> frame" where
  "feed c [] = (DEC_NEED_MORE, c)"
| "feed c (p # ps) =
     (let (d, c') = decode_chunked (c\<lparr>inb := inb c @ p\<rparr>)
      in if d = DEC_NEED_MORE \<and> ps \<noteq> [] then feed c' ps else (d, c'))"

fun feed_chunked :: "chunked \<Rightarrow> string list \<Rightarrow> decode \<times> chunked" where
  "feed_chunked k [] = (DEC_NEED_MORE, k)"
| "feed_chunked k (p # ps) =
     (let (d, k') = chunked_run (arrive p k) in if d = DEC_NEED_MORE \<and> ps \<noteq> [] then feed_chunked k' ps else (d, k'))"

lemma more_of: "trails c \<Longrightarrow> chunked_of (c\<lparr>inb := inb c @ p\<rparr>) = arrive p (chunked_of c) \<and> trails (c\<lparr>inb := inb c @ p\<rparr>)"
  by (auto simp: chunked_of_def arrive_def trails_def)

lemma same_head_more: "same_head (c\<lparr>inb := inb c @ p\<rparr>) c' \<Longrightarrow> trails c \<Longrightarrow> take (head_len c) (inb c') = take (head_len c) (inb c) \<and> head_len c' = head_len c"
  by (auto simp: same_head_def trails_def)

lemma feed_refines:
  "trails c \<Longrightarrow> feed c ps = (d, c') \<Longrightarrow>
     feed_chunked (chunked_of c) ps = (d, chunked_of c') \<and> trails c' \<and> head_len c' = head_len c \<and>
     take (head_len c) (inb c') = take (head_len c) (inb c)"
proof (induction ps arbitrary: c)
  case (Cons p ps)
  let ?c = "c\<lparr>inb := inb c @ p\<rparr>"
  obtain e c1 where r: "decode_chunked ?c = (e, c1)" by (cases "decode_chunked ?c")
  note m = more_of [OF Cons.prems(1), of p]
  note ref = decode_chunked_refines [OF conjunct2 [OF m] r]
  have h: "take (head_len c) (inb c1) = take (head_len c) (inb c) \<and> head_len c1 = head_len c"
    using same_head_more ref Cons.prems(1) by blast
  show ?case
  proof (cases "e = DEC_NEED_MORE \<and> ps \<noteq> []")
    case True
    then have "feed c1 ps = (d, c')" using Cons.prems(2) r by simp
    with Cons.IH [of c1] ref h m True show ?thesis by simp
  next
    case False
    with Cons.prems(2) r ref h m show ?thesis by auto
  qed
qed simp

lemma more_more: "arrive q (arrive p k) = arrive (p @ q) k"
  by (simp add: arrive_def)

lemma feed_body:
  assumes wire: "body_ok chunks end_line trailers fin" "k_state k0 = CH_SIZE" "k_rest k0 = []" "k_body k0 = []"
      "length (concat (map snd chunks)) \<le> MAX_BODY" "w = body_wire chunks end_line trailers fin"
  shows "ps \<noteq> [] \<Longrightarrow> acc @ concat ps = w @ rest \<Longrightarrow> length rest < length (last ps) \<Longrightarrow>
     (\<And>q. chunked_run (arrive q k) = chunked_run (arrive (acc @ q) k0)) \<Longrightarrow>
     feed_chunked k ps = chunked_run (arrive (w @ rest) k0)"
proof (induction ps arbitrary: k acc)
  case (Cons p ps)
  show ?case
  proof (cases ps)
    case Nil
    then show ?thesis using Cons.prems by (auto simp: Let_def split: prod.splits)
  next
    case more: (Cons p2 ps2)
    then have ne: "ps \<noteq> []" by simp
    have "length (last ps) \<le> length (concat ps)"
      by (metis append_butlast_last_id concat.simps(2) concat_append length_append more le_add2 append_Nil2 concat.simps(1) list.distinct(1))
    then have "length rest < length (concat ps)" using Cons.prems(3) ne by simp
    then obtain q where q: "(acc @ p) @ q = w" "q \<noteq> []"
      using Cons.prems(2) by (auto simp: append_eq_append_conv2)
    have "fst (chunked_run (arrive (acc @ p) k0)) = DEC_NEED_MORE"
      by (rule body_prefix [OF wire(1) _ q(2)]) (use wire q in \<open>auto simp: arrive_def\<close>)
    then obtain k' where k': "chunked_run (arrive p k) = (DEC_NEED_MORE, k')" using Cons.prems(4) [of p] by (metis fst_conv surj_pair)
    have "chunked_run (arrive q' k') = chunked_run (arrive ((acc @ p) @ q') k0)" for q'
      using chunked_run_again [OF k', of q'] Cons.prems(4) [of "p @ q'"] by (simp add: more_more)
    then have "feed_chunked k' ps = chunked_run (arrive (w @ rest) k0)"
      using Cons.prems(2,3) ne by (intro Cons.IH [of "acc @ p"]) auto
    with k' ne show ?thesis by simp
  qed
qed simp

definition fresh_body :: "string \<Rightarrow> frame" where
  "fresh_body h = \<lparr>inb = h, last_len = 0, head_len = length h, framing = FRAME_CHUNKED, content_len = 0, ch_state = CH_SIZE,
     ch_read = length h, ch_remaining = 0, body_len = 0\<rparr>"

text \<open>
  C10. A chunked body is read back, however it is cut into reads: behind any head, for any chunks of
  at most the allowed size in all, with any spelling of the sizes, extensions and trailers, the
  decoder asks for more until the read with the last byte has come, and then holds exactly the data
  of the chunks, knows where the request ends, and has left the head and the beginning of the next
  request untouched.
\<close>

theorem chunked_body_in_pieces:
  assumes "body_ok chunks end_line trailers fin" and "length (concat (map snd chunks)) \<le> MAX_BODY"
    and "concat ps = body_wire chunks end_line trailers fin @ rest" and "ps \<noteq> []" and "length rest < length (last ps)"
  shows "\<exists>c'. feed (fresh_body h) ps = (DEC_DONE, c') \<and>
    take (body_len c') (drop (head_len c') (inb c')) = concat (map snd chunks) \<and>
    take (head_len c') (inb c') = h \<and> drop (ch_read c') (inb c') = rest \<and>
    ch_read c' = length h + length (body_wire chunks end_line trailers fin)"
proof -
  let ?w = "body_wire chunks end_line trailers fin" and ?k = "chunked_of (fresh_body h)"
  obtain d c' where f: "feed (fresh_body h) ps = (d, c')" by (cases "feed (fresh_body h) ps")
  have "trails (fresh_body h)" by (simp add: trails_def fresh_body_def)
  note ref = feed_refines [OF this f]
  have k: "k_state ?k = CH_SIZE" "k_rest ?k = []" "k_body ?k = []" "k_remaining ?k = 0" "k_used ?k = length h"
    by (simp_all add: chunked_of_def fresh_body_def)
  have "feed_chunked ?k ps = chunked_run (arrive (?w @ rest) ?k)"
    by (rule feed_body [where acc = "[]"]) (use assms k in \<open>auto\<close>)
  also have "\<dots> = (DEC_DONE, after_body chunks (length ?w) (arrive (?w @ rest) ?k))"
    by (rule body_run) (use assms(1,2) k in \<open>auto simp: arrive_def\<close>)
  finally have "d = DEC_DONE" and k': "chunked_of c' = after_body chunks (length ?w) (arrive (?w @ rest) ?k)" using ref by auto
  have "k_body (chunked_of c') = concat (map snd chunks)" "k_rest (chunked_of c') = rest" "k_used (chunked_of c') = length h + length ?w"
    unfolding k' using k by (simp_all add: after_body_def arrive_def eat_def)
  then show ?thesis using f \<open>d = DEC_DONE\<close> ref by (auto simp: chunked_of_def fresh_body_def)
qed

theorem chunked_in_place_witness:
  "chunked_run (chunked_of (fresh_body ''G'' \<lparr>inb := ''G1'' @ [CR, LF] @ ''a''\<rparr>)) =
     (DEC_NEED_MORE, chunked_of (snd (decode_chunked (fresh_body ''G'' \<lparr>inb := ''G1'' @ [CR, LF] @ ''a''\<rparr>))))"
proof -
  let ?c = "fresh_body ''G'' \<lparr>inb := ''G1'' @ [CR, LF] @ ''a''\<rparr>"
  have "trails ?c" by (simp add: trails_def fresh_body_def)
  moreover have "decode_chunked ?c = (DEC_NEED_MORE, snd (decode_chunked ?c))" by code_simp
  ultimately show ?thesis using chunked_in_place [of ?c] by blast
qed

theorem chunked_body_in_pieces_witness:
  "\<exists>c'. feed (fresh_body ''head'') [''2'' @ [CR, LF] @ ''h'', ''i'' @ [CR, LF] @ ''0'' @ [CR], [LF, CR, LF] @ ''next''] = (DEC_DONE, c') \<and>
     take (body_len c') (drop (head_len c') (inb c')) = ''hi'' \<and> drop (ch_read c') (inb c') = ''next''"
proof -
  have "body_ok [((''2'', [CR]), ''hi'')] (''0'', [CR]) [] [CR]" by code_simp
  from chunked_body_in_pieces [OF this, of "[''2'' @ [CR, LF] @ ''h'', ''i'' @ [CR, LF] @ ''0'' @ [CR], [LF, CR, LF] @ ''next'']" "''next''" "''head''"]
  show ?thesis by (auto simp: MAX_BODY_def SC_HTTP_MAX_BODY_def body_wire_def chunk_wire_def size_wire_def trailer_wire_def)
qed

section \<open>Limits\<close>

text \<open>What a length announces: a decimal number of at most 19 digits within the limit.\<close>

lemma length_walk_digits:
  "length_walk n v = (if (\<forall>c \<in> set v. is_digit c) \<and> foldl (\<lambda>m c. m * 10 + digit_val c) n v \<le> MAX_BODY \<or> v = []
     then Some (foldl (\<lambda>m c. m * 10 + digit_val c) n v) else None)"
proof (induction v arbitrary: n)
  case (Cons c v)
  have "m \<le> foldl (\<lambda>m c. m * 10 + digit_val c) m u" for m u
  proof (induction u arbitrary: m)
    case (Cons a u)
    have "m \<le> m * 10 + digit_val a" by simp
    also have "\<dots> \<le> foldl (\<lambda>m c. m * 10 + digit_val c) (m * 10 + digit_val a) u" by (rule Cons)
    finally show ?case by simp
  qed simp
  then have "n * 10 + digit_val c > MAX_BODY \<Longrightarrow> foldl (\<lambda>m c. m * 10 + digit_val c) (n * 10 + digit_val c) v > MAX_BODY"
    by (meson le_trans not_le)
  with Cons show ?case by (auto simp: Let_def not_le)
qed simp

text \<open>
  The limit on a trailer looks at a line that is not complete: the same line is accepted when its
  end has come with it and refused when it has not.
\<close>

lemma trailer_limit_by_reads:
  assumes "k_state k = CH_TRAILER"
  shows "k_rest k = replicate 3000 (CHR ''x'') @ [LF, LF] \<Longrightarrow> fst (chunked_run k) = DEC_DONE"
    and "k_rest k = replicate 3000 (CHR ''x'') \<Longrightarrow> fst (chunked_run k) = DEC_BAD"
proof -
  assume "k_rest k = replicate 3000 (CHR ''x'') @ [LF, LF]"
  then have "k_rest k = trailer_wire [replicate 3000 (CHR ''x'')] [] @ []" by (simp add: trailer_wire_def)
  from trailer_run [OF _ _ assms this] show "fst (chunked_run k) = DEC_DONE" by simp
next
  assume r: "k_rest k = replicate 3000 (CHR ''x'')"
  have "line_length (k_rest k) = None" unfolding line_length_None r by simp
  with assms r show "fst (chunked_run k) = DEC_BAD" by (simp add: chunked_run.simps [of k] chunked_step_def MAX_TRAILER_def)
qed

text \<open>
  The wire form of a body that is allowed may not fit the buffer it has to be decoded in: 10923
  bytes sent one at a time.
\<close>

lemma small_chunks_overflow:
  "length (concat (map snd (replicate 10923 ((''1'', [CR]), ''x'')))) \<le> MAX_BODY"
  "length (body_wire (replicate 10923 ((''1'', [CR]), ''x'')) (''0'', [CR]) [] [CR]) > REQ_BUF"
  by (simp_all add: MAX_BODY_def SC_HTTP_MAX_BODY_def REQ_BUF_def body_wire_def length_concat chunk_wire_def size_wire_def
      trailer_wire_def sum_list_replicate)

text \<open>Of several lengths the first is taken; the others are not looked at.\<close>

lemma first_length_wins: "content_length_of [(''Content-Length'', ''5''), (''Content-Length'', ''50'')] = Some 5"
  by code_simp

end
