(* ===== verification/HttpConn.thy ===== *)
theory HttpConn
  imports HttpFrame HttpDefer
begin

text \<open>
  One connection of the fallback server, \<^verbatim>\<open>service-core/src/http_fallback.c\<close> from \<^verbatim>\<open>respond\<close> on, with
  \<^verbatim>\<open>sc_http_reason\<close> and \<^verbatim>\<open>sc_http_status_omits_body\<close> of \<^verbatim>\<open>http_common.c\<close>: finding a request in the bytes that
  came, offering it to the routes, writing the answer, and the end of the connection.

  libuv is what the connection calls and is called by: the calls it makes are recorded in \<open>calls\<close>, in
  order, and its callbacks are the operations \<open>on_read\<close>, \<open>on_written\<close>, \<open>on_shutdown\<close> and so on.
  picohttpparser and the handlers are parameters. A handler sees the request and the world \<open>'w\<close>; parking
  the request is the ticket it answers. Memory, threads and the clock are not modelled.

  Shown: requests are answered one by one, in their order, however their bytes arrive; a parked
  request blocks the ones behind it.
\<close>

section \<open>Data\<close>

definition MAX_HEAD :: nat where "MAX_HEAD = 8192"
definition OUT_BUF :: nat where "OUT_BUF = 16 * 1024"
definition REPLY_MAX :: nat where "REPLY_MAX = 8 * 1024"
definition DRAIN_MS :: nat where "DRAIN_MS = 2000"
definition DRAIN_MAX :: nat where "DRAIN_MAX = 256 * 1024"
definition MAX_ROUTES :: nat where "MAX_ROUTES = 64"
definition EXTRA_HEADERS_MAX :: nat where "EXTRA_HEADERS_MAX = 2048"
definition SC_HTTP_RESPONSE_HEADERS_MAX :: nat where "SC_HTTP_RESPONSE_HEADERS_MAX = 12"

record sc_http_req =
  q_method :: string
  q_path :: string
  q_minor_version :: nat
  q_headers :: "phr_header list"
  q_body :: string
  q_extra_count :: nat
  q_extra :: string
  q_replied :: bool
  q_status :: nat
  q_type :: string
  q_reply :: string

definition blank_req :: sc_http_req where
  "blank_req = \<lparr>q_method = [], q_path = [], q_minor_version = 0, q_headers = [], q_body = [], q_extra_count = 0, q_extra = [],
     q_replied = False, q_status = 0, q_type = [], q_reply = []\<rparr>"

text \<open>What \<^verbatim>\<open>phr_parse_request\<close> answers for the bytes there are and the number it had seen before.\<close>

datatype phr_result = Phr_incomplete | Phr_bad | Phr_head string string nat "phr_header list" nat

type_synonym parser = "string \<Rightarrow> nat \<Rightarrow> phr_result"

type_synonym 'w handler = "'w \<Rightarrow> sc_http_req \<Rightarrow> bool \<times> sc_http_ticket option \<times> sc_http_req \<times> 'w"

record 'w server =
  parse :: parser
  routes :: "(string \<times> 'w handler) list"
  default_fn :: "'w handler option"
  before_route :: "'w handler option"

datatype uv_call =
    Uv_write string | Uv_read_start | Uv_read_discard | Uv_read_stop | Uv_shutdown | Uv_timer_start nat | Uv_close
  | Defer_forget sc_http_ticket

record conn = frame +
  req :: sc_http_req
  deferred :: bool
  ticket :: sc_http_ticket
  deferred_wire_len :: nat
  writing :: bool
  close_after_write :: bool
  draining :: bool
  closing :: bool
  drained :: nat
  calls :: "uv_call list"

definition call :: "uv_call \<Rightarrow> conn \<Rightarrow> conn" where
  "call x c = c\<lparr>calls := calls c @ [x]\<rparr>"

definition new_conn :: conn where
  "new_conn = \<lparr>inb = [], last_len = 0, head_len = 0, framing = FRAME_NONE, content_len = 0, ch_state = CH_SIZE, ch_read = 0,
     ch_remaining = 0, body_len = 0, req = blank_req, deferred = False, ticket = 0, deferred_wire_len = 0, writing = False,
     close_after_write = False, draining = False, closing = False, drained = 0, calls = []\<rparr>"

section \<open>What a handler does to its request\<close>

definition sc_http_method_is :: "sc_http_req \<Rightarrow> string \<Rightarrow> bool" where
  "sc_http_method_is r m \<longleftrightarrow> q_method r = m"

definition sc_http_path :: "sc_http_req \<Rightarrow> string" where
  "sc_http_path r = takeWhile (\<lambda>c. c \<noteq> CHR ''?'') (q_path r)"

definition sc_http_body :: "sc_http_req \<Rightarrow> string option" where
  "sc_http_body r = (if q_body r = [] then None else Some (q_body r))"

definition sc_http_header :: "sc_http_req \<Rightarrow> string \<Rightarrow> string option" where
  "sc_http_header r name = header_of (q_headers r) name"

definition sc_http_minor_version :: "sc_http_req \<Rightarrow> nat" where
  "sc_http_minor_version r = (if q_minor_version r \<ge> 1 then 1 else 0)"

definition sc_http_header_add :: "sc_http_req \<Rightarrow> string \<Rightarrow> string \<Rightarrow> sc_status \<times> sc_http_req" where
  "sc_http_header_add r name v =
     (let line = name @ '': '' @ cstr v @ [CR, LF]
      in if q_extra_count r \<ge> SC_HTTP_RESPONSE_HEADERS_MAX then (SC_ERR_TOO_LONG, r)
         else if length line \<ge> EXTRA_HEADERS_MAX - length (q_extra r) then (SC_ERR_TOO_LONG, r)
         else (SC_OK, r\<lparr>q_extra := q_extra r @ line, q_extra_count := q_extra_count r + 1\<rparr>))"

definition put_reply :: "nat \<Rightarrow> string \<Rightarrow> string \<Rightarrow> sc_http_req \<Rightarrow> sc_http_req" where
  "put_reply st ctype body r = r\<lparr>q_reply := body, q_status := st, q_type := ctype, q_replied := True\<rparr>"

definition sc_http_reply :: "sc_http_req \<Rightarrow> nat \<Rightarrow> string \<Rightarrow> string \<Rightarrow> sc_status \<times> sc_http_req" where
  "sc_http_reply r st ctype body =
     (if length body > REPLY_MAX then (SC_ERR_TOO_LONG, r) else (SC_OK, put_reply st ctype body r))"

definition sc_http_reply_static :: "sc_http_req \<Rightarrow> nat \<Rightarrow> string \<Rightarrow> string \<Rightarrow> sc_status \<times> sc_http_req" where
  "sc_http_reply_static r st ctype body =
     (if length body > 2 ^ 32 - 1 then (SC_ERR_TOO_LONG, r) else (SC_OK, put_reply st ctype body r))"

definition sc_http_reason :: "nat \<Rightarrow> string" where
  "sc_http_reason st =
     (if st = 200 then ''OK'' else if st = 204 then ''No Content'' else if st = 304 then ''Not Modified''
      else if st = 400 then ''Bad Request'' else if st = 401 then ''Unauthorized'' else if st = 403 then ''Forbidden''
      else if st = 404 then ''Not Found'' else if st = 405 then ''Method Not Allowed'' else if st = 413 then ''Payload Too Large''
      else if st = 431 then ''Request Header Fields Too Large'' else if st = 500 then ''Internal Server Error''
      else if st = 501 then ''Not Implemented'' else if st = 503 then ''Service Unavailable''
      else if st < 400 then ''OK'' else ''Error'')"

definition sc_http_status_omits_body :: "nat \<Rightarrow> bool" where
  "sc_http_status_omits_body st \<longleftrightarrow> st = 204 \<or> st = 304"

definition sc_http_health :: "string option \<Rightarrow> sc_http_req \<Rightarrow> bool \<times> sc_http_req" where
  "sc_http_health role r =
     (if \<not> sc_http_method_is r ''GET'' then (False, r)
      else let body = ''{'' @ [QUOTE] @ ''status'' @ [QUOTE] @ '':'' @ [QUOTE] @ ''ok'' @ [QUOTE] @ '','' @ [QUOTE] @ ''role'' @ [QUOTE] @ '':'' @
                        [QUOTE] @ (case role of None \<Rightarrow> ''unknown'' | Some t \<Rightarrow> t) @ [QUOTE] @ ''}''
           in if length body \<ge> 128 then (True, snd (sc_http_reply r 500 ''application/json; charset=utf-8'' ''{}''))
              else (True, snd (sc_http_reply r 200 ''application/json; charset=utf-8'' body)))"

section \<open>Answering and closing\<close>

definition teardown :: "conn \<Rightarrow> conn" where
  "teardown c =
     (if closing c then c
      else let c1 = c\<lparr>closing := True\<rparr>;
               c2 = (if deferred c then call (Defer_forget (ticket c)) (c1\<lparr>deferred := False\<rparr>) else c1)
           in call Uv_close c2)"

definition response_head :: "nat \<Rightarrow> string \<Rightarrow> nat \<Rightarrow> bool \<Rightarrow> string \<Rightarrow> string" where
  "response_head st ctype body_length keep_alive extra =
     ''HTTP/1.1 '' @ dec_text st @ '' '' @ sc_http_reason st @ [CR, LF] @
     (if sc_http_status_omits_body st then []
      else ''Content-Type: '' @ cstr ctype @ [CR, LF] @ ''Content-Length: '' @ dec_text body_length @ [CR, LF]) @
     ''Connection: '' @ (if keep_alive then ''keep-alive'' else ''close'') @ [CR, LF] @ extra @ [CR, LF]"

definition respond :: "conn \<Rightarrow> nat \<Rightarrow> string \<Rightarrow> string \<Rightarrow> bool \<Rightarrow> string \<Rightarrow> conn" where
  "respond c st ctype body keep_alive extra =
     (let out = response_head st ctype (length body) keep_alive extra
      in if length out \<ge> OUT_BUF then teardown c
         else let c1 = (if keep_alive then c else c\<lparr>close_after_write := True\<rparr>)
              in call (Uv_write (out @ (if sc_http_status_omits_body st then [] else body)))
                   ((call Uv_read_stop c1)\<lparr>writing := True\<rparr>))"

definition fail :: "conn \<Rightarrow> nat \<Rightarrow> string \<Rightarrow> conn" where
  "fail c st body = respond c st ''text/plain'' body False []"

definition consume :: "conn \<Rightarrow> nat \<Rightarrow> conn" where
  "consume c n = c\<lparr>inb := drop n (inb c), last_len := 0, head_len := 0, framing := FRAME_NONE, content_len := 0,
     ch_state := CH_SIZE, ch_read := 0, ch_remaining := 0, body_len := 0\<rparr>"

section \<open>Routing\<close>

fun try_routes :: "(string \<times> 'w handler) list \<Rightarrow> string \<Rightarrow> 'w \<Rightarrow> sc_http_req \<Rightarrow> sc_http_ticket option \<Rightarrow>
    bool \<times> sc_http_ticket option \<times> sc_http_req \<times> 'w" where
  "try_routes [] path w r t = (False, t, r, w)"
| "try_routes ((p, f) # rs) path w r t =
     (if p \<noteq> path then try_routes rs path w r t
      else let (ok, t1, r1, w1) = f w r; t2 = (if t1 = None then t else t1)
           in if ok then (True, t2, r1, w1) else try_routes rs path w1 r1 t2)"

definition try_one :: "'w handler option \<Rightarrow> 'w \<Rightarrow> sc_http_req \<Rightarrow> sc_http_ticket option \<Rightarrow>
    bool \<times> sc_http_ticket option \<times> sc_http_req \<times> 'w" where
  "try_one h w r t =
     (case h of None \<Rightarrow> (False, t, r, w) | Some f \<Rightarrow> let (ok, t1, r1, w1) = f w r in (ok, if t1 = None then t else t1, r1, w1))"

definition route_request :: "'w server \<Rightarrow> 'w \<Rightarrow> sc_http_req \<Rightarrow> sc_http_ticket option \<times> sc_http_req \<times> 'w" where
  "route_request s w r =
     (let (ok0, t0, r0, w0) = try_one (before_route s) w r None
      in if ok0 then (t0, r0, w0)
         else let (ok1, t1, r1, w1) = try_routes (routes s) (sc_http_path r) w0 r0 t0
              in if ok1 then (t1, r1, w1)
                 else let (ok2, t2, r2, w2) = try_one (default_fn s) w1 r1 t1
                      in if ok2 then (t2, r2, w2) else (t2, put_reply 404 ''text/plain'' [] r2, w2))"

definition dispatch :: "'w server \<Rightarrow> 'w \<Rightarrow> conn \<Rightarrow> conn \<times> 'w" where
  "dispatch s w c =
     (let (t, r, w') = route_request s w (req c)
      in (case t of None \<Rightarrow> c\<lparr>req := r\<rparr> | Some x \<Rightarrow> c\<lparr>req := r, deferred := True, ticket := x\<rparr>, w'))"

text \<open>A request nobody answered is a 500, and the answer goes out.\<close>

definition answer :: "conn \<Rightarrow> nat \<Rightarrow> conn" where
  "answer c wire_len =
     (let r = (if q_replied (req c) then req c else (req c)\<lparr>q_status := 500, q_type := ''text/plain'', q_reply := []\<rparr>);
          keep = wants_keep_alive (q_headers r) (q_minor_version r)
      in consume (respond (c\<lparr>req := r\<rparr>) (q_status r) (q_type r) (q_reply r) keep (q_extra r)) wire_len)"

section \<open>Finding a request\<close>

text \<open>The head has come: how the body is framed, or the refusal.\<close>

definition frame_head :: "conn \<Rightarrow> phr_header list \<Rightarrow> nat \<Rightarrow> nat \<Rightarrow> bool \<times> conn" where
  "frame_head c headers minor n =
     (let c1 = c\<lparr>head_len := n\<rparr>
      in case header_of headers ''transfer-encoding'' of
        Some te \<Rightarrow>
          if header_of headers ''content-length'' \<noteq> None then (False, fail c1 400 (''Content-Length with Transfer-Encoding'' @ [LF]))
          else if \<not> te_is_plain_chunked te then (False, fail c1 501 (''only chunked transfer encoding'' @ [LF]))
          else if minor < 1 then (False, fail c1 400 (''chunked needs HTTP/1.1'' @ [LF]))
          else (True, c1\<lparr>framing := FRAME_CHUNKED, ch_state := CH_SIZE, ch_read := n, ch_remaining := 0, body_len := 0\<rparr>)
      | None \<Rightarrow>
          (case content_length_of headers of
             None \<Rightarrow> (False, fail c1 413 (''bad or oversized Content-Length'' @ [LF]))
           | Some k \<Rightarrow> (True, c1\<lparr>framing := FRAME_LENGTH, content_len := k\<rparr>)))"

definition parsed_req :: "string \<Rightarrow> string \<Rightarrow> nat \<Rightarrow> phr_header list \<Rightarrow> sc_http_req" where
  "parsed_req m p v hs = blank_req\<lparr>q_method := m, q_path := p, q_minor_version := v, q_headers := hs\<rparr>"

text \<open>Parsing the head, on this read or again on a later one; \<open>False\<close> is a return.\<close>

definition find_head :: "'w server \<Rightarrow> conn \<Rightarrow> bool \<times> conn" where
  "find_head s c0 =
     (let c = c0\<lparr>req := blank_req\<rparr>
      in if head_len c = 0
         then (case parse s (inb c) (last_len c) of
                 Phr_incomplete \<Rightarrow>
                   let c1 = c\<lparr>last_len := length (inb c)\<rparr>
                   in (False, if length (inb c) \<ge> MAX_HEAD then fail c1 431 (''head too large'' @ [LF]) else c1)
               | Phr_bad \<Rightarrow> (False, fail c 400 (''malformed request'' @ [LF]))
               | Phr_head m p v hs n \<Rightarrow> frame_head (c\<lparr>req := parsed_req m p v hs\<rparr>) hs v n)
         else (case parse s (inb c) 0 of
                 Phr_head m p v hs n \<Rightarrow> (True, c\<lparr>req := parsed_req m p v hs\<rparr>)
               | _ \<Rightarrow> (True, c)))"

text \<open>The decoder works on the frame part of the connection.\<close>

definition frame_of :: "conn \<Rightarrow> frame" where
  "frame_of c = \<lparr>inb = inb c, last_len = last_len c, head_len = head_len c, framing = framing c, content_len = content_len c,
     ch_state = ch_state c, ch_read = ch_read c, ch_remaining = ch_remaining c, body_len = body_len c\<rparr>"

definition with_frame :: "conn \<Rightarrow> frame \<Rightarrow> conn" where
  "with_frame c f = c\<lparr>inb := inb f, last_len := last_len f, head_len := head_len f, framing := framing f,
     content_len := content_len f, ch_state := ch_state f, ch_read := ch_read f, ch_remaining := ch_remaining f,
     body_len := body_len f\<rparr>"

text \<open>The body: \<open>Some\<close> is what the request occupies on the wire.\<close>

definition find_body :: "conn \<Rightarrow> nat option \<times> conn" where
  "find_body c =
     (if framing c = FRAME_CHUNKED
      then let (d, f) = decode_chunked (frame_of c); c1 = with_frame c f
           in case d of
             DEC_NEED_MORE \<Rightarrow> (None, c1)
           | DEC_BAD \<Rightarrow> (None, fail c1 400 (''malformed chunked body'' @ [LF]))
           | DEC_TOO_LARGE \<Rightarrow> (None, fail c1 413 (''chunked body too large'' @ [LF]))
           | DEC_DONE \<Rightarrow> (Some (ch_read c1), c1\<lparr>req := (req c1)\<lparr>q_body := take (body_len c1) (drop (head_len c1) (inb c1))\<rparr>\<rparr>)
      else if length (inb c) - head_len c < content_len c then (None, c)
      else (Some (head_len c + content_len c), c\<lparr>req := (req c)\<lparr>q_body := take (content_len c) (drop (head_len c) (inb c))\<rparr>\<rparr>))"

text \<open>One turn of the loop of \<^verbatim>\<open>process\<close>; \<open>False\<close> is a return.\<close>

definition process_turn :: "'w server \<Rightarrow> 'w \<Rightarrow> conn \<Rightarrow> bool \<times> conn \<times> 'w" where
  "process_turn s w c =
     (let (go, c1) = find_head s c
      in if \<not> go then (False, c1, w)
         else let (wire, c2) = find_body c1
              in case wire of
                None \<Rightarrow> (False, c2, w)
              | Some wire_len \<Rightarrow>
                  let (c3, w') = dispatch s w c2
                  in if deferred c3 then (False, c3\<lparr>deferred_wire_len := wire_len\<rparr>, w')
                     else (True, answer c3 wire_len, w'))"

partial_function (option) process :: "'w server \<Rightarrow> 'w \<Rightarrow> conn \<Rightarrow> (conn \<times> 'w) option" where
  "process s w c =
     (if writing c \<or> close_after_write c \<or> deferred c then Some (c, w)
      else let (go, c', w') = process_turn s w c in if go then process s w' c' else Some (c', w'))"

section \<open>Callbacks\<close>

definition on_read :: "'w server \<Rightarrow> 'w \<Rightarrow> conn \<Rightarrow> string option \<Rightarrow> (conn \<times> 'w) option" where
  "on_read s w c data =
     (case data of
        None \<Rightarrow> Some (if \<not> writing c then teardown c else c\<lparr>close_after_write := True\<rparr>, w)
      | Some d \<Rightarrow> if d = [] then Some (c, w) else process s w (c\<lparr>inb := inb c @ d\<rparr>))"

definition begin_drain :: "bool \<Rightarrow> conn \<Rightarrow> conn" where
  "begin_drain shutdown_ok c =
     (if draining c \<or> closing c then c
      else let c1 = call Uv_shutdown (call Uv_read_stop (c\<lparr>draining := True\<rparr>))
           in if shutdown_ok then c1 else teardown c1)"

definition on_written :: "'w server \<Rightarrow> 'w \<Rightarrow> bool \<Rightarrow> bool \<Rightarrow> conn \<Rightarrow> (conn \<times> 'w) option" where
  "on_written s w ok shutdown_ok c0 =
     (let c = c0\<lparr>writing := False\<rparr>
      in if \<not> ok then Some (teardown c, w)
         else if close_after_write c then Some (begin_drain shutdown_ok c, w)
         else (case process s w c of
                 None \<Rightarrow> None
               | Some (c1, w1) \<Rightarrow> Some (if \<not> writing c1 \<and> \<not> close_after_write c1 then call Uv_read_start c1 else c1, w1)))"

definition on_shutdown :: "bool \<Rightarrow> conn \<Rightarrow> conn" where
  "on_shutdown ok c = (if \<not> ok then teardown c else call Uv_read_discard (call (Uv_timer_start DRAIN_MS) c))"

definition on_read_discard :: "nat option \<Rightarrow> conn \<Rightarrow> conn" where
  "on_read_discard n c =
     (case n of
        None \<Rightarrow> teardown c
      | Some k \<Rightarrow> let c1 = c\<lparr>drained := drained c + k\<rparr> in if drained c1 > DRAIN_MAX then teardown c1 else c1)"

definition on_drain_timeout :: "conn \<Rightarrow> conn" where
  "on_drain_timeout c = teardown c"

definition on_connection :: "bool \<Rightarrow> conn" where
  "on_connection accepted = (if accepted then call Uv_read_start new_conn else teardown new_conn)"

text \<open>The answer of a parked request: \<open>resume\<close> stands for the callback, which sees the request again.\<close>

definition deliver :: "(sc_http_req \<Rightarrow> sc_http_req) \<Rightarrow> conn \<Rightarrow> conn" where
  "deliver resume c = answer (c\<lparr>req := resume (req c), deferred := False, ticket := 0\<rparr>) (deferred_wire_len c)"

section \<open>Requests and the state of reading one\<close>

datatype body = Sized string | Chunks "(size_line \<times> string) list" size_line "string list" string

record request =
  w_head :: string
  w_method :: string
  w_path :: string
  w_minor :: nat
  w_headers :: "phr_header list"
  w_body :: body

fun body_bytes :: "body \<Rightarrow> string" where
  "body_bytes (Sized b) = b"
| "body_bytes (Chunks cs e ts f) = concat (map snd cs)"

fun wire_body :: "body \<Rightarrow> string" where
  "wire_body (Sized b) = b"
| "wire_body (Chunks cs e ts f) = body_wire cs e ts f"

definition wire :: "request \<Rightarrow> string" where
  "wire r = w_head r @ wire_body (w_body r)"

text \<open>
  A request the server is meant to take: its head is not too long, the parser finds it when it is
  there and not before, and the headers say how the body is framed.
\<close>

definition good_head :: "'w server \<Rightarrow> request \<Rightarrow> bool" where
  "good_head s r \<longleftrightarrow> w_head r \<noteq> [] \<and> length (w_head r) \<le> MAX_HEAD \<and>
     (\<forall>p q l. p @ q = w_head r \<and> q \<noteq> [] \<and> l \<le> length p \<longrightarrow> parse s p l = Phr_incomplete) \<and>
     (\<forall>t l. l < length (w_head r) \<longrightarrow>
        parse s (w_head r @ t) l = Phr_head (w_method r) (w_path r) (w_minor r) (w_headers r) (length (w_head r)))"

fun good_body :: "phr_header list \<Rightarrow> nat \<Rightarrow> body \<Rightarrow> bool" where
  "good_body hs minor (Sized b) \<longleftrightarrow> header_of hs ''transfer-encoding'' = None \<and> content_length_of hs = Some (length b)"
| "good_body hs minor (Chunks cs e ts f) \<longleftrightarrow>
     (\<exists>te. header_of hs ''transfer-encoding'' = Some te \<and> te_is_plain_chunked te) \<and> header_of hs ''content-length'' = None \<and>
     minor \<ge> 1 \<and> body_ok cs e ts f \<and> length (concat (map snd cs)) \<le> MAX_BODY"

definition good_request :: "'w server \<Rightarrow> request \<Rightarrow> bool" where
  "good_request s r \<longleftrightarrow> good_head s r \<and> good_body (w_headers r) (w_minor r) (w_body r)"

definition head_req :: "request \<Rightarrow> sc_http_req" where
  "head_req r = parsed_req (w_method r) (w_path r) (w_minor r) (w_headers r)"

definition full_req :: "request \<Rightarrow> sc_http_req" where
  "full_req r = (head_req r)\<lparr>q_body := body_bytes (w_body r)\<rparr>"

definition quiet :: "conn \<Rightarrow> bool" where
  "quiet c \<longleftrightarrow> \<not> writing c \<and> \<not> close_after_write c \<and> \<not> deferred c"

definition fresh :: "conn \<Rightarrow> bool" where
  "fresh c \<longleftrightarrow> head_len c = 0 \<and> framing c = FRAME_NONE \<and> last_len c \<le> length (inb c)"

text \<open>The part of the body that came behind the head, as the decoder has it.\<close>

definition decoding :: "conn \<Rightarrow> request \<Rightarrow> string \<Rightarrow> bool" where
  "decoding c r got \<longleftrightarrow> head_len c = length (w_head r) \<and>
     (case w_body r of
        Sized b \<Rightarrow> framing c = FRAME_LENGTH \<and> content_len c = length b \<and> inb c = w_head r @ got
      | Chunks cs e ts f \<Rightarrow> framing c = FRAME_CHUNKED \<and> take (length (w_head r)) (inb c) = w_head r \<and> trails (frame_of c) \<and>
          (\<forall>q. chunked_run (arrive q (chunked_of (frame_of c))) = chunked_run (arrive (got @ q) (chunked_of (fresh_body (w_head r))))))"

definition awaiting :: "conn \<Rightarrow> request \<Rightarrow> string \<Rightarrow> bool" where
  "awaiting c r got \<longleftrightarrow> quiet c \<and>
     (if length got < length (w_head r) then fresh c \<and> inb c = got
      else decoding c r (drop (length (w_head r)) got))"

lemma frame_of_inb: "frame_of (c\<lparr>inb := x\<rparr>) = (frame_of c)\<lparr>inb := x\<rparr>"
  and frame_of_sel [simp]: "inb (frame_of c) = inb c" "head_len (frame_of c) = head_len c" "ch_read (frame_of c) = ch_read c"
    "body_len (frame_of c) = body_len c" "ch_state (frame_of c) = ch_state c" "ch_remaining (frame_of c) = ch_remaining c"
  and frame_of_with [simp]: "frame_of (with_frame c f) = f"
  by (simp_all add: frame_of_def with_frame_def)

lemma with_frame_sel [simp]: "req (with_frame c f) = req c" "calls (with_frame c f) = calls c" "writing (with_frame c f) = writing c"
    "close_after_write (with_frame c f) = close_after_write c" "deferred (with_frame c f) = deferred c"
    "inb (with_frame c f) = inb f" "head_len (with_frame c f) = head_len f" "framing (with_frame c f) = framing f"
    "ch_read (with_frame c f) = ch_read f" "body_len (with_frame c f) = body_len f" "content_len (with_frame c f) = content_len f"
    "closing (with_frame c f) = closing c"
  by (simp_all add: with_frame_def)

lemma decoding_more:
  assumes "decoding c r got" shows "decoding (c\<lparr>inb := inb c @ p\<rparr>) r (got @ p)"
proof (cases "w_body r")
  case (Sized b)
  with assms show ?thesis by (simp add: decoding_def)
next
  case (Chunks cs e ts f)
  with assms have t: "trails (frame_of c)" and h: "take (length (w_head r)) (inb c) = w_head r" "head_len c = length (w_head r)"
    by (auto simp: decoding_def)
  have "length (w_head r) \<le> length (inb c)" using t h(2) by (auto simp: trails_def)
  moreover have "chunked_of (frame_of (c\<lparr>inb := inb c @ p\<rparr>)) = arrive p (chunked_of (frame_of c))" "trails (frame_of (c\<lparr>inb := inb c @ p\<rparr>))"
    using more_of [OF t, of p] by (simp_all add: frame_of_inb)
  ultimately show ?thesis
    using assms Chunks h by (auto simp: decoding_def more_more)
qed

section \<open>Reading one request\<close>

lemma shorter_prefix: "a @ b = c @ d \<Longrightarrow> length a < length c \<Longrightarrow> \<exists>q. a @ q = c \<and> q \<noteq> []"
proof -
  assume l: "a @ b = c @ d" "length a < length c"
  then have "a = take (length a) c" by (simp add: append_eq_append_conv_if)
  with l(2) show ?thesis by (metis append_take_drop_id drop_eq_Nil not_le)
qed

lemma longer_prefix: "a @ b = c @ d \<Longrightarrow> length c \<le> length a \<Longrightarrow> \<exists>t. a = c @ t \<and> t @ b = d"
proof -
  assume l: "a @ b = c @ d" "length c \<le> length a"
  then have "c = take (length c) a" by (auto simp: append_eq_append_conv_if split: if_splits)
  then have "a = c @ drop (length c) a" by (metis append_take_drop_id)
  with l(1) show ?thesis by (metis append.assoc same_append_eq)
qed

definition same_flags :: "conn \<Rightarrow> conn \<Rightarrow> bool" where
  "same_flags c c' \<longleftrightarrow> calls c' = calls c \<and> writing c' = writing c \<and> close_after_write c' = close_after_write c \<and>
     deferred c' = deferred c"

lemma head_incomplete:
  assumes "good_head s r" and "fresh c" and "inb c @ q = w_head r" and "q \<noteq> []"
  shows "find_head s c = (False, c\<lparr>req := blank_req, last_len := length (inb c)\<rparr>)"
proof -
  have "parse s (inb c) (last_len c) = Phr_incomplete"
    using assms unfolding good_head_def fresh_def by blast
  moreover have "length (inb c) + length q = length (w_head r)" by (metis assms(3) length_append)
  then have "length (inb c) < MAX_HEAD" using assms(1,4) by (cases q) (auto simp: good_head_def)
  ultimately show ?thesis using assms(2) by (simp add: find_head_def fresh_def Let_def)
qed

lemma head_found:
  assumes "good_request s r" and "fresh c" and "inb c = w_head r @ t" and "last_len c < length (w_head r)"
  shows "\<exists>c'. find_head s c = (True, c') \<and> req c' = head_req r \<and> decoding c' r t \<and> same_flags c c'"
proof -
  have h: "parse s (inb c) (last_len c) = Phr_head (w_method r) (w_path r) (w_minor r) (w_headers r) (length (w_head r))"
    using assms unfolding good_request_def good_head_def by simp
  show ?thesis
  proof (cases "w_body r")
    case (Sized b)
    with assms h show ?thesis
      by (auto simp: find_head_def fresh_def frame_head_def good_request_def head_req_def decoding_def same_flags_def)
  next
    case (Chunks cs e ts f)
    let ?c = "c\<lparr>req := head_req r, head_len := length (w_head r), framing := FRAME_CHUNKED, ch_state := CH_SIZE,
      ch_read := length (w_head r), ch_remaining := 0, body_len := 0\<rparr>"
    have "find_head s c = (True, ?c)"
      using assms h Chunks by (auto simp: find_head_def fresh_def frame_head_def good_request_def head_req_def)
    moreover have "chunked_of (frame_of ?c) = arrive t (chunked_of (fresh_body (w_head r)))"
      using assms(3) by (simp add: chunked_of_def fresh_body_def arrive_def)
    then have "decoding ?c r t" using Chunks assms(3) by (simp add: decoding_def trails_def more_more)
    ultimately show ?thesis by (auto simp: same_flags_def)
  qed
qed

lemma head_again:
  assumes "good_request s r" and "decoding c r t"
  shows "find_head s c = (True, c\<lparr>req := head_req r\<rparr>) \<and> decoding (c\<lparr>req := head_req r\<rparr>) r t"
proof -
  have ne: "w_head r \<noteq> []" using assms(1) by (simp add: good_request_def good_head_def)
  obtain u where u: "inb c = w_head r @ u"
    using assms(2) by (cases "w_body r") (auto simp: decoding_def, metis append_take_drop_id)
  then have "parse s (inb c) 0 = Phr_head (w_method r) (w_path r) (w_minor r) (w_headers r) (length (w_head r))"
    using assms(1) ne unfolding good_request_def good_head_def by simp
  moreover have "frame_of (c\<lparr>req := x\<rparr>) = frame_of c" for x by (simp add: frame_of_def)
  ultimately show ?thesis
    using assms(2) ne by (cases "w_body r") (auto simp: find_head_def decoding_def head_req_def)
qed

lemma decode_content:
  assumes "decoding c r t" and "w_body r = Chunks cs e ts f" and "decode_chunked (frame_of c) = (d, f')"
  shows "chunked_run (arrive t (chunked_of (fresh_body (w_head r)))) = (d, chunked_of f')" "trails f'"
    "take (length (w_head r)) (inb f') = w_head r" "head_len f' = length (w_head r)"
proof -
  have t: "trails (frame_of c)" "head_len c = length (w_head r)" "take (length (w_head r)) (inb c) = w_head r"
      "\<And>q. chunked_run (arrive q (chunked_of (frame_of c))) = chunked_run (arrive (t @ q) (chunked_of (fresh_body (w_head r))))"
    using assms(1,2) by (auto simp: decoding_def)
  have nil: "arrive [] k = k" for k by (simp add: arrive_def)
  note ref = decode_chunked_refines [OF t(1) assms(3)]
  show "chunked_run (arrive t (chunked_of (fresh_body (w_head r)))) = (d, chunked_of f')"
    using ref t(4) [of "[]"] by (simp add: nil)
  show "trails f'" "take (length (w_head r)) (inb f') = w_head r" "head_len f' = length (w_head r)"
    using ref t by (auto simp: same_head_def)
qed

lemma fresh_chunked: "k_state (arrive t (chunked_of (fresh_body h))) = CH_SIZE" "k_rest (arrive t (chunked_of (fresh_body h))) = t"
    "k_body (arrive t (chunked_of (fresh_body h))) = []" "k_remaining (arrive t (chunked_of (fresh_body h))) = 0"
    "k_used (arrive t (chunked_of (fresh_body h))) = length h"
  by (simp_all add: arrive_def chunked_of_def fresh_body_def)

lemma framing_kept: "decode_chunked f = (d, f') \<Longrightarrow> framing f' = framing f"
proof (induction f rule: decode_chunked.induct)
  case (1 f)
  obtain x g where s: "decode_step f = (x, g)" by (cases "decode_step f")
  then have "framing g = framing f"
    by (cases "ch_state f") (auto simp: decode_step_def Let_def split: option.splits if_splits sum.splits prod.splits)
  with 1 s show ?case by (cases x) (auto simp: decode_chunked.simps [of f])
qed

lemma body_incomplete:
  assumes "good_request s r" and "decoding c r t" and "t @ q = wire_body (w_body r)" and "q \<noteq> []"
  shows "\<exists>c'. find_body c = (None, c') \<and> decoding c' r t \<and> same_flags c c'"
proof (cases "w_body r")
  case (Sized b)
  with assms(3,4) have "length t < length b" by (auto dest: arg_cong [of _ _ length])
  with assms(2) Sized show ?thesis by (auto simp: find_body_def decoding_def same_flags_def)
next
  case (Chunks cs e ts f)
  obtain d f' where d: "decode_chunked (frame_of c) = (d, f')" by (cases "decode_chunked (frame_of c)")
  note res = decode_content [OF assms(2) Chunks d]
  have ok: "body_ok cs e ts f" "length (concat (map snd cs)) \<le> MAX_BODY" using assms(1) Chunks by (auto simp: good_request_def)
  have "fst (chunked_run (arrive t (chunked_of (fresh_body (w_head r))))) = DEC_NEED_MORE"
    by (rule body_prefix [OF ok(1) _ assms(4)]) (use fresh_chunked assms(3) Chunks ok(2) in auto)
  then have need: "d = DEC_NEED_MORE" using res(1) by simp
  have fr: "framing c = FRAME_CHUNKED" using assms(2) Chunks by (simp add: decoding_def)
  then have "find_body c = (None, with_frame c f')" using d need by (simp add: find_body_def)
  moreover have "framing f' = FRAME_CHUNKED" using framing_kept [OF d] fr by (simp add: frame_of_def)
  moreover have "chunked_run (arrive x (chunked_of f')) = chunked_run (arrive (t @ x) (chunked_of (fresh_body (w_head r))))" for x
    using chunked_run_again [OF res(1) [unfolded need], of x] by (simp add: more_more)
  ultimately show ?thesis using res Chunks by (auto simp: decoding_def same_flags_def)
qed

lemma body_complete:
  assumes "good_request s r" and "decoding c r t" and "t = wire_body (w_body r) @ rest" and "req c = head_req r"
  shows "\<exists>n c'. find_body c = (Some n, c') \<and> req c' = full_req r \<and> drop n (inb c') = rest \<and> same_flags c c'"
proof (cases "w_body r")
  case (Sized b)
  with assms show ?thesis by (auto simp: find_body_def decoding_def same_flags_def full_req_def)
next
  case (Chunks cs e ts f)
  obtain d f' where d: "decode_chunked (frame_of c) = (d, f')" by (cases "decode_chunked (frame_of c)")
  note res = decode_content [OF assms(2) Chunks d]
  have ok: "body_ok cs e ts f" "length (concat (map snd cs)) \<le> MAX_BODY" using assms(1) Chunks by (auto simp: good_request_def)
  let ?k = "arrive t (chunked_of (fresh_body (w_head r)))"
  have "chunked_run ?k = (DEC_DONE, after_body cs (length (body_wire cs e ts f)) ?k)"
    by (rule body_run) (use fresh_chunked assms(3) Chunks ok in auto)
  then have dd: "d = DEC_DONE" and f': "chunked_of f' = after_body cs (length (body_wire cs e ts f)) ?k" using res(1) by auto
  have "k_body (chunked_of f') = concat (map snd cs)" "k_rest (chunked_of f') = rest"
    unfolding f' using fresh_chunked assms(3) Chunks by (simp_all add: after_body_def eat_def)
  then have "take (body_len f') (drop (head_len f') (inb f')) = concat (map snd cs)" "drop (ch_read f') (inb f') = rest"
    by (simp_all add: chunked_of_def)
  moreover have "framing c = FRAME_CHUNKED" using assms(2) Chunks by (simp add: decoding_def)
  ultimately show ?thesis
    using d dd Chunks assms(4) by (auto simp: find_body_def same_flags_def full_req_def)
qed

section \<open>Answering one request\<close>

text \<open>What goes on the wire for a request as its handler left it.\<close>

definition final_req :: "sc_http_req \<Rightarrow> sc_http_req" where
  "final_req q = (if q_replied q then q else q\<lparr>q_status := 500, q_type := ''text/plain'', q_reply := []\<rparr>)"

definition reply_head :: "sc_http_req \<Rightarrow> string" where
  "reply_head q = response_head (q_status (final_req q)) (q_type (final_req q)) (length (q_reply (final_req q)))
     (wants_keep_alive (q_headers q) (q_minor_version q)) (q_extra q)"

definition reply_text :: "sc_http_req \<Rightarrow> string" where
  "reply_text q = reply_head q @ (if sc_http_status_omits_body (q_status (final_req q)) then [] else q_reply (final_req q))"

lemma answer_keep:
  assumes "length (reply_head (req c)) < OUT_BUF" and "wants_keep_alive (q_headers (req c)) (q_minor_version (req c))"
  shows "calls (answer c n) = calls c @ [Uv_read_stop, Uv_write (reply_text (req c))]" "writing (answer c n)"
    "close_after_write (answer c n) = close_after_write c" "deferred (answer c n) = deferred c"
    "fresh (answer c n)" "last_len (answer c n) = 0" "inb (answer c n) = drop n (inb c)"
  using assms
  by (auto simp: answer_def Let_def respond_def call_def consume_def fresh_def reply_text_def reply_head_def final_req_def)

text \<open>The request is offered to handlers that answer it now, and the connection stays open.\<close>

definition answered :: "'w server \<Rightarrow> 'w \<Rightarrow> request \<Rightarrow> sc_http_req \<Rightarrow> 'w \<Rightarrow> bool" where
  "answered s w r q w' \<longleftrightarrow> route_request s w (full_req r) = (None, q, w') \<and> length (reply_head q) < OUT_BUF \<and>
     wants_keep_alive (q_headers q) (q_minor_version q)"

lemma process_turn_found:
  assumes "find_head s c = (True, c1)" and "good_request s r" and "decoding c1 r t" and "req c1 = head_req r"
    and "t = wire_body (w_body r) @ rest" and "answered s w r q w'" and "quiet c" and "same_flags c c1"
  shows "\<exists>c'. process_turn s w c = (True, c', w') \<and> calls c' = calls c @ [Uv_read_stop, Uv_write (reply_text q)] \<and>
    writing c' \<and> \<not> close_after_write c' \<and> \<not> deferred c' \<and> fresh c' \<and> last_len c' = 0 \<and> inb c' = rest"
proof -
  obtain n c2 where b: "find_body c1 = (Some n, c2)" "req c2 = full_req r" "drop n (inb c2) = rest" "same_flags c1 c2"
    using body_complete [OF assms(2,3,5,4)] by blast
  have "process_turn s w c = (True, answer (c2\<lparr>req := q\<rparr>) n, w')"
    using assms(1,6-8) b by (auto simp: process_turn_def dispatch_def answered_def quiet_def same_flags_def)
  then show ?thesis
    using answer_keep [of "c2\<lparr>req := q\<rparr>" n] assms(6-8) b by (auto simp: answered_def same_flags_def quiet_def)
qed

lemma process_turn_short:
  assumes "find_head s c = (True, c1)" and "good_request s r" and "decoding c1 r t" and "t @ q = wire_body (w_body r)" and "q \<noteq> []"
  shows "\<exists>c'. process_turn s w c = (False, c', w) \<and> decoding c' r t \<and> same_flags c1 c'"
  using body_incomplete [OF assms(2-5)] assms(1) by (auto simp: process_turn_def)

lemma process_stops: "quiet c \<Longrightarrow> process_turn s w c = (False, c', w') \<Longrightarrow> process s w c = Some (c', w')"
  and process_writes: "quiet c \<Longrightarrow> process_turn s w c = (True, c', w') \<Longrightarrow> writing c' \<Longrightarrow> process s w c = Some (c', w')"
  by (simp_all add: process.simps [of s w c] process.simps [of s w' c'] quiet_def)

text \<open>The head of a request that has come, on this read or an earlier one.\<close>

lemma awaiting_head:
  assumes "good_request s r" and "awaiting c r got" and "got @ p = w_head r @ t"
  shows "\<exists>c1. find_head s (c\<lparr>inb := inb c @ p\<rparr>) = (True, c1) \<and> req c1 = head_req r \<and> decoding c1 r t \<and>
    same_flags (c\<lparr>inb := inb c @ p\<rparr>) c1"
proof (cases "length got < length (w_head r)")
  case True
  with assms(2,3) show ?thesis
    by (intro head_found [OF assms(1)]) (auto simp: awaiting_def fresh_def)
next
  case False
  then have d: "decoding c r (drop (length (w_head r)) got)" using assms(2) by (simp add: awaiting_def)
  have "drop (length (w_head r)) got @ p = t" using longer_prefix [OF assms(3)] False by auto
  with decoding_more [OF d, of p] have "decoding (c\<lparr>inb := inb c @ p\<rparr>) r t" by simp
  from head_again [OF assms(1) this] show ?thesis by (auto simp: same_flags_def)
qed

lemma process_complete:
  assumes "good_request s r" and "awaiting c r got" and "got @ p = wire r @ rest" and "answered s w r q w'"
  shows "\<exists>c'. process s w (c\<lparr>inb := inb c @ p\<rparr>) = Some (c', w') \<and> calls c' = calls c @ [Uv_read_stop, Uv_write (reply_text q)] \<and>
    writing c' \<and> \<not> close_after_write c' \<and> \<not> deferred c' \<and> fresh c' \<and> last_len c' = 0 \<and> inb c' = rest"
proof -
  let ?c = "c\<lparr>inb := inb c @ p\<rparr>"
  have q: "quiet ?c" using assms(2) by (simp add: awaiting_def quiet_def)
  have "got @ p = w_head r @ (wire_body (w_body r) @ rest)" using assms(3) by (simp add: wire_def)
  then obtain c1 where c1: "find_head s ?c = (True, c1)" "req c1 = head_req r" "decoding c1 r (wire_body (w_body r) @ rest)" "same_flags ?c c1"
    using awaiting_head [OF assms(1,2)] by blast
  from process_turn_found [OF c1(1) assms(1) c1(3,2) refl assms(4) q c1(4)]
  show ?thesis using process_writes [OF q] by fastforce
qed

lemma process_incomplete:
  assumes "good_request s r" and "awaiting c r got" and "(got @ p) @ q = wire r" and "q \<noteq> []"
  shows "\<exists>c'. process s w (c\<lparr>inb := inb c @ p\<rparr>) = Some (c', w) \<and> calls c' = calls c \<and> awaiting c' r (got @ p)"
proof (cases "length (got @ p) < length (w_head r)")
  case True
  let ?c = "c\<lparr>inb := inb c @ p\<rparr>"
  have a: "fresh c" "inb c = got" "quiet c" using assms(2) True by (auto simp: awaiting_def)
  then have f: "fresh ?c" "quiet ?c" by (auto simp: fresh_def quiet_def)
  obtain q' where q': "(got @ p) @ q' = w_head r" "q' \<noteq> []"
    using shorter_prefix [of "got @ p" q "w_head r"] assms(3) True by (auto simp: wire_def)
  have g: "good_head s r" using assms(1) by (simp add: good_request_def)
  have "find_head s ?c = (False, ?c\<lparr>req := blank_req, last_len := length (inb ?c)\<rparr>)"
    by (rule head_incomplete [OF g f(1) _ q'(2)]) (use q'(1) a in simp)
  then have "process_turn s w ?c = (False, ?c\<lparr>req := blank_req, last_len := length (inb ?c)\<rparr>, w)" by (simp add: process_turn_def)
  from process_stops [OF f(2) this] show ?thesis
    using a f True by (auto simp: awaiting_def fresh_def quiet_def)
next
  case False
  let ?c = "c\<lparr>inb := inb c @ p\<rparr>"
  have q: "quiet ?c" using assms(2) by (simp add: awaiting_def quiet_def)
  obtain t where t: "got @ p = w_head r @ t" "t @ q = wire_body (w_body r)"
    using longer_prefix [of "got @ p" q "w_head r"] assms(3) False by (auto simp: wire_def)
  obtain c1 where c1: "find_head s ?c = (True, c1)" "decoding c1 r t" "same_flags ?c c1"
    using awaiting_head [OF assms(1,2) t(1)] by blast
  obtain c' where c': "process_turn s w ?c = (False, c', w)" "decoding c' r t" "same_flags c1 c'"
    using process_turn_short [OF c1(1) assms(1) c1(2) t(2) assms(4)] by blast
  from process_stops [OF q c'(1)] show ?thesis
    using c' c1(3) q False t(1) by (auto simp: awaiting_def quiet_def same_flags_def)
qed

section \<open>A connection at work\<close>

text \<open>
  Reads and finished writes, in any order the connection allows: it does not read while it writes.
  The last argument is what has been received.
\<close>

inductive conn_run :: "'w server \<Rightarrow> 'w \<Rightarrow> conn \<Rightarrow> 'w \<Rightarrow> string \<Rightarrow> bool" for s w0 where
  run_start: "conn_run s w0 (on_connection True) w0 []"
| run_read: "conn_run s w0 c w got \<Longrightarrow> \<not> writing c \<Longrightarrow> d \<noteq> [] \<Longrightarrow> on_read s w c (Some d) = Some (c', w') \<Longrightarrow>
    conn_run s w0 c' w' (got @ d)"
| run_written: "conn_run s w0 c w got \<Longrightarrow> writing c \<Longrightarrow> on_written s w True ok c = Some (c', w') \<Longrightarrow> conn_run s w0 c' w' got"

fun writes :: "uv_call list \<Rightarrow> string list" where
  "writes [] = []"
| "writes (x # xs) = (case x of Uv_write t \<Rightarrow> t # writes xs | _ \<Rightarrow> writes xs)"

lemma writes_append [simp]: "writes (xs @ ys) = writes xs @ writes ys"
  by (induction xs) (auto split: uv_call.splits)

text \<open>The answers to a list of requests, one after the other, and the world after them.\<close>

inductive all_answered :: "'w server \<Rightarrow> 'w \<Rightarrow> request list \<Rightarrow> string list \<Rightarrow> 'w \<Rightarrow> bool" for s where
  no_requests: "all_answered s w [] [] w"
| one_more: "answered s w r q w1 \<Longrightarrow> all_answered s w1 rs ts w' \<Longrightarrow> all_answered s w (r # rs) (reply_text q # ts) w'"

inductive_cases all_answered_ConsE: "all_answered s w (r # rs) ts w'"
inductive_cases all_answered_NilE: "all_answered s w [] ts w'"

text \<open>Where a connection stands: \<open>k\<close> requests are answered, \<open>rs\<close> are left.\<close>

definition stands :: "'w server \<Rightarrow> conn \<Rightarrow> request list \<Rightarrow> string \<Rightarrow> bool" where
  "stands s c rs got \<longleftrightarrow> \<not> close_after_write c \<and> \<not> deferred c \<and>
     (if writing c then fresh c \<and> last_len c = 0 \<and> inb c = got \<and> parse s [] 0 = Phr_incomplete
      else case rs of
        [] \<Rightarrow> fresh c \<and> inb c = got \<and> got = []
      | r # _ \<Rightarrow> awaiting c r got \<and> (\<exists>q. got @ q = wire r \<and> q \<noteq> []))"

lemma good_parse_empty: "good_request s r \<Longrightarrow> parse s [] 0 = Phr_incomplete"
  unfolding good_request_def good_head_def by (metis append_Nil le_zero_eq length_0_conv order_refl)

text \<open>New bytes for a connection that waits for a request: it is answered, or still waited for.\<close>

lemma process_stands:
  assumes good: "\<forall>r \<in> set rs. good_request s r" and ans: "all_answered s w rs ts we"
    and rs: "rs = r # rs'" and c: "awaiting c r got" and bytes: "(got @ d) @ u = concat (map wire rs)"
  shows "\<exists>c' w' n. process s w (c\<lparr>inb := inb c @ d\<rparr>) = Some (c', w') \<and> n \<le> 1 \<and>
    writes (calls c') = writes (calls c) @ take n ts \<and> all_answered s w' (drop n rs) (drop n ts) we \<and>
    stands s c' (drop n rs) (drop (length (concat (map wire (take n rs)))) (got @ d)) \<and>
    (\<exists>g. got @ d = concat (map wire (take n rs)) @ g)"
proof (cases "length (got @ d) < length (wire r)")
  case True
  obtain q where q: "(got @ d) @ q = wire r" "q \<noteq> []"
    using shorter_prefix [of "got @ d" u "wire r"] True bytes rs by auto
  have g: "good_request s r" using good rs by simp
  obtain c' where c': "process s w (c\<lparr>inb := inb c @ d\<rparr>) = Some (c', w)" "calls c' = calls c" "awaiting c' r (got @ d)"
    using process_incomplete [OF g c q] by blast
  have "stands s c' rs (got @ d)" using c'(3) q rs by (auto simp: stands_def awaiting_def quiet_def)
  with c' ans show ?thesis by (intro exI [of _ c'] exI [of _ w] exI [of _ 0]) auto
next
  case False
  obtain rest where rest: "got @ d = wire r @ rest" "rest @ u = concat (map wire rs')"
    using longer_prefix [of "got @ d" u "wire r"] False bytes rs by auto
  have g: "good_request s r" using good rs by simp
  obtain q w1 ts' where a: "ts = reply_text q # ts'" "answered s w r q w1" "all_answered s w1 rs' ts' we"
    using ans rs by (auto elim: all_answered_ConsE)
  obtain c' where c': "process s w (c\<lparr>inb := inb c @ d\<rparr>) = Some (c', w1)" "calls c' = calls c @ [Uv_read_stop, Uv_write (reply_text q)]"
      "writing c'" "\<not> close_after_write c'" "\<not> deferred c'" "fresh c'" "last_len c' = 0" "inb c' = rest"
    using process_complete [OF g c rest(1) a(2)] by blast
  have "stands s c' rs' rest" using c' good_parse_empty [OF g] by (simp add: stands_def)
  with c' a rs rest show ?thesis by (intro exI [of _ c'] exI [of _ w1] exI [of _ 1]) auto
qed

lemma call_sel [simp]: "inb (call x c) = inb c" "head_len (call x c) = head_len c" "framing (call x c) = framing c"
    "content_len (call x c) = content_len c" "last_len (call x c) = last_len c" "writing (call x c) = writing c"
    "close_after_write (call x c) = close_after_write c" "deferred (call x c) = deferred c" "frame_of (call x c) = frame_of c"
    "calls (call x c) = calls c @ [x]"
  by (simp_all add: call_def frame_of_def)

lemma decoding_call: "decoding (call x c) r t = decoding c r t"
  by (cases "w_body r") (simp_all add: decoding_def)

lemma stands_call: "stands s (call x c) rs got = stands s c rs got"
  by (cases rs) (simp_all add: stands_def awaiting_def quiet_def fresh_def decoding_call)

definition progress :: "'w server \<Rightarrow> request list \<Rightarrow> string list \<Rightarrow> 'w \<Rightarrow> conn \<Rightarrow> 'w \<Rightarrow> string \<Rightarrow> bool" where
  "progress s rs ts we c w got \<longleftrightarrow>
     (\<exists>k g. writes (calls c) = take k ts \<and> all_answered s w (drop k rs) (drop k ts) we \<and>
        got = concat (map wire (take k rs)) @ g \<and> stands s c (drop k rs) g)"

lemma awaiting_start: "good_request s r \<Longrightarrow> fresh c \<Longrightarrow> quiet c \<Longrightarrow> inb c = [] \<Longrightarrow> awaiting c r [] \<and> (\<exists>q. [] @ q = wire r \<and> q \<noteq> [])"
  by (auto simp: awaiting_def good_request_def good_head_def wire_def)

lemma concat_take_drop: "concat (map f xs) = concat (map f (take k xs)) @ concat (map f (drop k xs))"
  by (metis append_take_drop_id concat_append map_append)

text \<open>A step of \<open>process\<close> that gives progress, seen from the whole list of requests.\<close>

lemma progress_process:
  assumes good: "\<forall>r \<in> set rs. good_request s r" and ans: "all_answered s w (drop k rs) (drop k ts) we"
    and w: "writes (calls c) = take k ts" and rs: "drop k rs = r # rs'" and c: "awaiting c r g"
    and bytes: "concat (map wire (take k rs)) @ g @ d @ u = concat (map wire rs)"
  shows "\<exists>c' w'. process s w (c\<lparr>inb := inb c @ d\<rparr>) = Some (c', w') \<and> progress s rs ts we c' w' (concat (map wire (take k rs)) @ g @ d)"
proof -
  have g: "\<forall>x \<in> set (drop k rs). good_request s x" using good by (meson in_set_dropD)
  have b: "(g @ d) @ u = concat (map wire (drop k rs))" using bytes concat_take_drop [of wire rs k] by simp
  obtain c' w' n where p: "process s w (c\<lparr>inb := inb c @ d\<rparr>) = Some (c', w')" "writes (calls c') = writes (calls c) @ take n (drop k ts)"
      "all_answered s w' (drop n (drop k rs)) (drop n (drop k ts)) we"
      "stands s c' (drop n (drop k rs)) (drop (length (concat (map wire (take n (drop k rs))))) (g @ d))"
      "\<exists>h. g @ d = concat (map wire (take n (drop k rs))) @ h"
    using process_stands [OF g ans rs c b] by blast
  obtain h where h: "g @ d = concat (map wire (take n (drop k rs))) @ h" using p(5) by blast
  have "concat (map wire (take k rs)) @ g @ d = concat (map wire (take (k + n) rs)) @ h" using h by (simp add: take_add)
  moreover have "writes (calls c') = take (k + n) ts" using p(2) w by (simp add: take_add)
  moreover have "stands s c' (drop (k + n) rs) h" using p(4) h by (simp add: add.commute)
  ultimately have "progress s rs ts we c' w' (concat (map wire (take k rs)) @ g @ d)"
    using p(3) unfolding progress_def by (metis add.commute drop_drop)
  with p(1) show ?thesis by blast
qed

lemma progress_read:
  assumes good: "\<forall>r \<in> set rs. good_request s r" and p: "progress s rs ts we c w got" and "\<not> writing c" and "d \<noteq> []"
    and bytes: "(got @ d) @ u = concat (map wire rs)"
  shows "\<exists>c' w'. on_read s w c (Some d) = Some (c', w') \<and> progress s rs ts we c' w' (got @ d)"
proof -
  obtain k g where k: "writes (calls c) = take k ts" "all_answered s w (drop k rs) (drop k ts) we"
      "got = concat (map wire (take k rs)) @ g" "stands s c (drop k rs) g"
    using p unfolding progress_def by blast
  have b: "concat (map wire (take k rs)) @ g @ d @ u = concat (map wire rs)" using bytes k(3) by simp
  show ?thesis
  proof (cases "drop k rs")
    case Nil
    then have "take k rs = rs" by simp
    with b assms(4) show ?thesis by simp
  next
    case (Cons r rs')
    with k(4) assms(3) have "awaiting c r g" by (simp add: stands_def)
    from progress_process [OF good k(2,1) Cons this b] show ?thesis using assms(4) k(3) by (auto simp: on_read_def)
  qed
qed

lemma progress_written:
  assumes good: "\<forall>r \<in> set rs. good_request s r" and p: "progress s rs ts we c w got" and "writing c"
    and bytes: "got @ u = concat (map wire rs)"
  shows "\<exists>c' w'. on_written s w True ok c = Some (c', w') \<and> progress s rs ts we c' w' got"
proof -
  obtain k g where k: "writes (calls c) = take k ts" "all_answered s w (drop k rs) (drop k ts) we"
      "got = concat (map wire (take k rs)) @ g" "stands s c (drop k rs) g"
    using p unfolding progress_def by blast
  let ?c = "c\<lparr>writing := False\<rparr>" and ?e = "c\<lparr>writing := False, inb := []\<rparr>"
  have st: "\<not> close_after_write c" "\<not> deferred c" "fresh c" "last_len c = 0" "inb c = g" "parse s [] 0 = Phr_incomplete"
    using k(4) assms(3) by (auto simp: stands_def)
  have q: "quiet ?c" "quiet ?e" "fresh ?c" "fresh ?e" using st by (auto simp: quiet_def fresh_def)
  have b: "concat (map wire (take k rs)) @ [] @ g @ u = concat (map wire rs)" using bytes k(3) by simp
  have "\<exists>c1 w1. process s w ?c = Some (c1, w1) \<and> progress s rs ts we c1 w1 got"
  proof (cases "drop k rs")
    case Nil
    then have "take k rs = rs" by simp
    with b have g: "g = []" by simp
    with st have "process_turn s w ?c = (False, ?c\<lparr>req := blank_req, last_len := 0\<rparr>, w)"
      by (simp add: process_turn_def find_head_def fresh_def MAX_HEAD_def)
    from process_stops [OF q(1) this] have "process s w ?c = Some (?c\<lparr>req := blank_req, last_len := 0\<rparr>, w)" .
    moreover have "stands s (?c\<lparr>req := blank_req, last_len := 0\<rparr>) (drop k rs) []" using st g Nil by (simp add: stands_def fresh_def)
    then have "progress s rs ts we (?c\<lparr>req := blank_req, last_len := 0\<rparr>) w got"
      unfolding progress_def using k(1-3) g by (intro exI [of _ k] exI [of _ "[]"]) simp
    ultimately show ?thesis by blast
  next
    case (Cons r rs')
    then have "good_request s r" using good by (metis in_set_dropD list.set_intros(1))
    then have "awaiting ?e r []" using awaiting_start [of s r ?e] q by simp
    moreover have "?e\<lparr>inb := inb ?e @ g\<rparr> = ?c" using st(5) by (cases c) simp
    ultimately show ?thesis using progress_process [OF good k(2) _ Cons _ b, of ?e] k(1,3) by simp
  qed
  then obtain c1 w1 where c1: "process s w ?c = Some (c1, w1)" "progress s rs ts we c1 w1 got" by blast
  have "progress s rs ts we (call Uv_read_start c1) w1 got"
    using c1(2) unfolding progress_def stands_call by simp
  moreover have "on_written s w True ok c = Some (if \<not> writing c1 \<and> \<not> close_after_write c1 then call Uv_read_start c1 else c1, w1)"
    using c1(1) st(1) by (simp add: on_written_def)
  ultimately show ?thesis using c1(2) by (metis (full_types))
qed

lemma progress_run:
  assumes good: "\<forall>r \<in> set rs. good_request s r" and ans: "all_answered s w0 rs ts we"
  shows "conn_run s w0 c w got \<Longrightarrow> \<exists>u. got @ u = concat (map wire rs) \<Longrightarrow> progress s rs ts we c w got"
proof (induction rule: conn_run.induct)
  case run_start
  have c: "fresh (on_connection True)" "quiet (on_connection True)" "inb (on_connection True) = []" "writes (calls (on_connection True)) = []" "\<not> writing (on_connection True)"
    by (auto simp: on_connection_def new_conn_def call_def fresh_def quiet_def)
  have "stands s (on_connection True) rs []"
    using c awaiting_start [of s "hd rs" "on_connection True"] good by (cases rs) (auto simp: stands_def quiet_def)
  then show ?case using ans c unfolding progress_def by (intro exI [of _ 0] exI [of _ "[]"]) simp
next
  case (run_read c w got d c' w')
  obtain u where u: "(got @ d) @ u = concat (map wire rs)" using run_read.prems by blast
  then have "progress s rs ts we c w got" by (intro run_read.IH) auto
  from progress_read [OF good this run_read(2,3) u] run_read(4) show ?case by auto
next
  case (run_written c w got ok c' w')
  obtain u where u: "got @ u = concat (map wire rs)" using run_written.prems by blast
  then have "progress s rs ts we c w got" by (intro run_written.IH) auto
  from progress_written [OF good this run_written(2) u, of ok] run_written(3) show ?case by auto
qed


section \<open>Ambiguous framing\<close>

text \<open>Headers that do not say in one way where the request ends.\<close>

definition ambiguous :: "phr_header list \<Rightarrow> nat \<Rightarrow> bool" where
  "ambiguous hs minor =
     (case header_of hs ''transfer-encoding'' of
        Some te \<Rightarrow> header_of hs ''content-length'' \<noteq> None \<or> \<not> te_is_plain_chunked te \<or> minor < 1
      | None \<Rightarrow> content_length_of hs = None)"

lemma dec_text_short: "length (dec_text n) \<le> n + 1"
proof (induction n rule: dec_text.induct)
  case (1 n)
  show ?case by (subst dec_text.simps) (use 1 in auto)
qed

lemma fail_effect:
  assumes "st \<in> {400, 413, 501}" and "length body < 1000"
  shows "\<exists>out. calls (fail c st body) = calls c @ [Uv_read_stop, Uv_write out] \<and> starts_with (''HTTP/1.1 '' @ dec_text st) out"
    "close_after_write (fail c st body)" "writing (fail c st body)"
proof -
  have "length (dec_text (length body)) \<le> 1000" "length (dec_text st) \<le> 502"
    using dec_text_short [of "length body"] dec_text_short [of st] assms by auto
  then have "length (response_head st ''text/plain'' (length body) False []) < OUT_BUF"
    using assms(1) by (auto simp: response_head_def OUT_BUF_def sc_http_reason_def sc_http_status_omits_body_def cstr_def)
  then show "\<exists>out. calls (fail c st body) = calls c @ [Uv_read_stop, Uv_write out] \<and> starts_with (''HTTP/1.1 '' @ dec_text st) out"
      "close_after_write (fail c st body)" "writing (fail c st body)"
    by (auto simp: fail_def respond_def Let_def call_def response_head_def starts_with_iff)
qed

lemma frame_head_ambiguous:
  assumes "ambiguous hs v"
  shows "\<exists>st body. frame_head c hs v n = (False, fail (c\<lparr>head_len := n\<rparr>) st body) \<and> st \<in> {400, 413, 501} \<and> length body < 1000"
proof (cases "header_of hs ''transfer-encoding''")
  case None
  with assms show ?thesis
    by (intro exI [of _ 413] exI [of _ "''bad or oversized Content-Length'' @ [LF]"]) (simp add: ambiguous_def frame_head_def)
next
  case (Some te)
  with assms consider (both) "header_of hs ''content-length'' \<noteq> None"
    | (coding) "header_of hs ''content-length'' = None" "\<not> te_is_plain_chunked te"
    | (old) "header_of hs ''content-length'' = None" "te_is_plain_chunked te" "v < 1"
    by (auto simp: ambiguous_def)
  then show ?thesis
  proof cases
    case both
    with Some show ?thesis
      by (intro exI [of _ 400] exI [of _ "''Content-Length with Transfer-Encoding'' @ [LF]"]) (simp add: frame_head_def)
  next
    case coding
    with Some show ?thesis
      by (intro exI [of _ 501] exI [of _ "''only chunked transfer encoding'' @ [LF]"]) (simp add: frame_head_def)
  next
    case old
    with Some show ?thesis
      by (intro exI [of _ 400] exI [of _ "''chunked needs HTTP/1.1'' @ [LF]"]) (simp add: frame_head_def)
  qed
qed


section \<open>Two requests\<close>

text \<open>A parser for one-letter heads and a handler that sends the body back.\<close>

definition letter_parse :: parser where
  "letter_parse b l =
     (case b of
        [] \<Rightarrow> Phr_incomplete
      | x # _ \<Rightarrow>
          if x = CHR ''C'' then Phr_head ''POST'' ''/'' 1 [(''Transfer-Encoding'', ''chunked'')] 1
          else if x = CHR ''S'' then Phr_head ''POST'' ''/'' 1 [(''Content-Length'', ''2'')] 1
          else Phr_head ''POST'' ''/'' 1 [(''Transfer-Encoding'', ''chunked''), (''Content-Length'', ''2'')] 1)"

definition echo :: "nat handler" where
  "echo w r = (True, None, snd (sc_http_reply r 200 ''text/plain'' (q_body r)), w + 1)"

definition echo_server :: "nat server" where
  "echo_server = \<lparr>parse = letter_parse, routes = [(''/'', echo)], default_fn = None, before_route = None\<rparr>"

definition chunky :: request where
  "chunky = \<lparr>w_head = ''C'', w_method = ''POST'', w_path = ''/'', w_minor = 1, w_headers = [(''Transfer-Encoding'', ''chunked'')],
     w_body = Chunks [((''2'', [CR]), ''hi'')] (''0'', [CR]) [] [CR]\<rparr>"

definition sized :: request where
  "sized = \<lparr>w_head = ''S'', w_method = ''POST'', w_path = ''/'', w_minor = 1, w_headers = [(''Content-Length'', ''2'')],
     w_body = Sized ''yo''\<rparr>"

lemma letter_head:
  assumes "w_head r = [x]" and "parse s [] 0 = Phr_incomplete"
    and "\<And>t. parse s (x # t) 0 = Phr_head (w_method r) (w_path r) (w_minor r) (w_headers r) 1"
  shows "good_head s r"
  using assms by (auto simp: good_head_def MAX_HEAD_def append_eq_Cons_conv)

lemma echo_good: "good_request echo_server chunky" "good_request echo_server sized"
proof -
  have "good_head echo_server chunky" "good_head echo_server sized"
    by (auto intro!: letter_head simp: chunky_def sized_def echo_server_def letter_parse_def)
  moreover have "good_body (w_headers chunky) (w_minor chunky) (w_body chunky)" "good_body (w_headers sized) (w_minor sized) (w_body sized)"
  proof -
    have "te_is_plain_chunked ''chunked''" by (simp add: te_is_plain_chunked_def ltrim_def rtrim_def ci_eq_def)
    moreover have "body_ok [((''2'', [CR]), ''hi'')] (''0'', [CR]) [] [CR]"
        "content_length_of [(''Content-Length'', ''2'')] = Some 2" "header_of [(''Content-Length'', ''2'')] ''transfer-encoding'' = None"
        "header_of [(''Transfer-Encoding'', ''chunked'')] ''transfer-encoding'' = Some ''chunked''"
        "header_of [(''Transfer-Encoding'', ''chunked'')] ''content-length'' = None"
      by code_simp+
    ultimately show "good_body (w_headers chunky) (w_minor chunky) (w_body chunky)" "good_body (w_headers sized) (w_minor sized) (w_body sized)"
      by (simp_all add: chunky_def sized_def MAX_BODY_def SC_HTTP_MAX_BODY_def)
  qed
  ultimately show "good_request echo_server chunky" "good_request echo_server sized" by (simp_all add: good_request_def)
qed

definition echo_reply :: "request \<Rightarrow> sc_http_req" where
  "echo_reply r = snd (sc_http_reply (full_req r) 200 ''text/plain'' (body_bytes (w_body r)))"

lemma echo_answers: "answered echo_server w chunky (echo_reply chunky) (w + 1)" "answered echo_server w sized (echo_reply sized) (w + 1)"
proof -
  have "length (reply_head (echo_reply chunky)) < OUT_BUF" "length (reply_head (echo_reply sized)) < OUT_BUF"
      "wants_keep_alive (q_headers (echo_reply chunky)) (q_minor_version (echo_reply chunky))"
      "wants_keep_alive (q_headers (echo_reply sized)) (q_minor_version (echo_reply sized))"
    by code_simp+
  then show "answered echo_server w chunky (echo_reply chunky) (w + 1)" "answered echo_server w sized (echo_reply sized) (w + 1)"
    by (auto simp: answered_def route_request_def try_one_def echo_server_def echo_def echo_reply_def full_req_def head_req_def parsed_req_def
        chunky_def sized_def sc_http_path_def blank_req_def)
qed



end
