(* ===== verification/ApiError.thy ===== *)
theory ApiError
  imports HttpConn
begin

text \<open>
  The answers that are errors, \<^verbatim>\<open>service-core/src/api_error.c\<close>: the contracted table, the sentence, and the
  JSON body around it. A sentence may carry what a client sent - a path, a value - so what the
  escaping does to it decides whether the body is still the JSON it was meant to be. Shown: it is,
  for every sentence that can be built, and a reader gets the sentence back.
\<close>

section \<open>The table\<close>

datatype sc_api_error =
    SC_API_VALIDATION_FAILED | SC_API_UNKNOWN | SC_API_ROUTE_NOT_IMPLEMENTED | SC_API_SERVICE_BUSY
  | SC_API_PEER_NETWORK_UNAVAILABLE

definition SC_API_ERROR_MESSAGE_MAX :: nat where "SC_API_ERROR_MESSAGE_MAX = 512"

fun api_code :: "sc_api_error \<Rightarrow> nat" where
  "api_code SC_API_VALIDATION_FAILED = 2003"
| "api_code SC_API_UNKNOWN = 3001"
| "api_code SC_API_ROUTE_NOT_IMPLEMENTED = 3008"
| "api_code SC_API_SERVICE_BUSY = 3009"
| "api_code SC_API_PEER_NETWORK_UNAVAILABLE = 3010"

record sc_api_error_entry =
  e_code :: sc_api_error
  e_name :: string
  e_status :: nat

definition kErrors :: "sc_api_error_entry list" where
  "kErrors = [
     \<lparr>e_code = SC_API_VALIDATION_FAILED, e_name = ''VALIDATION_FAILED'', e_status = 400\<rparr>,
     \<lparr>e_code = SC_API_UNKNOWN, e_name = ''UNKNOWN'', e_status = 500\<rparr>,
     \<lparr>e_code = SC_API_ROUTE_NOT_IMPLEMENTED, e_name = ''ROUTE_NOT_IMPLEMENTED'', e_status = 501\<rparr>,
     \<lparr>e_code = SC_API_SERVICE_BUSY, e_name = ''SERVICE_BUSY'', e_status = 503\<rparr>,
     \<lparr>e_code = SC_API_PEER_NETWORK_UNAVAILABLE, e_name = ''PEER_NETWORK_UNAVAILABLE'', e_status = 503\<rparr>]"

definition find_error :: "sc_api_error \<Rightarrow> sc_api_error_entry" where
  "find_error code = (case find (\<lambda>e. e_code e = code) kErrors of Some e \<Rightarrow> e | None \<Rightarrow> kErrors ! 1)"

definition sc_api_error_name :: "sc_api_error \<Rightarrow> string" where
  "sc_api_error_name code = e_name (find_error code)"

definition sc_api_error_status :: "sc_api_error \<Rightarrow> nat" where
  "sc_api_error_status code = e_status (find_error code)"

section \<open>The body\<close>

definition escape_char :: "char \<Rightarrow> string" where
  "escape_char c =
     (if c = QUOTE \<or> c = BACKSLASH then [BACKSLASH, c]
      else if c = LF then [BACKSLASH, CHR ''n'']
      else if c = CR then [BACKSLASH, CHR ''r'']
      else if c = TAB then [BACKSLASH, CHR ''t'']
      else if code_of c < 32 then [BACKSLASH] @ ''u00'' @ [hex_char (code_of c div 16), hex_char (code_of c mod 16)]
      else [c])"

fun json_escape :: "nat \<Rightarrow> nat \<Rightarrow> string \<Rightarrow> string option" where
  "json_escape dst_size out [] = Some []"
| "json_escape dst_size out (c # cs) =
     (let e = escape_char c
      in if out + length e \<ge> dst_size then None else map_option ((@) e) (json_escape dst_size (out + length e) cs))"

definition error_body :: "sc_api_error_entry \<Rightarrow> string \<Rightarrow> string" where
  "error_body entry escaped =
     ''{'' @ [QUOTE] @ ''error'' @ [QUOTE] @ '':{'' @ [QUOTE] @ ''code'' @ [QUOTE] @ '':'' @ dec_text (api_code (e_code entry)) @
     '','' @ [QUOTE] @ ''name'' @ [QUOTE] @ '':'' @ [QUOTE] @ e_name entry @ [QUOTE] @ '','' @ [QUOTE] @ ''message'' @ [QUOTE] @ '':'' @
     [QUOTE] @ escaped @ [QUOTE] @ ''}}''"

definition JSON_TYPE :: string where "JSON_TYPE = ''application/json; charset=utf-8''"

definition reply :: "sc_http_req \<Rightarrow> sc_api_error_entry \<Rightarrow> string \<Rightarrow> sc_status \<times> sc_http_req" where
  "reply r entry message =
     (let escaped_size = SC_API_ERROR_MESSAGE_MAX * 6 + 1
      in case json_escape escaped_size 0 message of
           None \<Rightarrow> (SC_ERR_TOO_LONG, r)
         | Some escaped \<Rightarrow>
             if length (error_body entry escaped) \<ge> escaped_size + 128 then (SC_ERR_TOO_LONG, r)
             else sc_http_reply r (e_status entry) JSON_TYPE (error_body entry escaped))"

text \<open>\<^verbatim>\<open>snprintf\<close> into a message.\<close>

definition fits_message :: "string \<Rightarrow> string" where
  "fits_message t = take (SC_API_ERROR_MESSAGE_MAX - 1) t"

definition sc_http_reply_validation_failed :: "sc_http_req \<Rightarrow> string option \<Rightarrow> string option \<Rightarrow> sc_status \<times> sc_http_req" where
  "sc_http_reply_validation_failed r field reason =
     reply r (find_error SC_API_VALIDATION_FAILED)
       (fits_message (''validation failed for '' @ (case field of None \<Rightarrow> [] | Some f \<Rightarrow> f) @ '': '' @ (case reason of None \<Rightarrow> [] | Some t \<Rightarrow> t)))"

definition sc_http_reply_route_not_implemented :: "sc_http_req \<Rightarrow> string option \<Rightarrow> sc_status \<times> sc_http_req" where
  "sc_http_reply_route_not_implemented r route =
     reply r (find_error SC_API_ROUTE_NOT_IMPLEMENTED)
       (fits_message (''route not implemented on this server: '' @ cstr (case route of None \<Rightarrow> [] | Some t \<Rightarrow> take (2 ^ 31 - 1) t)))"

definition sc_http_reply_unknown :: "sc_http_req \<Rightarrow> sc_status \<times> sc_http_req" where
  "sc_http_reply_unknown r = reply r (find_error SC_API_UNKNOWN) ''unknown error''"

definition sc_http_reply_busy :: "sc_http_req \<Rightarrow> nat \<Rightarrow> sc_status \<times> sc_http_req" where
  "sc_http_reply_busy r retry_after_seconds =
     (let seconds = dec_text retry_after_seconds;
          r1 = snd (sc_http_header_add r ''retry-after'' (take 15 seconds))
      in reply r1 (find_error SC_API_SERVICE_BUSY)
           (fits_message (''service busy, retry after '' @ seconds @ '' seconds'')))"

definition sc_http_reply_peer_network_unavailable :: "sc_http_req \<Rightarrow> sc_status \<times> sc_http_req" where
  "sc_http_reply_peer_network_unavailable r = reply r (find_error SC_API_PEER_NETWORK_UNAVAILABLE) ''this server runs no peer network node''"

section \<open>A reader gets the sentence back\<close>

text \<open>The value of a JSON string between its quotes; \<open>None\<close> for text that may not stand there.\<close>

fun json_value :: "string \<Rightarrow> string option" where
  "json_value [] = Some []"
| "json_value (c # cs) =
     (if c = QUOTE \<or> code_of c < 32 then None
      else if c \<noteq> BACKSLASH then map_option ((#) c) (json_value cs)
      else case cs of
        d # ds \<Rightarrow>
          if d = QUOTE \<or> d = BACKSLASH then map_option ((#) d) (json_value ds)
          else if d = CHR ''n'' then map_option ((#) LF) (json_value ds)
          else if d = CHR ''r'' then map_option ((#) CR) (json_value ds)
          else if d = CHR ''t'' then map_option ((#) TAB) (json_value ds)
          else if d = CHR ''u'' then
            (case ds of
               z1 # z2 # h # l # es \<Rightarrow>
                 (case (hex_val h, hex_val l) of
                    (Some a, Some b) \<Rightarrow>
                      if z1 = CHR ''0'' \<and> z2 = CHR ''0'' then map_option ((#) (char_of (16 * a + b))) (json_value es) else None
                  | _ \<Rightarrow> None)
             | _ \<Rightarrow> None)
          else None
      | [] \<Rightarrow> None)"

lemma json_value_escape: "json_value (escape_char c @ s) = map_option ((#) c) (json_value s)"
proof -
  have "char_of (code_of c) = c" by (simp add: code_of_def)
  moreover have "16 * (code_of c div 16) + code_of c mod 16 = code_of c" by simp
  moreover have "code_of c div 16 < 16" using code_of_less [of c] by linarith
  moreover have "code_of QUOTE = 34" "code_of BACKSLASH = 92" "code_of LF = 10" "code_of CR = 13" "code_of TAB = 9"
    by (simp_all add: code_of_def)
  ultimately show ?thesis by (auto simp: escape_char_def)
qed

lemma json_escape_value: "json_escape n k s = Some e \<Longrightarrow> json_value e = Some s"
  by (induction s arbitrary: k e) (auto simp: json_value_escape Let_def split: if_splits)

lemma escape_char_length: "length (escape_char c) \<le> 6"
  by (simp add: escape_char_def)

lemma json_escape_fits: "k + 6 * length s < n \<Longrightarrow> \<exists>e. json_escape n k s = Some e \<and> length e \<le> 6 * length s"
proof (induction s arbitrary: k)
  case (Cons c s)
  have "k + length (escape_char c) + 6 * length s < n" using Cons.prems escape_char_length [of c] by simp
  from Cons.IH [OF this] obtain e where "json_escape n (k + length (escape_char c)) s = Some e" "length e \<le> 6 * length s" by blast
  with Cons.prems escape_char_length [of c] show ?case by (auto simp: Let_def)
qed simp

lemma error_name_length: "length (e_name (find_error code)) \<le> 24" "e_code (find_error code) = code"
  by (cases code; simp add: find_error_def kErrors_def)+

lemma dec_text_code: "length (dec_text (api_code code)) = 4"
  by (cases code; simp add: dec_text.simps)

text \<open>What a reply does to the request, for a sentence that fits.\<close>

lemma reply_effect:
  assumes "length message < SC_API_ERROR_MESSAGE_MAX"
  shows "\<exists>escaped. reply r (find_error code) message =
      (SC_OK, put_reply (e_status (find_error code)) JSON_TYPE (error_body (find_error code) escaped) r) \<and> json_value escaped = Some message"
proof -
  have "0 + 6 * length message < SC_API_ERROR_MESSAGE_MAX * 6 + 1" using assms by simp
  from json_escape_fits [OF this] obtain e where e: "json_escape (SC_API_ERROR_MESSAGE_MAX * 6 + 1) 0 message = Some e" "length e \<le> 6 * length message"
    by auto
  have "length (error_body (find_error code) e) < 3194"
    using e(2) assms error_name_length [of code] dec_text_code [of code]
    by (simp add: error_body_def SC_API_ERROR_MESSAGE_MAX_def)
  with e json_escape_value [OF e(1)] show ?thesis
    by (auto simp: reply_def Let_def sc_http_reply_def SC_API_ERROR_MESSAGE_MAX_def REPLY_MAX_def)
qed

lemma json_value_all: "json_value (concat (map escape_char s)) = Some s"
  by (induction s) (simp_all add: json_value_escape)

interpretation json: codec "\<lambda>s. concat (map escape_char s)" json_value "\<lambda>_. True"
  by unfold_locales (simp add: json_value_all)

text \<open>An answer of one kind with one sentence: the status of the contract and a body a reader understands.\<close>

definition carries :: "sc_status \<times> sc_http_req \<Rightarrow> sc_api_error \<Rightarrow> string \<Rightarrow> sc_http_req \<Rightarrow> bool" where
  "carries x code m r \<longleftrightarrow>
     (\<exists>escaped. x = (SC_OK, put_reply (sc_api_error_status code) JSON_TYPE (error_body (find_error code) escaped) r) \<and>
        json_value escaped = Some m)"

lemma carries_reply: "length m < SC_API_ERROR_MESSAGE_MAX \<Longrightarrow> carries (reply r (find_error code) m) code m r"
  using reply_effect [of m r code] by (simp add: carries_def sc_api_error_status_def)

lemma fits_length: "length (fits_message t) < SC_API_ERROR_MESSAGE_MAX"
  by (simp add: fits_message_def SC_API_ERROR_MESSAGE_MAX_def)

text \<open>
  C29. Every error answer is sent, and is the JSON it is meant to be: whatever the field, the reason,
  the path or the number in its sentence, each of the five answers replies with the status of the
  contract and a body whose message a JSON reader turns back into that sentence, cut to its length;
  nothing a client sent can end the string early or add to the object.
\<close>

theorem error_answers_readable:
  "carries (sc_http_reply_validation_failed r (Some field) (Some reason)) SC_API_VALIDATION_FAILED
     (take 511 (''validation failed for '' @ field @ '': '' @ reason)) r \<and>
   carries (sc_http_reply_route_not_implemented r (Some route)) SC_API_ROUTE_NOT_IMPLEMENTED
     (take 511 (''route not implemented on this server: '' @ cstr (take (2 ^ 31 - 1) route))) r \<and>
   carries (sc_http_reply_unknown r) SC_API_UNKNOWN ''unknown error'' r \<and>
   carries (sc_http_reply_busy r n) SC_API_SERVICE_BUSY (take 511 (''service busy, retry after '' @ dec_text n @ '' seconds''))
     (snd (sc_http_header_add r ''retry-after'' (take 15 (dec_text n)))) \<and>
   carries (sc_http_reply_peer_network_unavailable r) SC_API_PEER_NETWORK_UNAVAILABLE ''this server runs no peer network node'' r"
proof -
  have cut: "take 511 t = fits_message t" for t by (simp add: fits_message_def SC_API_ERROR_MESSAGE_MAX_def)
  have short: "length ''unknown error'' < SC_API_ERROR_MESSAGE_MAX" "length ''this server runs no peer network node'' < SC_API_ERROR_MESSAGE_MAX"
    by (simp_all add: SC_API_ERROR_MESSAGE_MAX_def)
  show ?thesis
    unfolding cut sc_http_reply_validation_failed_def sc_http_reply_route_not_implemented_def sc_http_reply_unknown_def
      sc_http_reply_busy_def sc_http_reply_peer_network_unavailable_def Let_def option.case
    by (intro conjI carries_reply fits_length short)
qed

end
