(* ===== verification/UserRoutes.thy ===== *)
theory UserRoutes
  imports Registration FieldRules ApiError
begin

text \<open>
  The routes of the backend that have a body of their own: \<^verbatim>\<open>backend/src/user_routes.c\<close>
  (\<^verbatim>\<open>POST /user/create\<close>, and the answer to paths nobody serves) and \<^verbatim>\<open>backend/src/peer_routes.c\<close>. A
  registration is followed from the bytes of its body through the field rules and the unit of work
  of \<open>Registration\<close> to its answer.

  The JSON reader (arnm) is a parameter: a record of the reads the handler makes, with the rendering
  of a number (\<^verbatim>\<open>render_number\<close>, a formatting of doubles) among them. Memory and log lines are not
  modelled. Shown: the field rules are the schema's pipe on code points; a registration answers the
  same 204 whether the address was free or taken; and names and answers for which the limits of two
  layers do not fit together.
\<close>

section \<open>The field rules of the schema\<close>

definition EMAIL_MAX_LENGTH :: nat where "EMAIL_MAX_LENGTH = 255"
definition NAME_MAX_LENGTH :: nat where "NAME_MAX_LENGTH = 255"
definition MIN_FIRST_NAME :: nat where "MIN_FIRST_NAME = 3"
definition MIN_LAST_NAME :: nat where "MIN_LAST_NAME = 2"
definition FIELD_BYTES_MAX :: nat where "FIELD_BYTES_MAX = NAME_MAX_LENGTH * 3 + 1"
definition SC_DB_RETRY_AFTER_S :: nat where "SC_DB_RETRY_AFTER_S = 1"

record field_rule =
  f_key :: string
  f_max_length :: nat
  f_too_long :: string
  f_min_length :: nat
  f_too_short :: string
  f_is_email :: bool

definition kFields :: "field_rule list" where
  "kFields = [
     \<lparr>f_key = ''firstName'', f_max_length = NAME_MAX_LENGTH, f_too_long = ''This name is too long'', f_min_length = MIN_FIRST_NAME,
      f_too_short = ''Please enter at least three characters'', f_is_email = False\<rparr>,
     \<lparr>f_key = ''lastName'', f_max_length = NAME_MAX_LENGTH, f_too_long = ''This name is too long'', f_min_length = MIN_LAST_NAME,
      f_too_short = ''Please enter at least two characters'', f_is_email = False\<rparr>,
     \<lparr>f_key = ''email'', f_max_length = EMAIL_MAX_LENGTH, f_too_long = ''This email address is too long'', f_min_length = 0,
      f_too_short = ''Please enter a valid email address'', f_is_email = True\<rparr>]"

text \<open>The refusal on the left, the bytes written on the right.\<close>

definition apply_field_rule :: "field_rule \<Rightarrow> string \<Rightarrow> string + string" where
  "apply_field_rule rule t =
     (let (start, trimmed) = bk_trim (Some t); v = take trimmed (drop start t); units = bk_utf16_length v
      in if units > f_max_length rule then Inl (f_too_long rule)
         else if trimmed = 0 then Inl ''This field is required''
         else if f_is_email rule \<and> \<not> bk_is_email (Some v) then Inl (f_too_short rule)
         else if \<not> f_is_email rule \<and> units < f_min_length rule then Inl (f_too_short rule)
         else if trimmed + 1 > FIELD_BYTES_MAX then Inl (f_too_long rule)
         else Inr v)"

section \<open>Reading the body\<close>

record ('v, 'n) reader =
  rd_ready :: bool
  rd_parse :: "string \<Rightarrow> string + 'v"
  rd_is_object :: "'v \<Rightarrow> bool"
  rd_is_array :: "'v \<Rightarrow> bool"
  rd_value :: "'v \<Rightarrow> string \<Rightarrow> 'v option"
  rd_string :: "'v \<Rightarrow> string \<Rightarrow> string option"
  rd_bool :: "'v \<Rightarrow> string \<Rightarrow> bool option"
  rd_double :: "'v \<Rightarrow> string \<Rightarrow> 'n option"
  rd_number_text :: "'n \<Rightarrow> string"

definition render_member :: "('v, 'n) reader \<Rightarrow> 'v \<Rightarrow> 'v \<Rightarrow> string \<Rightarrow> string" where
  "render_member rd root v key =
     take 63
      (case rd_bool rd root key of
         Some b \<Rightarrow> if b then ''true'' else ''false''
       | None \<Rightarrow>
           (case rd_double rd root key of
              Some n \<Rightarrow> rd_number_text rd n
            | None \<Rightarrow> if rd_is_array rd v then ''Array'' else if rd_is_object rd v then ''Object'' else ''null''))"

definition missing :: "string \<Rightarrow> string" where
  "missing key = ''Invalid key: Expected '' @ [QUOTE] @ key @ [QUOTE] @ '' but received undefined''"

text \<open>The loop over the fields: the field and the reason of the first that fails, or the values.\<close>

fun read_fields :: "('v, 'n) reader \<Rightarrow> 'v \<Rightarrow> field_rule list \<Rightarrow> (string \<times> string) + string list" where
  "read_fields rd root [] = Inr []"
| "read_fields rd root (f # fs) =
     (case rd_value rd root (f_key f) of
        None \<Rightarrow> Inl (f_key f, fits_message (missing (f_key f)))
      | Some v \<Rightarrow>
          (case rd_string rd root (f_key f) of
             None \<Rightarrow> Inl (f_key f, fits_message (''Invalid type: Expected string but received '' @ render_member rd root v (f_key f)))
           | Some t \<Rightarrow>
               (case apply_field_rule f t of
                  Inl refusal \<Rightarrow> Inl (f_key f, refusal)
                | Inr x \<Rightarrow> map_sum id ((#) x) (read_fields rd root fs))))"

text \<open>A document that is no object.\<close>

definition not_an_object :: "('v, 'n) reader \<Rightarrow> 'v \<Rightarrow> string \<Rightarrow> string \<times> string" where
  "not_an_object rd root body =
     (if rd_is_array rd root then (f_key (kFields ! 0), take 63 (missing (f_key (kFields ! 0))))
      else let (start, trimmed) = bk_trim (Some body)
           in (''body'', fits_message (''Invalid type: Expected Object but received '' @ cstr (take (min trimmed 63) (drop start body)))))"

definition read_language :: "('v, 'n) reader \<Rightarrow> 'v \<Rightarrow> string" where
  "read_language rd root =
     (case rd_string rd root ''language'' of
        Some t \<Rightarrow> if length t + 1 \<le> BC_LANGUAGE_MAX then cstr t else []
      | None \<Rightarrow> [])"

section \<open>The handler\<close>

definition reply_validation :: "sc_http_req \<Rightarrow> string \<Rightarrow> string \<Rightarrow> sc_http_req" where
  "reply_validation r field reason = snd (sc_http_reply_validation_failed r (Some field) (Some reason))"

definition reply_unknown :: "sc_http_req \<Rightarrow> sc_http_req" where
  "reply_unknown r = snd (sc_http_reply_unknown r)"

definition backend_route_not_implemented :: "sc_http_req \<Rightarrow> sc_http_req" where
  "backend_route_not_implemented r = snd (sc_http_reply_route_not_implemented r (Some (sc_http_path r)))"

text \<open>
  The handler up to the executor: the answered request on the left, the unit to submit on the right.
  \<open>alloc\<close> says whether the request's memory holds a registration, \<open>home\<close> is the community, \<open>st\<close> and \<open>g\<close>
  are the statement slots and the random source.
\<close>

definition backend_user_create ::
  "('v, 'n) reader \<Rightarrow> bool \<Rightarrow> 64 word \<Rightarrow> sql_state \<Rightarrow> 'g \<Rightarrow> sc_http_req \<Rightarrow> sc_http_req + 'g bc_registration sc_db_unit" where
  "backend_user_create rd alloc home st g r =
     (if \<not> sc_http_method_is r ''POST'' then Inl (backend_route_not_implemented r)
      else case sc_http_body r of
        None \<Rightarrow> Inl (reply_validation r ''body'' ''Invalid type: Expected Object but received undefined'')
      | Some body \<Rightarrow>
          if \<not> rd_ready rd then Inl (reply_unknown r)
          else case rd_parse rd body of
            Inl why \<Rightarrow> Inl (reply_unknown r)
          | Inr root \<Rightarrow>
              if \<not> rd_is_object rd root then Inl (case not_an_object rd root body of (f, m) \<Rightarrow> reply_validation r f m)
              else case read_fields rd root kFields of
                Inl (f, m) \<Rightarrow> Inl (reply_validation r f m)
              | Inr values \<Rightarrow>
                  if \<not> alloc then Inl (reply_unknown r)
                  else case bc_registration_prepare st g home (cstr (values ! 0)) (cstr (values ! 1)) (cstr (values ! 2))
                              (Some (read_language rd root)) of
                    Inl s \<Rightarrow> Inl (reply_unknown r)
                  | Inr unit \<Rightarrow> Inr unit)"

text \<open>The answer, once the unit is through.\<close>

definition registration_done :: "'g bc_registration sc_db_unit \<Rightarrow> sc_http_req \<Rightarrow> sc_http_req" where
  "registration_done unit r =
     (if status unit = SC_ERR_QUEUE_FULL then snd (sc_http_reply_busy r SC_DB_RETRY_AFTER_S)
      else if status unit \<noteq> SC_OK then reply_unknown r
      else if r_outcome (own unit) = BC_REGISTRATION_FAILED then reply_unknown r
      else snd (sc_http_reply r 204 [] []))"

text \<open>What the executor answers to \<^verbatim>\<open>sc_db_submit\<close> when it does not take the unit.\<close>

definition submit_refused :: "sc_status \<Rightarrow> sc_http_req \<Rightarrow> sc_http_req" where
  "submit_refused s r =
     (if s = SC_ERR_QUEUE_FULL then snd (sc_http_reply_busy r SC_DB_RETRY_AFTER_S) else reply_unknown r)"

text \<open>
  A registration from its request to its answer: the executor takes the unit or not - \<open>taken\<close> is what
  \<^verbatim>\<open>sc_db_submit\<close> returned -, a worker runs it, and the loop answers.
\<close>

definition user_create ::
  "('c, 'h, 'g bc_registration) exec_env \<Rightarrow> 'g fresh \<Rightarrow> ('v, 'n) reader \<Rightarrow> bool \<Rightarrow> 64 word \<Rightarrow> sql_state \<Rightarrow> 'g \<Rightarrow> sc_status \<Rightarrow> nat \<Rightarrow>
   'c sc_db \<Rightarrow> sc_http_req \<Rightarrow> sc_http_req \<times> 'c sc_db" where
  "user_create env source rd alloc home st g taken now db r =
     (case backend_user_create rd alloc home st g r of
        Inl r' \<Rightarrow> (r', db)
      | Inr unit \<Rightarrow>
          if taken \<noteq> SC_OK then (submit_refused taken r, db)
          else (case run_on_worker (registering env source) now db unit of (stop, db', unit') \<Rightarrow> (registration_done unit' r, db')))"

definition BACKEND_BOOTSTRAP_PEERS_MAX :: nat where "BACKEND_BOOTSTRAP_PEERS_MAX = 20"
definition BACKEND_BOOTSTRAP_BODY_BYTES :: nat where "BACKEND_BOOTSTRAP_BODY_BYTES = 64 * 1024"

text \<open>The registry of \<^verbatim>\<open>peer_network.c\<close> is the function registered, if one is.\<close>

definition sc_peer_network_bootstrap_answer ::
  "(nat \<Rightarrow> nat \<Rightarrow> sc_status \<times> string) option \<Rightarrow> nat \<Rightarrow> nat \<Rightarrow> sc_status \<times> string" where
  "sc_peer_network_bootstrap_answer fn max_peers cap =
     (case fn of None \<Rightarrow> (SC_ERR_UNAVAILABLE, []) | Some f \<Rightarrow> f max_peers cap)"

definition backend_peer_bootstrap :: "(nat \<Rightarrow> nat \<Rightarrow> sc_status \<times> string) option \<Rightarrow> bool \<Rightarrow> sc_http_req \<Rightarrow> sc_http_req" where
  "backend_peer_bootstrap fn memory r =
     (if \<not> sc_http_method_is r ''GET'' then backend_route_not_implemented r
      else if \<not> memory then reply_unknown r
      else case sc_peer_network_bootstrap_answer fn BACKEND_BOOTSTRAP_PEERS_MAX BACKEND_BOOTSTRAP_BODY_BYTES of (s, body) \<Rightarrow>
        if s = SC_OK then snd (sc_http_reply r 200 ''application/json'' body)
        else if s = SC_ERR_UNAVAILABLE then snd (sc_http_reply_peer_network_unavailable r)
        else reply_unknown r)"

section \<open>The rules are the schema's\<close>

text \<open>The pipe of the schema on a list of code points: trim, longest, not empty, then shortest or the address rule.\<close>

definition schema_pipe :: "field_rule \<Rightarrow> nat list \<Rightarrow> string + nat list" where
  "schema_pipe rule cps =
     (let v = js_trim cps; units = sum_list (map utf16_units v)
      in if units > f_max_length rule then Inl (f_too_long rule)
         else if v = [] then Inl ''This field is required''
         else if f_is_email rule then if email_regex (encode v) then Inr v else Inl (f_too_short rule)
         else if units < f_min_length rule then Inl (f_too_short rule)
         else Inr v)"

lemma utf8_bytes: "length (utf8 c) \<le> 3 * utf16_units c"
  by (simp add: utf8_def utf16_units_def)

lemma encode_bytes: "length (encode cps) \<le> 3 * sum_list (map utf16_units cps)"
proof (induction cps)
  case (Cons c cs)
  with utf8_bytes [of c] show ?case by simp
qed simp

lemma js_trim_points: "list_all code_point cps \<Longrightarrow> list_all code_point (js_trim cps)"
  by (rule js_trim_split [of cps]) (metis list_all_append)

lemma encode_nil: "encode cps = [] \<longleftrightarrow> cps = []"
  by (cases cps) auto

lemma apply_rule_schema:
  assumes "list_all code_point cps" and "rule \<in> set kFields"
  shows "apply_field_rule rule (encode cps) = map_sum id encode (schema_pipe rule cps)"
proof -
  obtain start len where t: "bk_trim (Some (encode cps)) = (start, len)" by (cases "bk_trim (Some (encode cps))")
  have v: "take len (drop start (encode cps)) = encode (js_trim cps)" by (rule trim_of_text [OF assms(1) t])
  have len: "len = length (encode (js_trim cps))"
    using trim_length [OF t] v by (metis length_take length_drop min.absorb2)
  have units: "bk_utf16_length (encode (js_trim cps)) = sum_list (map utf16_units (js_trim cps))"
    by (rule utf16_length_of_text [OF js_trim_points [OF assms(1)]])
  have room: "sum_list (map utf16_units (js_trim cps)) \<le> f_max_length rule \<Longrightarrow> length (encode (js_trim cps)) + 1 \<le> FIELD_BYTES_MAX"
    using encode_bytes [of "js_trim cps"] assms(2)
    by (auto simp: kFields_def FIELD_BYTES_MAX_def NAME_MAX_LENGTH_def EMAIL_MAX_LENGTH_def)
  show ?thesis
  proof (cases "sum_list (map utf16_units (js_trim cps)) \<le> f_max_length rule")
    case True
    then show ?thesis
      using room [OF True]
      by (simp add: apply_field_rule_def schema_pipe_def t v [unfolded len] units Let_def len encode_nil bk_is_email_regex)
  next
    case False
    then show ?thesis by (simp add: apply_field_rule_def schema_pipe_def t v units Let_def)
  qed
qed



section \<open>A registration answers alike\<close>

lemma reply_put:
  assumes "length m < SC_API_ERROR_MESSAGE_MAX"
  shows "\<exists>body. snd (reply r (find_error code) m) = put_reply (sc_api_error_status code) JSON_TYPE body r"
  using carries_reply [OF assms, of r code] by (auto simp: carries_def)

lemma error_statuses [simp]:
  "sc_api_error_status SC_API_VALIDATION_FAILED = 400" "sc_api_error_status SC_API_UNKNOWN = 500"
  "sc_api_error_status SC_API_ROUTE_NOT_IMPLEMENTED = 501" "sc_api_error_status SC_API_SERVICE_BUSY = 503"
  by (simp_all add: sc_api_error_status_def find_error_def kErrors_def)

lemma refusal_answers:
  shows unknown_answer: "q_status (reply_unknown r) = 500 \<and> q_replied (reply_unknown r)"
    and validation_answer: "q_status (reply_validation r f m) = 400 \<and> q_replied (reply_validation r f m)"
    and unserved_answer: "q_status (backend_route_not_implemented r) = 501 \<and> q_replied (backend_route_not_implemented r)"
    and busy_answer: "q_status (snd (sc_http_reply_busy r n)) = 503 \<and> q_replied (snd (sc_http_reply_busy r n))"
proof -
  have u: "length ''unknown error'' < SC_API_ERROR_MESSAGE_MAX" by (simp add: SC_API_ERROR_MESSAGE_MAX_def)
  show "q_status (reply_unknown r) = 500 \<and> q_replied (reply_unknown r)"
    using reply_put [OF u, of r SC_API_UNKNOWN] by (auto simp: reply_unknown_def sc_http_reply_unknown_def put_reply_def)
  show "q_status (reply_validation r f m) = 400 \<and> q_replied (reply_validation r f m)"
    using reply_put [OF fits_length, of r SC_API_VALIDATION_FAILED "''validation failed for '' @ f @ '': '' @ m"]
    by (auto simp: reply_validation_def sc_http_reply_validation_failed_def put_reply_def)
  show "q_status (backend_route_not_implemented r) = 501 \<and> q_replied (backend_route_not_implemented r)"
    using reply_put [OF fits_length, of r SC_API_ROUTE_NOT_IMPLEMENTED
        "''route not implemented on this server: '' @ cstr (take (2 ^ 31 - 1) (sc_http_path r))"]
    by (auto simp: backend_route_not_implemented_def sc_http_reply_route_not_implemented_def put_reply_def)
  show "q_status (snd (sc_http_reply_busy r n)) = 503 \<and> q_replied (snd (sc_http_reply_busy r n))"
    using reply_put [OF fits_length, of "snd (sc_http_header_add r ''retry-after'' (take 15 (dec_text n)))" SC_API_SERVICE_BUSY
        "''service busy, retry after '' @ dec_text n @ '' seconds''"]
    by (auto simp: sc_http_reply_busy_def put_reply_def Let_def)
qed

lemmas answers = unknown_answer validation_answer unserved_answer busy_answer

text \<open>Reviving a connection between two units does not touch the data.\<close>

definition revives :: "('c, 'h, 'u) exec_env \<Rightarrow> ('c sc_db \<Rightarrow> 'd) \<Rightarrow> ('c sc_db \<Rightarrow> 'd option) \<Rightarrow> bool" where
  "revives env D P \<longleftrightarrow> (\<forall>db s db'. revive env db = (s, db') \<and> P db = None \<longrightarrow> D db' = D db \<and> P db' = None)"

lemma worker_registration:
  assumes j: "journal env D P" and l: "account_store (drivers env) D P" and v: "revives env D P" and idle: "P db = None"
    and w: "access unit = SC_DB_WRITE" and run: "run_on_worker (registering env source) now db unit = (stop, db', unit')"
  shows "registered (r_account (own unit)) (D db) (status unit') (r_outcome (own unit')) (r_user_id (own unit')) (D db')"
proof -
  obtain s db1 unit1 where u: "make_usable (registering env source) db unit = (s, db1, unit1)" by (metis prod_cases3)
  have same: "D db1 = D db" "P db1 = None" "own unit1 = own unit" "access unit1 = access unit"
    using u v idle unfolding revives_def
    by (auto simp: make_usable_def registering_def Let_def split: if_splits prod.splits)
  show ?thesis
  proof (cases "run_unit (registering env source) db1 unit1 = (stop, db', unit')")
    case True
    from registration_unit_spec [OF j l same(2) _ _ True, of "r_account (own unit)"] w same show ?thesis by simp
  next
    case False
    with run u same show ?thesis
      by (auto simp: run_on_worker_def Let_def registered_def split: if_splits)
  qed
qed

lemma backend_user_create_cases:
  "case backend_user_create rd alloc home st g r of
     Inl r' \<Rightarrow> q_status r' \<in> {400, 500, 501} \<and> q_replied r'
   | Inr unit \<Rightarrow> access unit = SC_DB_WRITE"
  by (auto simp: backend_user_create_def answers bc_registration_prepare_def split: option.splits sum.splits prod.splits if_splits)


section \<open>Limits that do not fit together\<close>

text \<open>
  C31. A name the schema accepts may be too long for the account: the schema counts 255 characters,
  the account has room for 255 bytes. A request with such a name, correct in every field, is
  answered with the 500 of an unknown error and nothing is stored.
\<close>

theorem long_name_unknown:
  assumes "q_method r = ''POST''" and "q_body r \<noteq> []" and "rd_ready rd" and "rd_parse rd (q_body r) = Inr root" and "rd_is_object rd root"
    and "read_fields rd root kFields = Inr values" and "255 < length (cstr (values ! 0)) \<or> 255 < length (cstr (values ! 1))"
  shows "user_create env source rd alloc home st g taken now db r = (reply_unknown r, db)"
proof -
  have "bc_registration_prepare st g home (cstr (values ! 0)) (cstr (values ! 1)) (cstr (values ! 2)) x = Inl SC_ERR_TOO_LONG" for x
    using assms(7) by (auto simp: bc_registration_prepare_def BC_NAME_MAX_def split: option.splits)
  then have "backend_user_create rd alloc home st g r = Inl (reply_unknown r)"
    using assms(1-6) by (simp add: backend_user_create_def sc_http_method_is_def sc_http_body_def)
  then show ?thesis by (simp add: user_create_def)
qed

text \<open>
  An answer of the peer network that is longer than the fallback server's answers may be leaves the
  request unanswered, which the server turns into an empty 500.
\<close>

lemma large_bootstrap_unanswered:
  assumes "q_method r = ''GET''" and "\<not> q_replied r" and "fn BACKEND_BOOTSTRAP_PEERS_MAX BACKEND_BOOTSTRAP_BODY_BYTES = (SC_OK, body)"
    and "REPLY_MAX < length body"
  shows "backend_peer_bootstrap (Some fn) True r = r" and "q_status (final_req (backend_peer_bootstrap (Some fn) True r)) = 500"
  using assms by (simp_all add: backend_peer_bootstrap_def sc_http_method_is_def sc_peer_network_bootstrap_answer_def sc_http_reply_def final_req_def)

section \<open>A registration\<close>

text \<open>A reader that finds the three fields, with the first name given.\<close>

definition three_fields :: "string \<Rightarrow> (unit, unit) reader" where
  "three_fields name = \<lparr>rd_ready = True, rd_parse = (\<lambda>b. Inr ()), rd_is_object = (\<lambda>v. True), rd_is_array = (\<lambda>v. False),
     rd_value = (\<lambda>v k. Some ()),
     rd_string = (\<lambda>v k. if k = ''firstName'' then Some name else if k = ''lastName'' then Some ''Lo''
                        else if k = ''email'' then Some ''ada@x.org'' else None),
     rd_bool = (\<lambda>v k. None), rd_double = (\<lambda>v k. None), rd_number_text = (\<lambda>n. [])\<rparr>"

definition post_req :: sc_http_req where
  "post_req = blank_req\<lparr>q_method := ''POST'', q_body := ''x''\<rparr>"

lemma three_points: "''Lo'' = encode [0x4C, 0x6F]" "''Ada'' = encode [0x41, 0x64, 0x61]"
    "''ada@x.org'' = encode [0x61, 0x64, 0x61, 0x40, 0x78, 0x2E, 0x6F, 0x72, 0x67]"
  by code_simp+

lemma three_values:
  "list_all code_point cps \<Longrightarrow> schema_pipe (kFields ! 0) cps = Inr cps \<Longrightarrow>
   read_fields (three_fields (encode cps)) () kFields = Inr [encode cps, ''Lo'', ''ada@x.org'']"
proof -
  assume a: "list_all code_point cps" "schema_pipe (kFields ! 0) cps = Inr cps"
  have e: "email_regex ''ada@x.org''" unfolding bk_is_email_regex [symmetric] by code_simp
  have "apply_field_rule (kFields ! 0) (encode cps) = Inr (encode cps)"
    using apply_rule_schema [OF a(1), of "kFields ! 0"] a(2) by (simp add: kFields_def)
  moreover have "apply_field_rule (kFields ! 1) ''Lo'' = Inr ''Lo''"
    using apply_rule_schema [of "[0x4C, 0x6F]" "kFields ! 1"] unfolding three_points(1) [symmetric]
    by (simp add: code_point_def kFields_def schema_pipe_def js_trim_def is_js_space_def utf16_units_def NAME_MAX_LENGTH_def
        MIN_LAST_NAME_def three_points(1) [simplified, symmetric])
  moreover have "apply_field_rule (kFields ! 2) ''ada@x.org'' = Inr ''ada@x.org''"
    using apply_rule_schema [of "[0x61, 0x64, 0x61, 0x40, 0x78, 0x2E, 0x6F, 0x72, 0x67]" "kFields ! 2"] e unfolding three_points(3) [symmetric]
    by (simp add: code_point_def kFields_def schema_pipe_def js_trim_def is_js_space_def utf16_units_def EMAIL_MAX_LENGTH_def
        three_points(3) [simplified, symmetric])
  ultimately show ?thesis by (simp add: kFields_def three_fields_def)
qed

definition two_byte_name :: "nat list" where "two_byte_name = replicate 130 0xFC"

theorem long_name_unknown_witness:
  "user_create tb_env tb_fresh (three_fields (encode two_byte_name)) True 1 tb_slots 5 SC_OK 0 tb_db post_req = (reply_unknown post_req, tb_db)"
proof -
  have "list_all code_point two_byte_name" "schema_pipe (kFields ! 0) two_byte_name = Inr two_byte_name"
    by (simp_all add: two_byte_name_def code_point_def list_all_iff schema_pipe_def js_trim_def is_js_space_def
        utf16_units_def kFields_def NAME_MAX_LENGTH_def MIN_FIRST_NAME_def sum_list_replicate del: replicate.simps)
  from three_values [OF this] have v: "read_fields (three_fields (encode two_byte_name)) () kFields = Inr [encode two_byte_name, ''Lo'', ''ada@x.org'']" .
  have "255 < length (cstr (encode two_byte_name))" by code_simp
  then show ?thesis by (intro long_name_unknown [OF _ _ _ _ _ v]) (simp_all add: post_req_def three_fields_def)
qed

lemma continue_walk_code [code]:
  "continue_walk n v s =
     (if n = 0 then Some v
      else case s of [] \<Rightarrow> None
           | c # cs \<Rightarrow> if code_of c div 64 \<noteq> 2 then None else continue_walk (n - 1) (v * 64 + code_of c mod 64) cs)"
  by (cases n; cases s) simp_all

definition tb_create :: "tables sc_db \<Rightarrow> sc_http_req \<times> tables sc_db" where
  "tb_create db = user_create tb_env tb_fresh (three_fields ''Ada'') True 1 tb_slots 5 SC_OK 0 db post_req"

lemma tb_created: "q_status (fst (tb_create tb_db)) = 204" "snd (native (snd (tb_create tb_db))) = None"
    "q_status (fst (tb_create (snd (tb_create tb_db)))) = 204"
    "in_use (fst (native (snd (tb_create tb_db)))) ''ada@x.org''"
    "case backend_user_create (three_fields ''Ada'') True 1 tb_slots (5 :: int) post_req of
       Inr u \<Rightarrow> a_email (r_account (own u)) = ''ada@x.org'' | Inl _ \<Rightarrow> False"
  by code_simp+


end
