(* ===== verification/WebRoutes.thy ===== *)
theory WebRoutes
  imports UserRoutes DbExec "HOL-Library.Sublist"
begin

text \<open>
  The pages and the cross-origin policy of the backend, and its route table:
  \<^verbatim>\<open>backend/src/static_sites.c\<close> (which site and which file a path means), \<^verbatim>\<open>backend/src/static_routes.c\<close> (what is
  answered), \<^verbatim>\<open>backend/src/cors.c\<close>, and the registrations of \<^verbatim>\<open>backend/src/backend.c\<close>.

  The table of sites is generated by the build and an argument; what the lookup relies on is that the
  files of a site are sorted by path. Shown: the binary search finds exactly the files of the table,
  the site is the one with the longest base path, which page answers which request, and which origins
  are ever told they may call.
\<close>

section \<open>Which file a path means\<close>

record backend_static_file =
  sf_path :: string
  sf_bytes :: string
  sf_content_type :: string
  sf_etag :: string
  sf_immutable :: bool

record backend_static_site =
  ss_name :: string
  ss_base_path :: string
  ss_files :: "backend_static_file list"
  ss_index :: backend_static_file

text \<open>\<^verbatim>\<open>memcmp\<close> up to the shorter of the two, as its sign.\<close>

fun byte_order :: "string \<Rightarrow> string \<Rightarrow> int" where
  "byte_order (a # as) (b # bs) = (if code_of a < code_of b then - 1 else if code_of b < code_of a then 1 else byte_order as bs)"
| "byte_order _ _ = 0"

definition memcmp :: "string \<Rightarrow> string \<Rightarrow> nat \<Rightarrow> int" where
  "memcmp a b n = byte_order (take n a) (take n b)"

definition claims_path :: "backend_static_site \<Rightarrow> string \<Rightarrow> bool" where
  "claims_path site path \<longleftrightarrow>
     (let base = length (ss_base_path site)
      in base = 0 \<or>
         \<not> (length path < base \<or> memcmp path (ss_base_path site) base \<noteq> 0) \<and>
         \<not> (length path \<noteq> base \<and> path ! base \<noteq> CHR ''/''))"

fun site_walk :: "backend_static_site list \<Rightarrow> string \<Rightarrow> backend_static_site option \<Rightarrow> backend_static_site option" where
  "site_walk [] path m = m"
| "site_walk (site # sites) path m =
     (if \<not> claims_path site path then site_walk sites path m
      else if (case m of None \<Rightarrow> True | Some s \<Rightarrow> length (ss_base_path site) > length (ss_base_path s)) then site_walk sites path (Some site)
      else site_walk sites path m)"

definition backend_static_site_for :: "backend_static_site list option \<Rightarrow> string option \<Rightarrow> backend_static_site option" where
  "backend_static_site_for sites path =
     (case (sites, path) of (Some ss, Some p) \<Rightarrow> site_walk ss p None | _ \<Rightarrow> None)"

definition path_order :: "string \<Rightarrow> string \<Rightarrow> int" where
  "path_order a b =
     (let order = memcmp a b (min (length a) (length b))
      in if order = 0 then if length a = length b then 0 else if length a < length b then - 1 else 1 else order)"

function file_walk :: "backend_static_file list \<Rightarrow> string \<Rightarrow> nat \<Rightarrow> nat \<Rightarrow> backend_static_file option" where
  "file_walk files path low high =
     (if low < high then
        let middle = low + (high - low) div 2; order = path_order (sf_path (files ! middle)) path
        in if order = 0 then Some (files ! middle)
           else if order < 0 then file_walk files path (middle + 1) high
           else file_walk files path low middle
      else None)"
  by pat_completeness auto
termination by (relation "measure (\<lambda>(files, path, low, high). high - low)") (auto simp: Let_def)

declare file_walk.simps [simp del]

definition backend_static_file_find :: "backend_static_site option \<Rightarrow> string option \<Rightarrow> backend_static_file option" where
  "backend_static_file_find site path =
     (case (site, path) of
        (Some s, Some p) \<Rightarrow> if ss_files s = [] then None else file_walk (ss_files s) p 0 (length (ss_files s))
      | _ \<Rightarrow> None)"

section \<open>Answering with a page\<close>

definition CACHE_IMMUTABLE :: string where "CACHE_IMMUTABLE = ''public, max-age=31536000, immutable''"
definition CACHE_REVALIDATE :: string where "CACHE_REVALIDATE = ''no-cache''"

definition is_unchanged :: "sc_http_req \<Rightarrow> backend_static_file \<Rightarrow> bool" where
  "is_unchanged r file \<longleftrightarrow> sc_http_header r ''if-none-match'' = Some (sf_etag file)"

definition wants_html :: "sc_http_req \<Rightarrow> bool" where
  "wants_html r = (case sc_http_header r ''accept'' of None \<Rightarrow> False | Some a \<Rightarrow> contains ''text/html'' a)"

definition send_file :: "sc_http_req \<Rightarrow> backend_static_file \<Rightarrow> sc_http_req" where
  "send_file r file =
     (let cache = (if sf_immutable file then CACHE_IMMUTABLE else CACHE_REVALIDATE);
          r1 = snd (sc_http_header_add r ''cache-control'' cache);
          r2 = snd (sc_http_header_add r1 ''etag'' (sf_etag file))
      in if is_unchanged r2 file then snd (sc_http_reply r2 304 [] [])
         else snd (sc_http_reply_static r2 200 (sf_content_type file) (sf_bytes file)))"

definition backend_static_serve :: "backend_static_site list \<Rightarrow> sc_http_req \<Rightarrow> bool \<times> sc_http_req" where
  "backend_static_serve sites r =
     (if \<not> sc_http_method_is r ''GET'' then (False, r)
      else let path = sc_http_path r
           in case backend_static_site_for (Some sites) (Some path) of
                None \<Rightarrow> (False, r)
              | Some site \<Rightarrow>
                  let relative = dropWhile (\<lambda>c. c = CHR ''/'') (drop (length (ss_base_path site)) path)
                  in if relative = [] then (True, send_file r (ss_index site))
                     else case backend_static_file_find (Some site) (Some relative) of
                            Some file \<Rightarrow> (True, send_file r file)
                          | None \<Rightarrow> if \<not> wants_html r then (False, r) else (True, send_file r (ss_index site)))"

definition backend_route_default :: "backend_static_site list \<Rightarrow> sc_http_req \<Rightarrow> bool \<times> sc_http_req" where
  "backend_route_default sites r =
     (let (served, r') = backend_static_serve sites r in if served then (True, r') else (True, backend_route_not_implemented r'))"

section \<open>Who may call\<close>

definition kAllowMethods :: string where "kAllowMethods = ''GET, POST, PUT, DELETE''"
definition kMaxAge :: string where "kMaxAge = ''5''"
definition kHosts :: "string list" where "kHosts = [''localhost'', ''127.0.0.1'', ''[::1]'']"

fun host_walk :: "string list \<Rightarrow> string \<Rightarrow> bool" where
  "host_walk [] rest = False"
| "host_walk (h # hs) rest =
     (if \<not> starts_with h rest then host_walk hs rest
      else let port = drop (length h) rest
           in if port = [] then True
              else if hd port \<noteq> CHR '':'' \<or> length port < 2 then False
              else list_all is_digit (tl port))"

definition is_loopback_origin :: "string \<Rightarrow> bool" where
  "is_loopback_origin origin =
     (if length origin > 8 \<and> starts_with ''https://'' origin then host_walk kHosts (drop 8 origin)
      else if length origin > 7 \<and> starts_with ''http://'' origin then host_walk kHosts (drop 7 origin)
      else False)"

record backend_cors_policy =
  development :: bool

text \<open>A header added and the result ignored, as every call here does.\<close>

abbreviation add_header :: "string \<Rightarrow> string \<Rightarrow> sc_http_req \<Rightarrow> sc_http_req" where
  "add_header name v r \<equiv> snd (sc_http_header_add r name v)"

definition backend_cors :: "backend_cors_policy \<Rightarrow> sc_http_req \<Rightarrow> bool \<times> sc_http_req" where
  "backend_cors policy r =
     (let origin = sc_http_header r ''origin'';
          preflight = sc_http_method_is r ''OPTIONS'';
          r1 = add_header ''access-control-allow-credentials'' ''true'' r;
          r2 = add_header ''vary'' (if development policy then ''*'' else ''origin'') r1;
          r3 = (case origin of
                  Some org \<Rightarrow> if development policy \<or> is_loopback_origin org then add_header ''access-control-allow-origin'' org r2 else r2
                | None \<Rightarrow> if development policy then add_header ''access-control-allow-origin'' ''*'' r2 else r2);
          r4 = add_header ''access-control-allow-methods'' kAllowMethods r3
      in if \<not> preflight then (False, r4)
         else let r5 = (case sc_http_header r ''access-control-request-headers'' of
                          Some h \<Rightarrow> add_header ''access-control-allow-headers'' h r4 | None \<Rightarrow> r4);
                  r6 = add_header ''access-control-max-age'' kMaxAge r5
              in (True, snd (sc_http_reply r6 204 [] [])))"

section \<open>The lookup is the table\<close>

abbreviation below :: "(char \<times> char) set" where "below \<equiv> {(a, b). code_of a < code_of b}"

lemma byte_order_lex:
  "byte_order (take (min (length a) (length b)) a) (take (min (length a) (length b)) b) < 0 \<or>
   byte_order (take (min (length a) (length b)) a) (take (min (length a) (length b)) b) = 0 \<and> length a < length b \<longleftrightarrow>
   (a, b) \<in> lexord below"
proof (induction a b rule: list_induct2')
  case (4 x xs y ys)
  then show ?case by (auto simp: code_of_inject)
qed auto

lemma byte_order_sign: "byte_order a b \<in> {- 1, 0, 1}" "byte_order a b = - byte_order b a"
  by (induction a b rule: byte_order.induct) auto

lemma path_order_less: "path_order a b < 0 \<longleftrightarrow> (a, b) \<in> lexord below"
  unfolding byte_order_lex [symmetric] path_order_def memcmp_def by (auto simp: Let_def)

lemma path_order_flip: "path_order b a = - path_order a b"
proof -
  have "memcmp b a (min (length b) (length a)) = - memcmp a b (min (length a) (length b))"
    unfolding memcmp_def by (subst byte_order_sign(2)) (simp add: min.commute)
  then show ?thesis by (auto simp: path_order_def Let_def)
qed

lemma path_order_trans: "path_order a b < 0 \<Longrightarrow> path_order b c < 0 \<Longrightarrow> path_order a c < 0"
  unfolding path_order_less by (erule lexord_trans) (auto simp: trans_def)

lemma path_order_refl [simp]: "path_order a a = 0"
  using path_order_flip [of a a] by simp

lemma path_order_eq: "path_order a b = 0 \<longleftrightarrow> a = b"
proof
  assume z: "path_order a b = 0"
  then have "(a, b) \<notin> lexord below" "(b, a) \<notin> lexord below"
    using path_order_less [of a b] path_order_less [of b a] path_order_flip [of a b] by auto
  moreover have "\<forall>x y. (x, y) \<in> below \<or> x = y \<or> (y, x) \<in> below" by (auto simp: code_of_inject [symmetric])
  ultimately show "a = b" using lexord_linear [of below a b] by blast
qed simp

text \<open>The files of a site in the order the build writes them.\<close>

definition sorted_files :: "backend_static_file list \<Rightarrow> bool" where
  "sorted_files fs = sorted_wrt (\<lambda>f g. path_order (sf_path f) (sf_path g) < 0) fs"

lemma sorted_files_before:
  "sorted_files fs \<Longrightarrow> i < j \<Longrightarrow> j < length fs \<Longrightarrow> path_order (sf_path (fs ! i)) (sf_path (fs ! j)) < 0"
  by (simp add: sorted_files_def sorted_wrt_iff_nth_less)

lemma sorted_files_index:
  assumes "sorted_files fs" and "i < length fs" and "j < length fs"
  shows "path_order (sf_path (fs ! i)) (sf_path (fs ! j)) < 0 \<longleftrightarrow> i < j"
    and "sf_path (fs ! i) = sf_path (fs ! j) \<longleftrightarrow> i = j"
proof -
  have a: "i < j \<Longrightarrow> path_order (sf_path (fs ! i)) (sf_path (fs ! j)) < 0" by (rule sorted_files_before [OF assms(1) _ assms(3)])
  have b: "j < i \<Longrightarrow> path_order (sf_path (fs ! j)) (sf_path (fs ! i)) < 0" by (rule sorted_files_before [OF assms(1) _ assms(2)])
  have c: "path_order (sf_path (fs ! j)) (sf_path (fs ! i)) = - path_order (sf_path (fs ! i)) (sf_path (fs ! j))" by (rule path_order_flip)
  show "path_order (sf_path (fs ! i)) (sf_path (fs ! j)) < 0 \<longleftrightarrow> i < j"
    using a b c by (cases i j rule: linorder_cases) auto
  show "sf_path (fs ! i) = sf_path (fs ! j) \<longleftrightarrow> i = j"
    using a b c by (cases i j rule: linorder_cases) auto
qed

text \<open>The search narrows to where the path must be.\<close>

lemma file_walk_found:
  assumes "sorted_files files" and "k < length files" and "low \<le> k" and "k < high" and "high \<le> length files"
  shows "file_walk files (sf_path (files ! k)) low high = Some (files ! k)"
  using assms
proof (induction files "sf_path (files ! k)" low high rule: file_walk.induct)
  case (1 files low high)
  let ?m = "low + (high - low) div 2"
  have m: "?m < length files" using "1.prems" by linarith
  note o = sorted_files_index [OF "1.prems"(1) m "1.prems"(2)] path_order_eq [of "sf_path (files ! ?m)" "sf_path (files ! k)"]
  have l: "low < high" using "1.prems" by simp
  show ?case
  proof (cases ?m k rule: linorder_cases)
    case less
    with o l "1.prems" "1.hyps"(1) [OF l refl refl] show ?thesis by (subst file_walk.simps) (simp add: Let_def)
  next
    case equal
    with l show ?thesis by (subst file_walk.simps) (simp add: Let_def)
  next
    case greater
    with o l "1.prems" "1.hyps"(2) [OF l refl refl] show ?thesis by (subst file_walk.simps) (simp add: Let_def)
  qed
qed

lemma file_walk_sound: "file_walk files path low high = Some f \<Longrightarrow> high \<le> length files \<Longrightarrow> f \<in> set files \<and> sf_path f = path"
proof (induction files path low high rule: file_walk.induct)
  case (1 files path low high)
  let ?m = "low + (high - low) div 2"
  have l: "low < high" using "1.prems"(1) by (subst (asm) file_walk.simps) (auto split: if_splits)
  have m: "?m < high" using l by linarith
  show ?case
  proof (cases "path_order (sf_path (files ! ?m)) path" "0 :: int" rule: linorder_cases)
    case less
    with l "1.prems" "1.IH"(1) [OF l refl refl] show ?thesis by (subst (asm) file_walk.simps) (simp add: Let_def)
  next
    case equal
    with l m "1.prems" show ?thesis by (subst (asm) file_walk.simps) (auto simp: Let_def path_order_eq)
  next
    case greater
    with l m "1.prems" "1.IH"(2) [OF l refl refl] show ?thesis by (subst (asm) file_walk.simps) (simp add: Let_def)
  qed
qed

lemma file_find_iff:
  assumes "sorted_files (ss_files site)"
  shows "backend_static_file_find (Some site) (Some path) = Some f \<longleftrightarrow> f \<in> set (ss_files site) \<and> sf_path f = path"
proof
  assume "backend_static_file_find (Some site) (Some path) = Some f"
  then show "f \<in> set (ss_files site) \<and> sf_path f = path"
    by (auto simp: backend_static_file_find_def dest: file_walk_sound split: if_splits)
next
  assume "f \<in> set (ss_files site) \<and> sf_path f = path"
  then obtain k where k: "k < length (ss_files site)" "ss_files site ! k = f" "sf_path f = path" by (auto simp: in_set_conv_nth)
  from file_walk_found [OF assms k(1) _ k(1) order_refl, of 0] k have "file_walk (ss_files site) path 0 (length (ss_files site)) = Some f" by simp
  with k(1) show "backend_static_file_find (Some site) (Some path) = Some f" by (cases "ss_files site = []") (simp_all add: backend_static_file_find_def)
qed

section \<open>The site of a path\<close>

lemma byte_order_zero: "length a = length b \<Longrightarrow> byte_order a b = 0 \<longleftrightarrow> a = b"
  by (induction a b rule: list_induct2) (auto simp: code_of_inject [symmetric])

lemma memcmp_prefix: "length b \<le> length a \<Longrightarrow> memcmp a b (length b) = 0 \<longleftrightarrow> (\<exists>t. a = b @ t)"
proof -
  assume l: "length b \<le> length a"
  then have "memcmp a b (length b) = 0 \<longleftrightarrow> take (length b) a = b" by (simp add: memcmp_def byte_order_zero)
  also have "\<dots> \<longleftrightarrow> (\<exists>t. a = b @ t)" by (metis append_eq_conv_conj append_take_drop_id)
  finally show ?thesis .
qed

lemma claims_path_iff:
  "claims_path site path \<longleftrightarrow>
     ss_base_path site = [] \<or> path = ss_base_path site \<or> (\<exists>rest. path = ss_base_path site @ CHR ''/'' # rest)"
proof -
  let ?b = "ss_base_path site"
  have slash: "t = [] \<or> t ! 0 = CHR ''/'' \<longleftrightarrow> t = [] \<or> (\<exists>u. t = CHR ''/'' # u)" for t :: string by (cases t) auto
  consider "?b = []" | "?b \<noteq> []" "\<exists>t. path = ?b @ t" | "?b \<noteq> []" "\<nexists>t. path = ?b @ t" by blast
  then show ?thesis
  proof cases
    case 2
    then obtain t where t: "path = ?b @ t" by blast
    then have "memcmp path ?b (length ?b) = 0" by (intro iffD2 [OF memcmp_prefix]) auto
    with t 2(1) slash [of t] show ?thesis by (simp add: claims_path_def nth_append)
  next
    case 3
    then show ?thesis using memcmp_prefix [of ?b path] by (auto simp: claims_path_def not_less Let_def)
  qed (simp add: claims_path_def)
qed

text \<open>The site a path belongs to: one that claims it, and none that claims it has a longer base path.\<close>

definition owns_path :: "backend_static_site list \<Rightarrow> string \<Rightarrow> backend_static_site \<Rightarrow> bool" where
  "owns_path sites path site \<longleftrightarrow> site \<in> set sites \<and> claims_path site path \<and>
     (\<forall>s \<in> set sites. claims_path s path \<longrightarrow> length (ss_base_path s) \<le> length (ss_base_path site))"

lemma site_walk_spec:
  "(case m of None \<Rightarrow> True | Some s \<Rightarrow> claims_path s path) \<Longrightarrow>
   (case site_walk sites path m of
      None \<Rightarrow> m = None \<and> (\<forall>s \<in> set sites. \<not> claims_path s path)
    | Some s \<Rightarrow> (s \<in> set sites \<or> m = Some s) \<and> claims_path s path \<and>
        (\<forall>t \<in> set sites \<union> set_option m. claims_path t path \<longrightarrow> length (ss_base_path t) \<le> length (ss_base_path s)))"
proof (induction sites path m rule: site_walk.induct)
  case (2 site sites path m)
  show ?case
  proof (cases "claims_path site path")
    case False
    with 2 show ?thesis by (auto split: option.splits)
  next
    case True
    show ?thesis
    proof (cases "case m of None \<Rightarrow> True | Some s \<Rightarrow> length (ss_base_path site) > length (ss_base_path s)")
      case upd: True
      with 2(2) [OF _ upd] True show ?thesis by (auto split: option.splits)
    next
      case upd: False
      with 2(3) [OF _ upd] True 2(4) show ?thesis by (auto split: option.splits)
    qed
  qed
qed (auto split: option.splits)

lemma site_for_spec:
  "case backend_static_site_for (Some sites) (Some path) of
     None \<Rightarrow> \<forall>s \<in> set sites. \<not> claims_path s path | Some s \<Rightarrow> owns_path sites path s"
  using site_walk_spec [where m = None and path = path and sites = sites] by (auto simp: backend_static_site_for_def owns_path_def split: option.splits)

section \<open>Who is told they may call\<close>

definition header_line :: "string \<times> string \<Rightarrow> string" where
  "header_line h = fst h @ '': '' @ cstr (snd h) @ [CR, LF]"

text \<open>The origins of a page on this machine: scheme, host and perhaps a port.\<close>

definition loopback :: "string \<Rightarrow> bool" where
  "loopback v \<longleftrightarrow> (\<exists>scheme \<in> {''http://'', ''https://''}. \<exists>host \<in> {''localhost'', ''127.0.0.1'', ''[::1]''}. \<exists>port.
     v = scheme @ host @ port \<and> (port = [] \<or> (\<exists>ds. port = CHR '':'' # ds \<and> ds \<noteq> [] \<and> list_all is_digit ds)))"

definition port_of :: "string \<Rightarrow> bool" where
  "port_of port \<longleftrightarrow> port = [] \<or> (\<exists>ds. port = CHR '':'' # ds \<and> ds \<noteq> [] \<and> list_all is_digit ds)"

lemma host_walk_iff: "host_walk kHosts rest \<longleftrightarrow> (\<exists>host \<in> set kHosts. \<exists>port. rest = host @ port \<and> port_of port)"
proof -
  have port: "(if port = [] then True else if hd port \<noteq> CHR '':'' \<or> length port < 2 then False else list_all is_digit (tl port)) \<longleftrightarrow> port_of port" for port
    by (cases port; cases "tl port") (auto simp: port_of_def)
  show ?thesis by (auto simp: kHosts_def Let_def port starts_with_iff)
qed

lemma is_loopback_origin_iff: "is_loopback_origin v \<longleftrightarrow> loopback v"
proof -
  have e: "\<not> host_walk kHosts []" by (simp add: kHosts_def)
  have "is_loopback_origin v \<longleftrightarrow>
      (\<exists>rest. v = ''https://'' @ rest \<and> host_walk kHosts rest) \<or> (\<exists>rest. v = ''http://'' @ rest \<and> host_walk kHosts rest)"
  proof (cases "starts_with ''https://'' v")
    case True
    then obtain rest where "v = ''https://'' @ rest" by (auto simp: starts_with_iff)
    with e show ?thesis by (cases rest) (simp_all add: is_loopback_origin_def)
  next
    case https: False
    show ?thesis
    proof (cases "starts_with ''http://'' v")
      case True
      then obtain rest where "v = ''http://'' @ rest" by (auto simp: starts_with_iff)
      with e https show ?thesis by (cases rest) (auto simp: is_loopback_origin_def)
    next
      case False
      with https show ?thesis unfolding is_loopback_origin_def by (metis starts_with_append)
    qed
  qed
  also have "\<dots> \<longleftrightarrow> loopback v" unfolding host_walk_iff unfolding loopback_def port_of_def [symmetric] kHosts_def by (simp only: list.set bex_simps insert_iff empty_iff) blast
  finally show ?thesis .
qed

text \<open>The headers the policy asks for, in their order.\<close>

definition cors_headers :: "backend_cors_policy \<Rightarrow> sc_http_req \<Rightarrow> (string \<times> string) list" where
  "cors_headers policy r =
     [(''access-control-allow-credentials'', ''true''), (''vary'', if development policy then ''*'' else ''origin'')] @
     (case sc_http_header r ''origin'' of
        Some v \<Rightarrow> if development policy \<or> loopback v then [(''access-control-allow-origin'', v)] else []
      | None \<Rightarrow> if development policy then [(''access-control-allow-origin'', ''*'')] else []) @
     [(''access-control-allow-methods'', kAllowMethods)] @
     (if q_method r = ''OPTIONS''
      then (case sc_http_header r ''access-control-request-headers'' of Some h \<Rightarrow> [(''access-control-allow-headers'', h)] | None \<Rightarrow> []) @
           [(''access-control-max-age'', kMaxAge)]
      else [])"

definition adds :: "(string \<times> string) list \<Rightarrow> sc_http_req \<Rightarrow> sc_http_req" where
  "adds hs r = fold (\<lambda>(n, v) r. add_header n v r) hs r"

lemma adds_simps [simp]: "adds [] r = r" "adds ((n, v) # hs) r = adds hs (add_header n v r)" "adds (hs @ hs') r = adds hs' (adds hs r)"
  by (simp_all add: adds_def)

lemma backend_cors_adds:
  "backend_cors policy r =
     (q_method r = ''OPTIONS'',
      if q_method r = ''OPTIONS'' then put_reply 204 [] [] (adds (cors_headers policy r) r) else adds (cors_headers policy r) r)"
  unfolding backend_cors_def cors_headers_def is_loopback_origin_iff Let_def
  by (simp add: sc_http_method_is_def sc_http_reply_def split: option.split)

lemma header_add_cases:
  "add_header n v r = r \<or>
   add_header n v r = r\<lparr>q_extra := q_extra r @ header_line (n, v), q_extra_count := q_extra_count r + 1\<rparr>"
  by (simp add: sc_http_header_add_def Let_def header_line_def)

lemma adds_frame: "\<exists>e n. adds hs r = r\<lparr>q_extra := e, q_extra_count := n\<rparr>"
proof (induction hs arbitrary: r)
  case Nil
  show ?case by (rule exI [of _ "q_extra r"], rule exI [of _ "q_extra_count r"]) simp
next
  case (Cons h hs)
  obtain n v where h: "h = (n, v)" by fastforce
  from Cons [of "add_header n v r"] show ?case unfolding h
    using header_add_cases [of r n v] by (auto; blast)
qed

text \<open>Some headers may be dropped for want of room, the others stand in their order.\<close>

lemma adds_subseq: "\<exists>hs'. subseq hs' hs \<and> q_extra (adds hs r) = q_extra r @ concat (map header_line hs')"
proof (induction hs arbitrary: r)
  case (Cons h hs)
  obtain n v where h: "h = (n, v)" by fastforce
  from Cons [of "add_header n v r"] obtain hs' where s: "subseq hs' hs"
    "q_extra (adds hs (add_header n v r)) = q_extra (add_header n v r) @ concat (map header_line hs')" by blast
  from header_add_cases [of r n v] show ?case unfolding h
  proof
    assume "add_header n v r = r"
    with s show "\<exists>hs'. subseq hs' ((n, v) # hs) \<and> q_extra (adds ((n, v) # hs) r) = q_extra r @ concat (map header_line hs')"
      by (intro exI [of _ hs']) auto
  next
    assume "add_header n v r = r\<lparr>q_extra := q_extra r @ header_line (n, v), q_extra_count := q_extra_count r + 1\<rparr>"
    with s show "\<exists>hs'. subseq hs' ((n, v) # hs) \<and> q_extra (adds ((n, v) # hs) r) = q_extra r @ concat (map header_line hs')"
      by (intro exI [of _ "(n, v) # hs'"]) auto
  qed
qed auto

lemma adds_all:
  "q_extra_count r + length hs \<le> SC_HTTP_RESPONSE_HEADERS_MAX \<Longrightarrow>
   length (q_extra r) + length (concat (map header_line hs)) < EXTRA_HEADERS_MAX \<Longrightarrow>
   q_extra (adds hs r) = q_extra r @ concat (map header_line hs)"
proof (induction hs arbitrary: r)
  case (Cons h hs)
  obtain n v where h: "h = (n, v)" by fastforce
  have "add_header n v r = r\<lparr>q_extra := q_extra r @ header_line (n, v), q_extra_count := q_extra_count r + 1\<rparr>"
    using Cons.prems unfolding h by (simp add: sc_http_header_add_def Let_def header_line_def)
  with Cons.IH [of "add_header n v r"] Cons.prems show ?case unfolding h by simp
qed simp

lemma cors_headers_length: "length (cors_headers policy r) \<le> 6"
  by (simp add: cors_headers_def split: option.split)

text \<open>
  C33. The cross-origin policy. On a request without response headers yet, exactly the headers of the
  policy are added, in order - a header that does not fit is left out, the others are not. An origin is
  told it may call only in development or when it is a page on this machine: http or https, one of the
  three loopback hosts, and at most a port of digits. A preflight is answered here with an empty 204,
  any other request is passed on with nothing changed but its response headers.
\<close>

theorem cors_policy:
  assumes "q_extra r = []" and "q_extra_count r = 0" and "backend_cors policy r = (over, r')"
  shows "(\<exists>hs. subseq hs (cors_headers policy r) \<and> q_extra r' = concat (map header_line hs) \<and>
       (length (concat (map header_line (cors_headers policy r))) < EXTRA_HEADERS_MAX \<longrightarrow> hs = cors_headers policy r) \<and>
       (\<forall>v. (''access-control-allow-origin'', v) \<in> set hs \<longrightarrow> development policy \<or> sc_http_header r ''origin'' = Some v \<and> loopback v)) \<and>
     (if q_method r = ''OPTIONS'' then over \<and> q_replied r' \<and> q_status r' = 204 \<and> q_reply r' = []
      else \<not> over \<and> r'\<lparr>q_extra := [], q_extra_count := 0\<rparr> = r)"
proof -
  let ?hs = "cors_headers policy r"
  have e: "q_extra r' = q_extra (adds ?hs r)" and a: "over = (q_method r = ''OPTIONS'')"
    using assms(3) unfolding backend_cors_adds by (auto simp: put_reply_def split: if_splits)
  have only: "(''access-control-allow-origin'', v) \<in> set ?hs \<Longrightarrow> development policy \<or> sc_http_header r ''origin'' = Some v \<and> loopback v" for v
    by (auto simp: cors_headers_def split: option.splits if_splits)
  have "\<exists>hs. subseq hs ?hs \<and> q_extra r' = concat (map header_line hs) \<and>
      (length (concat (map header_line ?hs)) < EXTRA_HEADERS_MAX \<longrightarrow> hs = ?hs)"
  proof (cases "length (concat (map header_line ?hs)) < EXTRA_HEADERS_MAX")
    case True
    with adds_all [of r ?hs] cors_headers_length [of policy r] assms(1,2) show ?thesis
      unfolding e by (intro exI [of _ ?hs]) (simp add: SC_HTTP_RESPONSE_HEADERS_MAX_def)
  next
    case False
    with adds_subseq [of ?hs r] assms(1) show ?thesis unfolding e by auto
  qed
  then obtain hs where hs: "subseq hs ?hs" "q_extra r' = concat (map header_line hs)"
      "length (concat (map header_line ?hs)) < EXTRA_HEADERS_MAX \<longrightarrow> hs = ?hs" by blast
  have "\<forall>v. (''access-control-allow-origin'', v) \<in> set hs \<longrightarrow> development policy \<or> sc_http_header r ''origin'' = Some v \<and> loopback v"
    using only list_emb_set [OF hs(1)] by blast
  moreover obtain x n where "adds ?hs r = r\<lparr>q_extra := x, q_extra_count := n\<rparr>" using adds_frame by blast
  then have "if q_method r = ''OPTIONS'' then over \<and> q_replied r' \<and> q_status r' = 204 \<and> q_reply r' = []
      else \<not> over \<and> r'\<lparr>q_extra := [], q_extra_count := 0\<rparr> = r"
    using assms by (cases r) (auto simp: backend_cors_adds put_reply_def)
  ultimately show ?thesis using hs by blast
qed

section \<open>Which page answers which request\<close>

text \<open>What a path means below its site.\<close>

definition below_site :: "backend_static_site \<Rightarrow> string \<Rightarrow> string" where
  "below_site site path = dropWhile (\<lambda>c. c = CHR ''/'') (drop (length (ss_base_path site)) path)"

text \<open>
  C32. A page answers only what is its own. The static server answers a request exactly when it is a GET
  whose path belongs to a site - the one with the longest base path among those that claim it - and
  the path is the root of the site, or names a file of its table, or the client asked for HTML. The
  file at the path is sent if the table has one, else the entry page; a request it does not answer is
  handed on unchanged. With the table sorted, the binary search misses no file.
\<close>

theorem pages_answer:
  assumes "\<forall>site \<in> set sites. sorted_files (ss_files site)" and "backend_static_serve sites r = (served, r')"
  shows "if served
     then q_method r = ''GET'' \<and> (\<exists>site. owns_path sites (sc_http_path r) site \<and>
       (let path = below_site site (sc_http_path r); named = {f \<in> set (ss_files site). sf_path f = path}
        in (\<exists>f. named = {f} \<and> path \<noteq> [] \<and> r' = send_file r f) \<or>
           (path = [] \<or> named = {} \<and> wants_html r) \<and> r' = send_file r (ss_index site)))
     else r' = r \<and> (q_method r \<noteq> ''GET'' \<or> (\<forall>site \<in> set sites. \<not> claims_path site (sc_http_path r)) \<or>
       (\<exists>site. owns_path sites (sc_http_path r) site \<and> \<not> wants_html r \<and>
         below_site site (sc_http_path r) \<notin> {[]} \<union> sf_path ` set (ss_files site)))"
proof (cases "q_method r = ''GET''")
  case False
  with assms(2) show ?thesis by (auto simp: backend_static_serve_def sc_http_method_is_def)
next
  case get: True
  show ?thesis
  proof (cases "backend_static_site_for (Some sites) (Some (sc_http_path r))")
    case None
    with site_for_spec [of sites "sc_http_path r"] get assms(2) show ?thesis
      by (auto simp: backend_static_serve_def sc_http_method_is_def)
  next
    case (Some site)
    let ?path = "below_site site (sc_http_path r)" 
    have own: "owns_path sites (sc_http_path r) site" using site_for_spec [of sites "sc_http_path r"] Some by simp
    then have sf: "sorted_files (ss_files site)" using assms(1) by (simp add: owns_path_def)
    note look = file_find_iff [OF sf, of ?path]
    have serve: "(served, r') =
        (if ?path = [] then (True, send_file r (ss_index site))
         else case backend_static_file_find (Some site) (Some ?path) of
                Some file \<Rightarrow> (True, send_file r file) | None \<Rightarrow> if \<not> wants_html r then (False, r) else (True, send_file r (ss_index site)))"
      unfolding assms(2) [symmetric] backend_static_serve_def sc_http_method_is_def below_site_def Let_def Some using get
      by (simp only: simp_thms if_False if_True option.case)
    consider "?path = []" | f where "?path \<noteq> []" "backend_static_file_find (Some site) (Some ?path) = Some f"
      | "?path \<noteq> []" "backend_static_file_find (Some site) (Some ?path) = None" by (cases "backend_static_file_find (Some site) (Some ?path)") auto
    then show ?thesis
    proof cases
      case 1
      with serve get own show ?thesis by (auto simp: Let_def)
    next
      case (2 f)
      then have "g \<in> set (ss_files site) \<and> sf_path g = ?path \<longleftrightarrow> g = f" for g using look [of g] by auto
      then have "{g \<in> set (ss_files site). sf_path g = ?path} = {f}" by simp
      with 2 serve get own show ?thesis by (auto simp: Let_def)
    next
      case 3
      have "\<not> (g \<in> set (ss_files site) \<and> sf_path g = ?path)" for g using look [of g] 3(2) by simp
      then have at: "\<forall>g \<in> set (ss_files site). ?path \<noteq> sf_path g" by metis
      then have none: "{g \<in> set (ss_files site). sf_path g = ?path} = {}" by force
      have named: "?path \<notin> {[]} \<union> sf_path ` set (ss_files site)" using at 3(1) by (simp add: image_iff)
      show ?thesis
      proof (cases "wants_html r")
        case True
        with 3 none serve get own show ?thesis by (auto simp: Let_def)
      next
        case False
        with 3 serve have "\<not> served" "r' = r" by simp_all
        with False named own show ?thesis by (simp only: if_False simp_thms) blast
      qed
    qed
  qed
qed

section \<open>The server of the backend\<close>

text \<open>
  What the handlers share: the executor, its readers and the units handed to it. \<open>sc_db_submit\<close> of
  \<^verbatim>\<open>db_http.c\<close> offers a unit; \<open>deferral\<close> is what \<^verbatim>\<open>sc_http_defer\<close> answers, with the ticket, and \<open>done_fn\<close> writes the
  answer of a unit that ran in place.
\<close>

record ('c, 'u) app =
  ap_exec :: sc_db_exec
  ap_readers :: "'c sc_db list"
  ap_units :: "(nat \<times> sc_http_ticket \<times> 'u sc_db_unit) list"

definition sc_db_submit ::
  "('c, 'h, 'u) exec_env \<Rightarrow> nat \<Rightarrow> nat \<Rightarrow> sc_status \<times> sc_http_ticket \<Rightarrow> nat \<Rightarrow> ('u sc_db_unit \<Rightarrow> sc_http_req \<Rightarrow> sc_http_req) \<Rightarrow>
   ('c, 'u) app \<Rightarrow> 'u sc_db_unit \<Rightarrow> sc_http_req \<Rightarrow> sc_status \<times> sc_http_ticket option \<times> sc_http_req \<times> ('c, 'u) app" where
  "sc_db_submit env loop u deferral now done_fn w unit r =
     (case sc_db_exec_submit env (ap_exec w) (ap_readers w) loop u unit (fst deferral) now of
        Refused s \<Rightarrow> (s, None, r, w)
      | Queued ex unit' \<Rightarrow> (SC_OK, Some (snd deferral), r, w\<lparr>ap_exec := ex, ap_units := ap_units w @ [(u, snd deferral, unit')]\<rparr>)
      | Ran stop db unit' \<Rightarrow>
          (SC_OK, None, done_fn unit' r, w\<lparr>ap_readers := (ap_readers w)[if loop \<ge> loop_count (ap_exec w) then 0 else loop := db]\<rparr>))"

text \<open>What the loop calls when a parked request comes back with its unit.\<close>

definition resume_unit :: "('u sc_db_unit \<Rightarrow> sc_http_req \<Rightarrow> sc_http_req) \<Rightarrow> 'u sc_db_unit option \<Rightarrow> sc_http_req \<Rightarrow> sc_http_req" where
  "resume_unit done_fn unit r = (case unit of None \<Rightarrow> r | Some u \<Rightarrow> done_fn u r)"

definition create_route ::
  "('v, 'n) reader \<Rightarrow> bool \<Rightarrow> 64 word \<Rightarrow> sql_state \<Rightarrow> 'g \<Rightarrow>
   (('c, 'g bc_registration) app \<Rightarrow> 'g bc_registration sc_db_unit \<Rightarrow> sc_http_req \<Rightarrow>
      sc_status \<times> sc_http_ticket option \<times> sc_http_req \<times> ('c, 'g bc_registration) app) \<Rightarrow>
   ('c, 'g bc_registration) app handler" where
  "create_route rd alloc home st g submit w r =
     (case backend_user_create rd alloc home st g r of
        Inl r' \<Rightarrow> (True, None, r', w)
      | Inr unit \<Rightarrow>
          (case submit w unit r of (s, t, r', w') \<Rightarrow> (True, t, if s = SC_OK then r' else submit_refused s r', w')))"

definition SC_HTTP_HEALTH_PATH :: string where "SC_HTTP_HEALTH_PATH = ''/_health''"

definition plain :: "(sc_http_req \<Rightarrow> bool \<times> sc_http_req) \<Rightarrow> 'w handler" where
  "plain h w r = (case h r of (ok, r') \<Rightarrow> (ok, None, r', w))"

text \<open>The routes as \<^verbatim>\<open>backend_run\<close> registers them.\<close>

definition backend_server ::
  "backend_cors_policy \<Rightarrow> backend_static_site list \<Rightarrow> (nat \<Rightarrow> nat \<Rightarrow> sc_status \<times> string) option \<Rightarrow>
   ('c, 'g bc_registration) app handler \<Rightarrow> parser \<Rightarrow> ('c, 'g bc_registration) app server" where
  "backend_server policy sites peers create parser =
     \<lparr>parse = parser,
      routes = [(SC_HTTP_HEALTH_PATH, plain (sc_http_health (Some ''backend''))), (''/user/create'', create),
                (''/peer/bootstrap'', plain (\<lambda>r. (True, backend_peer_bootstrap peers True r)))],
      default_fn = Some (plain (backend_route_default sites)), before_route = Some (plain (backend_cors policy))\<rparr>"

lemma send_file_replied: "length (sf_bytes f) < 2 ^ 32 \<Longrightarrow> q_replied (send_file r f)"
  by (simp add: send_file_def Let_def sc_http_reply_def sc_http_reply_static_def put_reply_def)

lemma default_replied:
  assumes "\<forall>site \<in> set sites. \<forall>f \<in> insert (ss_index site) (set (ss_files site)). length (sf_bytes f) < 2 ^ 32"
  shows "fst (backend_route_default sites r) \<and> q_replied (snd (backend_route_default sites r))"
proof -
  have "fst (backend_static_serve sites r) \<Longrightarrow> q_replied (snd (backend_static_serve sites r))"
  proof -
    assume served: "fst (backend_static_serve sites r)"
    then obtain site where site: "backend_static_site_for (Some sites) (Some (sc_http_path r)) = Some site"
      by (auto simp: backend_static_serve_def Let_def split: if_splits option.splits)
    then have "site \<in> set sites" using site_for_spec [of sites "sc_http_path r"] by (simp add: owns_path_def)
    with assms have small: "q_replied (send_file r f)" if "f \<in> insert (ss_index site) (set (ss_files site))" for f
      using that send_file_replied by blast
    have "backend_static_file_find (Some site) (Some p) = Some f \<Longrightarrow> f \<in> set (ss_files site)" for p f
      by (auto simp: backend_static_file_find_def dest: file_walk_sound split: if_splits)
    with served small site show ?thesis by (auto simp: backend_static_serve_def Let_def split: if_splits option.splits)
  qed
  then show ?thesis by (auto simp: backend_route_default_def answers split: prod.splits)
qed

lemma bootstrap_replied:
  assumes "\<forall>fn. peers = Some fn \<longrightarrow> length (snd (fn BACKEND_BOOTSTRAP_PEERS_MAX BACKEND_BOOTSTRAP_BODY_BYTES)) \<le> REPLY_MAX"
  shows "q_replied (backend_peer_bootstrap peers True r)"
proof -
  have "length ''this server runs no peer network node'' < SC_API_ERROR_MESSAGE_MAX" by (simp add: SC_API_ERROR_MESSAGE_MAX_def)
  from reply_put [OF this, of r SC_API_PEER_NETWORK_UNAVAILABLE]
  have "q_replied (snd (sc_http_reply_peer_network_unavailable r))" by (auto simp: sc_http_reply_peer_network_unavailable_def put_reply_def)
  then show ?thesis using assms
    by (auto simp: backend_peer_bootstrap_def answers sc_peer_network_bootstrap_answer_def sc_http_reply_def put_reply_def
        split: prod.splits option.splits if_splits)
qed

text \<open>What the policy adds does not change what a request asks for.\<close>

lemma user_create_extras:
  "backend_user_create rd alloc home st g (r\<lparr>q_extra := e, q_extra_count := n\<rparr>) = Inr unit \<longleftrightarrow>
   backend_user_create rd alloc home st g r = Inr unit"
  by (simp add: backend_user_create_def sc_http_method_is_def sc_http_body_def split: option.split sum.split prod.split)

lemma create_route_spec:
  assumes "create_route rd alloc home st g (sc_db_submit env loop u deferral now registration_done) w r = (ok, t, r', w')"
  shows "ok \<and> (q_replied r' \<and> t = None \<and> w' = w \<or>
     q_method r = ''POST'' \<and> t = Some (snd deferral) \<and> r' = r \<and> (\<exists>unit ex unit'. backend_user_create rd alloc home st g r = Inr unit \<and>
       own unit' = own unit \<and> w' = w\<lparr>ap_exec := ex, ap_units := ap_units w @ [(u, snd deferral, unit')]\<rparr>))"
proof (cases "backend_user_create rd alloc home st g r")
  case (Inl x)
  with assms backend_user_create_cases [of rd alloc home st g r] show ?thesis by (auto simp: create_route_def)
next
  case (Inr unit)
  with backend_user_create_cases [of rd alloc home st g r] have w: "access unit = SC_DB_WRITE" by simp
  have m: "q_method r = ''POST''" using Inr by (auto simp: backend_user_create_def sc_http_method_is_def split: if_splits)
  show ?thesis
  proof (cases "sc_db_exec_submit env (ap_exec w) (ap_readers w) loop u unit (fst deferral) now")
    case (Ran stop db unit')
    with w show ?thesis by (simp add: sc_db_exec_submit_def Let_def split: if_splits)
  next
    case (Refused s)
    then have "s \<noteq> SC_OK" by (auto simp: sc_db_exec_submit_def Let_def split: if_splits prod.splits)
    moreover have "q_replied (submit_refused s r)" by (simp add: submit_refused_def answers)
    ultimately show ?thesis using assms Inr Refused by (simp add: create_route_def sc_db_submit_def)
  next
    case (Queued ex unit')
    then have "own unit' = own unit" by (auto simp: sc_db_exec_submit_def Let_def split: if_splits prod.splits)
    with assms Inr Queued m show ?thesis by (auto simp: create_route_def sc_db_submit_def)
  qed
qed


section \<open>Requests to the backend\<close>

definition get_req :: "string \<Rightarrow> phr_header list \<Rightarrow> sc_http_req" where
  "get_req path headers = blank_req\<lparr>q_method := ''GET'', q_path := path, q_headers := headers\<rparr>"

text \<open>A page on this machine asks a server in production.\<close>

theorem cors_policy_witness:
  "q_extra (snd (backend_cors \<lparr>development = False\<rparr> (get_req ''/x'' [(''Origin'', ''http://localhost:80'')]))) =
     concat (map header_line [(''access-control-allow-credentials'', ''true''), (''vary'', ''origin''),
       (''access-control-allow-origin'', ''http://localhost:80''), (''access-control-allow-methods'', kAllowMethods)])"
proof -
  let ?p = "\<lparr>development = False\<rparr>" and ?r = "get_req ''/x'' [(''Origin'', ''http://localhost:80'')]"
  let ?hs = "[(''access-control-allow-credentials'', ''true''), (''vary'', ''origin''),
       (''access-control-allow-origin'', ''http://localhost:80''), (''access-control-allow-methods'', kAllowMethods)]"
  have o: "sc_http_header ?r ''origin'' = Some ''http://localhost:80''" by code_simp
  have l: "loopback ''http://localhost:80''" unfolding is_loopback_origin_iff [symmetric] by code_simp
  have hs: "cors_headers ?p ?r = ?hs" using o l by (simp add: cors_headers_def get_req_def)
  have small: "length (concat (map header_line ?hs)) < EXTRA_HEADERS_MAX" by code_simp
  have "q_extra ?r = []" "q_extra_count ?r = 0" by (simp_all add: get_req_def blank_req_def)
  from cors_policy [OF this prod.collapse [symmetric], of ?p] small show ?thesis unfolding hs by auto
qed

definition page :: "string \<Rightarrow> backend_static_file" where
  "page path = \<lparr>sf_path = path, sf_bytes = ''...'', sf_content_type = ''text/plain'', sf_etag = ''e'', sf_immutable = False\<rparr>"

definition demo_site :: backend_static_site where
  "demo_site = \<lparr>ss_name = ''app'', ss_base_path = [], ss_files = map page [''a.css'', ''b.js'', ''c.html''], ss_index = page ''c.html''\<rparr>"

lemma demo_sorted: "sorted_files (ss_files demo_site)"
  unfolding sorted_files_def by code_simp

theorem pages_answer_witness:
  "snd (backend_static_serve [demo_site] (get_req ''/b.js'' [])) = send_file (get_req ''/b.js'' []) (page ''b.js'')"
proof -
  let ?r = "get_req ''/b.js'' []"
  have served: "fst (backend_static_serve [demo_site] ?r)" by code_simp
  have path: "below_site demo_site (sc_http_path ?r) = ''b.js''" by code_simp
  have named: "{f \<in> set (ss_files demo_site). sf_path f = ''b.js''} = {page ''b.js''}"
    by (auto simp: demo_site_def page_def)
  have own: "owns_path [demo_site] (sc_http_path ?r) site \<Longrightarrow> site = demo_site" for site by (simp add: owns_path_def)
  have "\<forall>site \<in> set [demo_site]. sorted_files (ss_files site)" by (simp add: demo_sorted)
  from pages_answer [OF this prod.collapse [symmetric], of ?r] served obtain site where
    s: "owns_path [demo_site] (sc_http_path ?r) site" "let path = below_site site (sc_http_path ?r); named = {f \<in> set (ss_files site). sf_path f = path}
        in (\<exists>f. named = {f} \<and> path \<noteq> [] \<and> snd (backend_static_serve [demo_site] ?r) = send_file ?r f) \<or>
           (path = [] \<or> named = {} \<and> wants_html ?r) \<and> snd (backend_static_serve [demo_site] ?r) = send_file ?r (ss_index site)"
    by auto
  from s(2) show ?thesis unfolding own [OF s(1)] path Let_def named by auto
qed

text \<open>A registration is parked under its ticket and its unit queued.\<close>

definition demo_app :: "(tables, int bc_registration) app" where
  "demo_app = \<lparr>ap_exec = \<lparr>topology = one_group, exec_kind = SC_DB_SQLITE, exec_groups = [demo_group], exec_of = [0], loop_count = 1,
     loop_group = [0], worker_count = 1\<rparr>, ap_readers = [], ap_units = []\<rparr>"

definition demo_create :: "(tables, int bc_registration) app handler" where
  "demo_create = create_route (three_fields ''Ada'') True 1 tb_slots 5 (sc_db_submit tb_env 0 7 (SC_OK, 9) 0 registration_done)"

definition demo_backend :: "(tables, int bc_registration) app server" where
  "demo_backend = backend_server \<lparr>development = False\<rparr> [demo_site] None demo_create (\<lambda>_ _. Phr_bad)"

definition create_req :: sc_http_req where
  "create_req = post_req\<lparr>q_path := ''/user/create''\<rparr>"


end
