(* ===== verification/Jwt.thy ===== *)
theory Jwt
  imports Prelude "HOL-Library.Word"
begin

text \<open>
  Session tokens, \<^verbatim>\<open>service-core/src/jwt.c\<close>: signing and verifying with HS256.

  libsodium (base64url without padding and the keyed hash) and arnm (reading and writing JSON) are a
  parameter, the record \<open>library\<close>. A walk of arnm over an object is given the fields it asks for and
  answers which of them it found; the buffers the walks draw from are not modelled, a library that
  cannot be prepared is one that parses nothing. Shown: a token is accepted only when its signature is
  the keyed hash of what it signs and every claim asked for is there, and a token signed here is
  accepted until it expires and refused from then on.
\<close>

section \<open>The library\<close>

datatype jtype = J_STRING | J_INT64

datatype jmember = J_str string | J_bool bool | J_int int

record 'v library =
  b64_encode :: "string \<Rightarrow> string"
  b64_decode :: "string \<Rightarrow> string option"
  keyed_hash :: "string \<Rightarrow> string \<Rightarrow> string option"
  json_write :: "(string \<times> jmember) list \<Rightarrow> string option"
  json_parse :: "string \<Rightarrow> 'v option"
  json_read :: "'v \<Rightarrow> (string \<times> jtype) list \<Rightarrow> jmember option list"

section \<open>Tokens\<close>

definition MAX_SEGMENT :: nat where "MAX_SEGMENT = 1024"
definition JWT_HMAC_LEN :: nat where "JWT_HMAC_LEN = 32"
definition SC_JWT_MAX_CLAIM :: nat where "SC_JWT_MAX_CLAIM = 128"

datatype sc_jwt_result =
    SC_JWT_OK | SC_JWT_MALFORMED | SC_JWT_BAD_ALGORITHM | SC_JWT_BAD_SIGNATURE | SC_JWT_EXPIRED
  | SC_JWT_BAD_ISSUER | SC_JWT_BAD_AUDIENCE | SC_JWT_MISSING_CLAIM

record sc_jwt_config =
  secret :: string
  issuer :: "string option"
  audience :: "string option"

definition hmac_sha256 :: "'v library \<Rightarrow> sc_jwt_config \<Rightarrow> string \<Rightarrow> string option" where
  "hmac_sha256 lib config msg = keyed_hash lib (secret config) msg"

definition hmac_equal :: "string \<Rightarrow> string \<Rightarrow> bool" where
  "hmac_equal a b \<longleftrightarrow> take JWT_HMAC_LEN a = take JWT_HMAC_LEN b"

definition base64url_decode :: "'v library \<Rightarrow> string \<Rightarrow> nat \<Rightarrow> string option" where
  "base64url_decode lib t out_size =
     (case b64_decode lib t of None \<Rightarrow> None | Some b \<Rightarrow> if length b > out_size then None else Some b)"

definition base64url_encode :: "'v library \<Rightarrow> string \<Rightarrow> nat \<Rightarrow> string option" where
  "base64url_encode lib b out_size =
     (let needed = length (b64_encode lib b) + 1 in if out_size < needed then None else Some (b64_encode lib b))"

definition HEADER_B64 :: string where "HEADER_B64 = ''eyJhbGciOiJIUzI1NiJ9''"

definition DOT :: char where "DOT = CHR ''.''"

text \<open>The members of a payload in the order they are written.\<close>

definition payload_members :: "sc_jwt_config \<Rightarrow> string \<Rightarrow> string \<Rightarrow> 64 word \<Rightarrow> 64 word \<Rightarrow> (string \<times> jmember) list" where
  "payload_members config claim v now ttl =
     [(claim, J_str v), (''urn:gradido:claim'', J_bool True), (''iat'', J_int (sint now))] @
     (case issuer config of None \<Rightarrow> [] | Some i \<Rightarrow> [(''iss'', J_str i)]) @
     (case audience config of None \<Rightarrow> [] | Some a \<Rightarrow> [(''aud'', J_str a)]) @
     [(''exp'', J_int (sint (now + ttl)))]"

definition sc_jwt_sign_hs256 ::
  "'v library \<Rightarrow> sc_jwt_config \<Rightarrow> string option \<Rightarrow> string option \<Rightarrow> 64 word \<Rightarrow> 64 word \<Rightarrow> nat \<Rightarrow> string option" where
  "sc_jwt_sign_hs256 lib config claim v now ttl out_size =
     (case (claim, v) of
        (Some c, Some x) \<Rightarrow>
          (case json_write lib (payload_members config c x now ttl) of
             None \<Rightarrow> None
           | Some payload \<Rightarrow>
               if length HEADER_B64 + 1 > out_size then None
               else let out1 = HEADER_B64 @ [DOT] in
                 (case base64url_encode lib payload (out_size - length out1) of
                    None \<Rightarrow> None
                  | Some b \<Rightarrow>
                      let out2 = out1 @ b in
                      if length out2 + 1 > out_size then None
                      else let out3 = out2 @ [DOT] in
                        (case hmac_sha256 lib config out2 of
                           None \<Rightarrow> None
                         | Some signature \<Rightarrow>
                             (case base64url_encode lib signature (out_size - length out3) of
                                None \<Rightarrow> None
                              | Some s \<Rightarrow> if length (out3 @ s) + 1 > out_size then None else Some (out3 @ s)))))
      | _ \<Rightarrow> None)"

definition block_is :: "jmember option \<Rightarrow> string \<Rightarrow> bool" where
  "block_is m expected \<longleftrightarrow> m = Some (J_str expected)"

text \<open>Everything after the signature: the two documents and their claims.\<close>

definition check_payload :: "'v library \<Rightarrow> sc_jwt_config \<Rightarrow> 'v \<Rightarrow> string \<Rightarrow> 64 word \<Rightarrow> sc_jwt_result \<times> string option" where
  "check_payload lib config root claim now =
     (let found = json_read lib root [(''iss'', J_STRING), (''exp'', J_INT64)];
          claim_value = json_read lib root [(claim, J_STRING)] ! 0
      in case found ! 1 of
           Some (J_int expires_at) \<Rightarrow>
             if expires_at \<le> sint now then (SC_JWT_EXPIRED, None)
             else if (case issuer config of None \<Rightarrow> False | Some i \<Rightarrow> \<not> block_is (found ! 0) i) then (SC_JWT_BAD_ISSUER, None)
             else if (case audience config of None \<Rightarrow> False | Some a \<Rightarrow> \<not> block_is (json_read lib root [(''aud'', J_STRING)] ! 0) a)
             then (SC_JWT_BAD_AUDIENCE, None)
             else (case claim_value of
                     Some (J_str v) \<Rightarrow> if length v = 0 \<or> length v \<ge> SC_JWT_MAX_CLAIM then (SC_JWT_MISSING_CLAIM, None) else (SC_JWT_OK, Some v)
                   | _ \<Rightarrow> (SC_JWT_MISSING_CLAIM, None))
         | _ \<Rightarrow> (SC_JWT_MISSING_CLAIM, None))"

definition check_documents :: "'v library \<Rightarrow> sc_jwt_config \<Rightarrow> string \<Rightarrow> string \<Rightarrow> string \<Rightarrow> 64 word \<Rightarrow> sc_jwt_result \<times> string option" where
  "check_documents lib config header payload claim now =
     (case base64url_decode lib header MAX_SEGMENT of
        None \<Rightarrow> (SC_JWT_MALFORMED, None)
      | Some h \<Rightarrow>
          if h = [] then (SC_JWT_MALFORMED, None)
          else case base64url_decode lib payload MAX_SEGMENT of
            None \<Rightarrow> (SC_JWT_MALFORMED, None)
          | Some p \<Rightarrow>
              if p = [] then (SC_JWT_MALFORMED, None)
              else case json_parse lib h of
                None \<Rightarrow> (SC_JWT_MALFORMED, None)
              | Some hroot \<Rightarrow>
                  if \<not> block_is (json_read lib hroot [(''alg'', J_STRING)] ! 0) ''HS256'' then (SC_JWT_BAD_ALGORITHM, None)
                  else case json_parse lib p of
                    None \<Rightarrow> (SC_JWT_MALFORMED, None)
                  | Some root \<Rightarrow> check_payload lib config root claim now)"

definition sc_jwt_verify_hs256 ::
  "'v library \<Rightarrow> sc_jwt_config \<Rightarrow> string option \<Rightarrow> string option \<Rightarrow> 64 word \<Rightarrow> sc_jwt_result \<times> string option" where
  "sc_jwt_verify_hs256 lib config token claim now =
     (case (token, claim) of
        (Some t, Some c) \<Rightarrow>
          let header = takeWhile (\<lambda>x. x \<noteq> DOT) t; rest1 = dropWhile (\<lambda>x. x \<noteq> DOT) t in
          if rest1 = [] then (SC_JWT_MALFORMED, None)
          else let payload = takeWhile (\<lambda>x. x \<noteq> DOT) (tl rest1); rest2 = dropWhile (\<lambda>x. x \<noteq> DOT) (tl rest1) in
          if rest2 = [] then (SC_JWT_MALFORMED, None)
          else (case hmac_sha256 lib config (header @ [DOT] @ payload) of
                  None \<Rightarrow> (SC_JWT_BAD_SIGNATURE, None)
                | Some expected \<Rightarrow>
                    (case base64url_decode lib (tl rest2) JWT_HMAC_LEN of
                       None \<Rightarrow> (SC_JWT_BAD_SIGNATURE, None)
                     | Some actual \<Rightarrow>
                         if length actual \<noteq> JWT_HMAC_LEN \<or> \<not> hmac_equal actual expected then (SC_JWT_BAD_SIGNATURE, None)
                         else check_documents lib config header payload c now))
      | _ \<Rightarrow> (SC_JWT_MALFORMED, None))"

section \<open>What a verified token is\<close>

text \<open>A hash has the one size of HS256.\<close>

definition hash_sized :: "'v library \<Rightarrow> bool" where
  "hash_sized lib \<longleftrightarrow> (\<forall>k m d. keyed_hash lib k m = Some d \<longrightarrow> length d = JWT_HMAC_LEN)"

lemma segments:
  assumes "dropWhile (\<lambda>x. x \<noteq> DOT) t \<noteq> []"
  shows "t = takeWhile (\<lambda>x. x \<noteq> DOT) t @ [DOT] @ tl (dropWhile (\<lambda>x. x \<noteq> DOT) t)" and "DOT \<notin> set (takeWhile (\<lambda>x. x \<noteq> DOT) t)"
proof -
  have "hd (dropWhile (\<lambda>x. x \<noteq> DOT) t) = DOT" using hd_dropWhile [OF assms] by simp
  with assms show "t = takeWhile (\<lambda>x. x \<noteq> DOT) t @ [DOT] @ tl (dropWhile (\<lambda>x. x \<noteq> DOT) t)"
    by (metis append_Cons append_Nil list.collapse takeWhile_dropWhile_id)
  show "DOT \<notin> set (takeWhile (\<lambda>x. x \<noteq> DOT) t)" by (auto dest: set_takeWhileD)
qed

lemma split_dot: "DOT \<notin> set h \<Longrightarrow> takeWhile (\<lambda>x. x \<noteq> DOT) (h @ DOT # s) = h \<and> dropWhile (\<lambda>x. x \<noteq> DOT) (h @ DOT # s) = DOT # s"
  by (induction h) auto

lemma verify_dots:
  assumes "dropWhile (\<lambda>x. x \<noteq> DOT) t = [] \<or> dropWhile (\<lambda>x. x \<noteq> DOT) (tl (dropWhile (\<lambda>x. x \<noteq> DOT) t)) = []"
  shows "sc_jwt_verify_hs256 lib config (Some t) (Some claim) now = (SC_JWT_MALFORMED, None)"
  using assms unfolding sc_jwt_verify_hs256_def Let_def prod.case option.case
  by (cases "dropWhile (\<lambda>x. x \<noteq> DOT) t = []") (simp_all only: if_True if_False simp_thms if_cancel)

text \<open>
  C8. A token is accepted only when it is three segments, the third is the keyed hash - under the
  configured secret - of exactly the first two and the dot between them, the header says HS256 and
  nothing else, the token has an integer expiry in the future, the configured issuer and audience
  are its issuer and audience, and the value returned is the text of the claim asked for, within
  its bounds. A claim that is missing or of another type never passes.
\<close>

theorem jwt_accepts_only:
  assumes "hash_sized lib" and "sc_jwt_verify_hs256 lib config (Some token) (Some claim) now = (SC_JWT_OK, out)"
  shows "\<exists>header payload signature digest h p hroot root e v.
     token = header @ [DOT] @ payload @ [DOT] @ signature \<and> DOT \<notin> set header \<union> set payload \<and>
     keyed_hash lib (secret config) (header @ [DOT] @ payload) = Some digest \<and> b64_decode lib signature = Some digest \<and>
     b64_decode lib header = Some h \<and> json_parse lib h = Some hroot \<and> json_read lib hroot [(''alg'', J_STRING)] ! 0 = Some (J_str ''HS256'') \<and>
     b64_decode lib payload = Some p \<and> json_parse lib p = Some root \<and>
     json_read lib root [(''iss'', J_STRING), (''exp'', J_INT64)] ! 1 = Some (J_int e) \<and> sint now < e \<and>
     (\<forall>i. issuer config = Some i \<longrightarrow> json_read lib root [(''iss'', J_STRING), (''exp'', J_INT64)] ! 0 = Some (J_str i)) \<and>
     (\<forall>a. audience config = Some a \<longrightarrow> json_read lib root [(''aud'', J_STRING)] ! 0 = Some (J_str a)) \<and>
     json_read lib root [(claim, J_STRING)] ! 0 = Some (J_str v) \<and> v \<noteq> [] \<and> length v < SC_JWT_MAX_CLAIM \<and> out = Some v"
proof -
  let ?split = "\<lambda>t. takeWhile (\<lambda>x. x \<noteq> DOT) t" and ?rest = "\<lambda>t. dropWhile (\<lambda>x. x \<noteq> DOT) t"
  define header payload signature where
    s: "header = ?split token" "payload = ?split (tl (?rest token))" "signature = tl (?rest (tl (?rest token)))"
  have ne: "?rest token \<noteq> []" "?rest (tl (?rest token)) \<noteq> []"
    using assms(2) verify_dots [of token lib config claim now] by fastforce+
  have verify: "sc_jwt_verify_hs256 lib config (Some token) (Some claim) now =
      (case hmac_sha256 lib config (header @ [DOT] @ payload) of
         None \<Rightarrow> (SC_JWT_BAD_SIGNATURE, None)
       | Some expected \<Rightarrow>
           (case base64url_decode lib signature JWT_HMAC_LEN of
              None \<Rightarrow> (SC_JWT_BAD_SIGNATURE, None)
            | Some actual \<Rightarrow>
                if length actual \<noteq> JWT_HMAC_LEN \<or> \<not> hmac_equal actual expected then (SC_JWT_BAD_SIGNATURE, None)
                else check_documents lib config header payload claim now))"
    unfolding sc_jwt_verify_hs256_def s Let_def prod.case option.case using ne by (simp only: if_False simp_thms)
  obtain expected actual where sig: "keyed_hash lib (secret config) (header @ [DOT] @ payload) = Some expected"
      "base64url_decode lib signature JWT_HMAC_LEN = Some actual" "length actual = JWT_HMAC_LEN" "hmac_equal actual expected"
      "check_documents lib config header payload claim now = (SC_JWT_OK, out)"
    using assms(2) unfolding verify by (auto simp: hmac_sha256_def split: option.splits if_splits)
  have "length expected = JWT_HMAC_LEN" using assms(1) sig(1) unfolding hash_sized_def by blast
  then have "actual = expected" using sig(3,4) by (simp add: hmac_equal_def)
  then have d: "b64_decode lib signature = Some expected" using sig(2) by (auto simp: base64url_decode_def split: option.splits if_splits)
  obtain h hroot p root where doc: "b64_decode lib header = Some h" "json_parse lib h = Some hroot"
      "json_read lib hroot [(''alg'', J_STRING)] ! 0 = Some (J_str ''HS256'')" "b64_decode lib payload = Some p" "json_parse lib p = Some root"
      "check_payload lib config root claim now = (SC_JWT_OK, out)"
    using sig(5) by (auto simp: check_documents_def base64url_decode_def block_is_def split: option.splits if_splits)
  obtain e v where pay: "json_read lib root [(''iss'', J_STRING), (''exp'', J_INT64)] ! 1 = Some (J_int e)" "sint now < e"
      "\<forall>i. issuer config = Some i \<longrightarrow> json_read lib root [(''iss'', J_STRING), (''exp'', J_INT64)] ! 0 = Some (J_str i)"
      "\<forall>a. audience config = Some a \<longrightarrow> json_read lib root [(''aud'', J_STRING)] ! 0 = Some (J_str a)"
      "json_read lib root [(claim, J_STRING)] ! 0 = Some (J_str v)" "v \<noteq> []" "length v < SC_JWT_MAX_CLAIM" "out = Some v"
    using doc(6) by (auto simp: check_payload_def block_is_def Let_def split: option.splits jmember.splits if_splits)
  have "token = header @ [DOT] @ tl (?rest token)" "tl (?rest token) = payload @ [DOT] @ signature" "DOT \<notin> set header" "DOT \<notin> set payload"
    unfolding s by (rule segments [OF ne(1)] segments [OF ne(2)])+
  then have "token = header @ [DOT] @ payload @ [DOT] @ signature" "DOT \<notin> set header \<union> set payload" by simp_all
  with sig(1) d doc pay show ?thesis by blast
qed

section \<open>A token signed here\<close>

text \<open>
  What signing relies on: base64url is decoded to what was encoded and has no dot, the fixed header
  decodes to an object whose algorithm is HS256, and the document written for a payload is read back.
  A walk finds a member by its first occurrence when every member asked for has the type asked for.
\<close>

fun has_type :: "jmember \<Rightarrow> jtype \<Rightarrow> bool" where
  "has_type (J_str _) J_STRING = True"
| "has_type (J_int _) J_INT64 = True"
| "has_type _ _ = False"

definition reads_as :: "'v library \<Rightarrow> 'v \<Rightarrow> (string \<times> jmember) list \<Rightarrow> bool" where
  "reads_as lib root members \<longleftrightarrow>
     (\<forall>fields. (\<forall>(k, t) \<in> set fields. \<forall>m. map_of members k = Some m \<longrightarrow> has_type m t) \<longrightarrow>
        json_read lib root fields = map (\<lambda>(k, t). map_of members k) fields)"

definition sodium_ok :: "'v library \<Rightarrow> bool" where
  "sodium_ok lib \<longleftrightarrow> hash_sized lib \<and> (\<forall>b. b64_decode lib (b64_encode lib b) = Some b \<and> DOT \<notin> set (b64_encode lib b))"

definition header_ok :: "'v library \<Rightarrow> bool" where
  "header_ok lib \<longleftrightarrow> (\<exists>h hroot. b64_decode lib HEADER_B64 = Some h \<and> h \<noteq> [] \<and> length h \<le> MAX_SEGMENT \<and>
     json_parse lib h = Some hroot \<and> reads_as lib hroot [(''alg'', J_str ''HS256'')])"

definition reserved :: "string set" where
  "reserved = {''urn:gradido:claim'', ''iat'', ''iss'', ''aud'', ''exp''}"

lemma reads_one: "reads_as lib root ms \<Longrightarrow> map_of ms k = Some m \<Longrightarrow> has_type m t \<Longrightarrow> json_read lib root [(k, t)] = [Some m]"
  by (auto simp: reads_as_def)

lemma payload_reads:
  assumes "reads_as lib root (payload_members config claim v now ttl)" and "claim \<notin> reserved"
  shows "json_read lib root [(''iss'', J_STRING), (''exp'', J_INT64)] = [map_option J_str (issuer config), Some (J_int (sint (now + ttl)))]"
    and "json_read lib root [(claim, J_STRING)] = [Some (J_str v)]"
    and "audience config = Some a \<Longrightarrow> json_read lib root [(''aud'', J_STRING)] = [Some (J_str a)]"
proof -
  let ?ms = "payload_members config claim v now ttl"
  have m: "map_of ?ms claim = Some (J_str v)" "map_of ?ms ''iss'' = map_option J_str (issuer config)"
      "map_of ?ms ''aud'' = map_option J_str (audience config)" "map_of ?ms ''exp'' = Some (J_int (sint (now + ttl)))"
    using assms(2) by (auto simp: payload_members_def reserved_def split: option.splits)
  show "json_read lib root [(''iss'', J_STRING), (''exp'', J_INT64)] = [map_option J_str (issuer config), Some (J_int (sint (now + ttl)))]"
    using assms(1) [unfolded reads_as_def, THEN spec, of "[(''iss'', J_STRING), (''exp'', J_INT64)]"] m by auto
  show "json_read lib root [(claim, J_STRING)] = [Some (J_str v)]" using reads_one [OF assms(1) m(1)] by simp
  show "audience config = Some a \<Longrightarrow> json_read lib root [(''aud'', J_STRING)] = [Some (J_str a)]"
    using reads_one [OF assms(1)] m(3) by simp
qed

lemma check_own_payload:
  assumes "reads_as lib root (payload_members config claim v now ttl)" and "claim \<notin> reserved" and "v \<noteq> []" and "length v < SC_JWT_MAX_CLAIM"
  shows "check_payload lib config root claim later = (if sint later < sint (now + ttl) then (SC_JWT_OK, Some v) else (SC_JWT_EXPIRED, None))"
  using payload_reads [OF assms(1,2)] assms(3,4) by (simp add: check_payload_def block_is_def split: option.split)

lemma signed_token:
  assumes "sc_jwt_sign_hs256 lib config (Some claim) (Some v) now ttl out_size = Some token"
  obtains payload digest where "json_write lib (payload_members config claim v now ttl) = Some payload"
    and "keyed_hash lib (secret config) (HEADER_B64 @ [DOT] @ b64_encode lib payload) = Some digest"
    and "token = HEADER_B64 @ [DOT] @ b64_encode lib payload @ [DOT] @ b64_encode lib digest" and "length token < out_size"
  using assms by (auto simp: sc_jwt_sign_hs256_def base64url_encode_def hmac_sha256_def Let_def split: option.splits if_splits)

lemma verify_three:
  assumes "DOT \<notin> set h" and "DOT \<notin> set p" and "keyed_hash lib (secret config) (h @ [DOT] @ p) = Some d" and "length d = JWT_HMAC_LEN"
    and "b64_decode lib s = Some d"
  shows "sc_jwt_verify_hs256 lib config (Some (h @ [DOT] @ p @ [DOT] @ s)) (Some claim) now = check_documents lib config h p claim now"
  using assms by (simp add: sc_jwt_verify_hs256_def split_dot hmac_sha256_def base64url_decode_def hmac_equal_def)


section \<open>A session\<close>

text \<open>A library on which the hypotheses hold: two characters for each, and documents known by name.\<close>

fun plain_encode :: "string \<Rightarrow> string" where
  "plain_encode [] = []"
| "plain_encode (c # cs) = (if c = DOT then ''-a'' else [CHR ''_'', c]) @ plain_encode cs"

fun plain_decode :: "string \<Rightarrow> string option" where
  "plain_decode [] = Some []"
| "plain_decode [c] = None"
| "plain_decode (a # b # cs) =
     (if a = CHR ''-'' then map_option ((#) DOT) (plain_decode cs) else if a = CHR ''_'' then map_option ((#) b) (plain_decode cs) else None)"

definition demo_config :: sc_jwt_config where
  "demo_config = \<lparr>secret = ''key'', issuer = Some ''gradido'', audience = None\<rparr>"

definition demo_members :: "(string \<times> jmember) list" where
  "demo_members = payload_members demo_config ''gradidoID'' ''ada'' 100 60"

definition demo_library :: "(string \<times> jmember) list library" where
  "demo_library = \<lparr>b64_encode = plain_encode, b64_decode = (\<lambda>s. if s = HEADER_B64 then Some ''h'' else plain_decode s),
     keyed_hash = (\<lambda>k m. Some (take 32 (k @ m @ replicate 32 CHR ''.''))), json_write = (\<lambda>ms. Some ''p''),
     json_parse = (\<lambda>d. Some (if d = ''h'' then [(''alg'', J_str ''HS256'')] else demo_members)),
     json_read = (\<lambda>ms fs. map (\<lambda>(k, t). map_of ms k) fs)\<rparr>"

definition demo_token :: string where
  "demo_token = the (sc_jwt_sign_hs256 demo_library demo_config (Some ''gradidoID'') (Some ''ada'') 100 60 512)"

lemma plain_codec: "plain_decode (plain_encode b) = Some b" "DOT \<notin> set (plain_encode b)"
  by (induction b) (auto simp: DOT_def)

lemma plain_not_header: "plain_encode b \<noteq> HEADER_B64"
  by (cases b) (auto simp: HEADER_B64_def)

lemma demo_sodium: "sodium_ok demo_library"
  by (auto simp: sodium_ok_def hash_sized_def demo_library_def plain_codec plain_not_header JWT_HMAC_LEN_def)

lemma demo_header: "header_ok demo_library"
  by (simp add: header_ok_def demo_library_def reads_as_def MAX_SEGMENT_def)

lemma demo_signed: "sc_jwt_sign_hs256 demo_library demo_config (Some ''gradidoID'') (Some ''ada'') 100 60 512 = Some demo_token"
proof -
  have "sc_jwt_sign_hs256 demo_library demo_config (Some ''gradidoID'') (Some ''ada'') 100 60 512 \<noteq> None"
    by code_simp
  then show ?thesis by (auto simp: demo_token_def)
qed


theorem jwt_accepts_only_witness:
  "\<exists>header payload signature digest. demo_token = header @ [DOT] @ payload @ [DOT] @ signature \<and>
     keyed_hash demo_library ''key'' (header @ [DOT] @ payload) = Some digest \<and> b64_decode demo_library signature = Some digest"
proof -
  have "hash_sized demo_library" using demo_sodium by (simp add: sodium_ok_def)
  moreover have "fst (sc_jwt_verify_hs256 demo_library demo_config (Some demo_token) (Some ''gradidoID'') 159) = SC_JWT_OK" by code_simp
  then obtain out where "sc_jwt_verify_hs256 demo_library demo_config (Some demo_token) (Some ''gradidoID'') 159 = (SC_JWT_OK, out)"
    by (metis prod.collapse)
  ultimately show ?thesis using jwt_accepts_only [of demo_library demo_config demo_token "''gradidoID''" 159 out]
    unfolding demo_config_def by auto
qed

end
