(* ===== verification/PublicUrl.thy ===== *)
theory PublicUrl
  imports Prelude "HOL-Library.Word"
begin

unbundle bit_operations_syntax

text \<open>
  \<^verbatim>\<open>service-core/src/public_url.c\<close>: whether a URL names a host on the public internet. Reading a numeric
  address is libuv's \<^verbatim>\<open>uv_inet_pton\<close> and a parameter. The judgement on bytes and characters is shown to
  be the one on address blocks and labels.
\<close>

section \<open>The host of a URL\<close>

definition HOST_MAX :: nat where "HOST_MAX = 256"

text \<open>What follows the first \<^verbatim>\<open>://\<close>.\<close>

fun after_scheme :: "string \<Rightarrow> string option" where
  "after_scheme [] = None"
| "after_scheme (c # cs) = (if starts_with ''://'' (c # cs) then Some (drop 2 cs) else after_scheme cs)"

text \<open>The walk that leaves \<^verbatim>\<open>start\<close> behind the last at sign.\<close>

fun at_walk :: "string \<Rightarrow> string \<Rightarrow> string" where
  "at_walk start [] = start"
| "at_walk start (c # cs) = at_walk (if c = CHR ''@'' then cs else start) cs"

definition host_of :: "string \<Rightarrow> string option" where
  "host_of url =
     (case after_scheme url of
        None \<Rightarrow> None
      | Some rest \<Rightarrow>
          let authority = takeWhile (\<lambda>c. c \<notin> {CHR ''/'', CHR ''?'', CHR ''#''}) rest;
              start = at_walk authority authority
          in if start \<noteq> [] \<and> hd start = CHR ''['' \<and> CHR '']'' \<notin> set start then None
             else let host = (if start \<noteq> [] \<and> hd start = CHR ''['' then takeWhile (\<lambda>c. c \<noteq> CHR '']'') start @ [CHR '']'']
                              else takeWhile (\<lambda>c. c \<noteq> CHR '':'') start)
                  in if length host = 0 \<or> length host \<ge> HOST_MAX \<or> length host = 2 \<and> hd host = CHR ''['' then None
                     else Some (map ascii_lower host))"

section \<open>Addresses and names\<close>

definition is_public_ipv4 :: "8 word list \<Rightarrow> bool" where
  "is_public_ipv4 a \<longleftrightarrow>
     \<not> (a ! 0 = 0 \<or> a ! 0 = 10 \<or> a ! 0 = 127 \<or> a ! 0 \<ge> 224 \<or>
        (a ! 0 = 100 \<and> a ! 1 \<ge> 64 \<and> a ! 1 \<le> 127) \<or> (a ! 0 = 169 \<and> a ! 1 = 254) \<or>
        (a ! 0 = 172 \<and> a ! 1 \<ge> 16 \<and> a ! 1 \<le> 31) \<or> (a ! 0 = 192 \<and> a ! 1 = 168))"

definition is_public_ipv6 :: "8 word list \<Rightarrow> bool" where
  "is_public_ipv6 a =
     (if take 15 a = replicate 15 0 \<and> (a ! 15 = 0 \<or> a ! 15 = 1) then False
      else if take 10 a = replicate 10 0 \<and> a ! 10 = 0xff \<and> a ! 11 = 0xff then is_public_ipv4 (drop 12 a)
      else \<not> ((a ! 0) AND 0xfe = 0xfc \<or> (a ! 0 = 0xfe \<and> (a ! 1) AND 0xc0 = 0x80) \<or> a ! 0 = 0xff))"

definition all_of :: "string \<Rightarrow> string \<Rightarrow> bool" where
  "all_of s chars = list_all (\<lambda>c. c \<in> set chars) s"

definition kPrivate :: "string list" where
  "kPrivate = [''localhost'', ''local'', ''internal'', ''test'', ''example'', ''invalid'']"

text \<open>How many labels there are, and where the last but one and the last begin.\<close>

fun label_walk :: "string \<Rightarrow> nat \<Rightarrow> nat \<times> nat option \<times> nat \<Rightarrow> nat \<times> nat option \<times> nat" where
  "label_walk [] i st = st"
| "label_walk (c # cs) i (labels, previous, last0) =
     label_walk cs (i + 1) (if c = CHR ''.'' then (labels + 1, Some last0, i + 1) else (labels, previous, last0))"

definition is_public_name :: "string \<Rightarrow> bool" where
  "is_public_name host0 =
     (let host = (if host0 \<noteq> [] \<and> last host0 = CHR ''.'' then butlast host0 else host0)
      in if host = [] \<or> hd host = CHR ''.'' \<or> last host = CHR ''.'' \<or> contains ''..'' host then False
         else let (labels, previous, last0) = label_walk host 0 (1, None, 0); final = drop last0 host
              in if labels < 2 then False
                 else if all_of final ''0123456789'' \<or> length final \<ge> 2 \<and> final ! 0 = CHR ''0'' \<and> final ! 1 = CHR ''x'' \<and>
                         all_of (drop 2 final) ''0123456789abcdef'' then False
                 else if final \<in> set kPrivate then False
                 else \<not> (final = ''arpa'' \<and> (case previous of None \<Rightarrow> False | Some p \<Rightarrow> take (last0 - 1 - p) (drop p host) = ''home'')))"

definition sc_url_is_public :: "(string \<Rightarrow> 8 word list option) \<Rightarrow> (string \<Rightarrow> 8 word list option) \<Rightarrow> string option \<Rightarrow> bool" where
  "sc_url_is_public pton4 pton6 url =
     (case url of
        None \<Rightarrow> False
      | Some u \<Rightarrow>
          (case host_of u of
             None \<Rightarrow> False
           | Some host \<Rightarrow>
               if CHR ''%'' \<in> set host then False
               else if hd host = CHR ''['' then (case pton6 (tl (butlast host)) of None \<Rightarrow> False | Some a \<Rightarrow> is_public_ipv6 a)
               else (case pton4 host of Some a \<Rightarrow> is_public_ipv4 a | None \<Rightarrow> is_public_name host)))"

section \<open>Blocks of addresses\<close>

text \<open>An address as a number, and the blocks that are not routed: first address and prefix length.\<close>

definition address :: "8 word list \<Rightarrow> nat" where
  "address a = ((unat (a ! 0) * 256 + unat (a ! 1)) * 256 + unat (a ! 2)) * 256 + unat (a ! 3)"

definition in_block :: "nat \<Rightarrow> nat \<times> nat \<Rightarrow> bool" where
  "in_block n b \<longleftrightarrow> n div 2 ^ (32 - snd b) = fst b div 2 ^ (32 - snd b)"

definition dotted :: "nat \<Rightarrow> nat \<Rightarrow> nat" where
  "dotted a b = (a * 256 + b) * 2 ^ 16"

definition private_blocks :: "(nat \<times> nat) set" where
  "private_blocks = {(dotted 0 0, 8), (dotted 10 0, 8), (dotted 100 64, 10), (dotted 127 0, 8), (dotted 169 254, 16),
     (dotted 172 16, 12), (dotted 192 168, 16), (dotted 224 0, 3)}"

lemma address_div:
  fixes a b c d :: nat
  assumes "a < 256" "b < 256" "c < 256" "d < 256"
  defines "n \<equiv> ((a * 256 + b) * 256 + c) * 256 + d"
  shows "n div 16777216 = a" and "n div 65536 = a * 256 + b" and "n div 4194304 = a * 4 + b div 64"
    and "n div 1048576 = a * 16 + b div 16" and "n div 536870912 = a div 32"
proof -
  have low: "n div 65536 = a * 256 + b" using assms(3,4) unfolding n_def by simp
  then show "n div 65536 = a * 256 + b" .
  have more: "n div (65536 * k) = (a * 256 + b) div k" for k by (simp add: div_mult2_eq low)
  show "n div 16777216 = a" using more [of 256] assms(2) by simp
  show "n div 4194304 = a * 4 + b div 64" using more [of 64] by simp
  show "n div 1048576 = a * 16 + b div 16" using more [of 16] by simp
  show "n div 536870912 = a div 32" using more [of 8192] assms(2) by simp
qed

lemma byte_pairs:
  fixes x y :: nat
  assumes "y < 256"
  shows "x * 256 + y = 43518 \<longleftrightarrow> x = 169 \<and> y = 254" and "x * 256 + y = 49320 \<longleftrightarrow> x = 192 \<and> y = 168"
    and "x * 4 + y div 64 = 401 \<longleftrightarrow> x = 100 \<and> 64 \<le> y \<and> y \<le> 127" and "x * 16 + y div 16 = 2753 \<longleftrightarrow> x = 172 \<and> 16 \<le> y \<and> y \<le> 31"
proof -
  have q: "y div 64 < 4" "y div 16 < 16" "y div 64 = 1 \<longleftrightarrow> 64 \<le> y \<and> y \<le> 127" "y div 16 = 1 \<longleftrightarrow> 16 \<le> y \<and> y \<le> 31" using assms by auto
  have "x * 4 + q = 401 \<longleftrightarrow> x = 100 \<and> q = 1" if "q < 4" for q using that by presburger
  with q show "x * 4 + y div 64 = 401 \<longleftrightarrow> x = 100 \<and> 64 \<le> y \<and> y \<le> 127" by simp
  have "x * 16 + q = 2753 \<longleftrightarrow> x = 172 \<and> q = 1" if "q < 16" for q using that by presburger
  with q show "x * 16 + y div 16 = 2753 \<longleftrightarrow> x = 172 \<and> 16 \<le> y \<and> y \<le> 31" by simp
  show "x * 256 + y = 43518 \<longleftrightarrow> x = 169 \<and> y = 254" "x * 256 + y = 49320 \<longleftrightarrow> x = 192 \<and> y = 168" using assms by presburger+
qed

lemma high_byte: "x < 256 \<Longrightarrow> x div 32 = 7 \<longleftrightarrow> 224 \<le> x" for x :: nat
  by auto

lemma ipv4_blocks:
  assumes "length a = 4"
  shows "is_public_ipv4 a \<longleftrightarrow> (\<forall>b \<in> private_blocks. \<not> in_block (address a) b)"
proof -
  let ?a = "unat (a ! 0)" and ?b = "unat (a ! 1)"
  have r: "unat (w :: 8 word) < 256" for w using unsigned_less [of w] by simp
  note d = address_div [OF r r r r, of "a ! 0" "a ! 1" "a ! 2" "a ! 3", folded address_def]
  have "is_public_ipv4 a \<longleftrightarrow> \<not> (?a = 0 \<or> ?a = 10 \<or> ?a = 127 \<or> ?a \<ge> 224 \<or> (?a = 100 \<and> 64 \<le> ?b \<and> ?b \<le> 127) \<or> (?a = 169 \<and> ?b = 254) \<or>
      (?a = 172 \<and> 16 \<le> ?b \<and> ?b \<le> 31) \<or> (?a = 192 \<and> ?b = 168))"
    by (simp add: is_public_ipv4_def word_unat_eq_iff word_le_nat_alt)
  also have "\<dots> \<longleftrightarrow> (\<forall>b \<in> private_blocks. \<not> in_block (address a) b)"
    using byte_pairs [OF r, of ?a "a ! 1"] high_byte [OF r, of "a ! 0"] by (simp add: private_blocks_def in_block_def dotted_def d) blast
  finally show ?thesis .
qed

section \<open>Labels of a name\<close>

fun labels_of :: "string \<Rightarrow> string list" where
  "labels_of [] = [[]]"
| "labels_of (c # cs) = (if c = CHR ''.'' then [] # labels_of cs else (c # hd (labels_of cs)) # tl (labels_of cs))"

lemma labels_of_nonempty [simp]: "labels_of s \<noteq> []"
  by (cases s) auto

lemma labels_dots: "length (labels_of s) = Suc (length (filter (\<lambda>c. c = CHR ''.'') s))"
  by (induction s) auto

text \<open>A name has an empty label exactly when it begins or ends with a dot or has two in a row.\<close>

lemma first_label: "hd (labels_of s) = takeWhile (\<lambda>c. c \<noteq> CHR ''.'') s"
  by (induction s) auto

lemma first_label_empty: "hd (labels_of s) = [] \<longleftrightarrow> s = [] \<or> hd s = CHR ''.''"
  by (cases s) (auto simp: first_label)

lemma later_label_empty: "[] \<in> set (tl (labels_of s)) \<longleftrightarrow> s \<noteq> [] \<and> last s = CHR ''.'' \<or> contains ''..'' s"
proof (induction s)
  case (Cons c cs)
  have "[] \<in> set (labels_of cs) \<longleftrightarrow> hd (labels_of cs) = [] \<or> [] \<in> set (tl (labels_of cs))" by (cases "labels_of cs") auto
  moreover have "starts_with ''.'' cs \<longleftrightarrow> cs \<noteq> [] \<and> hd cs = CHR ''.''" by (cases cs) auto
  ultimately show ?case using Cons.IH by (auto simp: first_label_empty)
qed simp

lemma empty_label: "[] \<in> set (labels_of s) \<longleftrightarrow> s = [] \<or> hd s = CHR ''.'' \<or> last s = CHR ''.'' \<or> contains ''..'' s"
proof -
  have "[] \<in> set (labels_of s) \<longleftrightarrow> hd (labels_of s) = [] \<or> [] \<in> set (tl (labels_of s))" by (cases "labels_of s") auto
  then show ?thesis by (auto simp: first_label_empty later_label_empty)
qed

text \<open>The indices of the walk point at the last two labels.\<close>

definition points_at :: "string \<Rightarrow> nat \<times> nat option \<times> nat \<Rightarrow> bool" where
  "points_at s st \<longleftrightarrow> (case st of (n, previous, final) \<Rightarrow>
     n = length (labels_of s) \<and> final \<le> length s \<and> drop final s = last (labels_of s) \<and>
     (case previous of None \<Rightarrow> n = 1 | Some p \<Rightarrow> 2 \<le> n \<and> take (final - 1 - p) (drop p s) = labels_of s ! (n - 2)))"

lemma labels_snoc:
  "labels_of (s @ [c]) = (if c = CHR ''.'' then labels_of s @ [[]] else butlast (labels_of s) @ [last (labels_of s) @ [c]])"
proof (induction s)
  case (Cons d s)
  then show ?case by (cases "labels_of s") (auto split: if_splits)
qed simp

lemma label_walk_snoc: "label_walk (s @ [c]) i st = label_walk [c] (i + length s) (label_walk s i st)"
  by (induction s i st rule: label_walk.induct) auto

lemma label_walk_points: "points_at s (label_walk s 0 (1, None, 0))"
proof (induction s rule: rev_induct)
  case (snoc c s)
  obtain n previous final where w: "label_walk s 0 (1, None, 0) = (n, previous, final)" by (metis prod_cases3)
  with snoc have p: "n = length (labels_of s)" "final \<le> length s" "drop final s = last (labels_of s)"
      "case previous of None \<Rightarrow> n = 1 | Some q \<Rightarrow> 2 \<le> n \<and> take (final - 1 - q) (drop q s) = labels_of s ! (n - 2)"
    by (auto simp: points_at_def)
  have last: "labels_of s ! (length (labels_of s) - 1) = last (labels_of s)" by (simp add: last_conv_nth)
  show ?case
  proof (cases "c = CHR ''.''")
    case True
    have "take (length s - final) (drop final (s @ [c])) = drop final s" using p(2) by simp
    moreover have "Suc 0 \<le> length (labels_of s)" by (simp add: Suc_le_eq)
    ultimately show ?thesis using True p last w by (simp add: points_at_def label_walk_snoc labels_snoc nth_append)
  next
    case False
    have "take (final - 1 - q) (drop q (s @ [c])) = take (final - 1 - q) (drop q s)" for q using p(2) by auto
    with False p w show ?thesis by (auto simp: points_at_def label_walk_snoc labels_snoc nth_append nth_butlast split: option.splits)
  qed
qed (simp add: points_at_def)

section \<open>What counts as public\<close>

text \<open>A name is public by its labels: at least two, none empty, the last neither a number nor reserved.\<close>

definition public_labels :: "string list \<Rightarrow> bool" where
  "public_labels ls \<longleftrightarrow> 2 \<le> length ls \<and> [] \<notin> set ls \<and> \<not> list_all (\<lambda>c. c \<in> set ''0123456789'') (last ls) \<and>
     \<not> (\<exists>ds. last ls = ''0x'' @ ds \<and> list_all (\<lambda>c. c \<in> set ''0123456789abcdef'') ds) \<and>
     last ls \<notin> {''localhost'', ''local'', ''internal'', ''test'', ''example'', ''invalid''} \<and>
     \<not> (last ls = ''arpa'' \<and> ls ! (length ls - 2) = ''home'')"

definition without_root :: "string \<Rightarrow> string" where
  "without_root host = (if host \<noteq> [] \<and> last host = CHR ''.'' then butlast host else host)"

lemma hex_label:
  "length f \<ge> 2 \<and> f ! 0 = CHR ''0'' \<and> f ! 1 = CHR ''x'' \<and> all_of (drop 2 f) hs \<longleftrightarrow> (\<exists>ds. f = ''0x'' @ ds \<and> list_all (\<lambda>c. c \<in> set hs) ds)"
  by (cases f; cases "tl f") (auto simp: all_of_def)

lemma public_name_labels: "is_public_name host = public_labels (labels_of (without_root host))"
proof -
  let ?h = "without_root host" and ?ls = "labels_of (without_root host)"
  obtain n previous final where w: "label_walk ?h 0 (1, None, 0) = (n, previous, final)" by (metis prod_cases3)
  with label_walk_points [of ?h] have p: "n = length ?ls" "drop final ?h = last ?ls"
      "case previous of None \<Rightarrow> n = 1 | Some q \<Rightarrow> 2 \<le> n \<and> take (final - 1 - q) (drop q ?h) = ?ls ! (n - 2)" by (auto simp: points_at_def)
  have name: "is_public_name host \<longleftrightarrow> [] \<notin> set ?ls \<and> 2 \<le> length ?ls \<and>
      \<not> (all_of (last ?ls) ''0123456789'' \<or> (\<exists>ds. last ?ls = ''0x'' @ ds \<and> list_all (\<lambda>c. c \<in> set ''0123456789abcdef'') ds)) \<and>
      last ?ls \<notin> set kPrivate \<and> \<not> (last ?ls = ''arpa'' \<and> (case previous of None \<Rightarrow> False | Some q \<Rightarrow> take (final - 1 - q) (drop q ?h) = ''home''))"
    unfolding is_public_name_def without_root_def [symmetric] Let_def w prod.case empty_label [symmetric] p(2) hex_label p(1)
    by (simp only: not_less [symmetric] if_bool_eq_conj) blast
  show ?thesis
  proof (cases "2 \<le> length ?ls")
    case True
    then obtain q where "previous = Some q" "take (final - 1 - q) (drop q ?h) = ?ls ! (length ?ls - 2)" using p by (cases previous) auto
    with name True show ?thesis by (auto simp: public_labels_def all_of_def kPrivate_def)
  qed (simp add: name public_labels_def)
qed


definition demo_pton4 :: "string \<Rightarrow> 8 word list option" where
  "demo_pton4 t = (if t = ''172.20.0.1'' then Some [172, 20, 0, 1] else None)"

lemma demo_hosts: "host_of ''https://x@Gdd.Gradido.NET:443/a'' = Some ''gdd.gradido.net''" "host_of ''http://172.20.0.1/'' = Some ''172.20.0.1''"
  by code_simp+


end
