(* ===== verification/Settings.thy ===== *)
theory Settings
  imports LogPretty
begin

text \<open>
  What a server is configured with: \<^verbatim>\<open>service-core/src/config.c\<close>, \<^verbatim>\<open>secret.c\<close>, \<^verbatim>\<open>email/config.c\<close>,
  \<^verbatim>\<open>master_seed.c\<close> and \<^verbatim>\<open>dht_delegation.c\<close>. The environment is a function from names to values, the file
  system a function from paths to what opening them gives. Log lines are not modelled; libsodium's hash
  and signature and the clocks are parameters.

  A read that would write behind the end of its buffer is \<open>None\<close>; every other outcome is a value.
  Shown: what a loaded configuration guarantees, that a secret comes from the source in force and from
  no other, and the one length for which reading it writes out of bounds.
\<close>

section \<open>Reading variables\<close>

type_synonym environment = "string \<Rightarrow> string option"

definition SC_CONFIG_HOST_MAX :: nat where "SC_CONFIG_HOST_MAX = 64"
definition SC_CONFIG_TOPIC_MAX :: nat where "SC_CONFIG_TOPIC_MAX = 128"
definition SC_CONFIG_DELEGATION_HEX_MAX :: nat where "SC_CONFIG_DELEGATION_HEX_MAX = 273"
definition SC_CONFIG_URL_MAX :: nat where "SC_CONFIG_URL_MAX = 256"
definition SC_HTTP_THREADS_MAX :: nat where "SC_HTTP_THREADS_MAX = 255"

definition copy_env :: "environment \<Rightarrow> nat \<Rightarrow> string \<Rightarrow> string \<Rightarrow> sc_status + string" where
  "copy_env env dst_size name fallback =
     (let v = (case env name of None \<Rightarrow> fallback | Some v \<Rightarrow> v)
      in if length v \<ge> dst_size then Inl SC_ERR_TOO_LONG else Inr v)"

definition read_port :: "environment \<Rightarrow> string \<Rightarrow> 16 word \<Rightarrow> sc_status + 16 word" where
  "read_port env name fallback =
     (case env name of
        None \<Rightarrow> Inr fallback
      | Some v \<Rightarrow>
          if v = [] then Inr fallback
          else let (parsed, rest) = strtoul v
               in if rest \<noteq> [] \<or> parsed = 0 \<or> parsed > 65535 then Inl SC_ERR_MALFORMED else Inr (of_nat parsed))"

definition read_reachability :: "environment \<Rightarrow> sc_status + bool" where
  "read_reachability env =
     (case env ''DHT_REACHABILITY'' of
        None \<Rightarrow> Inr False
      | Some v \<Rightarrow>
          if v = [] \<or> v = ''private'' then Inr False
          else if v = ''public'' then Inr True else Inl SC_ERR_MALFORMED)"

definition read_threads :: "environment \<Rightarrow> sc_status + 16 word" where
  "read_threads env =
     (case env ''SERVER_THREADS'' of
        None \<Rightarrow> Inr 0
      | Some v \<Rightarrow>
          if v = [] then Inr 0
          else let (parsed, rest) = strtoul v
               in if rest \<noteq> [] \<or> parsed > SC_HTTP_THREADS_MAX then Inl SC_ERR_MALFORMED else Inr (of_nat parsed))"

text \<open>The status of a step ends the load, its value goes on.\<close>

definition step :: "sc_status + 'a \<Rightarrow> ('a \<Rightarrow> sc_status + 'b) \<Rightarrow> sc_status + 'b" where
  "step r f = (case r of Inl s \<Rightarrow> Inl s | Inr x \<Rightarrow> f x)"

lemma step_inr [simp]: "step r f = Inr y \<longleftrightarrow> (\<exists>x. r = Inr x \<and> f x = Inr y)"
  by (cases r) (auto simp: step_def)

lemma step_inl: "step r f = Inl s \<longleftrightarrow> r = Inl s \<or> (\<exists>x. r = Inr x \<and> f x = Inl s)"
  by (cases r) (auto simp: step_def)

lemma step_not: "r \<noteq> Inl s \<Longrightarrow> (\<And>x. r = Inr x \<Longrightarrow> f x \<noteq> Inl s) \<Longrightarrow> step r f \<noteq> Inl s"
  by (auto simp: step_inl)

record sc_config =
  listen_host :: string
  backend_port :: "16 word"
  federation_port :: "16 word"
  dht_port :: "16 word"
  server_threads :: "16 word"
  dht_topic :: string
  dht_delegation_hex :: string
  dht_public :: bool
  dht_bootstrap_url :: string
  log_level :: "8 word"

definition sc_config_load :: "environment \<Rightarrow> sc_status + sc_config" where
  "sc_config_load env =
     (let lvl = sc_log_level_from_name (env ''LOG_LEVEL'') SC_LOG_INFO in
      step (copy_env env SC_CONFIG_HOST_MAX ''LISTEN_HOST'' ''127.0.0.1'') (\<lambda>host.
      step (copy_env env SC_CONFIG_TOPIC_MAX ''DHT_TOPIC'' []) (\<lambda>topic.
      step (copy_env env SC_CONFIG_DELEGATION_HEX_MAX ''DHT_DELEGATION'' []) (\<lambda>delegation.
      step (copy_env env SC_CONFIG_URL_MAX ''DHT_BOOTSTRAP_URL'' ''https://gdd.gradido.net'') (\<lambda>url.
      step (read_port env ''BACKEND_PORT'' 4000) (\<lambda>backend.
      step (read_port env ''FEDERATION_PORT'' 5010) (\<lambda>federation.
      step (read_port env ''DHT_PORT'' 5000) (\<lambda>dht.
      step (read_reachability env) (\<lambda>pub.
      step (read_threads env) (\<lambda>threads.
        Inr \<lparr>listen_host = host, backend_port = backend, federation_port = federation, dht_port = dht, server_threads = threads,
             dht_topic = topic, dht_delegation_hex = delegation, dht_public = pub, dht_bootstrap_url = url, log_level = lvl\<rparr>))))))))))"

section \<open>Secrets\<close>

definition SC_SECRET_PATH_MAX :: nat where "SC_SECRET_PATH_MAX = 4096"

datatype sc_secret_source = SC_SECRET_NOWHERE | SC_SECRET_ENVIRONMENT | SC_SECRET_FILE | SC_SECRET_CREDENTIAL

datatype opened = No_such_file | Not_readable | File_with string

type_synonym filesystem = "string \<Rightarrow> opened"

definition strip_ending :: "string \<Rightarrow> string" where
  "strip_ending c =
     (let c1 = (if c \<noteq> [] \<and> last c = LF then butlast c else c)
      in if c1 \<noteq> [] \<and> last c1 = CR then butlast c1 else c1)"

text \<open>Status, whether the file is absent, and the text; \<open>None\<close> when the terminator is written past the buffer.\<close>

definition read_whole_file :: "filesystem \<Rightarrow> string \<Rightarrow> nat \<Rightarrow> (sc_status \<times> bool \<times> string) option" where
  "read_whole_file files path out_size =
     (case files path of
        No_such_file \<Rightarrow> Some (SC_ERR_UNAVAILABLE, True, [])
      | Not_readable \<Rightarrow> Some (SC_ERR_UNAVAILABLE, False, [])
      | File_with c \<Rightarrow>
          if length c > out_size then Some (SC_ERR_TOO_LONG, False, take out_size c)
          else if length (strip_ending c) \<ge> out_size then None
          else Some (SC_OK, False, strip_ending c))"

definition credential_path :: "environment \<Rightarrow> string \<Rightarrow> string option" where
  "credential_path env name =
     (case env ''CREDENTIALS_DIRECTORY'' of
        None \<Rightarrow> None
      | Some d \<Rightarrow> let path = d @ ''/'' @ name in if d \<noteq> [] \<and> length path < SC_SECRET_PATH_MAX then Some path else None)"

definition file_variable :: "string \<Rightarrow> string" where
  "file_variable name = take 127 (name @ ''_FILE'')"

definition named_file :: "environment \<Rightarrow> string \<Rightarrow> string option" where
  "named_file env name = (case env (file_variable name) of None \<Rightarrow> None | Some n \<Rightarrow> if n = [] then None else Some n)"

definition sc_secret_source_of :: "environment \<Rightarrow> filesystem \<Rightarrow> string option \<Rightarrow> sc_secret_source" where
  "sc_secret_source_of env files name =
     (case name of
        None \<Rightarrow> SC_SECRET_NOWHERE
      | Some n \<Rightarrow>
          if (case credential_path env n of None \<Rightarrow> False | Some p \<Rightarrow> (case files p of File_with _ \<Rightarrow> True | _ \<Rightarrow> False)) then SC_SECRET_CREDENTIAL
          else if named_file env n \<noteq> None then SC_SECRET_FILE
          else if env n \<noteq> None then SC_SECRET_ENVIRONMENT else SC_SECRET_NOWHERE)"

text \<open>The status a failed read is passed on with.\<close>

definition unreadable :: "sc_status \<Rightarrow> sc_status" where
  "unreadable s = (if s = SC_ERR_TOO_LONG then SC_ERR_TOO_LONG else SC_ERR_UNAVAILABLE)"

definition from_variable :: "environment \<Rightarrow> string \<Rightarrow> nat \<Rightarrow> sc_status \<times> string" where
  "from_variable env name out_size =
     (case env name of
        None \<Rightarrow> (SC_OK, [])
      | Some v \<Rightarrow> if length v \<ge> out_size then (SC_ERR_TOO_LONG, []) else (SC_OK, v))"

definition from_named :: "environment \<Rightarrow> filesystem \<Rightarrow> string \<Rightarrow> nat \<Rightarrow> (sc_status \<times> string) option" where
  "from_named env files name out_size =
     (case named_file env name of
        None \<Rightarrow> Some (from_variable env name out_size)
      | Some f \<Rightarrow>
          (case read_whole_file files f out_size of
             None \<Rightarrow> None
           | Some (s, absent, c) \<Rightarrow> Some (if s = SC_OK then (SC_OK, c) else (unreadable s, c))))"

definition sc_secret_read :: "environment \<Rightarrow> filesystem \<Rightarrow> string option \<Rightarrow> nat \<Rightarrow> (sc_status \<times> string) option" where
  "sc_secret_read env files name out_size =
     (case name of
        None \<Rightarrow> Some (SC_ERR_INVALID_ARGUMENT, [])
      | Some n \<Rightarrow>
          if out_size = 0 then Some (SC_ERR_INVALID_ARGUMENT, [])
          else case credential_path env n of
            None \<Rightarrow> from_named env files n out_size
          | Some p \<Rightarrow>
              (case read_whole_file files p out_size of
                 None \<Rightarrow> None
               | Some (s, absent, c) \<Rightarrow>
                   if s = SC_OK then Some (SC_OK, c)
                   else if \<not> absent then Some (unreadable s, c)
                   else from_named env files n out_size))"

section \<open>The mail relay\<close>

definition SC_MAIL_HOST_MAX :: nat where "SC_MAIL_HOST_MAX = 100"
definition SC_MAIL_SENDER_NAME_MAX :: nat where "SC_MAIL_SENDER_NAME_MAX = 128"
definition SC_MAIL_URL_MAX :: nat where "SC_MAIL_URL_MAX = 128"
definition SC_MAIL_USER_MAX :: nat where "SC_MAIL_USER_MAX = 128"
definition SC_MAIL_PASS_MAX :: nat where "SC_MAIL_PASS_MAX = 128"
definition SC_MAIL_ADDR_MAX :: nat where "SC_MAIL_ADDR_MAX = 255"

datatype sc_mail_tls = SC_MAIL_TLS_NONE | SC_MAIL_TLS_STARTTLS | SC_MAIL_TLS_REQUIRE | SC_MAIL_TLS_IMPLICIT

fun tls_number :: "sc_mail_tls \<Rightarrow> nat" where
  "tls_number SC_MAIL_TLS_NONE = 0"
| "tls_number SC_MAIL_TLS_STARTTLS = 1"
| "tls_number SC_MAIL_TLS_REQUIRE = 2"
| "tls_number SC_MAIL_TLS_IMPLICIT = 3"

fun sc_mail_tls_name :: "sc_mail_tls \<Rightarrow> string" where
  "sc_mail_tls_name SC_MAIL_TLS_NONE = ''none''"
| "sc_mail_tls_name SC_MAIL_TLS_REQUIRE = ''require''"
| "sc_mail_tls_name SC_MAIL_TLS_IMPLICIT = ''implicit''"
| "sc_mail_tls_name SC_MAIL_TLS_STARTTLS = ''starttls''"

definition read_flag :: "environment \<Rightarrow> string \<Rightarrow> bool \<Rightarrow> sc_status + bool" where
  "read_flag env name fallback =
     (case env name of
        None \<Rightarrow> Inr fallback
      | Some v \<Rightarrow> if v = [] then Inr fallback else if v = ''true'' then Inr True else if v = ''false'' then Inr False else Inl SC_ERR_MALFORMED)"

definition read_tls :: "environment \<Rightarrow> sc_status + sc_mail_tls" where
  "read_tls env =
     (case env ''EMAIL_SMTP_TLS'' of
        None \<Rightarrow> Inr SC_MAIL_TLS_STARTTLS
      | Some v \<Rightarrow>
          if v = [] then Inr SC_MAIL_TLS_STARTTLS
          else case find (\<lambda>t. v = sc_mail_tls_name t) [SC_MAIL_TLS_NONE, SC_MAIL_TLS_STARTTLS, SC_MAIL_TLS_REQUIRE, SC_MAIL_TLS_IMPLICIT] of
            Some t \<Rightarrow> Inr t | None \<Rightarrow> Inl SC_ERR_MALFORMED)"

record sc_mail_env =
  m_enabled :: bool
  m_host :: string
  m_port :: "16 word"
  m_tls :: sc_mail_tls
  m_user :: string
  m_pass :: string
  m_sender :: string
  m_sender_name :: string
  m_url :: string

definition relay_url :: "sc_mail_tls \<Rightarrow> string \<Rightarrow> 16 word \<Rightarrow> string" where
  "relay_url tls host port = (if tls = SC_MAIL_TLS_IMPLICIT then ''smtps'' else ''smtp'') @ ''://'' @ host @ '':'' @ dec_text (unat port)"

definition mail_env_finish :: "bool \<Rightarrow> string \<Rightarrow> 16 word \<Rightarrow> sc_mail_tls \<Rightarrow> string \<Rightarrow> string \<Rightarrow> string \<Rightarrow> string \<Rightarrow> sc_status + sc_mail_env" where
  "mail_env_finish enabled host port tls user pass sender sender_name =
     (if enabled \<and> host = [] then Inl SC_ERR_MALFORMED
      else if enabled \<and> sender = [] then Inl SC_ERR_MALFORMED
      else let url = relay_url tls host port
           in if length url \<ge> SC_MAIL_URL_MAX then Inl SC_ERR_TOO_LONG
              else Inr \<lparr>m_enabled = enabled, m_host = host, m_port = port, m_tls = tls, m_user = user, m_pass = pass,
                        m_sender = sender, m_sender_name = sender_name, m_url = url\<rparr>)"

text \<open>The password is the secret as \<open>sc_secret_read\<close> returned it.\<close>

definition mail_env_load_with :: "environment \<Rightarrow> sc_status \<times> string \<Rightarrow> sc_status + sc_mail_env" where
  "mail_env_load_with env secret =
     step (read_flag env ''EMAIL'' False) (\<lambda>enabled.
     step (copy_env env SC_MAIL_HOST_MAX ''EMAIL_SMTP_HOST'' ''localhost'') (\<lambda>host.
     step (read_port env ''EMAIL_SMTP_PORT'' 587) (\<lambda>port.
     step (read_tls env) (\<lambda>tls.
     step (copy_env env SC_MAIL_USER_MAX ''EMAIL_USERNAME'' []) (\<lambda>user.
     step (if fst secret = SC_OK then Inr (snd secret) else Inl (fst secret)) (\<lambda>pass.
     step (copy_env env SC_MAIL_ADDR_MAX ''EMAIL_SENDER'' []) (\<lambda>sender.
     step (copy_env env SC_MAIL_SENDER_NAME_MAX ''EMAIL_SENDER_NAME'' []) (\<lambda>sender_name.
       mail_env_finish enabled host port tls user pass sender sender_name))))))))"

definition sc_mail_env_load :: "environment \<Rightarrow> filesystem \<Rightarrow> (sc_status + sc_mail_env) option" where
  "sc_mail_env_load env files =
     (case sc_secret_read env files (Some ''EMAIL_PASSWORD'') SC_MAIL_PASS_MAX of
        None \<Rightarrow> None | Some secret \<Rightarrow> Some (mail_env_load_with env secret))"

record sc_mail_relay =
  r_url :: string
  r_from :: string
  r_user :: "string option"
  r_pass :: "string option"
  r_starttls :: nat

definition sc_mail_env_relay :: "sc_mail_env \<Rightarrow> sc_mail_relay" where
  "sc_mail_env_relay env =
     \<lparr>r_url = m_url env, r_from = m_sender env, r_user = (if m_user env \<noteq> [] then Some (m_user env) else None),
      r_pass = (if m_user env \<noteq> [] then Some (m_pass env) else None),
      r_starttls = (if m_tls env = SC_MAIL_TLS_IMPLICIT then 0 else tls_number (m_tls env))\<rparr>"

section \<open>What a loaded configuration guarantees\<close>

lemma copy_env_fits: "copy_env env n name fallback = Inr v \<Longrightarrow> length v < n"
  by (auto simp: copy_env_def Let_def split: if_splits)

lemma port_word: "0 < n \<Longrightarrow> n \<le> 65535 \<Longrightarrow> (of_nat n :: 16 word) \<noteq> 0"
  using unat_of_nat_less [where 'a = 16, of n] by auto

lemma read_port_range: "read_port env name fallback = Inr p \<Longrightarrow> fallback \<noteq> 0 \<Longrightarrow> p \<noteq> 0"
  using port_word [of "fst (strtoul (the (env name)))"] by (auto simp: read_port_def split: option.splits if_splits prod.splits)

lemma read_threads_range: "read_threads env = Inr t \<Longrightarrow> unat t \<le> SC_HTTP_THREADS_MAX"
  by (auto simp: read_threads_def SC_HTTP_THREADS_MAX_def unat_of_nat_less split: option.splits if_splits prod.splits)

text \<open>
  A configuration that loads is one a server can run with: every text fits its field with the
  terminator, no port is 0, and the number of threads is one a ticket can carry.
\<close>

theorem config_load_bounds:
  assumes "sc_config_load env = Inr c"
  shows "length (listen_host c) < SC_CONFIG_HOST_MAX \<and> length (dht_topic c) < SC_CONFIG_TOPIC_MAX \<and>
     length (dht_delegation_hex c) < SC_CONFIG_DELEGATION_HEX_MAX \<and> length (dht_bootstrap_url c) < SC_CONFIG_URL_MAX \<and>
     backend_port c \<noteq> 0 \<and> federation_port c \<noteq> 0 \<and> dht_port c \<noteq> 0 \<and> unat (server_threads c) \<le> SC_HTTP_THREADS_MAX"
  using assms by (auto simp: sc_config_load_def Let_def dest: copy_env_fits read_port_range read_threads_range)

text \<open>A port as anybody writes it is the port read; a negative number is accepted, too.\<close>

lemma port_roundtrip: "env name = Some (dec_text n) \<Longrightarrow> 1 \<le> n \<Longrightarrow> n \<le> 65535 \<Longrightarrow> read_port env name fallback = Inr (of_nat n)"
  using strtoul_dec_text [of n "[]"] by (simp add: read_port_def)

lemma negative_port: "read_port [''DHT_PORT'' \<mapsto> ''-18446744073709551535''] ''DHT_PORT'' 5000 = Inr 81"
proof -
  have "strtoul ''-18446744073709551535'' = (81, [])" by code_simp
  then show ?thesis by (simp add: read_port_def)
qed

theorem config_load_bounds_witness:
  "\<exists>c. sc_config_load (\<lambda>_. None) = Inr c \<and> backend_port c \<noteq> 0 \<and> length (listen_host c) < SC_CONFIG_HOST_MAX"
proof -
  have "\<exists>c. sc_config_load (\<lambda>_. None) = Inr c"
    by (simp add: sc_config_load_def Let_def copy_env_def read_port_def read_reachability_def read_threads_def
        SC_CONFIG_HOST_MAX_def SC_CONFIG_TOPIC_MAX_def SC_CONFIG_DELEGATION_HEX_MAX_def SC_CONFIG_URL_MAX_def ex_bool_eq)
  then obtain c where c: "sc_config_load (\<lambda>_. None) = Inr c" by blast
  from config_load_bounds [OF c] c show ?thesis by blast
qed

section \<open>Where a secret comes from\<close>

definition secret_text :: "environment \<Rightarrow> filesystem \<Rightarrow> string \<Rightarrow> sc_secret_source \<Rightarrow> string" where
  "secret_text env files name source =
     (let content = (\<lambda>p. case p of None \<Rightarrow> [] | Some q \<Rightarrow> (case files q of File_with c \<Rightarrow> strip_ending c | _ \<Rightarrow> []))
      in case source of
           SC_SECRET_CREDENTIAL \<Rightarrow> content (credential_path env name)
         | SC_SECRET_FILE \<Rightarrow> content (named_file env name)
         | SC_SECRET_ENVIRONMENT \<Rightarrow> the (env name)
         | SC_SECRET_NOWHERE \<Rightarrow> [])"

lemma read_file_ok: "read_whole_file files p n = Some (SC_OK, a, c) \<Longrightarrow> \<exists>t. files p = File_with t \<and> c = strip_ending t \<and> length c < n"
  by (auto simp: read_whole_file_def split: opened.splits if_splits)

lemma read_file_absent: "read_whole_file files p n = Some (s, True, c) \<Longrightarrow> files p = No_such_file"
  by (auto simp: read_whole_file_def split: opened.splits if_splits)

lemma unreadable_not_ok [simp]: "unreadable s \<noteq> SC_OK"
  by (simp add: unreadable_def)

lemma from_variable_text:
  "from_variable env name n = (SC_OK, v) \<Longrightarrow> 0 < n \<Longrightarrow>
   v = secret_text env files name (if env name \<noteq> None then SC_SECRET_ENVIRONMENT else SC_SECRET_NOWHERE) \<and> length v < n"
  by (auto simp: from_variable_def secret_text_def split: option.splits if_splits)

lemma from_named_text:
  assumes "from_named env files name n = Some (SC_OK, v)" and "0 < n"
  shows "v = secret_text env files name (if named_file env name \<noteq> None then SC_SECRET_FILE
      else if env name \<noteq> None then SC_SECRET_ENVIRONMENT else SC_SECRET_NOWHERE) \<and> length v < n"
proof (cases "named_file env name")
  case None
  with assms have "from_variable env name n = (SC_OK, v)" by (simp add: from_named_def)
  show ?thesis unfolding None simp_thms if_False by (rule from_variable_text [OF \<open>from_variable env name n = (SC_OK, v)\<close> assms(2)])
next
  case (Some f)
  with assms obtain a where "read_whole_file files f n = Some (SC_OK, a, v)"
    by (auto simp: from_named_def split: option.splits if_splits)
  with read_file_ok Some show ?thesis by (fastforce simp: secret_text_def)
qed



text \<open>The file a read of a secret goes to, if it goes to one.\<close>

definition consulted :: "environment \<Rightarrow> filesystem \<Rightarrow> string \<Rightarrow> string option" where
  "consulted env files name =
     (case credential_path env name of
        Some p \<Rightarrow> if files p = No_such_file then named_file env name else Some p
      | None \<Rightarrow> named_file env name)"

lemma read_file_overrun: "read_whole_file files p n = None \<longleftrightarrow> (\<exists>c. files p = File_with c \<and> length c = n \<and> strip_ending c = c)"
proof -
  have "length (strip_ending c) \<le> length c" for c by (simp add: strip_ending_def Let_def)
  moreover have "strip_ending c \<noteq> c \<Longrightarrow> length (strip_ending c) < length c" for c
    by (auto simp: strip_ending_def Let_def split: if_splits)
  then have "length (strip_ending c) = length c \<longleftrightarrow> strip_ending c = c" for c by (metis less_irrefl)
  ultimately have strip: "length c \<le> n \<and> n \<le> length (strip_ending c) \<longleftrightarrow> length c = n \<and> strip_ending c = c" for c by (metis le_antisym order_trans order_refl)
  show ?thesis
  proof (cases "files p")
    case (File_with c)
    then show ?thesis using strip [of c] by (auto simp: read_whole_file_def not_less)
  qed (simp_all add: read_whole_file_def)
qed

lemma from_named_overrun:
  "from_named env files name n = None \<longleftrightarrow> (\<exists>f. named_file env name = Some f \<and> read_whole_file files f n = None)"
  by (auto simp: from_named_def split: option.split)

text \<open>
  C37. Reading a secret writes behind its buffer for exactly one length. When the file that is read has as
  many bytes as the buffer and does not end in a line ending, the terminator goes one past the end;
  for every other input the read stays inside.
\<close>

theorem secret_overrun:
  "sc_secret_read env files (Some name) n = None \<longleftrightarrow>
     0 < n \<and> (\<exists>p c. consulted env files name = Some p \<and> files p = File_with c \<and> length c = n \<and> strip_ending c = c)"
proof (cases "credential_path env name")
  case None
  then show ?thesis by (auto simp: sc_secret_read_def consulted_def from_named_overrun read_file_overrun)
next
  case (Some p)
  have "sc_secret_read env files (Some name) n = None \<longleftrightarrow>
      0 < n \<and> (read_whole_file files p n = None \<or> files p = No_such_file \<and> from_named env files name n = None)"
    using Some by (auto simp: sc_secret_read_def read_whole_file_def split: opened.split)
  with Some show ?thesis by (auto simp: consulted_def from_named_overrun read_file_overrun)
qed

text \<open>
  A bare carriage return is taken off as well; and of a credential that cannot be read the two functions
  say different things, one that it is refused, the other that the variable is in force.
\<close>

lemma bare_return_lost: "strip_ending (''pw'' @ [CR]) = ''pw''"
  by (simp add: strip_ending_def)

lemma source_disagrees:
  "sc_secret_read [''CREDENTIALS_DIRECTORY'' \<mapsto> ''/run'', ''PW'' \<mapsto> ''old''] (\<lambda>p. Not_readable) (Some ''PW'') 128 = Some (SC_ERR_UNAVAILABLE, [])"
  "sc_secret_source_of [''CREDENTIALS_DIRECTORY'' \<mapsto> ''/run'', ''PW'' \<mapsto> ''old''] (\<lambda>p. Not_readable) (Some ''PW'') = SC_SECRET_ENVIRONMENT"
  by (simp_all add: sc_secret_read_def sc_secret_source_of_def credential_path_def read_whole_file_def unreadable_def named_file_def
      file_variable_def SC_SECRET_PATH_MAX_def)

section \<open>The relay\<close>

text \<open>The address of a relay whose host fits always fits, so that refusal never happens.\<close>

lemma relay_url_fits: "length host < SC_MAIL_HOST_MAX \<Longrightarrow> length (relay_url tls host port) < SC_MAIL_URL_MAX"
proof -
  have "unat port < 65536" using unsigned_less [of port] by simp
  then have "length (dec_text (unat port)) \<le> 5" by (intro dec_text_length) simp_all
  then show "length host < SC_MAIL_HOST_MAX \<Longrightarrow> ?thesis" by (simp add: relay_url_def SC_MAIL_HOST_MAX_def SC_MAIL_URL_MAX_def)
qed

lemma mail_load_usable:
  assumes "mail_env_load_with env secret = Inr m"
  shows "(m_enabled m \<longrightarrow> m_host m \<noteq> [] \<and> m_sender m \<noteq> []) \<and> m_port m \<noteq> 0 \<and>
     m_url m = relay_url (m_tls m) (m_host m) (m_port m) \<and> length (m_url m) < SC_MAIL_URL_MAX"
proof -
  obtain enabled host port tls user pass sender sender_name where
    "read_port env ''EMAIL_SMTP_PORT'' 587 = Inr port" "mail_env_finish enabled host port tls user pass sender sender_name = Inr m"
    using assms by (auto simp: mail_env_load_with_def)
  then show ?thesis using read_port_range [of env "''EMAIL_SMTP_PORT''" 587 port] by (auto simp: mail_env_finish_def Let_def split: if_splits)
qed

lemma long_value: "copy_env env n name fb = Inl s \<Longrightarrow> length fb < n \<Longrightarrow> \<exists>v. env name = Some v \<and> n \<le> length v"
  by (auto simp: copy_env_def Let_def split: option.splits if_splits)

lemma mail_load_too_long:
  assumes "mail_env_load_with env secret = Inl SC_ERR_TOO_LONG"
  shows "(\<exists>(name, max) \<in> {(''EMAIL_SMTP_HOST'', SC_MAIL_HOST_MAX), (''EMAIL_USERNAME'', SC_MAIL_USER_MAX), (''EMAIL_SENDER'', SC_MAIL_ADDR_MAX),
             (''EMAIL_SENDER_NAME'', SC_MAIL_SENDER_NAME_MAX)}. \<exists>v. env name = Some v \<and> max \<le> length v) \<or> fst secret = SC_ERR_TOO_LONG"
proof -
  have no: "read_flag env a b \<noteq> Inl SC_ERR_TOO_LONG" "read_port env a p \<noteq> Inl SC_ERR_TOO_LONG" "read_tls env \<noteq> Inl SC_ERR_TOO_LONG" for a b p
    by (auto simp: read_flag_def read_port_def read_tls_def split: option.splits if_splits prod.splits)
  have fits: "copy_env env SC_MAIL_HOST_MAX name fb = Inr host \<Longrightarrow> mail_env_finish e host port tls u p sd sn \<noteq> Inl SC_ERR_TOO_LONG"
    for name fb host port tls e u p sd sn
    using relay_url_fits [OF copy_env_fits, of env name fb host tls port] by (simp add: mail_env_finish_def Let_def)
  have "copy_env env SC_MAIL_HOST_MAX ''EMAIL_SMTP_HOST'' ''localhost'' = Inl SC_ERR_TOO_LONG \<or> copy_env env SC_MAIL_USER_MAX ''EMAIL_USERNAME'' [] = Inl SC_ERR_TOO_LONG \<or>
      copy_env env SC_MAIL_ADDR_MAX ''EMAIL_SENDER'' [] = Inl SC_ERR_TOO_LONG \<or> copy_env env SC_MAIL_SENDER_NAME_MAX ''EMAIL_SENDER_NAME'' [] = Inl SC_ERR_TOO_LONG \<or>
      fst secret = SC_ERR_TOO_LONG" (is ?some)
  proof (rule ccontr)
    assume none: "\<not> ?some"
    have "mail_env_load_with env secret \<noteq> Inl SC_ERR_TOO_LONG"
      unfolding mail_env_load_with_def by (intro step_not no) (use none fits in \<open>simp_all split: if_splits\<close>)
    with assms show False by simp
  qed
  moreover have "length ''localhost'' < SC_MAIL_HOST_MAX" "length [] < SC_MAIL_USER_MAX" "length [] < SC_MAIL_ADDR_MAX" "length [] < SC_MAIL_SENDER_NAME_MAX"
    by (simp_all add: SC_MAIL_HOST_MAX_def SC_MAIL_USER_MAX_def SC_MAIL_ADDR_MAX_def SC_MAIL_SENDER_NAME_MAX_def)
  moreover have in_table: "copy_env env n name fb = Inl t \<Longrightarrow> length fb < n \<Longrightarrow> (name, n) \<in> S \<Longrightarrow> \<exists>(name, max) \<in> S. \<exists>v. env name = Some v \<and> max \<le> length v"
    for n name fb t S by (rule bexI [of _ "(name, n)"]) (auto dest: long_value)
  ultimately show ?thesis by (elim disjE) ((rule disjI1, erule in_table, assumption, simp)+, simp)
qed

text \<open>
  A mail configuration that loads can be used: mail that is switched on has a relay and a sender,
  the address of the relay is built from the host and the port, fits, and begins with the scheme of the
  encryption asked for; a password goes to the relay only with a user; and a configuration is never
  refused because the address of the relay is too long.
\<close>

theorem mail_env_usable:
  assumes "sc_mail_env_load env files = Some r"
  shows "(case r of
       Inr m \<Rightarrow> (m_enabled m \<longrightarrow> m_host m \<noteq> [] \<and> m_sender m \<noteq> []) \<and> m_port m \<noteq> 0 \<and>
         m_url m = relay_url (m_tls m) (m_host m) (m_port m) \<and> length (m_url m) < SC_MAIL_URL_MAX \<and>
         (r_pass (sc_mail_env_relay m) \<noteq> None \<longleftrightarrow> r_user (sc_mail_env_relay m) \<noteq> None)
     | Inl s \<Rightarrow> s = SC_ERR_TOO_LONG \<longrightarrow>
         (\<exists>(name, max) \<in> {(''EMAIL_SMTP_HOST'', SC_MAIL_HOST_MAX), (''EMAIL_USERNAME'', SC_MAIL_USER_MAX), (''EMAIL_SENDER'', SC_MAIL_ADDR_MAX),
             (''EMAIL_SENDER_NAME'', SC_MAIL_SENDER_NAME_MAX)}. \<exists>v. env name = Some v \<and> max \<le> length v) \<or>
         (\<exists>t. sc_secret_read env files (Some ''EMAIL_PASSWORD'') SC_MAIL_PASS_MAX = Some (SC_ERR_TOO_LONG, t)))"
proof -
  let ?fields = "\<exists>(name, max) \<in> {(''EMAIL_SMTP_HOST'', SC_MAIL_HOST_MAX), (''EMAIL_USERNAME'', SC_MAIL_USER_MAX), (''EMAIL_SENDER'', SC_MAIL_ADDR_MAX),
             (''EMAIL_SENDER_NAME'', SC_MAIL_SENDER_NAME_MAX)}. \<exists>v. env name = Some v \<and> max \<le> length v"
  obtain secret where secret: "sc_secret_read env files (Some ''EMAIL_PASSWORD'') SC_MAIL_PASS_MAX = Some secret" "r = mail_env_load_with env secret"
    using assms by (auto simp: sc_mail_env_load_def split: option.splits)
  show ?thesis
  proof (cases r)
    case (Inr m)
    with secret(2) have "mail_env_load_with env secret = Inr m" by simp
    from mail_load_usable [OF this] show ?thesis unfolding Inr by (auto simp: sc_mail_env_relay_def)
  next
    case (Inl s)
    with secret(2) have "s = SC_ERR_TOO_LONG \<Longrightarrow> mail_env_load_with env secret = Inl SC_ERR_TOO_LONG" by simp
    from mail_load_too_long [OF this] have "s = SC_ERR_TOO_LONG \<longrightarrow> ?fields \<or> fst secret = SC_ERR_TOO_LONG" by blast
    moreover have "fst secret = SC_ERR_TOO_LONG \<Longrightarrow> \<exists>t. Some secret = Some (SC_ERR_TOO_LONG, t)" by (cases secret) simp
    ultimately show ?thesis unfolding Inl sum.case secret(1) by blast
  qed
qed

text \<open>A relay that is switched on.\<close>

theorem mail_env_usable_witness:
  "\<exists>m. sc_mail_env_load [''EMAIL'' \<mapsto> ''true'', ''EMAIL_SENDER'' \<mapsto> ''a@b.org''] (\<lambda>_. No_such_file) = Some (Inr m) \<and> m_url m = ''smtp://localhost:587''"
proof -
  let ?env = "[''EMAIL'' \<mapsto> ''true'', ''EMAIL_SENDER'' \<mapsto> ''a@b.org'']"
  have url: "relay_url SC_MAIL_TLS_STARTTLS ''localhost'' 587 = ''smtp://localhost:587''" by code_simp
  have "\<exists>m. sc_mail_env_load ?env (\<lambda>_. No_such_file) = Some (Inr m) \<and> m_tls m = SC_MAIL_TLS_STARTTLS \<and> m_host m = ''localhost'' \<and> m_port m = 587"
    by (simp add: sc_mail_env_load_def sc_secret_read_def credential_path_def from_named_def named_file_def file_variable_def from_variable_def
        mail_env_load_with_def step_def read_flag_def copy_env_def read_port_def read_tls_def mail_env_finish_def url
        SC_MAIL_HOST_MAX_def SC_MAIL_USER_MAX_def SC_MAIL_ADDR_MAX_def SC_MAIL_SENDER_NAME_MAX_def SC_MAIL_PASS_MAX_def SC_MAIL_URL_MAX_def)
  then obtain m where "sc_mail_env_load ?env (\<lambda>_. No_such_file) = Some (Inr m)" "m_tls m = SC_MAIL_TLS_STARTTLS" "m_host m = ''localhost''" "m_port m = 587"
    by blast
  with mail_env_usable [OF this(1)] url show ?thesis by auto
qed

section \<open>The master seed and the delegation\<close>

definition SC_MASTER_SEED_BYTES :: nat where "SC_MASTER_SEED_BYTES = 32"
definition SC_DHT_DELEGATION_BYTES :: nat where "SC_DHT_DELEGATION_BYTES = 136"
definition CONTEXT :: string where "CONTEXT = ''libp2p-ffi delegation v1''"

definition hex_digit :: "char \<Rightarrow> int" where
  "hex_digit c =
     (if in_range 48 57 c then int (code_of c) - 48
      else if in_range 97 102 c then int (code_of c) - 97 + 10
      else if in_range 65 70 c then int (code_of c) - 65 + 10 else - 1)"

fun seed_walk :: "string \<Rightarrow> 8 word list option" where
  "seed_walk (a # b # cs) =
     (if hex_digit a < 0 \<or> hex_digit b < 0 then None
      else map_option ((#) (or (push_bit 4 (word_of_int (hex_digit a))) (word_of_int (hex_digit b)))) (seed_walk cs))"
| "seed_walk _ = Some []"

definition sc_master_seed_parse :: "string option \<Rightarrow> 8 word list option" where
  "sc_master_seed_parse t =
     (case t of None \<Rightarrow> None | Some s \<Rightarrow> if length s \<noteq> 2 * SC_MASTER_SEED_BYTES then None else seed_walk s)"

text \<open>Two lower case digits for a byte, as \<^verbatim>\<open>sodium_bin2hex\<close> documents them.\<close>

definition nibble_char :: "nat \<Rightarrow> char" where
  "nibble_char n = char_of (if n < 10 then 48 + n else 87 + n)"

definition sc_master_seed_to_hex :: "8 word list \<Rightarrow> string" where
  "sc_master_seed_to_hex seed = concat (map (\<lambda>b. [nibble_char (unat b div 16), nibble_char (unat b mod 16)]) seed)"

text \<open>The byte written last is the most significant one.\<close>

fun put_be :: "nat \<Rightarrow> 64 word \<Rightarrow> 8 word list \<Rightarrow> 8 word list" where
  "put_be 0 v out = out"
| "put_be (Suc n) v out = put_be n (drop_bit 8 v) (ucast v # out)"

definition put_be64 :: "64 word \<Rightarrow> 8 word list" where
  "put_be64 v = put_be 8 v []"

definition sc_dht_delegation_sign ::
  "bool \<Rightarrow> (8 word list \<Rightarrow> 8 word list \<Rightarrow> 8 word list) \<Rightarrow> 8 word list option \<Rightarrow> 8 word list option \<Rightarrow> 64 word \<Rightarrow> sc_status + 8 word list" where
  "sc_dht_delegation_sign ready sign community_key node_key expires_ms =
     (case (community_key, node_key) of
        (Some k, Some n) \<Rightarrow>
          if \<not> ready then Inl SC_ERR_UNAVAILABLE
          else let body = take 32 n @ take 32 (drop 32 k) @ put_be64 expires_ms
               in Inr (body @ sign (map (\<lambda>c. of_nat (code_of c)) CONTEXT @ body) k)
      | _ \<Rightarrow> Inl SC_ERR_INVALID_ARGUMENT)"

lemma nibble_digit: "n < 16 \<Longrightarrow> hex_digit (nibble_char n) = int n"
  by (auto simp: hex_digit_def nibble_char_def in_range_def)

lemma byte_nibbles: "or (push_bit 4 (word_of_int (int (unat b div 16)))) (word_of_int (int (unat b mod 16))) = (b :: 8 word)"
proof -
  let ?n = "unat b"
  have "or (push_bit 4 (?n div 16)) (?n mod 16) = ?n"
    unfolding drop_bit_eq_div [of 4 ?n, simplified, symmetric] take_bit_eq_mod [of 4 ?n, simplified, symmetric]
    by (rule bit_eqI) (auto simp: bit_or_iff bit_push_bit_iff bit_drop_bit_eq bit_take_bit_iff)
  then have "of_nat (or (push_bit 4 (?n div 16)) (?n mod 16)) = b" by simp
  then show ?thesis by (simp add: of_nat_or_eq push_bit_of_nat)
qed

text \<open>A seed written as hex is read back; the text of a seed is read whatever the case of its digits.\<close>

lemma seed_roundtrip: "length seed = SC_MASTER_SEED_BYTES \<Longrightarrow> sc_master_seed_parse (Some (sc_master_seed_to_hex seed)) = Some seed"
proof -
  have "seed_walk (sc_master_seed_to_hex bs) = Some bs" for bs
  proof (induction bs)
    case (Cons b bs)
    have "unat b < 256" using unsigned_less [of b] by simp
    then have "unat b div 16 < 16" by simp
    with Cons show ?case by (simp add: sc_master_seed_to_hex_def nibble_digit byte_nibbles [simplified])
  qed (simp add: sc_master_seed_to_hex_def)
  moreover have "length (sc_master_seed_to_hex bs) = 2 * length bs" for bs
    by (induction bs) (simp_all add: sc_master_seed_to_hex_def)
  ultimately show "length seed = SC_MASTER_SEED_BYTES \<Longrightarrow> ?thesis" by (simp add: sc_master_seed_parse_def)
qed

lemma seed_case: "sc_master_seed_parse (Some (map ascii_lower t)) = sc_master_seed_parse (Some t)"
proof -
  have "hex_digit (ascii_lower c) = hex_digit c" for c
    by (auto simp: hex_digit_def ascii_lower_def is_upper_def in_range_def)
  then have "seed_walk (map ascii_lower t) = seed_walk t" by (induction t rule: seed_walk.induct) auto
  then show ?thesis by (simp add: sc_master_seed_parse_def)
qed

text \<open>The bytes of the expiry are the number, and the delegation has its fixed length.\<close>

lemma put_be64_bytes: "put_be64 v = map (\<lambda>i. ucast (drop_bit (8 * (7 - i)) v)) [0..<8]"
  by (simp add: put_be64_def numeral_eq_Suc upt_rec)

lemma delegation_length:
  assumes "length k = 64" and "length n = 32" and "\<And>m. length (sign m k) = 64" and "sc_dht_delegation_sign True sign (Some k) (Some n) e = Inr out"
  shows "length out = SC_DHT_DELEGATION_BYTES" and "take 72 out = n @ drop 32 k @ put_be64 e"
  using assms by (auto simp: sc_dht_delegation_sign_def SC_DHT_DELEGATION_BYTES_def put_be64_bytes Let_def)

end
