(* ===== verification/PeerId.thy ===== *)
theory PeerId
  imports Prelude "HOL-Library.Word"
begin

text \<open>
  Peer ids, \<^verbatim>\<open>dht-node/src/peer_id.c\<close>: an ed25519 key as base58 text and back. The base conversion works in
  place on digits, least significant first, with a carry; here the digits are a list and the array
  lengths are checked. Shown: a text is read as a key exactly when it is the text of that key, and no
  digit ever falls outside its array.
\<close>

section \<open>The code\<close>

definition DHT_PEER_ID_TEXT_MAX :: nat where "DHT_PEER_ID_TEXT_MAX = 64"
definition DHT_PEER_ID_BYTES :: nat where "DHT_PEER_ID_BYTES = 38"

definition kAlphabet :: string where
  "kAlphabet = ''123456789ABCDEFGHJKLMNPQRSTUVWXYZabcdefghijkmnopqrstuvwxyz''"

definition kPrefix :: "8 word list" where
  "kPrefix = [0x00, 0x24, 0x08, 0x01, 0x12, 0x20]"

text \<open>The digits of a carry that is left over.\<close>

fun spill :: "nat \<Rightarrow> nat \<Rightarrow> nat list" where
  "spill base carry = (if base < 2 \<or> carry = 0 then [] else carry mod base # spill base (carry div base))"

declare spill.simps [simp del]

text \<open>One digit more: every digit times the factor plus the carry.\<close>

fun mul_add :: "nat \<Rightarrow> nat \<Rightarrow> nat list \<Rightarrow> nat \<Rightarrow> nat list" where
  "mul_add factor base [] carry = spill base carry"
| "mul_add factor base (d # ds) carry =
     (let c = carry + d * factor in c mod base # mul_add factor base ds (c div base))"

definition dht_peer_id_format :: "8 word list \<Rightarrow> string" where
  "dht_peer_id_format key =
     (let bytes = map unat (kPrefix @ key);
          zeros = length (takeWhile (\<lambda>b. b = 0) bytes);
          digits = foldl (mul_add 256 58) [] (drop zeros bytes)
      in replicate zeros CHR ''1'' @ map ((!) kAlphabet) (rev digits))"

definition alphabet_index :: "char \<Rightarrow> nat option" where
  "alphabet_index c = (if c \<in> set kAlphabet then Some (length (takeWhile (\<lambda>x. x \<noteq> c) kAlphabet)) else None)"

fun digit_walk :: "string \<Rightarrow> nat list \<Rightarrow> nat list option" where
  "digit_walk [] bytes = Some bytes"
| "digit_walk (c # cs) bytes =
     (case alphabet_index c of
        None \<Rightarrow> None
      | Some d \<Rightarrow>
          let bytes' = mul_add 58 256 bytes d
          in if length bytes' > DHT_PEER_ID_BYTES then None else digit_walk cs bytes')"

definition dht_peer_id_parse :: "string \<Rightarrow> 8 word list option" where
  "dht_peer_id_parse t =
     (if length t = 0 \<or> length t \<ge> DHT_PEER_ID_TEXT_MAX then None
      else let zeros = length (takeWhile (\<lambda>c. c = CHR ''1'') t)
           in case digit_walk (drop zeros t) [] of
                None \<Rightarrow> None
              | Some bytes \<Rightarrow>
                  if zeros + length bytes \<noteq> DHT_PEER_ID_BYTES then None
                  else let id0 = replicate zeros 0 @ rev bytes
                       in if take 6 id0 \<noteq> map unat kPrefix then None else Some (map of_nat (drop 6 id0)))"

section \<open>Digits and numbers\<close>

fun digits_value :: "nat \<Rightarrow> nat list \<Rightarrow> nat" where
  "digits_value base [] = 0"
| "digits_value base (d # ds) = d + base * digits_value base ds"

definition canonical :: "nat \<Rightarrow> nat list \<Rightarrow> bool" where
  "canonical base ds \<longleftrightarrow> (\<forall>d \<in> set ds. d < base) \<and> (ds \<noteq> [] \<longrightarrow> last ds \<noteq> 0)"

lemma spill_spec:
  assumes "2 \<le> base"
  shows "digits_value base (spill base c) = c" and "canonical base (spill base c)" and "c \<noteq> 0 \<Longrightarrow> spill base c \<noteq> []"
proof -
  have "digits_value base (spill base c) = c \<and> canonical base (spill base c) \<and> (c \<noteq> 0 \<longrightarrow> spill base c \<noteq> [])"
    using assms
  proof (induction base c rule: spill.induct)
    case (1 base c)
    show ?case
    proof (cases "c = 0")
      case True
      then show ?thesis by (simp add: spill.simps canonical_def)
    next
      case False
      then have ih: "digits_value base (spill base (c div base)) = c div base" "canonical base (spill base (c div base))"
          "c div base \<noteq> 0 \<longrightarrow> spill base (c div base) \<noteq> []"
        using 1 by auto
      have "c div base = 0 \<Longrightarrow> spill base (c div base) = []" by (simp add: spill.simps)
      moreover have "c div base = 0 \<Longrightarrow> c mod base = c" using 1(2) by (simp add: div_eq_0_iff)
      ultimately show ?thesis using ih False 1(2) by (subst (1 2 3) spill.simps) (auto simp: canonical_def)
    qed
  qed
  then show "digits_value base (spill base c) = c" "canonical base (spill base c)" "c \<noteq> 0 \<Longrightarrow> spill base c \<noteq> []" by auto
qed

lemma mul_add_value: "2 \<le> base \<Longrightarrow> digits_value base (mul_add factor base ds c) = c + factor * digits_value base ds"
proof (induction factor base ds c rule: mul_add.induct)
  case (2 factor base d ds c)
  let ?c = "c + d * factor"
  have "digits_value base (mul_add factor base (d # ds) c) = ?c mod base + base * (?c div base + factor * digits_value base ds)"
    using 2 by (simp add: Let_def)
  also have "\<dots> = ?c + base * (factor * digits_value base ds)" by (simp add: distrib_left)
  finally show ?case by (simp add: algebra_simps)
qed (simp add: spill_spec)

lemma mul_add_canonical:
  assumes "2 \<le> base" and "1 \<le> factor"
  shows "canonical base ds \<Longrightarrow> canonical base (mul_add factor base ds c)"
proof (induction ds arbitrary: c)
  case (Cons d ds)
  let ?c = "c + d * factor"
  show ?case
  proof (cases ds)
    case Nil
    then have "?c \<noteq> 0" using Cons.prems assms(2) by (auto simp: canonical_def)
    then have "?c div base = 0 \<Longrightarrow> ?c mod base \<noteq> 0" using assms(1) by (simp add: div_eq_0_iff)
    then show ?thesis using Nil spill_spec [OF assms(1), of "?c div base"] assms(1)
      by (cases "?c div base = 0") (auto simp: canonical_def Let_def spill.simps [of base 0])
  next
    case (Cons e es)
    then have ne: "mul_add factor base ds (?c div base) \<noteq> []" by (simp add: Let_def)
    have "canonical base (mul_add factor base ds (?c div base))" using Cons.prems by (intro Cons.IH) (auto simp: canonical_def)
    moreover have "?c mod base < base" using assms(1) by simp
    ultimately show ?thesis using ne unfolding canonical_def mul_add.simps Let_def by (simp only: list.set last.simps if_False) blast
  qed
qed (simp add: spill_spec assms)

lemma canonical_tail: "canonical base (d # ds) \<Longrightarrow> canonical base ds"
  by (auto simp: canonical_def)

lemma canonical_zero: "canonical base ds \<Longrightarrow> 0 < base \<Longrightarrow> digits_value base ds = 0 \<Longrightarrow> ds = []"
proof (induction ds)
  case (Cons d ds)
  then have "d = 0" "ds = []" using canonical_tail [OF Cons.prems(1)] by auto
  with Cons.prems(1) show ?case by (simp add: canonical_def)
qed simp

lemma canonical_unique:
  "canonical base xs \<Longrightarrow> canonical base ys \<Longrightarrow> digits_value base xs = digits_value base ys \<Longrightarrow> xs = ys"
proof (induction xs arbitrary: ys)
  case Nil
  show ?case
  proof (cases ys)
    case (Cons y zs)
    with Nil.prems(2) have "0 < base" by (auto simp: canonical_def)
    with Nil canonical_zero [of base ys] show ?thesis by simp
  qed simp
next
  case (Cons x xs)
  have b: "x < base" using Cons.prems(1) by (simp add: canonical_def)
  then have "ys \<noteq> []" using canonical_zero [OF Cons.prems(1)] Cons.prems(3) by auto
  then obtain y zs where ys: "ys = y # zs" by (cases ys) auto
  have y: "y < base" using Cons.prems(2) ys by (simp add: canonical_def)
  have e: "x + base * digits_value base xs = y + base * digits_value base zs" using Cons.prems(3) ys by simp
  have "x = y" using arg_cong [OF e, of "\<lambda>n. n mod base"] b y by simp
  moreover from this e b have "digits_value base xs = digits_value base zs" by simp
  ultimately show ?case using Cons.IH Cons.prems(1,2) canonical_tail ys by blast
qed

lemma canonical_low: "canonical base ds \<Longrightarrow> ds \<noteq> [] \<Longrightarrow> base ^ (length ds - 1) \<le> digits_value base ds"
proof (induction ds)
  case (Cons d ds)
  show ?case
  proof (cases ds)
    case Nil
    with Cons.prems show ?thesis by (simp add: canonical_def)
  next
    case (Cons e es)
    with Cons.IH canonical_tail [OF Cons.prems(1)] have "base ^ (length ds - 1) \<le> digits_value base ds" by simp
    then have "base * base ^ (length ds - 1) \<le> base * digits_value base ds" by (rule mult_le_mono2)
    moreover have "base ^ (length (d # ds) - 1) = base * base ^ (length ds - 1)" using Cons by simp
    ultimately show ?thesis by (simp only: digits_value.simps)
  qed
qed simp

lemma value_high: "\<forall>d \<in> set ds. d < base \<Longrightarrow> digits_value base ds < base ^ length ds"
proof (induction ds)
  case (Cons d ds)
  then have "digits_value base ds + 1 \<le> base ^ length ds" by simp
  then have "base * (digits_value base ds + 1) \<le> base * base ^ length ds" by (rule mult_le_mono2)
  moreover have "d < base" using Cons.prems by simp
  ultimately show ?case by simp
qed simp

section \<open>The conversion\<close>

lemma convert_value:
  "2 \<le> base \<Longrightarrow> digits_value base (foldl (mul_add factor base) ds bs) = foldl (\<lambda>v b. b + factor * v) (digits_value base ds) bs"
  by (induction bs arbitrary: ds) (simp_all add: mul_add_value)

lemma convert_canonical: "2 \<le> base \<Longrightarrow> 1 \<le> factor \<Longrightarrow> canonical base ds \<Longrightarrow> canonical base (foldl (mul_add factor base) ds bs)"
  by (induction bs arbitrary: ds) (simp_all add: mul_add_canonical)

lemma foldl_value: "foldl (\<lambda>v b. b + factor * v) 0 bs = digits_value factor (rev bs)"
proof -
  have app: "digits_value f (xs @ ys) = digits_value f xs + f ^ length xs * digits_value f ys" for f xs ys
    by (induction xs) (simp_all add: algebra_simps)
  have "foldl (\<lambda>v b. b + factor * v) v bs = digits_value factor (rev bs) + factor ^ length bs * v" for v
    by (induction bs arbitrary: v) (simp_all add: app algebra_simps)
  then show ?thesis by simp
qed

text \<open>Digits of one base, most significant first, as digits of another, least significant first.\<close>

definition convert :: "nat \<Rightarrow> nat \<Rightarrow> nat list \<Rightarrow> nat list" where
  "convert factor base bs = foldl (mul_add factor base) [] bs"

lemma convert_spec:
  assumes "2 \<le> base" and "1 \<le> factor"
  shows "digits_value base (convert factor base bs) = digits_value factor (rev bs)" and "canonical base (convert factor base bs)"
  using convert_value [OF assms(1), of factor "[]"] convert_canonical [OF assms, of "[]"]
  by (simp_all add: convert_def foldl_value canonical_def)

lemma convert_back:
  assumes "2 \<le> a" and "2 \<le> b" and "canonical a (rev xs)"
  shows "convert b a (rev (convert a b xs)) = rev xs"
  by (rule canonical_unique [OF convert_spec(2) assms(3)]) (use assms in \<open>simp_all add: convert_spec\<close>)

section \<open>Text and key\<close>

lemma alphabet_distinct: "distinct kAlphabet" "length kAlphabet = 58" "hd kAlphabet = CHR ''1''"
  by (simp_all add: kAlphabet_def)

lemma index_of_digit: "d < 58 \<Longrightarrow> alphabet_index (kAlphabet ! d) = Some d"
proof -
  assume d: "d < 58"
  have "takeWhile (\<lambda>x. x \<noteq> kAlphabet ! d) kAlphabet = take d kAlphabet"
  proof (rule takeWhile_eq_take_P_nth)
    fix i assume "i < d" "i < length kAlphabet"
    with d show "kAlphabet ! i \<noteq> kAlphabet ! d" using nth_eq_iff_index_eq [OF alphabet_distinct(1), of i d] alphabet_distinct(2) by simp
  qed simp
  with d show ?thesis by (simp add: alphabet_index_def alphabet_distinct)
qed

lemma digit_of_index: "alphabet_index c = Some d \<Longrightarrow> d < 58 \<and> c = kAlphabet ! d"
proof -
  assume a: "alphabet_index c = Some d"
  then have c: "c \<in> set kAlphabet" and d: "d = length (takeWhile (\<lambda>x. x \<noteq> c) kAlphabet)" by (auto simp: alphabet_index_def split: if_splits)
  have "dropWhile (\<lambda>x. x \<noteq> c) kAlphabet \<noteq> []" using c by (auto simp: dropWhile_eq_Nil_conv)
  then have "d < length kAlphabet" unfolding d by (metis length_append takeWhile_dropWhile_id less_add_same_cancel1 length_greater_0_conv)
  moreover have "kAlphabet ! d = c" using nth_length_takeWhile [of "\<lambda>x. x \<noteq> c" kAlphabet] calculation unfolding d by simp
  ultimately show ?thesis using alphabet_distinct(2) by simp
qed

lemma digit_one: "d < 58 \<Longrightarrow> kAlphabet ! d = CHR ''1'' \<longleftrightarrow> d = 0"
  using nth_eq_iff_index_eq [OF alphabet_distinct(1), of d 0] by (simp add: alphabet_distinct(2)) (simp add: kAlphabet_def)

text \<open>The walk over a text is the conversion of its digits, as long as it stays in the array.\<close>

lemma digit_walk_convert:
  assumes "digit_walk t bytes = Some out"
  shows "\<exists>ds. t = map ((!) kAlphabet) ds \<and> (\<forall>d \<in> set ds. d < 58) \<and> out = foldl (mul_add 58 256) bytes ds"
  using assms
proof (induction t arbitrary: bytes)
  case (Cons c cs)
  then obtain d where d: "alphabet_index c = Some d" "digit_walk cs (mul_add 58 256 bytes d) = Some out"
    by (auto simp: Let_def split: option.splits if_splits)
  from Cons.IH [OF d(2)] obtain ds where "cs = map ((!) kAlphabet) ds" "\<forall>d \<in> set ds. d < 58" "out = foldl (mul_add 58 256) (mul_add 58 256 bytes d) ds" by blast
  with digit_of_index [OF d(1)] show ?case by (intro exI [of _ "d # ds"]) auto
qed simp

lemma mul_add_length: "length ds \<le> length (mul_add factor base ds c)"
  by (induction factor base ds c rule: mul_add.induct) (simp_all add: Let_def)

lemma foldl_length: "length bytes \<le> length (foldl (mul_add factor base) bytes ds)"
  by (induction ds arbitrary: bytes) (simp_all, meson mul_add_length order_trans)

lemma convert_digit_walk:
  assumes "\<forall>d \<in> set ds. d < 58" and "length (foldl (mul_add 58 256) bytes ds) \<le> DHT_PEER_ID_BYTES"
  shows "digit_walk (map ((!) kAlphabet) ds) bytes = Some (foldl (mul_add 58 256) bytes ds)"
  using assms
proof (induction ds arbitrary: bytes)
  case (Cons d ds)
  have "length (mul_add 58 256 bytes d) \<le> DHT_PEER_ID_BYTES" using foldl_length [of "mul_add 58 256 bytes d" 58 256 ds] Cons.prems(2) by simp
  with Cons show ?case by (simp add: index_of_digit Let_def)
qed simp

text \<open>The bytes behind the leading zero: what is converted.\<close>

definition body_bytes :: "8 word list \<Rightarrow> nat list" where
  "body_bytes key = [0x24, 0x08, 0x01, 0x12, 0x20] @ map unat key"

lemma byte_less: "unat (w :: 8 word) < 256"
  using unsigned_less [of w] by simp

lemma body_canonical: "canonical 256 (rev (body_bytes key))"
  by (auto simp: canonical_def body_bytes_def byte_less last_rev)

lemma format_body: "dht_peer_id_format key = CHR ''1'' # map ((!) kAlphabet) (rev (convert 256 58 (body_bytes key)))"
  by (simp add: dht_peer_id_format_def kPrefix_def body_bytes_def convert_def Let_def)

lemma body_digits:
  assumes "length key = 32"
  shows "convert 256 58 (body_bytes key) \<noteq> []" and "canonical 58 (convert 256 58 (body_bytes key))" and "length (convert 256 58 (body_bytes key)) \<le> 51"
proof -
  let ?D = "convert 256 58 (body_bytes key)"
  have v: "digits_value 58 ?D = digits_value 256 (rev (body_bytes key))" and c: "canonical 58 ?D" using convert_spec [of 58 256] by simp_all
  show "canonical 58 ?D" by (rule c)
  have "digits_value 256 (rev (body_bytes key)) \<noteq> 0" using canonical_zero [OF body_canonical] by (auto simp: body_bytes_def)
  with v show ne: "?D \<noteq> []" by auto
  have "digits_value 256 (rev (body_bytes key)) < 256 ^ 37"
    using value_high [of "rev (body_bytes key)" 256] body_canonical [of key] assms by (simp add: canonical_def body_bytes_def)
  with canonical_low [OF c ne] v have "(58 :: nat) ^ (length ?D - 1) < 256 ^ 37" by simp
  also have "\<dots> < 58 ^ 51" by simp
  finally have "(58 :: nat) ^ (length ?D - 1) < 58 ^ 51" .
  then have "length ?D - 1 < 51" by (rule power_less_imp_less_exp [rotated]) simp
  then show "length ?D \<le> 51" by simp
qed

lemma format_parses: "length key = 32 \<Longrightarrow> dht_peer_id_parse (dht_peer_id_format key) = Some key"
proof -
  assume len: "length key = 32"
  let ?D = "convert 256 58 (body_bytes key)"
  note D = body_digits [OF len]
  obtain d ds where rev: "rev ?D = d # ds" using D(1) by (cases "rev ?D") auto
  have "d = last ?D" using rev by (metis hd_rev list.sel(1))
  then have d: "d \<noteq> 0" "d < 58" using D(1,2) unfolding canonical_def by auto
  have one: "takeWhile (\<lambda>c. c = CHR ''1'') (dht_peer_id_format key) = ''1''"
    unfolding format_body rev using digit_one [OF d(2)] d(1) by simp
  have back0: "convert 58 256 (rev ?D) = rev (body_bytes key)" by (rule convert_back [OF _ _ body_canonical]) simp_all
  have small: "\<forall>x \<in> set (rev ?D). x < 58" using D(2) by (simp add: canonical_def)
  have walk: "digit_walk (map ((!) kAlphabet) (rev ?D)) [] = Some (rev (body_bytes key))"
    using convert_digit_walk [OF small, of "[]"] len unfolding convert_def [symmetric] back0
    by (simp add: body_bytes_def DHT_PEER_ID_BYTES_def)
  have "length (dht_peer_id_format key) < DHT_PEER_ID_TEXT_MAX" using D(3) by (simp add: format_body DHT_PEER_ID_TEXT_MAX_def)
  moreover have "drop 1 (dht_peer_id_format key) = map ((!) kAlphabet) (rev ?D)" by (simp add: format_body)
  moreover have "map (word_of_nat \<circ> unat) key = key" by (rule map_idI) simp
  ultimately show ?thesis using len walk
    by (simp add: dht_peer_id_parse_def one) (simp add: format_body DHT_PEER_ID_BYTES_def body_bytes_def kPrefix_def)
qed

lemma parse_formats:
  assumes "dht_peer_id_parse t = Some key"
  shows "length key = 32 \<and> t = dht_peer_id_format key"
proof -
  define z where "z = length (takeWhile (\<lambda>c. c = CHR ''1'') t)"
  obtain out where o: "digit_walk (drop z t) [] = Some out" "z + length out = 38" "take 6 (replicate z 0 @ rev out) = [0, 36, 8, 1, 18, 32]"
      "key = map of_nat (drop 6 (replicate z 0 @ rev out))"
    using assms unfolding z_def by (auto simp: dht_peer_id_parse_def Let_def kPrefix_def DHT_PEER_ID_BYTES_def split: option.splits if_splits)
  from digit_walk_convert [OF o(1)] obtain ds where ds: "drop z t = map ((!) kAlphabet) ds" "\<forall>d \<in> set ds. d < 58" "out = convert 58 256 ds"
    unfolding convert_def by blast
  have c: "canonical 256 out" and v: "digits_value 256 out = digits_value 58 (rev ds)" using convert_spec [of 256 58] unfolding ds(3) by simp_all
  have "z = 1"
  proof -
    have "z \<noteq> 0"
    proof
      assume z: "z = 0"
      with o(2) obtain x xs where x: "rev out = x # xs" by (cases "rev out") auto
      with c have "x \<noteq> 0" unfolding canonical_def by (metis hd_rev list.sel(1) list.distinct(1) rev.simps(1))
      with o(3) z x show False by simp
    qed
    moreover have "\<not> 2 \<le> z"
    proof
      assume "2 \<le> z"
      then obtain k where "z = Suc (Suc k)" by (metis add_2_eq_Suc le_Suc_ex)
      with o(3) show False by simp
    qed
    ultimately show ?thesis by simp
  qed
  then have len: "length out = 37" and body: "rev out = [36, 8, 1, 18, 32] @ drop 5 (rev out)" and key: "key = map of_nat (drop 5 (rev out))"
    using o(2,3,4) append_take_drop_id [of 5 "rev out"] by auto
  have "map unat key = drop 5 (rev out)"
    unfolding key using c by (auto simp: canonical_def unat_of_nat_less intro!: map_idI dest!: in_set_dropD)
  then have "body_bytes key = [36, 8, 1, 18, 32] @ drop 5 (rev out)" by (simp add: body_bytes_def)
  also have "\<dots> = rev out" by (rule body [symmetric])
  finally have xs: "body_bytes key = rev out" .
  have t: "t = CHR ''1'' # map ((!) kAlphabet) ds"
  proof -
    have "takeWhile (\<lambda>c. c = CHR ''1'') t = replicate z CHR ''1''"
      unfolding z_def by (rule replicate_eqI [symmetric, THEN sym]) (auto dest: set_takeWhileD)
    with ds(1) \<open>z = 1\<close> show ?thesis by (metis append_Cons append_Nil append_take_drop_id replicate_0 replicate_Suc One_nat_def takeWhile_eq_take z_def)
  qed
  have "ds \<noteq> []" using ds(3) len by (auto simp: convert_def)
  moreover have "hd ds \<noteq> 0"
  proof
    assume h: "hd ds = 0"
    with t \<open>ds \<noteq> []\<close> digit_one [of 0] have "2 \<le> length (takeWhile (\<lambda>c. c = CHR ''1'') t)" by (cases ds) auto
    with \<open>z = 1\<close> show False by (simp add: z_def)
  qed
  ultimately have "canonical 58 (rev ds)" using ds(2) by (auto simp: canonical_def last_rev)
  then have "convert 256 58 (body_bytes key) = rev ds"
    by (intro canonical_unique [of 58]) (simp_all add: convert_spec xs v)
  then have "t = dht_peer_id_format key" unfolding format_body t by simp
  moreover have "length key = 32" unfolding key using len by simp
  ultimately show ?thesis by blast
qed

interpretation peer_id: codec dht_peer_id_format dht_peer_id_parse "\<lambda>key. length key = 32"
  by unfold_locales (rule format_parses)

text \<open>
  C38. Peer ids are exact. A text is read as a key exactly when it is the text of that key, so every key
  has one text, every accepted text one key, and nothing else is accepted. The text of a key has at
  most 52 characters and every digit computed on the way stays inside its array.
\<close>

theorem peer_id_exact:
  "(dht_peer_id_parse t = Some key \<longleftrightarrow> length key = 32 \<and> t = dht_peer_id_format key) \<and>
   (length key = 32 \<longrightarrow> length (dht_peer_id_format key) \<le> 52 \<and> 52 < DHT_PEER_ID_TEXT_MAX)"
  using parse_formats [of t key] peer_id.dec_enc [of key] body_digits(3) [of key] by (auto simp: format_body DHT_PEER_ID_TEXT_MAX_def)

theorem peer_id_exact_witness:
  "dht_peer_id_parse (dht_peer_id_format (replicate 32 7)) = Some (replicate 32 7) \<and> length (dht_peer_id_format (replicate 32 7)) \<le> 52"
  using peer_id_exact [of "dht_peer_id_format (replicate 32 7)" "replicate 32 7"] by simp

end
