(* ===== verification/Bootstrap.thy ===== *)
theory Bootstrap
  imports PeerId ApiError
begin

text \<open>
  How a node joins the peer network and what it tells others, \<^verbatim>\<open>dht-node/src/bootstrap.c\<close>: the node's own
  addresses, the answer to \<^verbatim>\<open>GET /peer/bootstrap\<close>, and taking up another community's answer.

  The network module (\<^verbatim>\<open>lp2p\<close>), the HTTP client and the JSON reader are parameters. The records of a
  sample are bytes; \<open>decode\<close> is the copy of their header into the event structure. What \<open>join\<close> does is
  the list of its calls into the module and of its log events. Mutexes are not modelled.
\<close>

section \<open>The node itself\<close>

definition DHT_SELF_ADDRESSES_MAX :: nat where "DHT_SELF_ADDRESSES_MAX = 16"
definition DHT_ADDRESS_MAX :: nat where "DHT_ADDRESS_MAX = 256"
definition DHT_ANSWER_PEERS_MAX :: nat where "DHT_ANSWER_PEERS_MAX = 64"
definition DHT_ANSWER_ADDRESSES_MAX :: nat where "DHT_ANSWER_ADDRESSES_MAX = 32"

record dht_self =
  node_key :: "8 word list"
  delegation_hex :: string
  addresses :: "string list"

definition hex_digits :: string where "hex_digits = ''0123456789abcdef''"

definition dht_self_init :: "bool \<Rightarrow> 8 word list \<Rightarrow> sc_status + dht_self" where
  "dht_self_init mutex delegation =
     (if \<not> mutex then Inl SC_ERR_NO_MEMORY
      else Inr \<lparr>node_key = take 32 delegation,
                delegation_hex = concat (map (\<lambda>b. [hex_digits ! unat (drop_bit 4 b), hex_digits ! unat (and b 0xf)]) delegation),
                addresses = []\<rparr>)"

definition plain_text :: "string \<Rightarrow> bool" where
  "plain_text t \<longleftrightarrow> list_all (\<lambda>c. \<not> (code_of c < 0x20 \<or> c = QUOTE \<or> c = BACKSLASH)) t \<and> length t \<noteq> 0"

definition dht_self_add_address :: "string \<Rightarrow> dht_self \<Rightarrow> dht_self" where
  "dht_self_add_address address self =
     (if length address \<ge> DHT_ADDRESS_MAX \<or> \<not> plain_text address then self
      else if address \<in> set (addresses self) \<or> length (addresses self) = DHT_SELF_ADDRESSES_MAX then self
      else self\<lparr>addresses := addresses self @ [address]\<rparr>)"

section \<open>The answer\<close>

record dht_writer =
  wr_out :: string
  wr_cap :: nat
  wr_overflow :: bool

definition put :: "string \<Rightarrow> dht_writer \<Rightarrow> dht_writer" where
  "put t w =
     (if wr_overflow w then w
      else if length t \<ge> wr_cap w - length (wr_out w) then w\<lparr>wr_overflow := True\<rparr>
      else w\<lparr>wr_out := wr_out w @ t\<rparr>)"

record lp2p_event =
  ev_type :: nat
  ev_size :: nat
  ev_node :: "8 word list"
  ev_data_len :: nat

definition LP2P_EVENT_BYTES :: nat where "LP2P_EVENT_BYTES = 88"

abbreviation quoted :: "string \<Rightarrow> string" where "quoted t \<equiv> [QUOTE] @ t @ [QUOTE]"

fun put_addresses :: "bool \<Rightarrow> string list \<Rightarrow> dht_writer \<Rightarrow> dht_writer" where
  "put_addresses any [] w = w"
| "put_addresses any (a # as) w = put_addresses True as (put ((if any then '','' else []) @ quoted a) w)"

text \<open>The addresses of a record: separated by NUL, the ones that would need escaping left out.\<close>

function address_walk :: "string \<Rightarrow> bool \<Rightarrow> dht_writer \<Rightarrow> dht_writer" where
  "address_walk data any w =
     (if data = [] then w
      else let a = takeWhile (\<lambda>c. c \<noteq> NUL) data; rest = drop (length a + 1) data
           in if plain_text a then address_walk rest True (put ((if any then '','' else []) @ quoted a) w) else address_walk rest any w)"
  by pat_completeness auto
termination by (relation "measure (\<lambda>(data, any, w). length data)") (auto simp: Let_def)

declare address_walk.simps [simp del]

function sample_walk ::
  "nat \<Rightarrow> (string \<Rightarrow> lp2p_event) \<Rightarrow> nat \<Rightarrow> string \<Rightarrow> bool \<Rightarrow> dht_writer \<Rightarrow> dht_writer" where
  "sample_walk discovered decode now_ms sample first w =
     (if length sample < LP2P_EVENT_BYTES then w
      else let event = decode (take LP2P_EVENT_BYTES sample)
           in if ev_size event < LP2P_EVENT_BYTES \<or> ev_size event > length sample \<or> ev_data_len event > ev_size event - LP2P_EVENT_BYTES then w
              else let data = take (ev_data_len event) (drop LP2P_EVENT_BYTES sample); rest = drop (ev_size event) sample
                   in if ev_type event \<noteq> discovered then sample_walk discovered decode now_ms rest first w
                      else let w1 = put ((if first then [] else '','') @ ''{'' @ quoted ''peerId'' @ '':'' @ quoted (dht_peer_id_format (ev_node event)) @
                                         '','' @ quoted ''addresses'' @ '':['') w;
                               w2 = address_walk data False w1;
                               w3 = put (''],'' @ quoted ''lastSeenAt'' @ '':'' @ quoted (dec_text now_ms) @ ''}'') w2
                           in sample_walk discovered decode now_ms rest False w3)"
  by pat_completeness auto
termination
  by (relation "measure (\<lambda>(_, _, _, sample, _, _). length sample)") (auto simp: LP2P_EVENT_BYTES_def Let_def)

declare sample_walk.simps [simp del]

text \<open>\<open>sample\<close> is what the module wrote, empty when it refused.\<close>

definition dht_bootstrap_answer ::
  "nat \<Rightarrow> (string \<Rightarrow> lp2p_event) \<Rightarrow> nat \<Rightarrow> (nat \<Rightarrow> string) \<Rightarrow> dht_self \<Rightarrow> nat \<Rightarrow> nat \<Rightarrow> sc_status \<times> string" where
  "dht_bootstrap_answer discovered decode now_ms sample self max_peers cap =
     (let w0 = \<lparr>wr_out = [], wr_cap = cap, wr_overflow = False\<rparr>;
          w1 = put (''{'' @ quoted ''self'' @ '':{'' @ quoted ''peerId'' @ '':'' @ quoted (dht_peer_id_format (node_key self)) @
                    '','' @ quoted ''addresses'' @ '':['') w0;
          w2 = put_addresses False (addresses self) w1;
          w3 = put (''],'' @ quoted ''delegation'' @ '':'' @ quoted (delegation_hex self) @ ''},'' @ quoted ''peers'' @ '':['') w2;
          w4 = sample_walk discovered decode now_ms (sample max_peers) True w3;
          w5 = put '']}'' w4
      in if wr_overflow w5 then (SC_ERR_TOO_LONG, []) else (SC_OK, wr_out w5))"

section \<open>Joining\<close>

datatype call = Lp2p_add_address "8 word list" string | Lp2p_dht_bootstrap | Bootstrap_failed string | Bootstrap_applied nat

fun take_entry :: "(8 word list \<Rightarrow> string \<Rightarrow> bool) \<Rightarrow> 8 word list \<Rightarrow> string list \<Rightarrow> bool \<times> call list" where
  "take_entry adds key [] = (False, [])"
| "take_entry adds key (a # as) =
     (let suffix = ''/p2p/'' @ dht_peer_id_format key; n = length a - length suffix; (taken, made) = take_entry adds key as
      in if length a \<ge> DHT_ADDRESS_MAX then (taken, made)
         else let address = cstr (if length a > length suffix \<and> drop n a = suffix then take n a else a)
              in (adds key address \<or> taken, Lp2p_add_address key address # made))"

text \<open>The JSON of an answer: its own entry and the peers, the members of an entry, its delegation.\<close>

record 'v answer_reader =
  ar_root :: "string \<Rightarrow> ('v \<times> 'v list) option"
  ar_entry :: "'v \<Rightarrow> (string \<times> string list) option"
  ar_delegation :: "'v \<Rightarrow> 8 word list option"

definition read_entry :: "'v answer_reader \<Rightarrow> 'v \<Rightarrow> (8 word list \<times> string list) option" where
  "read_entry ar v =
     (case ar_entry ar v of
        None \<Rightarrow> None
      | Some (peer_id, as) \<Rightarrow>
          (case dht_peer_id_parse peer_id of
             None \<Rightarrow> None
           | Some key \<Rightarrow> if length as > DHT_ANSWER_ADDRESSES_MAX then None else Some (key, as)))"

fun take_peers :: "'v answer_reader \<Rightarrow> (8 word list \<Rightarrow> string \<Rightarrow> bool) \<Rightarrow> 8 word list \<Rightarrow> 'v list \<Rightarrow> nat \<times> call list" where
  "take_peers ar adds own_key [] = (0, [])"
| "take_peers ar adds own_key (p # ps) =
     (let (taken, made) = take_peers ar adds own_key ps
      in case read_entry ar p of
           None \<Rightarrow> (taken, made)
         | Some (key, as) \<Rightarrow>
             if key = own_key then (taken, made)
             else let (any, more) = take_entry adds key as in ((if any then 1 else 0) + taken, more @ made))"

definition bootstrap_route :: "string \<Rightarrow> string option" where
  "bootstrap_route url =
     (let route = rtrim (\<lambda>c. c = CHR ''/'') url @ ''/peer/bootstrap'' in if length route \<ge> 512 then None else Some route)"

text \<open>\<open>get\<close> answers the status of the request, the body and the HTTP status; \<open>verify\<close> the key a delegation names.\<close>

definition dht_bootstrap_join ::
  "'v answer_reader \<Rightarrow> (8 word list \<Rightarrow> string \<Rightarrow> bool) \<Rightarrow> (8 word list \<Rightarrow> 8 word list option) \<Rightarrow> bool \<Rightarrow>
   (string \<Rightarrow> sc_status \<times> string \<times> nat) \<Rightarrow> 8 word list \<Rightarrow> string \<Rightarrow> call list" where
  "dht_bootstrap_join ar adds verify quit get own_key url =
     (case bootstrap_route url of
        None \<Rightarrow> [Bootstrap_failed ''unreachable'']
      | Some route \<Rightarrow>
          (case get route of (s, body, http) \<Rightarrow>
             if s \<noteq> SC_OK \<or> http \<noteq> 200 then
               (if quit then [] else [Bootstrap_failed (if http = 200 \<or> http = 0 then ''unreachable'' else ''invalid-answer'')])
             else case ar_root ar body of
               None \<Rightarrow> [Bootstrap_failed ''invalid-answer'']
             | Some (self, peers) \<Rightarrow>
                 if length peers > DHT_ANSWER_PEERS_MAX then [Bootstrap_failed ''invalid-answer'']
                 else case read_entry ar self of
                   None \<Rightarrow> [Bootstrap_failed ''invalid-answer'']
                 | Some (key, as) \<Rightarrow>
                     (case ar_delegation ar self of
                        None \<Rightarrow> [Bootstrap_failed ''delegation-invalid'']
                      | Some delegation \<Rightarrow>
                          if verify delegation \<noteq> Some key then [Bootstrap_failed ''delegation-invalid'']
                          else let (any, first) = (if key \<noteq> own_key then take_entry adds key as else (False, []));
                                   (n, rest) = take_peers ar adds own_key peers;
                                   taken = (if any then 1 else 0) + n
                               in first @ rest @ (if taken \<noteq> 0 then [Lp2p_dht_bootstrap] else []) @ [Bootstrap_applied taken])))"

section \<open>What the answer says\<close>

fun commas :: "string list \<Rightarrow> string" where
  "commas [] = []"
| "commas [x] = x"
| "commas (x # y # ys) = x @ '','' @ commas (y # ys)"

function split_nul :: "string \<Rightarrow> string list" where
  "split_nul data = (if data = [] then [] else takeWhile (\<lambda>c. c \<noteq> NUL) data # split_nul (drop (length (takeWhile (\<lambda>c. c \<noteq> NUL) data) + 1) data))"
  by pat_completeness auto
termination by (relation "measure length") auto

declare split_nul.simps [simp del]

text \<open>The peers of a sample: the key and the addresses of every record of the right type, up to the first bad one.\<close>

function sample_peers :: "nat \<Rightarrow> (string \<Rightarrow> lp2p_event) \<Rightarrow> string \<Rightarrow> (8 word list \<times> string list) list" where
  "sample_peers discovered decode sample =
     (if length sample < LP2P_EVENT_BYTES then []
      else let event = decode (take LP2P_EVENT_BYTES sample)
           in if ev_size event < LP2P_EVENT_BYTES \<or> ev_size event > length sample \<or> ev_data_len event > ev_size event - LP2P_EVENT_BYTES then []
              else (if ev_type event = discovered
                    then [(ev_node event, filter plain_text (split_nul (take (ev_data_len event) (drop LP2P_EVENT_BYTES sample))))] else []) @
                   sample_peers discovered decode (drop (ev_size event) sample))"
  by pat_completeness auto
termination by (relation "measure (\<lambda>(_, _, sample). length sample)") (auto simp: LP2P_EVENT_BYTES_def Let_def)

declare sample_peers.simps [simp del]

definition peer_text :: "nat \<Rightarrow> 8 word list \<times> string list \<Rightarrow> string" where
  "peer_text now_ms p =
     ''{'' @ quoted ''peerId'' @ '':'' @ quoted (dht_peer_id_format (fst p)) @ '','' @ quoted ''addresses'' @ '':['' @ commas (map quoted (snd p)) @
     ''],'' @ quoted ''lastSeenAt'' @ '':'' @ quoted (dec_text now_ms) @ ''}''"

definition answer_text :: "nat \<Rightarrow> dht_self \<Rightarrow> (8 word list \<times> string list) list \<Rightarrow> string" where
  "answer_text now_ms self ps =
     ''{'' @ quoted ''self'' @ '':{'' @ quoted ''peerId'' @ '':'' @ quoted (dht_peer_id_format (node_key self)) @ '','' @ quoted ''addresses'' @ '':['' @
     commas (map quoted (addresses self)) @ ''],'' @ quoted ''delegation'' @ '':'' @ quoted (delegation_hex self) @ ''},'' @ quoted ''peers'' @ '':['' @
     commas (map (peer_text now_ms) ps) @ '']}''"

text \<open>A run of writes is the concatenation of its pieces, or an overflow.\<close>

lemma puts_spec:
  assumes "\<not> wr_overflow w"
  shows "wr_overflow (fold put ts w) \<longleftrightarrow> ts \<noteq> [] \<and> wr_cap w \<le> length (wr_out w) + length (concat ts)"
    and "\<not> wr_overflow (fold put ts w) \<Longrightarrow> wr_out (fold put ts w) = wr_out w @ concat ts"
proof -
  have stuck: "wr_overflow w \<Longrightarrow> fold put ts w = w" for w ts by (induction ts arbitrary: w) (simp_all add: put_def)
  have "(wr_overflow (fold put ts w) \<longleftrightarrow> ts \<noteq> [] \<and> wr_cap w \<le> length (wr_out w) + length (concat ts)) \<and>
      (\<not> wr_overflow (fold put ts w) \<longrightarrow> wr_out (fold put ts w) = wr_out w @ concat ts)"
    using assms
  proof (induction ts arbitrary: w)
    case (Cons t ts)
    show ?case
    proof (cases "length t \<ge> wr_cap w - length (wr_out w)")
      case True
      with Cons.prems have "put t w = w\<lparr>wr_overflow := True\<rparr>" by (simp add: put_def)
      with True show ?thesis by (simp add: stuck)
    next
      case False
      with Cons.prems have "put t w = w\<lparr>wr_out := wr_out w @ t\<rparr>" by (simp add: put_def)
      with False Cons.prems Cons.IH [of "put t w"] show ?thesis by (cases ts) auto
    qed
  qed simp
  then show "wr_overflow (fold put ts w) \<longleftrightarrow> ts \<noteq> [] \<and> wr_cap w \<le> length (wr_out w) + length (concat ts)"
      "\<not> wr_overflow (fold put ts w) \<Longrightarrow> wr_out (fold put ts w) = wr_out w @ concat ts" by blast+
qed

fun pieces :: "bool \<Rightarrow> string list \<Rightarrow> string list" where
  "pieces any [] = []"
| "pieces any (x # xs) = ((if any then '','' else []) @ x) # pieces True xs"

lemma commas_Cons: "commas (x # xs) = x @ (if xs = [] then [] else '','' @ commas xs)"
  by (cases xs) simp_all

lemma concat_pieces: "concat (pieces any xs) = (if any \<and> xs \<noteq> [] then '','' else []) @ commas xs"
  by (induction any xs rule: pieces.induct) (auto simp: commas_Cons)

lemma put_addresses_pieces: "put_addresses any as w = fold put (pieces any (map quoted as)) w"
  by (induction any as w rule: put_addresses.induct) simp_all

lemma address_walk_pieces: "address_walk data any w = fold put (pieces any (map quoted (filter plain_text (split_nul data)))) w"
proof (induction data any w rule: address_walk.induct)
  case (1 data any w)
  show ?case by (subst address_walk.simps, subst split_nul.simps) (use 1 in \<open>simp add: Let_def\<close>)
qed

fun peer_pieces :: "nat \<Rightarrow> bool \<Rightarrow> (8 word list \<times> string list) list \<Rightarrow> string list" where
  "peer_pieces now_ms first [] = []"
| "peer_pieces now_ms first (p # ps) =
     [(if first then [] else '','') @ ''{'' @ quoted ''peerId'' @ '':'' @ quoted (dht_peer_id_format (fst p)) @ '','' @ quoted ''addresses'' @ '':[''] @
     pieces False (map quoted (snd p)) @ [''],'' @ quoted ''lastSeenAt'' @ '':'' @ quoted (dec_text now_ms) @ ''}''] @ peer_pieces now_ms False ps"

lemma concat_peer_pieces: "concat (peer_pieces now_ms first ps) = (if \<not> first \<and> ps \<noteq> [] then '','' else []) @ commas (map (peer_text now_ms) ps)"
  by (induction now_ms first ps rule: peer_pieces.induct) (auto simp: commas_Cons concat_pieces peer_text_def)

lemma sample_walk_pieces:
  "sample_walk discovered decode now_ms sample first w = fold put (peer_pieces now_ms first (sample_peers discovered decode sample)) w"
proof (induction discovered decode now_ms sample first w rule: sample_walk.induct)
  case (1 discovered decode now_ms sample first w)
  show ?case
    by (subst sample_walk.simps, subst sample_peers.simps) (use 1 in \<open>simp add: Let_def address_walk_pieces\<close>)
qed

text \<open>
  C39. The answer about the peer network is exactly the document it should be, or no answer: the node's
  own entry with its peer id, addresses and delegation, then one entry for every peer of the sample,
  with commas between and not after, the addresses that would need escaping left out. It is refused
  as too long exactly when it does not fit the buffer with a terminator, never cut.
\<close>

theorem bootstrap_answer_exact:
  "dht_bootstrap_answer discovered decode now_ms sample self max_peers cap =
     (let t = answer_text now_ms self (sample_peers discovered decode (sample max_peers))
      in if length t < cap then (SC_OK, t) else (SC_ERR_TOO_LONG, []))"
proof -
  let ?w = "\<lparr>wr_out = [], wr_cap = cap, wr_overflow = False\<rparr>" and ?ps = "sample_peers discovered decode (sample max_peers)"
  let ?head = "''{'' @ quoted ''self'' @ '':{'' @ quoted ''peerId'' @ '':'' @ quoted (dht_peer_id_format (node_key self)) @ '','' @ quoted ''addresses'' @ '':[''"
  let ?mid = "''],'' @ quoted ''delegation'' @ '':'' @ quoted (delegation_hex self) @ ''},'' @ quoted ''peers'' @ '':[''"
  let ?ts = "[?head] @ pieces False (map quoted (addresses self)) @ [?mid] @ peer_pieces now_ms True ?ps @ ['']}'']"
  have doc: "concat ?ts = answer_text now_ms self ?ps"
    by (simp add: answer_text_def concat_pieces concat_peer_pieces)
  have run: "dht_bootstrap_answer discovered decode now_ms sample self max_peers cap =
      (if wr_overflow (fold put ?ts ?w) then (SC_ERR_TOO_LONG, []) else (SC_OK, wr_out (fold put ?ts ?w)))"
    by (simp add: dht_bootstrap_answer_def Let_def put_addresses_pieces sample_walk_pieces)
  show ?thesis unfolding run using puts_spec [of ?w ?ts] unfolding doc by (auto simp: Let_def)
qed

text \<open>Addresses are kept once each, at most sixteen, and none needs escaping in JSON.\<close>

definition addresses_ok :: "dht_self \<Rightarrow> bool" where
  "addresses_ok self \<longleftrightarrow> distinct (addresses self) \<and> length (addresses self) \<le> DHT_SELF_ADDRESSES_MAX \<and>
     list_all (\<lambda>a. plain_text a \<and> length a < DHT_ADDRESS_MAX) (addresses self)"

lemma init_addresses_ok: "dht_self_init True d = Inr self \<Longrightarrow> addresses_ok self"
  by (auto simp: dht_self_init_def addresses_ok_def)

lemma add_address_ok: "addresses_ok self \<Longrightarrow> addresses_ok (dht_self_add_address a self)"
  by (auto simp: dht_self_add_address_def addresses_ok_def)

lemma plain_unescaped: "plain_text t \<Longrightarrow> concat (map escape_char t) = t"
proof -
  have "escape_char c = [c]" if "\<not> (code_of c < 0x20 \<or> c = QUOTE \<or> c = BACKSLASH)" for c
    using that by (auto simp: escape_char_def code_of_def)
  then have "list_all (\<lambda>c. \<not> (code_of c < 0x20 \<or> c = QUOTE \<or> c = BACKSLASH)) t \<Longrightarrow> concat (map escape_char t) = t"
    by (induction t) auto
  then show "plain_text t \<Longrightarrow> ?thesis" by (simp add: plain_text_def)
qed

section \<open>Whom a node listens to\<close>

lemma cstr_length: "length (cstr a) \<le> length a"
  by (simp add: cstr_def length_takeWhile_le)

lemma take_entry_made:
  "take_entry adds key as = (taken, made) \<Longrightarrow>
   (\<forall>c \<in> set made. \<exists>a. c = Lp2p_add_address key a \<and> length a < DHT_ADDRESS_MAX) \<and> (taken \<longleftrightarrow> (\<exists>a. Lp2p_add_address key a \<in> set made \<and> adds key a))"
proof (induction as arbitrary: taken made)
  case (Cons a as)
  obtain taken' made' where r: "take_entry adds key as = (taken', made')" by fastforce
  note ih = Cons.IH [OF r]
  let ?s = "''/p2p/'' @ dht_peer_id_format key"
  let ?a = "cstr (if length a > length ?s \<and> drop (length a - length ?s) a = ?s then take (length a - length ?s) a else a)"
  have small: "length a < DHT_ADDRESS_MAX \<Longrightarrow> length ?a < DHT_ADDRESS_MAX"
    using cstr_length [of a] cstr_length [of "take (length a - length ?s) a"] by auto
  show ?case
  proof (cases "length a \<ge> DHT_ADDRESS_MAX")
    case True
    with Cons.prems r have "taken = taken'" "made = made'" by (simp_all add: Let_def)
    with ih show ?thesis by simp
  next
    case False
    have "taken = (adds key ?a \<or> taken') \<and> made = Lp2p_add_address key ?a # made'"
      using Cons.prems False unfolding take_entry.simps r Let_def prod.case by (simp only: if_False prod.inject)
    with False small ih show ?thesis by auto
  qed
qed simp

lemma take_peers_made:
  "take_peers ar adds own_key ps = (taken, made) \<Longrightarrow>
   (\<forall>c \<in> set made. \<exists>p \<in> set ps. \<exists>key as a. c = Lp2p_add_address key a \<and> read_entry ar p = Some (key, as) \<and> key \<noteq> own_key \<and> length a < DHT_ADDRESS_MAX) \<and>
   (taken \<noteq> 0 \<longrightarrow> (\<exists>key a. Lp2p_add_address key a \<in> set made \<and> adds key a))"
proof (induction ps arbitrary: taken made)
  case (Cons p ps)
  obtain taken' made' where r: "take_peers ar adds own_key ps = (taken', made')" by fastforce
  note ih = Cons.IH [OF r]
  show ?case
  proof (cases "read_entry ar p")
    case None
    with Cons.prems r ih show ?thesis by auto
  next
    case (Some e)
    obtain key as where e: "e = (key, as)" by fastforce
    obtain any more_made where t: "take_entry adds key as = (any, more_made)" by fastforce
    note te = take_entry_made [OF t]
    show ?thesis
    proof (cases "key = own_key")
      case True
      with Cons.prems r ih Some e show ?thesis by auto
    next
      case False
      with Cons.prems r Some e t have "taken = (if any then 1 else 0) + taken'" "made = more_made @ made'" by simp_all
      with False ih te Some e show ?thesis by (auto split: if_splits)
    qed
  qed
qed simp

text \<open>An answer that is believed: its own entry carries a delegation that names the key of the entry.\<close>

definition believed :: "'v answer_reader \<Rightarrow> (8 word list \<Rightarrow> 8 word list option) \<Rightarrow> (string \<Rightarrow> sc_status \<times> string \<times> nat) \<Rightarrow> string \<Rightarrow> 'v \<Rightarrow> 'v list \<Rightarrow> bool" where
  "believed ar verify get url self peers \<longleftrightarrow>
     (\<exists>route body key as d. bootstrap_route url = Some route \<and> get route = (SC_OK, body, 200) \<and> ar_root ar body = Some (self, peers) \<and>
        length peers \<le> DHT_ANSWER_PEERS_MAX \<and> read_entry ar self = Some (key, as) \<and> ar_delegation ar self = Some d \<and> verify d = Some key)"

lemma not_believed:
  assumes "\<And>self peers. \<not> believed ar verify get url self peers"
  shows "set (dht_bootstrap_join ar adds verify quit get own_key url) \<subseteq> range Bootstrap_failed"
proof (cases "bootstrap_route url")
  case (Some route)
  obtain s body http where g: "get route = (s, body, http)" by (metis prod_cases3)
  show ?thesis
  proof (cases "s \<noteq> SC_OK \<or> http \<noteq> 200 \<or> ar_root ar body = None")
    case True
    with Some g show ?thesis by (auto simp: dht_bootstrap_join_def)
  next
    case False
    then obtain self peers where r: "s = SC_OK" "http = 200" "ar_root ar body = Some (self, peers)" by fastforce
    show ?thesis
    proof (cases "length peers > DHT_ANSWER_PEERS_MAX \<or> read_entry ar self = None \<or> ar_delegation ar self = None")
      case True
      with Some g r show ?thesis by (auto simp: dht_bootstrap_join_def split: option.split)
    next
      case False
      then obtain x d where "length peers \<le> DHT_ANSWER_PEERS_MAX" "read_entry ar self = Some x" "ar_delegation ar self = Some d" by (auto simp: not_less)
      then obtain key as where e: "length peers \<le> DHT_ANSWER_PEERS_MAX" "read_entry ar self = Some (key, as)" "ar_delegation ar self = Some d" by (cases x) blast
      with assms [of self peers] Some g r have "verify d \<noteq> Some key" unfolding believed_def by blast
      with Some g r e show ?thesis by (simp add: dht_bootstrap_join_def)
    qed
  qed
qed (simp add: dht_bootstrap_join_def)

text \<open>
  C40. A node takes up nothing from an answer whose sender cannot prove who it is. Whatever the join
  does to the routing table it does only after the answer arrived whole, was read, and the delegation
  in the sender's own entry was verified and names the key of that entry; every address taken up is
  that of an entry of this answer, under the key of that entry, never under the node's own, and fits
  its buffer; and the network is asked only when the module took at least one address.
\<close>

theorem join_only_believed:
  assumes "c \<in> set (dht_bootstrap_join ar adds verify quit get own_key url)"
  shows "case c of
      Lp2p_add_address key a \<Rightarrow> key \<noteq> own_key \<and> length a < DHT_ADDRESS_MAX \<and>
        (\<exists>self peers. believed ar verify get url self peers \<and> (\<exists>e \<in> insert self (set peers). \<exists>as. read_entry ar e = Some (key, as)))
    | Lp2p_dht_bootstrap \<Rightarrow> (\<exists>self peers. believed ar verify get url self peers) \<and>
        (\<exists>key a. Lp2p_add_address key a \<in> set (dht_bootstrap_join ar adds verify quit get own_key url) \<and> adds key a)
    | _ \<Rightarrow> True"
proof (cases "\<exists>self peers. believed ar verify get url self peers")
  case False
  then have "set (dht_bootstrap_join ar adds verify quit get own_key url) \<subseteq> range Bootstrap_failed" by (intro not_believed) simp
  with assms show ?thesis by (auto split: call.splits)
next
  case True
  then obtain self peers where b: "believed ar verify get url self peers" by blast
  then obtain route body key as d where ok: "bootstrap_route url = Some route" "get route = (SC_OK, body, 200)" "ar_root ar body = Some (self, peers)"
      "length peers \<le> DHT_ANSWER_PEERS_MAX" "read_entry ar self = Some (key, as)" "ar_delegation ar self = Some d" "verify d = Some key"
    unfolding believed_def by blast
  obtain any one where e: "(if key \<noteq> own_key then take_entry adds key as else (False, [])) = (any, one)" by fastforce
  obtain n rest where p: "take_peers ar adds own_key peers = (n, rest)" by fastforce
  have run: "dht_bootstrap_join ar adds verify quit get own_key url =
      one @ rest @ (if (if any then 1 else 0) + n \<noteq> 0 then [Lp2p_dht_bootstrap] else []) @ [Bootstrap_applied ((if any then 1 else 0) + n)]"
    using ok e p by (simp add: dht_bootstrap_join_def not_less [symmetric])
  have one: "\<forall>c \<in> set one. \<exists>a. c = Lp2p_add_address key a \<and> key \<noteq> own_key \<and> length a < DHT_ADDRESS_MAX"
      "any \<Longrightarrow> \<exists>a. Lp2p_add_address key a \<in> set one \<and> adds key a"
    using e take_entry_made [of adds key as any one] by (auto split: if_splits)
  note rest = take_peers_made [OF p]
  show ?thesis
  proof (cases c)
    case (Lp2p_add_address k a)
    then consider "c \<in> set one" | "c \<in> set rest" using assms unfolding run by (auto split: if_splits)
    then have "\<exists>e \<in> insert self (set peers). \<exists>as. read_entry ar e = Some (k, as) \<and> k \<noteq> own_key \<and> length a < DHT_ADDRESS_MAX"
    proof cases
      case 1
      with one(1) Lp2p_add_address ok(5) show ?thesis by auto
    next
      case 2
      with rest Lp2p_add_address show ?thesis by blast
    qed
    with b show ?thesis unfolding Lp2p_add_address call.case by blast
  next
    case Lp2p_dht_bootstrap
    then have "any \<or> n \<noteq> 0" using assms one(1) rest unfolding run by (auto split: if_splits)
    then have "\<exists>k a. Lp2p_add_address k a \<in> set one \<union> set rest \<and> adds k a" using one(2) rest by blast
    then show ?thesis using b Lp2p_dht_bootstrap unfolding run by auto
  qed simp_all
qed

text \<open>A community that proves its key is taken up, one that does not is not.\<close>

definition demo_reader :: "nat answer_reader" where
  "demo_reader = \<lparr>ar_root = (\<lambda>b. Some (0, [])), ar_entry = (\<lambda>v. Some (dht_peer_id_format (replicate 32 7), [''/ip4/8.8.8.8/tcp/1''])),
     ar_delegation = (\<lambda>v. Some [])\<rparr>"

definition demo_join :: "(8 word list \<Rightarrow> 8 word list option) \<Rightarrow> call list" where
  "demo_join verify = dht_bootstrap_join demo_reader (\<lambda>k a. True) verify False (\<lambda>r. (SC_OK, [], 200)) (replicate 32 1) ''https://x.org/''"

lemma demo_parts: "ar_root demo_reader b = Some (0, [])" "ar_delegation demo_reader v = Some []"
  by (simp_all add: demo_reader_def)

lemma demo_entry: "read_entry demo_reader v = Some (replicate 32 7, [''/ip4/8.8.8.8/tcp/1''])"
  by (simp add: read_entry_def demo_reader_def format_parses DHT_ANSWER_ADDRESSES_MAX_def)

lemma demo_asks: "Lp2p_dht_bootstrap \<in> set (demo_join (\<lambda>d. Some (replicate 32 7)))"
proof -
  have "bootstrap_route ''https://x.org/'' = Some ''https://x.org/peer/bootstrap''" by (simp add: bootstrap_route_def rtrim_def)
  moreover have "length ''/ip4/8.8.8.8/tcp/1'' < DHT_ADDRESS_MAX" by (simp add: DHT_ADDRESS_MAX_def)
  moreover have "(replicate 32 7 :: 8 word list) \<noteq> replicate 32 1" by (simp add: replicate_eq_replicate)
  ultimately show ?thesis
    by (simp add: demo_join_def dht_bootstrap_join_def demo_entry demo_parts Let_def)
qed

theorem join_only_believed_witness:
  "\<exists>key a. Lp2p_add_address key a \<in> set (demo_join (\<lambda>d. Some (replicate 32 7)))"
  using join_only_believed [OF demo_asks [unfolded demo_join_def]] by (auto simp: demo_join_def)

end
